(* ===== verification/Prelude.thy ===== *)
theory Prelude
  imports Main "HOL-Library.Word" "HOL-Library.Monad_Syntax"
begin

text \<open>
  Shared notions of the development: the machine integer types of the 32-bit build, the
  rounding macros of \<^verbatim>\<open>includes/awa/spike.h\<close>, and the lemmas that translate masks, shifts
  and additions on words to arithmetic on natural numbers. The collection \<open>unat_word\<close>
  holds those translations.
\<close>

unbundle bit_operations_syntax

named_theorems unat_word "translation of word operations to natural number arithmetic"

type_synonym u8 = "8 word"
type_synonym u16 = "16 word"
type_synonym u32 = "32 word"
type_synonym u64 = "64 word"

section \<open>The rounding macros of spike.h\<close>

definition CEIL :: "u32 \<Rightarrow> nat \<Rightarrow> u32" where
  "CEIL v k = drop_bit k (v + push_bit k 1 - 1)"

definition FLOOR :: "u32 \<Rightarrow> nat \<Rightarrow> u32" where
  "FLOOR v k = drop_bit k v"

definition ROUNDUP :: "u32 \<Rightarrow> u32 \<Rightarrow> u32" where
  "ROUNDUP v k = (v + k - 1) AND NOT (k - 1)"

definition ROUNDDOWN :: "u32 \<Rightarrow> u32 \<Rightarrow> u32" where
  "ROUNDDOWN v k = v AND NOT (k - 1)"

section \<open>Words as natural numbers\<close>

lemma unat_lt32 [simp]: "unat (x :: u32) < 4294967296"
  using unsigned_less [of x] by simp

lemma unat_add_u32: "unat x + unat y < 4294967296 \<Longrightarrow> unat (x + y :: u32) = unat x + unat y"
  by (simp add: unat_add_lem [THEN iffD1])

lemma unat_sub_u32: "unat y \<le> unat x \<Longrightarrow> unat (x - y :: u32) = unat x - unat y"
  by (simp add: unat_sub word_le_nat_alt)

lemma unat_mult_u32: "unat x * unat y < 4294967296 \<Longrightarrow> unat (x * y :: u32) = unat x * unat y"
  by (simp add: unat_mult_lem [THEN iffD1])

lemma unat_push_bit_u32:
  assumes "unat (x :: u32) * 2 ^ n < 4294967296"
  shows "unat (push_bit n x) = unat x * 2 ^ n"
proof -
  have "unat (push_bit n x) = push_bit n (unat x) mod 2 ^ LENGTH(32)"
    by (simp only: unsigned_push_bit_eq take_bit_eq_mod)
  then show ?thesis using assms by (simp add: push_bit_eq_mult)
qed

lemma unat_of_nat_u32 [simp]: "n < 4294967296 \<Longrightarrow> unat (of_nat n :: u32) = n"
  by (simp add: unat_of_nat take_bit_nat_eq_self)

lemma of_nat_inject_u32:
  "m < 4294967296 \<Longrightarrow> n < 4294967296 \<Longrightarrow> (of_nat m :: u32) = of_nat n \<longleftrightarrow> m = n"
  by (metis unat_of_nat_u32)

lemma of_nat_less_u32:
  "m < 4294967296 \<Longrightarrow> n < 4294967296 \<Longrightarrow> (of_nat m :: u32) < of_nat n \<longleftrightarrow> m < n"
  by (simp add: word_less_nat_alt)

lemma unat_drop_bit_u32 [unat_word]: "unat (drop_bit n (x :: u32)) = unat x div 2 ^ n"
  by (metis unat_drop_bit_eq drop_bit_eq_div)

lemma unat_and_mask_u32 [unat_word]: "unat (x AND mask n :: u32) = unat x mod 2 ^ n"
  by (simp only: unsigned_take_bit_eq flip: take_bit_eq_mask take_bit_eq_mod)

lemma and_mask_split_u32: "(x AND NOT (mask n)) + (x AND mask n) = (x :: u32)"
proof -
  have "(x AND NOT (mask n)) + (x AND mask n) = (x AND NOT (mask n)) OR (x AND mask n)"
    by (rule disjunctive_add_eq_or) (simp add: bit_eq_iff bit_simps)
  then show ?thesis by (simp add: bit_eq_iff bit_simps) blast
qed

lemma unat_and_not_mask_u32 [unat_word]:
  "unat (x AND NOT (mask n) :: u32) = unat x - unat x mod 2 ^ n"
proof -
  have "x AND NOT (mask n) = x - (x AND mask n)"
    by (metis and_mask_split_u32 add_diff_cancel_right')
  then show ?thesis
    by (simp add: unat_sub_u32 unat_and_mask_u32)
qed

lemma and_not_mask_zero_u32: "x AND mask n = 0 \<Longrightarrow> x AND NOT (mask n) = (x :: u32)"
  by (metis and_mask_split_u32 add_0_right)

text \<open>Adding a small offset to an aligned base changes only the low bits.\<close>

lemma aligned_dvd_u32: "x AND mask n = (0 :: u32) \<longleftrightarrow> 2 ^ n dvd unat x"
  by (metis and_mask_dvd_nat)

lemma unat_aligned_add_u32:
  assumes "f AND mask n = (0 :: u32)" and "unat k < 2 ^ n" and "n \<le> 32"
  shows "unat (f + k) = unat f + unat k"
proof (rule unat_add_u32)
  obtain q where q: "unat f = 2 ^ n * q" using assms(1) by (auto simp: aligned_dvd_u32)
  have "(4294967296 :: nat) = 2 ^ n * 2 ^ (32 - n)" using assms(3) by (simp flip: power_add)
  then have "q < 2 ^ (32 - n)" using q unat_lt32 [of f] by (metis nat_mult_less_cancel_disj)
  then have "2 ^ n * (q + 1) \<le> (2 :: nat) ^ n * 2 ^ (32 - n)" by (intro mult_le_mono) auto
  then show "unat f + unat k < 4294967296"
    using q assms(2) \<open>4294967296 = 2 ^ n * 2 ^ (32 - n)\<close> by (simp add: algebra_simps)
qed

lemma aligned_add_masks_u32:
  assumes "f AND mask n = (0 :: u32)" and "unat k < 2 ^ n" and "n \<le> 32"
  shows "(f + k) AND mask n = k" and "(f + k) AND NOT (mask n) = f"
proof -
  have u: "unat (f + k) = unat f + unat k" by (rule unat_aligned_add_u32 [OF assms])
  obtain q where q: "unat f = 2 ^ n * q" using assms(1) by (auto simp: aligned_dvd_u32)
  have "unat ((f + k) AND mask n) = unat k" using u q assms(2) by (simp add: unat_and_mask_u32)
  then show *: "(f + k) AND mask n = k" by (simp add: word_unat_eq_iff)
  from * show "(f + k) AND NOT (mask n) = f"
    using and_mask_split_u32 [of "f + k" n] by simp
qed

end
