(* ===== verification/Memory.thy ===== *)
theory Memory
  imports Prelude
begin

text \<open>
  Byte-addressed memory of the 32-bit machine: a total function from 32-bit addresses to
  bytes, with little-endian 16- and 32-bit loads and stores (\<^verbatim>\<open>LW\<close> and \<^verbatim>\<open>SW\<close> of
  \<^verbatim>\<open>includes/awa/mm/dmm.h\<close> are the 32-bit ones). The locale \<open>word_store\<close> states what a
  client that keeps a data structure in memory relies on; flat memory is its first
  interpretation, memory behind the page tables (theory Mmu) the second.
\<close>

type_synonym mem = "u32 \<Rightarrow> u8"

definition load16 :: "mem \<Rightarrow> u32 \<Rightarrow> u16" where
  "load16 m a = ucast (m a) OR push_bit 8 (ucast (m (a + 1)))"

definition store16 :: "mem \<Rightarrow> u32 \<Rightarrow> u16 \<Rightarrow> mem" where
  "store16 m a v = m(a := ucast v, a + 1 := ucast (drop_bit 8 v))"

definition load32 :: "mem \<Rightarrow> u32 \<Rightarrow> u32" where
  "load32 m a = ucast (m a) OR push_bit 8 (ucast (m (a + 1)))
     OR push_bit 16 (ucast (m (a + 2))) OR push_bit 24 (ucast (m (a + 3)))"

definition store32 :: "mem \<Rightarrow> u32 \<Rightarrow> u32 \<Rightarrow> mem" where
  "store32 m a v = m(a := ucast v, a + 1 := ucast (drop_bit 8 v),
     a + 2 := ucast (drop_bit 16 v), a + 3 := ucast (drop_bit 24 v))"

section \<open>Loads after stores\<close>

lemma add_small_neq_u32 [simp]:
  "(a :: u32) + 1 \<noteq> a" "a + 2 \<noteq> a" "a + 3 \<noteq> a"
  "a \<noteq> a + 1" "a \<noteq> a + 2" "a \<noteq> a + 3"
  by simp_all

lemma load16_store16_same [simp]: "load16 (store16 m a v) a = v"
proof (rule bit_word_eqI)
  fix n :: nat
  assume n: "n < LENGTH(16)"
  consider "n < 8" | "8 \<le> n" by linarith
  then show "bit (load16 (store16 m a v) a) n = bit v n"
    by cases (use n in \<open>auto simp: load16_def store16_def bit_simps\<close>)
qed

lemma load32_store32_same [simp]: "load32 (store32 m a v) a = v"
proof (rule bit_word_eqI)
  fix n :: nat
  assume n: "n < LENGTH(32)"
  consider "n < 8" | "8 \<le> n" "n < 16" | "16 \<le> n" "n < 24" | "24 \<le> n" by linarith
  then show "bit (load32 (store32 m a v) a) n = bit v n"
    by cases (use n in \<open>auto simp: load32_def store32_def bit_simps\<close>)
qed

definition words_apart :: "u32 \<Rightarrow> u32 \<Rightarrow> bool" where
  "words_apart a b \<longleftrightarrow> (\<forall>i < 4. \<forall>j < 4. a + of_nat i \<noteq> b + of_nat j)"

lemma words_apartD:
  assumes "words_apart a b"
  shows "a \<noteq> b" "a \<noteq> b + 1" "a \<noteq> b + 2" "a \<noteq> b + 3"
    "a + 1 \<noteq> b" "a + 1 \<noteq> b + 1" "a + 1 \<noteq> b + 2" "a + 1 \<noteq> b + 3"
    "a + 2 \<noteq> b" "a + 2 \<noteq> b + 1" "a + 2 \<noteq> b + 2" "a + 2 \<noteq> b + 3"
    "a + 3 \<noteq> b" "a + 3 \<noteq> b + 1" "a + 3 \<noteq> b + 2" "a + 3 \<noteq> b + 3"
proof -
  have *: "a + of_nat i \<noteq> b + of_nat j" if "i < 4" "j < 4" for i j
    using assms that by (simp add: words_apart_def)
  from * [of 0 0] * [of 0 1] * [of 0 2] * [of 0 3]
  show "a \<noteq> b" "a \<noteq> b + 1" "a \<noteq> b + 2" "a \<noteq> b + 3" by simp_all
  from * [of 1 0] * [of 1 1] * [of 1 2] * [of 1 3]
  show "a + 1 \<noteq> b" "a + 1 \<noteq> b + 1" "a + 1 \<noteq> b + 2" "a + 1 \<noteq> b + 3" by simp_all
  from * [of 2 0] * [of 2 1] * [of 2 2] * [of 2 3]
  show "a + 2 \<noteq> b" "a + 2 \<noteq> b + 1" "a + 2 \<noteq> b + 2" "a + 2 \<noteq> b + 3" by simp_all
  from * [of 3 0] * [of 3 1] * [of 3 2] * [of 3 3]
  show "a + 3 \<noteq> b" "a + 3 \<noteq> b + 1" "a + 3 \<noteq> b + 2" "a + 3 \<noteq> b + 3" by simp_all
qed

lemma load32_store32_apart:
  "words_apart a b \<Longrightarrow> load32 (store32 m a v) b = load32 m b"
  using words_apartD [of a b] by (simp add: load32_def store32_def eq_commute)

lemma store32_apart: "(\<forall>i < 4. a + of_nat i \<noteq> b) \<Longrightarrow> store32 m a v b = m b"
proof -
  assume *: "\<forall>i < 4. a + of_nat i \<noteq> b"
  from * [rule_format, of 0] * [rule_format, of 1] * [rule_format, of 2] * [rule_format, of 3]
  show ?thesis by (simp add: store32_def eq_commute)
qed

section \<open>Aligned words\<close>

definition aligned4 :: "u32 \<Rightarrow> bool" where
  "aligned4 a \<longleftrightarrow> a AND 3 = 0"

lemma aligned4_mask: "aligned4 a \<longleftrightarrow> a AND mask 2 = 0"
  by (simp add: aligned4_def mask_eq_exp_minus_1)

lemma aligned4_unat: "aligned4 a \<longleftrightarrow> 4 dvd unat a"
  using aligned_dvd_u32 [of a 2] by (simp add: aligned4_mask)

lemma aligned4_of_nat: "n < 4294967296 \<Longrightarrow> aligned4 (of_nat n) \<longleftrightarrow> 4 dvd n"
  by (simp add: aligned4_unat)

lemma words_apart_unat:
  assumes "unat a + 4 \<le> unat b" and "unat b \<le> 4294967292"
  shows "words_apart a b" and "words_apart b a"
proof -
  have "a + of_nat i \<noteq> b + of_nat j" if "i < 4" "j < 4" for i j
  proof
    assume "a + of_nat i = b + of_nat j"
    then have "unat (a + of_nat i :: u32) = unat (b + of_nat j)" by simp
    moreover have "unat (a + of_nat i :: u32) = unat a + i"
      using that assms by (subst unat_add_u32) auto
    moreover have "unat (b + of_nat j :: u32) = unat b + j"
      using that assms by (subst unat_add_u32) auto
    ultimately show False using that assms by simp
  qed
  then show "words_apart a b" and "words_apart b a"
    unfolding words_apart_def by metis+
qed

lemma aligned4_apart: 
  assumes "aligned4 a" and "aligned4 b" and "a \<noteq> b"
  shows "words_apart a b"
proof -
  have le: "unat c \<le> 4294967292" if "aligned4 c" for c :: u32
  proof -
    from that obtain k where "unat c = 4 * k" by (auto simp: aligned4_unat)
    with unat_lt32 [of c] show ?thesis by simp
  qed
  from assms(1,2) obtain k l where kl: "unat a = 4 * k" "unat b = 4 * l"
    unfolding aligned4_unat by (elim dvdE)
  with assms(3) have "k \<noteq> l" by (metis word_unat_eq_iff)
  then consider "k < l" | "l < k" by linarith
  then show ?thesis
  proof cases
    case 1
    then show ?thesis using kl le [OF assms(2)] by (intro words_apart_unat(1)) auto
  next
    case 2
    then show ?thesis using kl le [OF assms(1)] by (intro words_apart_unat(2)) auto
  qed
qed

lemma load32_store32_aligned:
  "aligned4 a \<Longrightarrow> aligned4 b \<Longrightarrow> load32 (store32 m a v) b = (if a = b then v else load32 m b)"
  by (simp add: load32_store32_apart aligned4_apart)

section \<open>The interface of word-addressed memory\<close>

locale word_store =
  fixes ld :: "'s \<Rightarrow> u32 \<Rightarrow> u32 option"
    and st :: "'s \<Rightarrow> u32 \<Rightarrow> u32 \<Rightarrow> 's option"
    and ok :: "'s \<Rightarrow> u32 \<Rightarrow> bool"
  assumes ld_ok: "ok s a \<Longrightarrow> \<exists>v. ld s a = Some v"
    and st_ok: "ok s a \<Longrightarrow> \<exists>s'. st s a v = Some s'"
    and ok_st: "ok s a \<Longrightarrow> st s a v = Some s' \<Longrightarrow> ok s' = ok s"
    and ld_st_same: "ok s a \<Longrightarrow> st s a v = Some s' \<Longrightarrow> ld s' a = Some v"
    and ld_st_other: "ok s a \<Longrightarrow> ok s b \<Longrightarrow> a \<noteq> b \<Longrightarrow> st s a v = Some s' \<Longrightarrow> ld s' b = ld s b"
begin

lemma ld_st: "ok s a \<Longrightarrow> ok s b \<Longrightarrow> st s a v = Some s' \<Longrightarrow>
    ld s' b = (if a = b then Some v else ld s b)"
  using ld_st_same ld_st_other by (cases "a = b") auto

end

interpretation flat: word_store "\<lambda>m a. Some (load32 m a)" "\<lambda>m a v. Some (store32 m a v)" "\<lambda>m. aligned4"
  by unfold_locales (auto simp: load32_store32_aligned)

end
