(* ===== verification/Page.thy ===== *)
theory Page
  imports Memory
begin

text \<open>
  The paging constants and macros of \<^verbatim>\<open>includes/awa/mm/page.h\<close> and
  \<^verbatim>\<open>includes/awa/common.h\<close>: splitting a virtual address into its two table indices and
  its offset, building and reading page table entries, and the virtual addresses at which the
  recursive mapping shows the page tables.
\<close>

section \<open>Constants\<close>

definition PG_SIZE_BITS :: nat where "PG_SIZE_BITS = 12"
definition PG_SIZE :: u32 where "PG_SIZE = push_bit PG_SIZE_BITS 1"
definition PG_MAX_ENTRIES :: u32 where "PG_MAX_ENTRIES = 1024"
definition PTE_NULL :: u32 where "PTE_NULL = 0"

definition PG_PRESENT :: u32 where "PG_PRESENT = 0x1"
definition PG_WRITE :: u32 where "PG_WRITE = push_bit 1 1"
definition PG_ALLOW_USER :: u32 where "PG_ALLOW_USER = push_bit 2 1"
definition PG_DISABLE_CACHE :: u32 where "PG_DISABLE_CACHE = push_bit 4 1"

definition PG_PREM_R :: u32 where "PG_PREM_R = PG_PRESENT"
definition PG_PREM_RW :: u32 where "PG_PREM_RW = PG_PRESENT OR PG_WRITE"
definition T_SELF_REF_PERM :: u32 where "T_SELF_REF_PERM = PG_PREM_RW OR PG_DISABLE_CACHE"

definition HIGHER_HLF_BASE :: u32 where "HIGHER_HLF_BASE = 0xC0000000"
definition K_STACK_SIZE :: u32 where "K_STACK_SIZE = push_bit 10 64"
definition K_STACK_START :: u32 where "K_STACK_START = (0xFFBFFFFF - K_STACK_SIZE) + 1"
definition MEM_1MB :: u32 where "MEM_1MB = 0x100000"
definition VGA_BUFFER_VADDR :: u32 where "VGA_BUFFER_VADDR = 0xB0000000"
definition VGA_BUFFER_PADDR :: u32 where "VGA_BUFFER_PADDR = 0xB8000"
definition VGA_BUFFER_SIZE :: u32 where "VGA_BUFFER_SIZE = 4096"

definition L1_BASE_VADDR :: u32 where "L1_BASE_VADDR = 0xFFFFF000"
definition L2_BASE_VADDR :: u32 where "L2_BASE_VADDR = 0xFFC00000"

section \<open>Macros\<close>

definition P2V :: "u32 \<Rightarrow> u32" where "P2V paddr = paddr + HIGHER_HLF_BASE"
definition V2P :: "u32 \<Rightarrow> u32" where "V2P vaddr = vaddr - HIGHER_HLF_BASE"
definition PG_ALIGN :: "u32 \<Rightarrow> u32" where "PG_ALIGN addr = addr AND 0xFFFFF000"

definition L1_INDEX :: "u32 \<Rightarrow> u32" where
  "L1_INDEX vaddr = drop_bit 22 (vaddr AND 0xFFC00000)"

definition L2_INDEX :: "u32 \<Rightarrow> u32" where
  "L2_INDEX vaddr = drop_bit 12 (vaddr AND 0x003FF000)"

definition PG_OFFSET :: "u32 \<Rightarrow> u32" where
  "PG_OFFSET vaddr = vaddr AND 0x00000FFF"

definition GET_PT_ADDR :: "u32 \<Rightarrow> u32" where "GET_PT_ADDR pde = PG_ALIGN pde"
definition GET_PG_ADDR :: "u32 \<Rightarrow> u32" where "GET_PG_ADDR pte = PG_ALIGN pte"

definition IS_CACHED :: "u32 \<Rightarrow> bool" where "IS_CACHED entry \<longleftrightarrow> entry AND 0x1 \<noteq> 0"

definition NEW_L1_ENTRY :: "u32 \<Rightarrow> u32 \<Rightarrow> u32" where
  "NEW_L1_ENTRY flags pt_addr = PG_ALIGN pt_addr OR (flags AND 0xfff)"

definition NEW_L2_ENTRY :: "u32 \<Rightarrow> u32 \<Rightarrow> u32" where
  "NEW_L2_ENTRY flags pg_addr = PG_ALIGN pg_addr OR (flags AND 0xfff)"

definition V_ADDR :: "u32 \<Rightarrow> u32 \<Rightarrow> u32 \<Rightarrow> u32" where
  "V_ADDR pd pt offset = push_bit 22 pd OR push_bit 12 pt OR offset"

definition P_ADDR :: "u32 \<Rightarrow> u32 \<Rightarrow> u32" where
  "P_ADDR ppn offset = push_bit 12 ppn OR offset"

definition PG_ENTRY_FLAGS :: "u32 \<Rightarrow> u32" where "PG_ENTRY_FLAGS entry = entry AND 0xFFF"
definition PG_ENTRY_ADDR :: "u32 \<Rightarrow> u32" where "PG_ENTRY_ADDR entry = entry AND NOT 0xFFF"

definition HAS_FLAGS :: "u32 \<Rightarrow> u32 \<Rightarrow> bool" where
  "HAS_FLAGS entry flags \<longleftrightarrow> PG_ENTRY_FLAGS entry AND flags = flags"

definition CONTAINS_FLAGS :: "u32 \<Rightarrow> u32 \<Rightarrow> bool" where
  "CONTAINS_FLAGS entry flags \<longleftrightarrow> PG_ENTRY_FLAGS entry AND flags \<noteq> 0"

definition L2_VADDR :: "u32 \<Rightarrow> u32" where
  "L2_VADDR pd_offset = L2_BASE_VADDR OR push_bit 12 pd_offset"

record v_mapping =
  vm_pn :: u32
  vm_pa :: u32
  vm_flags :: u16

lemmas page_consts = PG_SIZE_BITS_def PG_SIZE_def PG_MAX_ENTRIES_def PTE_NULL_def
  PG_PRESENT_def PG_WRITE_def PG_ALLOW_USER_def PG_DISABLE_CACHE_def PG_PREM_R_def
  PG_PREM_RW_def T_SELF_REF_PERM_def HIGHER_HLF_BASE_def K_STACK_SIZE_def K_STACK_START_def
  L1_BASE_VADDR_def L2_BASE_VADDR_def

section \<open>The macros in terms of masks and arithmetic\<close>

lemma page_masks:
  "(0xFFFFF000 :: u32) = NOT (mask 12)" "(0xFFF :: u32) = mask 12"
  "(0xFFC00000 :: u32) = NOT (mask 22)" "(0x3FF000 :: u32) = push_bit 12 (mask 10)"
  by (simp_all add: mask_eq_exp_minus_1)

lemma PG_ALIGN_mask: "PG_ALIGN a = a AND NOT (mask 12)"
  by (simp add: PG_ALIGN_def page_masks)

lemma PG_ENTRY_ADDR_align: "PG_ENTRY_ADDR e = PG_ALIGN e"
  by (simp only: PG_ENTRY_ADDR_def PG_ALIGN_def page_masks)

lemma PG_OFFSET_mask: "PG_OFFSET a = a AND mask 12"
  by (simp add: PG_OFFSET_def page_masks)

lemma L1_INDEX_drop: "L1_INDEX va = drop_bit 22 va"
  unfolding L1_INDEX_def page_masks
  by (rule bit_word_eqI) (auto simp: bit_simps dest: bit_imp_le_length)

lemma L2_INDEX_take: "L2_INDEX va = take_bit 10 (drop_bit 12 va)"
  unfolding L2_INDEX_def page_masks by (rule bit_word_eqI) (auto simp: bit_simps)

lemma unat_PG_ALIGN [unat_word]: "unat (PG_ALIGN a) = unat a - unat a mod 4096"
  by (simp add: PG_ALIGN_mask unat_word)

lemma unat_PG_OFFSET [unat_word]: "unat (PG_OFFSET a) = unat a mod 4096"
  by (simp add: PG_OFFSET_mask unat_word)

lemma unat_L1_INDEX [unat_word]: "unat (L1_INDEX va) = unat va div 4194304"
  by (simp add: L1_INDEX_drop unat_word)

lemma unat_L2_INDEX [unat_word]: "unat (L2_INDEX va) = unat va div 4096 mod 1024"
proof -
  have "take_bit 10 (drop_bit 12 va) = drop_bit 12 va AND mask 10"
    by (simp only: take_bit_eq_mask)
  then show ?thesis by (simp add: L2_INDEX_take unat_word)
qed

lemma L1_INDEX_lt [simp]: "L1_INDEX va < 1024"
  using unat_lt32 [of va] by (simp add: word_less_nat_alt unat_word less_mult_imp_div_less)

lemma L2_INDEX_lt [simp]: "L2_INDEX va < 1024"
  by (simp add: word_less_nat_alt unat_word)

lemma PG_OFFSET_lt [simp]: "PG_OFFSET va < 4096"
  by (simp add: word_less_nat_alt unat_word)

lemma page_split: "PG_ALIGN a + PG_OFFSET a = a"
  by (simp add: PG_ALIGN_mask PG_OFFSET_mask and_mask_split_u32)

definition page_aligned :: "u32 \<Rightarrow> bool" where
  "page_aligned a \<longleftrightarrow> PG_OFFSET a = 0"

lemma page_aligned_mask: "page_aligned a \<longleftrightarrow> a AND mask 12 = 0"
  by (simp add: page_aligned_def PG_OFFSET_mask)

lemma PG_ALIGN_aligned [simp]: "page_aligned (PG_ALIGN a)"
  by (simp add: page_aligned_mask PG_ALIGN_mask bit_eq_iff bit_simps)

lemma PG_ALIGN_id: "page_aligned a \<Longrightarrow> PG_ALIGN a = a"
  by (simp add: page_aligned_mask PG_ALIGN_mask and_not_mask_zero_u32)

lemma page_add:
  assumes "page_aligned f" and "k < 4096"
  shows "PG_ALIGN (f + k) = f" and "PG_OFFSET (f + k) = k"
    and "unat (f + k) = unat f + unat k"
proof -
  have "unat k < 2 ^ 12" using assms(2) by (simp add: word_less_nat_alt)
  with assms(1) aligned_add_masks_u32 [of f 12 k] unat_aligned_add_u32 [of f 12 k]
  show "PG_ALIGN (f + k) = f" and "PG_OFFSET (f + k) = k"
    and "unat (f + k) = unat f + unat k"
    by (simp_all add: page_aligned_mask PG_ALIGN_mask PG_OFFSET_mask)
qed

lemma page_add_inj:
  assumes "page_aligned f" "page_aligned g" "k < 4096" "l < 4096" "f + k = g + l"
  shows "f = g \<and> k = l"
  using assms page_add [of f k] page_add [of g l] by metis

section \<open>Entries\<close>

lemma PG_ALIGN_new_entry [simp]:
  "PG_ALIGN (NEW_L1_ENTRY fl a) = PG_ALIGN a" "PG_ALIGN (NEW_L2_ENTRY fl a) = PG_ALIGN a"
  unfolding NEW_L1_ENTRY_def NEW_L2_ENTRY_def PG_ALIGN_def page_masks
  by (rule bit_word_eqI; auto simp: bit_simps)+

lemma PG_ENTRY_FLAGS_new_entry [simp]:
  "PG_ENTRY_FLAGS (NEW_L1_ENTRY fl a) = fl AND 0xFFF"
  "PG_ENTRY_FLAGS (NEW_L2_ENTRY fl a) = fl AND 0xFFF"
  unfolding NEW_L1_ENTRY_def NEW_L2_ENTRY_def PG_ALIGN_def PG_ENTRY_FLAGS_def page_masks
  by (rule bit_word_eqI; auto simp: bit_simps)+

lemma IS_CACHED_bit: "IS_CACHED e \<longleftrightarrow> bit e 0"
  by (simp add: IS_CACHED_def bit_0 and_one_eq mod_2_eq_odd)

lemma IS_CACHED_new_entry [simp]:
  "IS_CACHED (NEW_L1_ENTRY fl a) = IS_CACHED fl" "IS_CACHED (NEW_L2_ENTRY fl a) = IS_CACHED fl"
  unfolding IS_CACHED_bit NEW_L1_ENTRY_def NEW_L2_ENTRY_def PG_ALIGN_def page_masks
  by (simp_all add: bit_simps)

lemma IS_CACHED_0 [simp]: "\<not> IS_CACHED 0"
  by (simp add: IS_CACHED_def)

text \<open>The three macros that split an address and the one that rebuilds it are inverse.\<close>

lemma V_ADDR_split: "V_ADDR (L1_INDEX va) (L2_INDEX va) (PG_OFFSET va) = va"
  unfolding V_ADDR_def L1_INDEX_drop L2_INDEX_take PG_OFFSET_mask
proof (rule bit_word_eqI)
  fix n :: nat
  assume n: "n < LENGTH(32)"
  consider "n < 12" | "12 \<le> n" "n < 22" | "22 \<le> n" by linarith
  then show "bit (push_bit 22 (drop_bit 22 va) OR push_bit 12 (take_bit 10 (drop_bit 12 va))
      OR va AND mask 12) n = bit va n"
    by cases (use n in \<open>auto simp: bit_simps\<close>)
qed

end
