(* ===== verification/Pmm.thy ===== *)
theory Pmm
  imports Page
begin

text \<open>
  The physical page allocator, \<^verbatim>\<open>kernel/mm/pmm.c\<close>: one bit of \<^verbatim>\<open>pm_bitmap\<close> per page
  (set: occupied, clear: free), a search pointer and the highest page number. Every access to
  the bitmap is checked against its size \<^verbatim>\<open>PM_BMP_MAX_SIZE\<close>; an access outside it is
  the result \<open>None\<close>, and so is a search loop that never ends. Theorems that an operation
  returns \<open>Some\<close> therefore exclude both.
\<close>

section \<open>State\<close>

record pmm =
  pm_bitmap :: "u32 \<Rightarrow> u8"
  max_pg :: u32
  pg_lookup_ptr :: u32

definition PM_BMP_MAX_SIZE :: u32 where "PM_BMP_MAX_SIZE = 128 * 1024"
definition LOOKUP_START :: u32 where "LOOKUP_START = 1"

definition bmp_get :: "'a pmm_scheme \<Rightarrow> u32 \<Rightarrow> u8 option" where
  "bmp_get s g = (if g < PM_BMP_MAX_SIZE then Some (pm_bitmap s g) else None)"

definition bmp_set :: "'a pmm_scheme \<Rightarrow> u32 \<Rightarrow> u8 \<Rightarrow> 'a pmm_scheme option" where
  "bmp_set s g v =
     (if g < PM_BMP_MAX_SIZE then Some (s\<lparr>pm_bitmap := (pm_bitmap s)(g := v)\<rparr>) else None)"

section \<open>Marking one page\<close>

definition page_group :: "u32 \<Rightarrow> u32" where "page_group ppn = ppn div 8"
definition page_msk :: "u32 \<Rightarrow> u32" where "page_msk ppn = drop_bit (unat (ppn mod 8)) 0x80"

definition pmm_mark_page_free :: "u32 \<Rightarrow> 'a pmm_scheme \<Rightarrow> 'a pmm_scheme option" where
  "pmm_mark_page_free ppn s = do {
     b \<leftarrow> bmp_get s (page_group ppn);
     bmp_set s (page_group ppn) (ucast ((ucast b :: u32) AND NOT (page_msk ppn)))
   }"

definition pmm_mark_page_occupied :: "u32 \<Rightarrow> 'a pmm_scheme \<Rightarrow> 'a pmm_scheme option" where
  "pmm_mark_page_occupied ppn s = do {
     b \<leftarrow> bmp_get s (page_group ppn);
     bmp_set s (page_group ppn) (ucast ((ucast b :: u32) OR page_msk ppn))
   }"

section \<open>Marking a run of pages\<close>

text \<open>\<open>bmp_fill n g v\<close>: the loop that stores \<open>v\<close> in \<open>n\<close> bytes from group \<open>g\<close> on;
  it returns the group after the last one.\<close>

fun bmp_fill :: "nat \<Rightarrow> u32 \<Rightarrow> u8 \<Rightarrow> 'a pmm_scheme \<Rightarrow> (u32 \<times> 'a pmm_scheme) option" where
  "bmp_fill 0 g v s = Some (g, s)"
| "bmp_fill (Suc n) g v s = do { s' \<leftarrow> bmp_set s g v; bmp_fill n (g + 1) v s' }"

definition chunk_offset :: "u32 \<Rightarrow> u32" where "chunk_offset start_ppn = start_ppn mod 8"

definition chunk_group_count :: "u32 \<Rightarrow> u32 \<Rightarrow> u32" where
  "chunk_group_count start_ppn page_count = (page_count + chunk_offset start_ppn) div 8"

definition chunk_remainder :: "u32 \<Rightarrow> u32 \<Rightarrow> u32" where
  "chunk_remainder start_ppn page_count = (page_count + chunk_offset start_ppn) mod 8"

definition chunk_leading_shifts :: "u32 \<Rightarrow> u32 \<Rightarrow> u32" where
  "chunk_leading_shifts start_ppn page_count =
     (if page_count + chunk_offset start_ppn < 8 then page_count else 8 - chunk_offset start_ppn)"

definition chunk_head_msk :: "u32 \<Rightarrow> u32 \<Rightarrow> u32" where
  "chunk_head_msk start_ppn page_count =
     (let leading = chunk_leading_shifts start_ppn page_count in
      push_bit (unat (8 - chunk_offset start_ppn - leading)) (push_bit (unat leading) 1 - 1))"

definition chunk_tail_msk :: "u32 \<Rightarrow> u32 \<Rightarrow> u32" where
  "chunk_tail_msk start_ppn page_count =
     (let remainder = chunk_remainder start_ppn page_count in
      push_bit (unat (8 - remainder))
        (push_bit (unat (if 8 < page_count then remainder else 0)) 1 - 1))"

definition chunk_fill_count :: "u32 \<Rightarrow> u32 \<Rightarrow> nat" where
  "chunk_fill_count start_ppn page_count =
     (let group_count = chunk_group_count start_ppn page_count in
      if group_count \<noteq> 0 then unat (group_count - 1) else 0)"

definition pmm_mark_chunk_free :: "u32 \<Rightarrow> u32 \<Rightarrow> 'a pmm_scheme \<Rightarrow> 'a pmm_scheme option" where
  "pmm_mark_chunk_free start_ppn page_count s = do {
     let group = start_ppn div 8;
     b \<leftarrow> bmp_get s group;
     s1 \<leftarrow> bmp_set s group (ucast ((ucast b :: u32) AND NOT (chunk_head_msk start_ppn page_count)));
     (group', s2) \<leftarrow> bmp_fill (chunk_fill_count start_ppn page_count) (group + 1) 0 s1;
     b' \<leftarrow> bmp_get s2 group';
     bmp_set s2 group' (ucast ((ucast b' :: u32) AND NOT (chunk_tail_msk start_ppn page_count)))
   }"

definition pmm_mark_chunk_occupied :: "u32 \<Rightarrow> u32 \<Rightarrow> 'a pmm_scheme \<Rightarrow> 'a pmm_scheme option" where
  "pmm_mark_chunk_occupied start_ppn page_count s = do {
     let group = start_ppn div 8;
     b \<leftarrow> bmp_get s group;
     s1 \<leftarrow> bmp_set s group (ucast ((ucast b :: u32) OR chunk_head_msk start_ppn page_count));
     (group', s2) \<leftarrow> bmp_fill (chunk_fill_count start_ppn page_count) (group + 1) 0xFF s1;
     b' \<leftarrow> bmp_get s2 group';
     bmp_set s2 group' (ucast ((ucast b' :: u32) OR chunk_tail_msk start_ppn page_count))
   }"

section \<open>Initialisation\<close>

definition pmm_init :: "u32 \<Rightarrow> 'a pmm_scheme \<Rightarrow> 'a pmm_scheme option" where
  "pmm_init mem_upper_lim s = do {
     let s1 = s\<lparr>max_pg := drop_bit 12 (PG_ALIGN mem_upper_lim), pg_lookup_ptr := LOOKUP_START\<rparr>;
     (_, s2) \<leftarrow> bmp_fill (unat PM_BMP_MAX_SIZE) 0 0xFF s1;
     Some s2
   }"

section \<open>Allocation and release\<close>

text \<open>\<open>scan_chunk chunk i\<close> is the inner \<^verbatim>\<open>for\<close> loop over the bits of one byte;
  it returns \<^verbatim>\<open>good_page_found\<close>, 0 when the loop runs to its end.\<close>

function scan_chunk :: "u8 \<Rightarrow> nat \<Rightarrow> 'a pmm_scheme \<Rightarrow> (u32 \<times> 'a pmm_scheme) option" where
  "scan_chunk chunk i s =
     (if i < 8 then
        if (ucast chunk :: u32) AND drop_bit i 0x80 = 0 then do {
          s' \<leftarrow> pmm_mark_page_occupied (pg_lookup_ptr s) s;
          Some (push_bit 12 (pg_lookup_ptr s'), s')
        }
        else scan_chunk chunk (i + 1) (s\<lparr>pg_lookup_ptr := pg_lookup_ptr s + 1\<rparr>)
      else Some (0, s))"
  by pat_completeness auto
termination by (relation "measure (\<lambda>(c, i, s). 8 - i)") auto

declare scan_chunk.simps [simp del]

partial_function (option) alloc_loop ::
  "u32 \<Rightarrow> u32 \<Rightarrow> u32 \<Rightarrow> 'a pmm_scheme \<Rightarrow> (u32 \<times> 'a pmm_scheme) option" where
  "alloc_loop good_page_found old_pg_ptr upper_lim s =
     (if good_page_found = 0 \<and> pg_lookup_ptr s < upper_lim then do {
        chunk \<leftarrow> bmp_get s (drop_bit 3 (pg_lookup_ptr s));
        if chunk \<noteq> 0xFF then do {
          (good, s') \<leftarrow> scan_chunk chunk (unat (pg_lookup_ptr s mod 8)) s;
          alloc_loop good old_pg_ptr upper_lim s'
        } else do {
          let s' = s\<lparr>pg_lookup_ptr := pg_lookup_ptr s + 8\<rparr>;
          if upper_lim \<le> pg_lookup_ptr s' \<and> old_pg_ptr \<noteq> LOOKUP_START
          then alloc_loop 0 LOOKUP_START old_pg_ptr (s'\<lparr>pg_lookup_ptr := LOOKUP_START\<rparr>)
          else alloc_loop 0 old_pg_ptr upper_lim s'
        }
      } else Some (good_page_found, s))"

definition pmm_alloc_page :: "'a pmm_scheme \<Rightarrow> (u32 \<times> 'a pmm_scheme) option" where
  "pmm_alloc_page s = alloc_loop 0 (pg_lookup_ptr s) (max_pg s) s"

definition pmm_free_page :: "u32 \<Rightarrow> 'a pmm_scheme \<Rightarrow> (int \<times> 'a pmm_scheme) option" where
  "pmm_free_page page s =
     (let pg = drop_bit 12 page in
      if pg \<noteq> 0 \<and> pg < max_pg s
      then do { s' \<leftarrow> pmm_mark_page_free pg s; Some (1, s') }
      else Some (0, s))"

section \<open>Pages and bits\<close>

text \<open>\<open>page_free s p\<close>: the bit of page \<open>p\<close> is clear. This is the abstract view of the
  bitmap in which the lemmas about the operations are stated.\<close>

definition page_free :: "'a pmm_scheme \<Rightarrow> u32 \<Rightarrow> bool" where
  "page_free s p \<longleftrightarrow> \<not> bit (pm_bitmap s (p div 8)) (7 - unat (p mod 8))"

lemma unat_div8 [unat_word]: "unat (p div 8 :: u32) = unat p div 8"
  by (simp add: unat_div)

lemma unat_mod8 [unat_word]: "unat (p mod 8 :: u32) = unat p mod 8"
  by (simp add: unat_mod)

lemma drop_bit3_div8: "drop_bit 3 (p :: u32) = p div 8"
  by (simp add: word_unat_eq_iff unat_word)

lemma bit_0x80: "bit (drop_bit i (0x80 :: u32)) n \<longleftrightarrow> i + n = 7"
proof -
  have *: "(0x80 :: u32) = 2 ^ 7" by simp
  have "bit (0x80 :: u32) k \<longleftrightarrow> k = 7" for k
    unfolding * bit_exp_iff possible_bit_word by auto
  then show ?thesis by (simp add: bit_drop_bit_eq)
qed

lemma bit_page_msk: "bit (page_msk p) n \<longleftrightarrow> n = 7 - unat (p mod 8)"
  unfolding page_msk_def bit_0x80 by (auto simp: unat_word)

lemma page_pos_inj:
  assumes "p div 8 = q div 8" and "7 - unat (p mod 8) = 7 - unat (q mod 8)"
  shows "p = (q :: u32)"
proof -
  have "unat p div 8 = unat q div 8" using assms(1) by (metis unat_div8)
  moreover have "unat p mod 8 = unat q mod 8"
    using assms(2) by (simp add: unat_mod8)
  ultimately have "unat p = unat q" by (metis div_mult_mod_eq)
  then show ?thesis by (simp add: word_unat_eq_iff)
qed

lemma page_free_cong [simp]:
  "page_free (s\<lparr>pg_lookup_ptr := x\<rparr>) p = page_free s p"
  "page_free (s\<lparr>max_pg := x\<rparr>) p = page_free s p"
  by (simp_all add: page_free_def)

lemma page_free_bitmap [simp]:
  "page_free (s\<lparr>pg_lookup_ptr := x, pm_bitmap := b\<rparr>) p = page_free (s\<lparr>pm_bitmap := b\<rparr>) p"
  "page_free (s\<lparr>pm_bitmap := b, pg_lookup_ptr := x\<rparr>) p = page_free (s\<lparr>pm_bitmap := b\<rparr>) p"
  by (simp_all add: page_free_def)

section \<open>Marking one page\<close>

definition in_bitmap :: "u32 \<Rightarrow> bool" where
  "in_bitmap p \<longleftrightarrow> p < 0x100000"

lemma in_bitmap_group: "in_bitmap p \<longleftrightarrow> p div 8 < PM_BMP_MAX_SIZE"
  by (auto simp: in_bitmap_def PM_BMP_MAX_SIZE_def word_less_nat_alt unat_word)

lemma mark_page_occupied:
  assumes "in_bitmap p"
  obtains b where "pmm_mark_page_occupied p s = Some (s\<lparr>pm_bitmap := b\<rparr>)"
    and "\<And>q. page_free (s\<lparr>pm_bitmap := b\<rparr>) q \<longleftrightarrow> page_free s q \<and> q \<noteq> p"
proof
  let ?v = "ucast ((ucast (pm_bitmap s (p div 8)) :: u32) OR page_msk p) :: u8"
  let ?b = "(pm_bitmap s)(p div 8 := ?v)"
  show "pmm_mark_page_occupied p s = Some (s\<lparr>pm_bitmap := ?b\<rparr>)"
    using assms by (simp add: pmm_mark_page_occupied_def bmp_get_def bmp_set_def page_group_def
        in_bitmap_group)
  have v: "bit ?v n \<longleftrightarrow> bit (pm_bitmap s (p div 8)) n \<or> n = 7 - unat (p mod 8)" for n
    by (auto simp: bit_simps bit_page_msk dest: bit_imp_le_length)
  show "page_free (s\<lparr>pm_bitmap := ?b\<rparr>) q \<longleftrightarrow> page_free s q \<and> q \<noteq> p" for q
    using page_pos_inj [of q p] by (auto simp: page_free_def v)
qed

lemma mark_page_free:
  assumes "in_bitmap p"
  obtains b where "pmm_mark_page_free p s = Some (s\<lparr>pm_bitmap := b\<rparr>)"
    and "\<And>q. page_free (s\<lparr>pm_bitmap := b\<rparr>) q \<longleftrightarrow> page_free s q \<or> q = p"
proof
  let ?v = "ucast ((ucast (pm_bitmap s (p div 8)) :: u32) AND NOT (page_msk p)) :: u8"
  let ?b = "(pm_bitmap s)(p div 8 := ?v)"
  show "pmm_mark_page_free p s = Some (s\<lparr>pm_bitmap := ?b\<rparr>)"
    using assms by (simp add: pmm_mark_page_free_def bmp_get_def bmp_set_def page_group_def
        in_bitmap_group)
  have v: "bit ?v n \<longleftrightarrow> bit (pm_bitmap s (p div 8)) n \<and> n \<noteq> 7 - unat (p mod 8)" for n
    by (auto simp: bit_simps bit_page_msk dest: bit_imp_le_length)
  show "page_free (s\<lparr>pm_bitmap := ?b\<rparr>) q \<longleftrightarrow> page_free s q \<or> q = p" for q
    using page_pos_inj [of q p] by (auto simp: page_free_def v)
qed

section \<open>The search loops\<close>

lemma chunk_bit_test:
  "i < 8 \<Longrightarrow> (ucast (c :: u8) :: u32) AND drop_bit i 0x80 = 0 \<longleftrightarrow> \<not> bit c (7 - i)"
proof -
  assume i: "i < 8"
  have *: "bit ((ucast c :: u32) AND drop_bit i 0x80) n \<longleftrightarrow> bit c n \<and> i + n = 7" for n
    by (auto simp: bit_and_iff bit_unsigned_iff bit_0x80)
  show ?thesis
  proof
    assume "(ucast c :: u32) AND drop_bit i 0x80 = 0"
    with * [of "7 - i"] i show "\<not> bit c (7 - i)" by simp
  next
    assume "\<not> bit c (7 - i)"
    then have "\<not> bit ((ucast c :: u32) AND drop_bit i 0x80) n" for n
      using * [of n] by (metis add_diff_cancel_left')
    then show "(ucast c :: u32) AND drop_bit i 0x80 = 0" by (intro bit_word_eqI) simp
  qed
qed

text \<open>Where the inner loop stops: at the first free page of the byte at or after the search
  pointer, which it marks, or behind the byte when there is none.\<close>

lemma scan_chunk_spec:
  assumes "i \<le> 8" and "unat (pg_lookup_ptr s) = 8 * g + i" and "8 * g < 0x100000"
    and "chunk = pm_bitmap s (of_nat g)"
  shows "(\<exists>p b. scan_chunk chunk i s
            = Some (push_bit 12 p, s\<lparr>pg_lookup_ptr := p, pm_bitmap := b\<rparr>)
          \<and> pg_lookup_ptr s \<le> p \<and> in_bitmap p \<and> page_free s p
          \<and> (\<forall>q. page_free (s\<lparr>pm_bitmap := b\<rparr>) q \<longleftrightarrow> page_free s q \<and> q \<noteq> p))
      \<or> scan_chunk chunk i s = Some (0, s\<lparr>pg_lookup_ptr := of_nat (8 * g + 8)\<rparr>)
          \<and> (\<forall>p. 8 * g + i \<le> unat p \<and> unat p < 8 * g + 8 \<longrightarrow> \<not> page_free s p)"
  using assms
proof (induction chunk i s rule: scan_chunk.induct)
  case (1 chunk i s)
  let ?p = "pg_lookup_ptr s"
  show ?case
  proof (cases "i < 8")
    case False
    with "1.prems" have "i = 8" by simp
    moreover from "1.prems" this have "?p = of_nat (8 * g + 8)"
      by (simp add: word_unat_eq_iff del: of_nat_add of_nat_mult)
    ultimately show ?thesis by (intro disjI2) (auto simp: scan_chunk.simps)
  next
    case True
    have pg: "?p div 8 = of_nat g" "unat (?p mod 8) = i"
      using "1.prems" True by (simp_all add: word_unat_eq_iff unat_word)
    have free: "(ucast chunk :: u32) AND drop_bit i 0x80 = 0 \<longleftrightarrow> page_free s ?p"
      using True "1.prems"(4) pg by (simp add: chunk_bit_test page_free_def)
    show ?thesis
    proof (cases "page_free s ?p")
      case free_p: True
      have "in_bitmap ?p" using "1.prems" True by (simp add: in_bitmap_def word_less_nat_alt)
      then obtain b where b: "pmm_mark_page_occupied ?p s = Some (s\<lparr>pm_bitmap := b\<rparr>)"
        "\<And>q. page_free (s\<lparr>pm_bitmap := b\<rparr>) q \<longleftrightarrow> page_free s q \<and> q \<noteq> ?p"
        by (rule mark_page_occupied [of ?p s]) blast
      have "scan_chunk chunk i s = Some (push_bit 12 ?p, s\<lparr>pg_lookup_ptr := ?p, pm_bitmap := b\<rparr>)"
        using True free free_p b(1) by (simp add: scan_chunk.simps)
      then show ?thesis using b(2) free_p \<open>in_bitmap ?p\<close> by blast
    next
      case False
      let ?s = "s\<lparr>pg_lookup_ptr := ?p + 1\<rparr>"
      have step: "scan_chunk chunk i s = scan_chunk chunk (i + 1) ?s"
        using True False free by (simp add: scan_chunk.simps [of chunk i s])
      have u: "unat (?p + 1) = 8 * g + (i + 1)"
        using "1.prems" True by (subst unat_add_u32) auto
      have le: "?p \<le> ?p + 1" using u "1.prems" by (simp add: word_le_nat_alt)
      have here: "\<not> page_free s q" if "unat q = 8 * g + i" for q
      proof -
        from that have "q = ?p" using "1.prems"(2) by (simp add: word_unat_eq_iff)
        with False show ?thesis by simp
      qed
      from True False free have "\<not> ((ucast chunk :: u32) AND drop_bit i 0x80 = 0)" by simp
      then consider
        (found) p b where "scan_chunk chunk (i + 1) ?s
            = Some (push_bit 12 p, ?s\<lparr>pg_lookup_ptr := p, pm_bitmap := b\<rparr>)"
          "?p + 1 \<le> p" "in_bitmap p" "page_free s p"
          "\<forall>q. page_free (s\<lparr>pm_bitmap := b\<rparr>) q \<longleftrightarrow> page_free s q \<and> q \<noteq> p"
      | (none) "scan_chunk chunk (i + 1) ?s = Some (0, ?s\<lparr>pg_lookup_ptr := of_nat (8 * g + 8)\<rparr>)"
          "\<forall>p. 8 * g + (i + 1) \<le> unat p \<and> unat p < 8 * g + 8 \<longrightarrow> \<not> page_free s p"
        using "1.IH" [OF True] u "1.prems" True by fastforce
      then show ?thesis
      proof cases
        case found
        then show ?thesis unfolding step using order_trans [OF le found(2)] by auto
      next
        case none
        have "\<not> page_free s q" if "8 * g + i \<le> unat q" "unat q < 8 * g + 8" for q
          using none(2) here [of q] that by (cases "unat q = 8 * g + i") auto
        then show ?thesis unfolding step using none(1) by (intro disjI2) simp
      qed
    qed
  qed
qed

lemma shifted_page_nonzero: "in_bitmap p \<Longrightarrow> 1 \<le> p \<Longrightarrow> push_bit 12 p \<noteq> 0"
proof -
  assume p: "in_bitmap p" "1 \<le> p"
  have "unat (push_bit 12 p) = unat p * 4096"
    using p(1) by (subst unat_push_bit_u32) (auto simp: in_bitmap_def word_less_nat_alt)
  then show ?thesis using p(2) by (auto simp: word_le_nat_alt)
qed

definition alloc_result ::
  "'a pmm_scheme \<Rightarrow> (u32 \<times> 'a pmm_scheme) option \<Rightarrow> bool" where
  "alloc_result s r \<longleftrightarrow>
     (\<exists>p. r = Some (0, s\<lparr>pg_lookup_ptr := p\<rparr>) \<and> 1 \<le> p) \<or>
     (\<exists>p b. r = Some (push_bit 12 p, s\<lparr>pg_lookup_ptr := p, pm_bitmap := b\<rparr>)
        \<and> 1 \<le> p \<and> in_bitmap p \<and> page_free s p
        \<and> (\<forall>q. page_free (s\<lparr>pm_bitmap := b\<rparr>) q \<longleftrightarrow> page_free s q \<and> q \<noteq> p))"

lemma alloc_result_ptr: "alloc_result (s\<lparr>pg_lookup_ptr := x\<rparr>) r = alloc_result s r"
  by (simp add: alloc_result_def)

lemma alloc_loop_done: "g \<noteq> 0 \<Longrightarrow> alloc_loop g old up s = Some (g, s)"
  by (subst alloc_loop.simps) simp

text \<open>The search terminates and meets its contract: a step either finds a page, or moves the
  pointer up, or restarts once from \<^verbatim>\<open>LOOKUP_START\<close> with a smaller limit.\<close>

lemma alloc_loop_spec:
  assumes "1 \<le> pg_lookup_ptr s" and "up \<le> 0x100000" and "old \<le> 0x100000"
  shows "alloc_result s (alloc_loop 0 old up s)"
  using assms
proof (induction "(if old = LOOKUP_START then 0 else 0x200000 :: nat)
      + (0x100008 - unat (pg_lookup_ptr s))" arbitrary: old up s rule: less_induct)
  case less
  let ?p = "pg_lookup_ptr s"
  let ?g = "unat ?p div 8"
  show ?case
  proof (cases "?p < up")
    case False
    then have "alloc_loop 0 old up s = Some (0, s\<lparr>pg_lookup_ptr := ?p\<rparr>)"
      by (subst alloc_loop.simps) simp
    then show ?thesis unfolding alloc_result_def using less.prems(1) by blast
  next
    case True
    then have lim: "unat ?p < 0x100000" using less.prems(2) by (simp add: word_less_nat_alt word_le_nat_alt)
    have grp: "drop_bit 3 ?p = of_nat ?g"
      using lim by (simp add: drop_bit3_div8 word_unat_eq_iff unat_word)
    have get: "bmp_get s (drop_bit 3 ?p) = Some (pm_bitmap s (of_nat ?g))"
      using lim by (simp add: bmp_get_def PM_BMP_MAX_SIZE_def grp word_less_nat_alt)
    let ?c = "pm_bitmap s (of_nat ?g)"
    show ?thesis
    proof (cases "?c = 0xFF")
      case full: True
      let ?s = "s\<lparr>pg_lookup_ptr := ?p + 8\<rparr>"
      have u8: "unat (?p + 8) = unat ?p + 8" using lim by (subst unat_add_u32) auto
      show ?thesis
      proof (cases "up \<le> ?p + 8 \<and> old \<noteq> LOOKUP_START")
        case wrap: True
        then have "alloc_loop 0 old up s = alloc_loop 0 LOOKUP_START old (s\<lparr>pg_lookup_ptr := LOOKUP_START\<rparr>)"
          using True get full by (subst alloc_loop.simps) simp
        moreover have "alloc_result (s\<lparr>pg_lookup_ptr := LOOKUP_START\<rparr>)
            (alloc_loop 0 LOOKUP_START old (s\<lparr>pg_lookup_ptr := LOOKUP_START\<rparr>))"
          using wrap less.prems by (intro less.hyps) (auto simp: LOOKUP_START_def)
        ultimately show ?thesis by (simp add: alloc_result_ptr)
      next
        case nowrap: False
        then have "alloc_loop 0 old up s = alloc_loop 0 old up ?s"
          using True get full by (subst alloc_loop.simps) auto
        moreover have "alloc_result ?s (alloc_loop 0 old up ?s)"
          using u8 lim less.prems by (intro less.hyps) (auto simp: word_le_nat_alt)
        ultimately show ?thesis by (simp add: alloc_result_ptr)
      qed
    next
      case notfull: False
      have up: "unat ?p = 8 * ?g + unat ?p mod 8" by simp
      have i: "unat (?p mod 8) = unat ?p mod 8" by (rule unat_mod8)
      have step: "alloc_loop 0 old up s
          = scan_chunk ?c (unat ?p mod 8) s \<bind> (\<lambda>(good, s'). alloc_loop good old up s')"
        using True get notfull by (subst alloc_loop.simps) (simp add: i)
      from scan_chunk_spec [OF _ up, of ?c] lim consider
        (found) p b where "scan_chunk ?c (unat ?p mod 8) s
            = Some (push_bit 12 p, s\<lparr>pg_lookup_ptr := p, pm_bitmap := b\<rparr>)"
          "?p \<le> p" "in_bitmap p" "page_free s p"
          "\<forall>q. page_free (s\<lparr>pm_bitmap := b\<rparr>) q \<longleftrightarrow> page_free s q \<and> q \<noteq> p"
      | (none) "scan_chunk ?c (unat ?p mod 8) s = Some (0, s\<lparr>pg_lookup_ptr := of_nat (8 * ?g + 8)\<rparr>)"
        by fastforce
      then show ?thesis
      proof cases
        case found
        have "1 \<le> p" using less.prems(1) found(2) by (rule order_trans)
        then have "alloc_loop 0 old up s
            = Some (push_bit 12 p, s\<lparr>pg_lookup_ptr := p, pm_bitmap := b\<rparr>)"
          using found shifted_page_nonzero [of p] by (simp add: step alloc_loop_done)
        then show ?thesis unfolding alloc_result_def using found \<open>1 \<le> p\<close> by blast
      next
        case none
        let ?s = "s\<lparr>pg_lookup_ptr := of_nat (8 * ?g + 8)\<rparr>"
        have u: "unat (of_nat (8 * ?g + 8) :: u32) = 8 * ?g + 8"
          using lim by (intro unat_of_nat_u32) auto
        have "alloc_result ?s (alloc_loop 0 old up ?s)"
          using u lim less.prems up
          by (intro less.hyps) (auto simp: word_le_nat_alt simp del: of_nat_add of_nat_mult)
        then show ?thesis by (simp add: step none alloc_result_ptr del: of_nat_add of_nat_mult)
      qed
    qed
  qed
qed

section \<open>Runs of pages\<close>

text \<open>The pages a call of \<^verbatim>\<open>pmm_mark_chunk_*\<close> really touches. They are the requested
  ones, except when the run is at most 8 pages long and crosses a byte boundary: then only the
  pages up to that boundary.\<close>

definition chunk_covers :: "u32 \<Rightarrow> u32 \<Rightarrow> u32 \<Rightarrow> bool" where
  "chunk_covers start_ppn page_count q \<longleftrightarrow>
     start_ppn \<le> q \<and>
     (if 8 < page_count \<or> unat (start_ppn mod 8) + unat page_count \<le> 8
      then unat q < unat start_ppn + unat page_count
      else q div 8 = start_ppn div 8)"

definition chunk_in_bitmap :: "u32 \<Rightarrow> u32 \<Rightarrow> bool" where
  "chunk_in_bitmap start_ppn page_count \<longleftrightarrow>
     unat start_ppn + unat page_count < 0x100000 \<and> unat start_ppn + 8 < 0x100000"

lemma push_bit_1_mask: "push_bit n (1 :: u32) - 1 = mask n"
  by (simp only: mask_eq_exp_minus_1 push_bit_eq_mult mult_1_left)

lemma chunk_numbers:
  assumes "unat st + unat c < 0x100000"
  shows "unat (chunk_offset st) = unat st mod 8"
    and "unat (chunk_group_count st c) = (unat c + unat st mod 8) div 8"
    and "unat (chunk_remainder st c) = (unat c + unat st mod 8) mod 8"
    and "unat (chunk_leading_shifts st c)
      = (if unat c + unat st mod 8 < 8 then unat c else 8 - unat st mod 8)"
    and "chunk_fill_count st c = (unat c + unat st mod 8) div 8 - 1"
proof -
  show off: "unat (chunk_offset st) = unat st mod 8"
    by (simp add: chunk_offset_def unat_word)
  have "unat st mod 8 \<le> unat st" by simp
  then have tot: "unat (c + chunk_offset st) = unat c + unat st mod 8"
    using assms by (subst unat_add_u32) (simp_all add: off)
  show gc: "unat (chunk_group_count st c) = (unat c + unat st mod 8) div 8"
    and "unat (chunk_remainder st c) = (unat c + unat st mod 8) mod 8"
    by (simp_all add: chunk_group_count_def chunk_remainder_def unat_word tot)
  show "unat (chunk_leading_shifts st c)
      = (if unat c + unat st mod 8 < 8 then unat c else 8 - unat st mod 8)"
    using off by (auto simp: chunk_leading_shifts_def word_less_nat_alt tot unat_sub_u32)
  show "chunk_fill_count st c = (unat c + unat st mod 8) div 8 - 1"
  proof (cases "chunk_group_count st c = 0")
    case True
    with gc show ?thesis by (simp add: chunk_fill_count_def)
  next
    case False
    then have "unat (chunk_group_count st c - 1) = unat (chunk_group_count st c) - 1"
      by (subst unat_sub_u32) (auto simp: unat_eq_0 Suc_le_eq unat_gt_0)
    with False gc show ?thesis by (simp add: chunk_fill_count_def)
  qed
qed

lemma bit_chunk_head:
  assumes "unat st + unat c < 0x100000" and "k < 8"
  shows "bit (chunk_head_msk st c) k \<longleftrightarrow>
    (let off = unat st mod 8; ls = (if unat c + off < 8 then unat c else 8 - off)
     in 8 - off - ls \<le> k \<and> k < 8 - off)"
proof -
  let ?off = "unat st mod 8" and ?ls = "unat (chunk_leading_shifts st c)"
  note num = chunk_numbers [OF assms(1)]
  have le: "?ls \<le> 8 - ?off" using num(4) by auto
  have o: "unat (8 - chunk_offset st) = 8 - ?off"
    by (subst unat_sub_u32) (auto simp: num(1))
  have sh: "unat (8 - chunk_offset st - chunk_leading_shifts st c) = 8 - ?off - ?ls"
    using le o by (subst unat_sub_u32) auto
  have "bit (chunk_head_msk st c) k \<longleftrightarrow> 8 - ?off - ?ls \<le> k \<and> k - (8 - ?off - ?ls) < ?ls"
    unfolding chunk_head_msk_def Let_def push_bit_1_mask sh using assms(2) by (auto simp: bit_simps)
  also have "\<dots> \<longleftrightarrow> 8 - ?off - ?ls \<le> k \<and> k < 8 - ?off" using le by auto
  finally show ?thesis using num(4) by (simp add: Let_def)
qed

lemma bit_chunk_tail:
  assumes "unat st + unat c < 0x100000" and "k < 8"
  shows "bit (chunk_tail_msk st c) k \<longleftrightarrow> 8 < unat c \<and> 8 - (unat c + unat st mod 8) mod 8 \<le> k"
proof -
  note num = chunk_numbers [OF assms(1)]
  define r where "r = (unat c + unat st mod 8) mod 8"
  have r: "unat (chunk_remainder st c) = r" "r < 8" by (simp_all add: num(3) r_def)
  have sh: "unat (8 - chunk_remainder st c) = 8 - r"
    using r by (subst unat_sub_u32) auto
  have c8: "8 < c \<longleftrightarrow> 8 < unat c" by (simp add: word_less_nat_alt)
  have "bit (chunk_tail_msk st c) k \<longleftrightarrow> 8 < unat c \<and> 8 - r \<le> k \<and> k - (8 - r) < r"
    unfolding chunk_tail_msk_def Let_def push_bit_1_mask sh c8
    using assms(2) r by (auto simp: bit_simps)
  moreover have "8 - r \<le> k \<Longrightarrow> k - (8 - r) < r" using assms(2) by arith
  ultimately show ?thesis unfolding r_def [symmetric] by blast
qed

text \<open>The three parts of the run, byte by byte, put together.\<close>

definition chunk_hit :: "u32 \<Rightarrow> u32 \<Rightarrow> u32 \<Rightarrow> bool" where
  "chunk_hit st c q \<longleftrightarrow>
     (let g = unat st div 8; n = chunk_fill_count st c; G = unat q div 8; k = 7 - unat q mod 8 in
      G = g \<and> bit (chunk_head_msk st c) k \<or> g + 1 \<le> G \<and> G < g + 1 + n
      \<or> G = g + 1 + n \<and> bit (chunk_tail_msk st c) k)"

lemma chunk_arith:
  fixes g G off r d R T :: nat
  assumes "off < 8" "r < 8" "R < 8" "T = 8 * D + R" "off \<le> T"
  shows "(G = g \<and> off \<le> r \<and> r < (if T < 8 then T else 8) \<or> g < G \<and> G < g + 1 + (D - 1)
      \<or> G = g + 1 + (D - 1) \<and> 8 < T - off \<and> r < R) \<longleftrightarrow>
     (8 * g + off \<le> 8 * G + r \<and>
      (if 8 < T - off \<or> T \<le> 8 then 8 * G + r < 8 * g + T else G = g))"
proof -
  consider "G < g" | "G = g" | "G = g + 1 + (D - 1)" | "g < G" "G < g + 1 + (D - 1)" | "g + 1 + (D - 1) < G"
    by linarith
  then show ?thesis
  proof cases
    case 1 then show ?thesis using assms by auto
  next
    case 2 then show ?thesis using assms by (cases "D = 0") auto
  next
    case 3 then show ?thesis using assms by (cases "D = 0") auto
  next
    case 4 then show ?thesis using assms by (cases "D = 0") auto
  next
    case 5 then show ?thesis using assms by (cases "D = 0") auto
  qed
qed

lemma chunk_hit_covers:
  assumes "chunk_in_bitmap st c"
  shows "chunk_hit st c q \<longleftrightarrow> chunk_covers st c q"
proof -
  have small: "unat st + unat c < 0x100000" using assms by (simp add: chunk_in_bitmap_def)
  define g off G r T where "g = unat st div 8" and "off = unat st mod 8"
    and "G = unat q div 8" and "r = unat q mod 8" and "T = unat c + off"
  have eqs: "unat st = 8 * g + off" "unat q = 8 * G + r" "off < 8" "r < 8" "unat c = T - off" "off \<le> T"
    by (simp_all add: g_def off_def G_def r_def T_def)
  have k: "7 - r < 8" by simp
  have n: "chunk_fill_count st c = T div 8 - 1"
    using chunk_numbers(5) [OF small] by (simp add: T_def off_def)
  have head: "bit (chunk_head_msk st c) (7 - r) \<longleftrightarrow> off \<le> r \<and> r < (if T < 8 then T else 8)"
    unfolding bit_chunk_head [OF small k] using eqs by (auto simp: Let_def T_def off_def)
  have tail: "bit (chunk_tail_msk st c) (7 - r) \<longleftrightarrow> 8 < T - off \<and> r < T mod 8"
    unfolding bit_chunk_tail [OF small k] using eqs by (auto simp: T_def off_def)
  have hit: "chunk_hit st c q \<longleftrightarrow>
      G = g \<and> off \<le> r \<and> r < (if T < 8 then T else 8) \<or> g < G \<and> G < g + 1 + (T div 8 - 1)
      \<or> G = g + 1 + (T div 8 - 1) \<and> 8 < T - off \<and> r < T mod 8"
    unfolding chunk_hit_def Let_def n g_def [symmetric] G_def [symmetric] r_def [symmetric] head tail
    by auto
  have cov: "chunk_covers st c q \<longleftrightarrow> 8 * g + off \<le> 8 * G + r \<and>
      (if 8 < T - off \<or> T \<le> 8 then 8 * G + r < 8 * g + T else G = g)"
    unfolding chunk_covers_def
    using eqs by (simp add: word_le_nat_alt word_less_nat_alt word_unat_eq_iff unat_word
        flip: g_def G_def off_def r_def)
  show ?thesis unfolding hit cov using eqs(3,4,6) by (intro chunk_arith) auto
qed

lemma bmp_fill_spec:
  "unat g + n \<le> 131072 \<Longrightarrow> bmp_fill n g v s = Some (g + of_nat n,
     s\<lparr>pm_bitmap := \<lambda>x. if unat g \<le> unat x \<and> unat x < unat g + n then v else pm_bitmap s x\<rparr>)"
proof (induction n arbitrary: g s)
  case 0
  have "(\<lambda>x. if unat g \<le> unat x \<and> unat x < unat g + 0 then v else pm_bitmap s x) = pm_bitmap s"
    by (rule ext) auto
  then show ?case by simp
next
  case (Suc n)
  have u: "unat (g + 1) = unat g + 1" using Suc.prems by (subst unat_add_u32) auto
  have "g < PM_BMP_MAX_SIZE" using Suc.prems by (simp add: PM_BMP_MAX_SIZE_def word_less_nat_alt)
  define t where "t = s\<lparr>pm_bitmap := (pm_bitmap s)(g := v)\<rparr>"
  have t: "pm_bitmap t = (pm_bitmap s)(g := v)" "t\<lparr>pm_bitmap := f\<rparr> = s\<lparr>pm_bitmap := f\<rparr>" for f
    by (simp_all add: t_def)
  have "bmp_fill (Suc n) g v s = bmp_fill n (g + 1) v t"
    using \<open>g < PM_BMP_MAX_SIZE\<close> by (simp add: bmp_set_def t_def)
  also have "\<dots> = Some (g + 1 + of_nat n, t\<lparr>pm_bitmap := \<lambda>x. if unat (g + 1) \<le> unat x
      \<and> unat x < unat (g + 1) + n then v else pm_bitmap t x\<rparr>)"
    using Suc.prems u by (intro Suc.IH) simp
  also have "\<dots> = Some (g + 1 + of_nat n, s\<lparr>pm_bitmap := \<lambda>x. if unat (g + 1) \<le> unat x
      \<and> unat x < unat (g + 1) + n then v else ((pm_bitmap s)(g := v)) x\<rparr>)"
    by (simp only: t)
  also have "(\<lambda>x. if unat (g + 1) \<le> unat x \<and> unat x < unat (g + 1) + n then v
        else ((pm_bitmap s)(g := v)) x)
      = (\<lambda>x. if unat g \<le> unat x \<and> unat x < unat g + Suc n then v else pm_bitmap s x)"
    unfolding u by (auto simp: fun_eq_iff word_unat_eq_iff)
  finally show ?case by (simp add: add.assoc)
qed

text \<open>Both marking functions are one byte-wise scheme; \<open>h\<close> combines a byte with a mask.\<close>

definition mark_chunk_bytes :: "(u32 \<Rightarrow> u32 \<Rightarrow> u32) \<Rightarrow> u8 \<Rightarrow> u32 \<Rightarrow> u32 \<Rightarrow> 'a pmm_scheme
    \<Rightarrow> 'a pmm_scheme option" where
  "mark_chunk_bytes h v st c s = do {
     let group = st div 8;
     b \<leftarrow> bmp_get s group;
     s1 \<leftarrow> bmp_set s group (ucast (h (ucast b) (chunk_head_msk st c)));
     (group', s2) \<leftarrow> bmp_fill (chunk_fill_count st c) (group + 1) v s1;
     b' \<leftarrow> bmp_get s2 group';
     bmp_set s2 group' (ucast (h (ucast b') (chunk_tail_msk st c)))
   }"

lemma mark_chunk_bytes_spec:
  assumes "chunk_in_bitmap st c"
  obtains b where "mark_chunk_bytes h v st c s = Some (s\<lparr>pm_bitmap := b\<rparr>)"
    and "\<And>G. b G = (let g = unat st div 8; n = chunk_fill_count st c; x = pm_bitmap s G in
       if unat G = g then ucast (h (ucast x) (chunk_head_msk st c))
       else if g + 1 \<le> unat G \<and> unat G < g + 1 + n then v
       else if unat G = g + 1 + n then ucast (h (ucast x) (chunk_tail_msk st c)) else x)"
proof -
  let ?g = "st div 8" and ?n = "chunk_fill_count st c"
  have small: "unat st + unat c < 0x100000" "unat st + 8 < 0x100000"
    using assms by (simp_all add: chunk_in_bitmap_def)
  have "?n = (unat c + unat st mod 8) div 8 - 1" using chunk_numbers(5) [OF small(1)] .
  moreover have "unat st div 8 + (unat c + unat st mod 8) div 8 = (unat st + unat c) div 8"
  proof -
    have "unat st + unat c = (unat c + unat st mod 8) + 8 * (unat st div 8)" by simp
    then show ?thesis by (metis add.commute div_mult_self2 zero_neq_numeral)
  qed
  ultimately have n: "unat st div 8 + 1 + ?n < 131072"
    using small by (cases "(unat c + unat st mod 8) div 8") auto
  have u: "unat ?g = unat st div 8" by (rule unat_div8)
  have u1: "unat (?g + 1) = unat st div 8 + 1" using n u by (subst unat_add_u32) auto
  have un: "unat (?g + 1 + of_nat ?n) = unat st div 8 + 1 + ?n"
    using n u1 by (subst unat_add_u32) auto
  have lt: "?g < PM_BMP_MAX_SIZE" "?g + 1 + of_nat ?n < PM_BMP_MAX_SIZE"
    unfolding word_less_nat_alt un u using n by (simp_all add: PM_BMP_MAX_SIZE_def)
  let ?b1 = "(pm_bitmap s)(?g := ucast (h (ucast (pm_bitmap s ?g)) (chunk_head_msk st c)))"
  let ?b2 = "\<lambda>x. if unat (?g + 1) \<le> unat x \<and> unat x < unat (?g + 1) + ?n then v else ?b1 x"
  let ?b = "?b2(?g + 1 + of_nat ?n := ucast (h (ucast (?b2 (?g + 1 + of_nat ?n))) (chunk_tail_msk st c)))"
  have fill: "bmp_fill ?n (?g + 1) v (s\<lparr>pm_bitmap := ?b1\<rparr>) = Some (?g + 1 + of_nat ?n, s\<lparr>pm_bitmap := ?b2\<rparr>)"
    using n u1 by (subst bmp_fill_spec) (auto cong: if_cong)
  have result: "mark_chunk_bytes h v st c s = Some (s\<lparr>pm_bitmap := ?b\<rparr>)"
    unfolding mark_chunk_bytes_def Let_def bmp_get_def bmp_set_def using lt fill by simp
  have at: "G = ?g \<longleftrightarrow> unat G = unat st div 8"
    "G = ?g + 1 + of_nat ?n \<longleftrightarrow> unat G = unat st div 8 + 1 + ?n" for G
    by (simp_all only: word_unat_eq_iff u un)
  have "?b G = (let g = unat st div 8; n = ?n; x = pm_bitmap s G in
       if unat G = g then ucast (h (ucast x) (chunk_head_msk st c))
       else if g + 1 \<le> unat G \<and> unat G < g + 1 + n then v
       else if unat G = g + 1 + n then ucast (h (ucast x) (chunk_tail_msk st c)) else x)" for G
  proof (cases "G = ?g \<or> G = ?g + 1 + of_nat ?n")
    have "unat (?g + 1 + of_nat ?n) \<noteq> unat ?g" using u un by simp
    then have ne: "1 + of_nat ?n \<noteq> (0 :: u32)" by (metis add.assoc add_0_right)
    case True
    then show ?thesis by (elim disjE) (simp_all add: Let_def u u1 un ne)
  next
    case False
    with at [of G] have "unat G \<noteq> unat st div 8" "unat G \<noteq> unat st div 8 + 1 + ?n" by blast+
    with False show ?thesis by (simp add: Let_def u1)
  qed
  with result show ?thesis by (rule that)
qed

lemma pmm_mark_chunk_bytes:
  "pmm_mark_chunk_free st c s = mark_chunk_bytes (\<lambda>b m. b AND NOT m) 0 st c s"
  "pmm_mark_chunk_occupied st c s = mark_chunk_bytes (\<lambda>b m. b OR m) 0xFF st c s"
  by (simp_all add: pmm_mark_chunk_free_def pmm_mark_chunk_occupied_def mark_chunk_bytes_def)

lemma page_bit_8: "7 - unat (q mod 8 :: u32) < 8" by simp

lemma bit_0xFF: "k < 8 \<Longrightarrow> bit (0xFF :: u8) k"
proof -
  have "(0xFF :: u8) = - 1" by simp
  then show "k < 8 \<Longrightarrow> ?thesis" by (simp only: bit_minus_1_iff possible_bit_word) simp
qed

lemma mark_chunk_free_hit:
  assumes "chunk_in_bitmap st c"
  obtains b where "pmm_mark_chunk_free st c s = Some (s\<lparr>pm_bitmap := b\<rparr>)"
    and "\<And>q. page_free (s\<lparr>pm_bitmap := b\<rparr>) q \<longleftrightarrow> page_free s q \<or> chunk_covers st c q"
proof -
  obtain b where b: "pmm_mark_chunk_free st c s = Some (s\<lparr>pm_bitmap := b\<rparr>)"
    "\<And>G. b G = (let g = unat st div 8; n = chunk_fill_count st c; x = pm_bitmap s G in
       if unat G = g then ucast ((ucast x :: u32) AND NOT (chunk_head_msk st c))
       else if g + 1 \<le> unat G \<and> unat G < g + 1 + n then 0
       else if unat G = g + 1 + n then ucast ((ucast x :: u32) AND NOT (chunk_tail_msk st c)) else x)"
    unfolding pmm_mark_chunk_bytes
    by (rule mark_chunk_bytes_spec [OF assms, where h = "\<lambda>b m. b AND NOT m" and v = 0 and s = s]) blast
  have "page_free (s\<lparr>pm_bitmap := b\<rparr>) q \<longleftrightarrow> page_free s q \<or> chunk_hit st c q" for q
    using page_bit_8 [of q]
    by (auto simp: page_free_def chunk_hit_def b(2) Let_def unat_word bit_unsigned_iff bit_and_iff bit_not_iff)
  with b(1) show ?thesis using that chunk_hit_covers [OF assms] by blast
qed

lemma mark_chunk_occupied_hit:
  assumes "chunk_in_bitmap st c"
  obtains b where "pmm_mark_chunk_occupied st c s = Some (s\<lparr>pm_bitmap := b\<rparr>)"
    and "\<And>q. page_free (s\<lparr>pm_bitmap := b\<rparr>) q \<longleftrightarrow> page_free s q \<and> \<not> chunk_covers st c q"
proof -
  obtain b where b: "pmm_mark_chunk_occupied st c s = Some (s\<lparr>pm_bitmap := b\<rparr>)"
    "\<And>G. b G = (let g = unat st div 8; n = chunk_fill_count st c; x = pm_bitmap s G in
       if unat G = g then ucast ((ucast x :: u32) OR chunk_head_msk st c)
       else if g + 1 \<le> unat G \<and> unat G < g + 1 + n then 0xFF
       else if unat G = g + 1 + n then ucast ((ucast x :: u32) OR chunk_tail_msk st c) else x)"
    unfolding pmm_mark_chunk_bytes
    by (rule mark_chunk_bytes_spec [OF assms, where h = "\<lambda>b m. b OR m" and v = "0xFF" and s = s]) blast
  have "page_free (s\<lparr>pm_bitmap := b\<rparr>) q \<longleftrightarrow> page_free s q \<and> \<not> chunk_hit st c q" for q
    using page_bit_8 [of q] bit_0xFF [OF page_bit_8 [of q]]
    by (auto simp: page_free_def chunk_hit_def b(2) Let_def unat_word bit_unsigned_iff bit_or_iff)
  with b(1) show ?thesis using that chunk_hit_covers [OF assms] by blast
qed

section \<open>The allocator as a pool of pages\<close>

text \<open>\<open>pmm_ok\<close>: the search pointer has left page 0 and every page below the limit has a bit.\<close>

definition pmm_ok :: "'a pmm_scheme \<Rightarrow> bool" where
  "pmm_ok s \<longleftrightarrow> 1 \<le> pg_lookup_ptr s \<and> max_pg s \<le> 0x100000"

lemma pmm_alloc_page_cases:
  assumes "pmm_ok s"
  obtains (full) x where "pmm_alloc_page s = Some (0, s\<lparr>pg_lookup_ptr := x\<rparr>)" "1 \<le> x"
  | (page) p b where "pmm_alloc_page s = Some (push_bit 12 p, s\<lparr>pg_lookup_ptr := p, pm_bitmap := b\<rparr>)"
      "1 \<le> p" "in_bitmap p" "page_free s p"
      "\<And>q. page_free (s\<lparr>pm_bitmap := b\<rparr>) q \<longleftrightarrow> page_free s q \<and> q \<noteq> p"
proof -
  have "alloc_result s (pmm_alloc_page s)"
  proof (cases "pg_lookup_ptr s < max_pg s")
    case True
    then show ?thesis unfolding pmm_alloc_page_def
      using assms by (intro alloc_loop_spec) (auto simp: pmm_ok_def)
  next
    case False
    then have "pmm_alloc_page s = Some (0, s\<lparr>pg_lookup_ptr := pg_lookup_ptr s\<rparr>)"
      unfolding pmm_alloc_page_def by (subst alloc_loop.simps) simp
    then show ?thesis unfolding alloc_result_def using assms by (auto simp: pmm_ok_def)
  qed
  then show ?thesis unfolding alloc_result_def using full page by blast
qed

lemma page_number_shift: "in_bitmap p \<Longrightarrow> drop_bit 12 (push_bit 12 p) = p"
  by (simp add: in_bitmap_def word_less_nat_alt word_unat_eq_iff unat_word unat_push_bit_u32)

lemma page_number_lt: "in_bitmap (drop_bit 12 a)"
  using unat_lt32 [of a] by (simp add: in_bitmap_def word_less_nat_alt unat_word less_mult_imp_div_less)

lemma pmm_free_page_cases:
  obtains (freed) b where "pmm_free_page a s = Some (1, s\<lparr>pm_bitmap := b\<rparr>)"
      "drop_bit 12 a \<noteq> 0" "drop_bit 12 a < max_pg s"
      "\<And>q. page_free (s\<lparr>pm_bitmap := b\<rparr>) q \<longleftrightarrow> page_free s q \<or> q = drop_bit 12 a"
  | (ignored) "pmm_free_page a s = Some (0, s)" "drop_bit 12 a = 0 \<or> max_pg s \<le> drop_bit 12 a"
proof (cases "drop_bit 12 a \<noteq> 0 \<and> drop_bit 12 a < max_pg s")
  case True
  obtain b where b: "pmm_mark_page_free (drop_bit 12 a) s = Some (s\<lparr>pm_bitmap := b\<rparr>)"
    "\<And>q. page_free (s\<lparr>pm_bitmap := b\<rparr>) q \<longleftrightarrow> page_free s q \<or> q = drop_bit 12 a"
    by (rule mark_page_free [OF page_number_lt [of a], of s]) blast
  with True freed show ?thesis by (auto simp: pmm_free_page_def Let_def)
next
  case False
  then have "drop_bit 12 a = 0 \<or> max_pg s \<le> drop_bit 12 a" by (simp add: not_less)
  with False ignored show ?thesis by (auto simp: pmm_free_page_def Let_def)
qed

text \<open>The contract a client of the allocator relies on, and what follows from it for any
  number of successive requests.\<close>

locale page_pool =
  fixes inv :: "'s \<Rightarrow> bool"
    and free :: "'s \<Rightarrow> u32 \<Rightarrow> bool"
    and alloc :: "'s \<Rightarrow> (u32 \<times> 's) option"
    and release :: "u32 \<Rightarrow> 's \<Rightarrow> (int \<times> 's) option"
  assumes alloc_total: "inv s \<Longrightarrow> \<exists>a s'. alloc s = Some (a, s')"
    and alloc_inv: "inv s \<Longrightarrow> alloc s = Some (a, s') \<Longrightarrow> inv s'"
    and alloc_null: "inv s \<Longrightarrow> alloc s = Some (0, s') \<Longrightarrow> free s' = free s"
    and alloc_page: "inv s \<Longrightarrow> alloc s = Some (a, s') \<Longrightarrow> a \<noteq> 0 \<Longrightarrow>
      page_aligned a \<and> free s (drop_bit 12 a) \<and> free s' = (free s)(drop_bit 12 a := False)"
    and release_total: "inv s \<Longrightarrow> \<exists>r s'. release a s = Some (r, s')"
    and release_inv: "inv s \<Longrightarrow> release a s = Some (r, s') \<Longrightarrow> inv s'"
    and release_page: "inv s \<Longrightarrow> release a s = Some (r, s') \<Longrightarrow>
      free s' = (if r = 0 then free s else (free s)(drop_bit 12 a := True))"
begin

lemma alloc_occupied: "inv s \<Longrightarrow> alloc s = Some (a, s') \<Longrightarrow> \<not> free s p \<Longrightarrow> \<not> free s' p"
  using alloc_null [of s s'] alloc_page [of s a s'] by (cases "a = 0") auto

lemma alloc_fresh: "inv s \<Longrightarrow> alloc s = Some (a, s') \<Longrightarrow> a \<noteq> 0 \<Longrightarrow> \<not> free s p \<Longrightarrow> drop_bit 12 a \<noteq> p"
  using alloc_page [of s a s'] by auto

end

interpretation pmm_pool: page_pool pmm_ok page_free pmm_alloc_page pmm_free_page
proof unfold_locales
  fix s s' :: "'a pmm_scheme" and a :: u32
  assume inv: "pmm_ok s"
  show "\<exists>a s'. pmm_alloc_page s = Some (a, s')"
    by (rule pmm_alloc_page_cases [OF inv]) blast+
  show "pmm_ok s'" if "pmm_alloc_page s = Some (a, s')"
  proof (rule pmm_alloc_page_cases [OF inv])
    fix x
    assume "pmm_alloc_page s = Some (0, s\<lparr>pg_lookup_ptr := x\<rparr>)" "1 \<le> x"
    with that inv show ?thesis by (auto simp: pmm_ok_def)
  next
    fix p b
    assume "pmm_alloc_page s = Some (push_bit 12 p, s\<lparr>pg_lookup_ptr := p, pm_bitmap := b\<rparr>)" "1 \<le> p"
    with that inv show ?thesis by (auto simp: pmm_ok_def)
  qed
  show "page_free s' = page_free s" if "pmm_alloc_page s = Some (0, s')"
  proof (rule pmm_alloc_page_cases [OF inv])
    fix p b
    assume "pmm_alloc_page s = Some (push_bit 12 p, s\<lparr>pg_lookup_ptr := p, pm_bitmap := b\<rparr>)"
      "1 \<le> p" "in_bitmap p"
    then show ?thesis using that shifted_page_nonzero [of p] by simp
  qed (use that in \<open>auto simp: fun_eq_iff\<close>)
  show "page_aligned a \<and> page_free s (drop_bit 12 a)
      \<and> page_free s' = (page_free s)(drop_bit 12 a := False)"
    if "pmm_alloc_page s = Some (a, s')" "a \<noteq> 0"
  proof (rule pmm_alloc_page_cases [OF inv])
    fix p b
    assume *: "pmm_alloc_page s = Some (push_bit 12 p, s\<lparr>pg_lookup_ptr := p, pm_bitmap := b\<rparr>)"
      "1 \<le> p" "in_bitmap p" "page_free s p"
      "\<And>q. page_free (s\<lparr>pm_bitmap := b\<rparr>) q \<longleftrightarrow> page_free s q \<and> q \<noteq> p"
    have "page_aligned (push_bit 12 p)"
      by (simp only: page_aligned_def PG_OFFSET_mask) (rule bit_word_eqI, auto simp: bit_simps)
    with * that show ?thesis by (auto simp: page_number_shift fun_eq_iff)
  qed (use that in auto)
next
  fix s s' :: "'a pmm_scheme" and a :: u32 and r :: int
  assume inv: "pmm_ok s"
  show "\<exists>r s'. pmm_free_page a s = Some (r, s')"
    by (rule pmm_free_page_cases [of a s]) blast+
  assume r: "pmm_free_page a s = Some (r, s')"
  show "pmm_ok s'"
    by (rule pmm_free_page_cases [of a s]) (use inv r in \<open>auto simp: pmm_ok_def\<close>)
  show "page_free s' = (if r = 0 then page_free s else (page_free s)(drop_bit 12 a := True))"
    by (rule pmm_free_page_cases [of a s]) (use r in \<open>auto simp: fun_eq_iff\<close>)
qed

text \<open>A search from \<^verbatim>\<open>LOOKUP_START\<close> finds a page when one is free that is not the first of its byte; the
  pointer moves in steps of 8 from page 1, so the first page of a byte may be passed over.\<close>

lemma alloc_loop_finds:
  assumes "up \<le> 0x100000" "page_free s p" "unat p < unat up" "unat p mod 8 \<noteq> 0"
    "1 \<le> pg_lookup_ptr s" "unat (pg_lookup_ptr s) \<le> unat p" "unat (pg_lookup_ptr s) mod 8 \<le> 1"
  shows "\<exists>a s'. alloc_loop 0 LOOKUP_START up s = Some (a, s') \<and> a \<noteq> 0"
  using assms(2,5-7)
proof (induction "unat p - unat (pg_lookup_ptr s)" arbitrary: s rule: less_induct)
  case less
  let ?p = "pg_lookup_ptr s"
  let ?g = "unat ?p div 8" and ?c = "pm_bitmap s (of_nat (unat (pg_lookup_ptr s) div 8))"
  have lim: "unat ?p < 0x100000" "unat p < 0x100000" "?p < up"
    using assms(1,3) less.prems(3) by (auto simp: word_less_nat_alt word_le_nat_alt)
  have grp: "drop_bit 3 ?p = of_nat ?g" using lim by (simp add: drop_bit3_div8 word_unat_eq_iff unat_word)
  have get: "bmp_get s (drop_bit 3 ?p) = Some ?c"
    using lim by (simp add: bmp_get_def PM_BMP_MAX_SIZE_def grp word_less_nat_alt)
  show ?case
  proof (cases "?c = 0xFF")
    case True
    have "unat p div 8 \<noteq> ?g"
    proof
      assume "unat p div 8 = ?g"
      then have "p div 8 = of_nat ?g" using lim by (simp add: word_unat_eq_iff unat_word)
      then show False using less.prems(1) True bit_0xFF [OF page_bit_8 [of p]] by (simp add: page_free_def)
    qed
    then have "Suc ?g \<le> unat p div 8" using div_le_mono [OF less.prems(3), of 8] by linarith
    then have "8 * ?g + 9 \<le> unat p" using mult_div_mod_eq [of 8 "unat p"] assms(4) by linarith
    moreover have "unat (?p + 8) = unat ?p + 8" using lim by (subst unat_add_u32) auto
    moreover have "unat ?p \<le> 8 * ?g + 1" using less.prems(4) mult_div_mod_eq [of 8 "unat ?p"] by linarith
    moreover have "(unat ?p + 8) mod 8 \<le> 1" using less.prems(4) by simp
    moreover have "alloc_loop 0 LOOKUP_START up s = alloc_loop 0 LOOKUP_START up (s\<lparr>pg_lookup_ptr := ?p + 8\<rparr>)"
      using True get lim by (subst alloc_loop.simps) auto
    ultimately show ?thesis using less.hyps [of "s\<lparr>pg_lookup_ptr := ?p + 8\<rparr>"] less.prems lim
      by (simp add: word_le_nat_alt)
  next
    case False
    have up: "unat ?p = 8 * ?g + unat ?p mod 8" by simp
    have i: "unat (?p mod 8) = unat ?p mod 8" by (rule unat_mod8)
    have step: "alloc_loop 0 LOOKUP_START up s
        = scan_chunk ?c (unat ?p mod 8) s \<bind> (\<lambda>(good, s'). alloc_loop good LOOKUP_START up s')"
      using lim get False by (subst alloc_loop.simps) (simp add: i)
    from scan_chunk_spec [OF _ up, of ?c] lim consider
      (found) p b where "scan_chunk ?c (unat ?p mod 8) s = Some (push_bit 12 p, s\<lparr>pg_lookup_ptr := p, pm_bitmap := b\<rparr>)"
        "?p \<le> p" "in_bitmap p"
    | (none) "scan_chunk ?c (unat ?p mod 8) s = Some (0, s\<lparr>pg_lookup_ptr := of_nat (8 * ?g + 8)\<rparr>)"
        "\<forall>q. 8 * ?g + unat ?p mod 8 \<le> unat q \<and> unat q < 8 * ?g + 8 \<longrightarrow> \<not> page_free s q"
      by fastforce
    then show ?thesis
    proof cases
      case found
      have "1 \<le> p" using less.prems(2) found(2) by (rule order_trans)
      then show ?thesis using found shifted_page_nonzero [of p] by (simp add: step alloc_loop_done)
    next
      case none
      let ?s = "s\<lparr>pg_lookup_ptr := of_nat (8 * ?g + 8)\<rparr>"
      have u: "unat (of_nat (8 * ?g + 8) :: u32) = 8 * ?g + 8" using lim by (intro unat_of_nat_u32) auto
      have "8 * ?g + 8 \<le> unat p" using none(2) less.prems(1,3) up by (metis not_less)
      then have "\<exists>a s'. alloc_loop 0 LOOKUP_START up ?s = Some (a, s') \<and> a \<noteq> 0"
        using less.hyps [of ?s] less.prems u up by (simp add: word_le_nat_alt del: of_nat_add of_nat_mult)
      then show ?thesis by (simp add: step none del: of_nat_add of_nat_mult)
    qed
  qed
qed

lemma pmm_alloc_page_finds:
  assumes "pmm_ok s" "pg_lookup_ptr s = LOOKUP_START" "page_free s p" "p < max_pg s" "p mod 8 \<noteq> 0"
  obtains a s' where "pmm_alloc_page s = Some (a, s')" "a \<noteq> 0"
proof -
  have m: "unat p mod 8 \<noteq> 0" using assms(5) by (metis unat_mod8 unat_0 word_unat_eq_iff)
  then have "unat LOOKUP_START \<le> unat p" by (cases "unat p") (auto simp: LOOKUP_START_def)
  then have "\<exists>a s'. alloc_loop 0 LOOKUP_START (max_pg s) s = Some (a, s') \<and> a \<noteq> 0"
    using assms m by (intro alloc_loop_finds [where p = p]) (simp_all add: pmm_ok_def word_less_nat_alt LOOKUP_START_def)
  then show ?thesis using that by (auto simp: pmm_alloc_page_def assms(2))
qed

section \<open>Properties\<close>

lemma pmm_init_run:
  obtains b where "pmm_init mem_upper_lim s = Some (s\<lparr>max_pg := drop_bit 12 mem_upper_lim, pg_lookup_ptr := LOOKUP_START, pm_bitmap := b\<rparr>)"
    "pmm_ok (s\<lparr>max_pg := drop_bit 12 mem_upper_lim, pg_lookup_ptr := LOOKUP_START, pm_bitmap := b\<rparr>)"
    "\<And>p. in_bitmap p \<Longrightarrow> \<not> page_free (s\<lparr>max_pg := drop_bit 12 mem_upper_lim, pg_lookup_ptr := LOOKUP_START, pm_bitmap := b\<rparr>) p"
proof -
  let ?t = "s\<lparr>max_pg := drop_bit 12 mem_upper_lim, pg_lookup_ptr := LOOKUP_START\<rparr>"
  let ?b = "\<lambda>x. if unat (0 :: u32) \<le> unat x \<and> unat x < unat (0 :: u32) + 131072 then 0xFF else pm_bitmap ?t x"
  have max: "drop_bit 12 (PG_ALIGN mem_upper_lim) = drop_bit 12 mem_upper_lim"
    by (simp add: word_unat_eq_iff unat_word minus_mod_eq_mult_div)
  have "unat PM_BMP_MAX_SIZE = 131072" by (simp add: PM_BMP_MAX_SIZE_def)
  then have "pmm_init mem_upper_lim s = Some (?t\<lparr>pm_bitmap := ?b\<rparr>)"
    by (simp add: pmm_init_def max bmp_fill_spec Let_def cong: if_cong)
  moreover have "pmm_ok (?t\<lparr>pm_bitmap := ?b\<rparr>)"
    using unat_lt32 [of mem_upper_lim] less_mult_imp_div_less [of "unat mem_upper_lim" 1048576 4096]
    by (simp add: pmm_ok_def LOOKUP_START_def word_le_nat_alt unat_word)
  moreover have "\<not> page_free (?t\<lparr>pm_bitmap := ?b\<rparr>) p" if "in_bitmap p" for p
    using that bit_0xFF [OF page_bit_8 [of p]]
    by (auto simp: page_free_def in_bitmap_def word_less_nat_alt unat_word)
  ultimately show ?thesis by (intro that [of ?b]) simp_all
qed

text \<open>\<^verbatim>\<open>pmm_init\<close> succeeds, marks every page of the bitmap occupied, starts the search at
  page 1, and sets the limit to the number of whole pages below the given address.\<close>

theorem pmm_init_correct:
  "\<exists>s'. pmm_init mem_upper_lim s = Some s' \<and> pmm_ok s' \<and> pg_lookup_ptr s' = LOOKUP_START
     \<and> unat (max_pg s') = unat mem_upper_lim div 4096
     \<and> (\<forall>p. in_bitmap p \<longrightarrow> \<not> page_free s' p)"
  by (rule pmm_init_run [of mem_upper_lim s], rule exI, (intro conjI allI impI; assumption?)) (simp_all add: unat_word)

lemma pmm_init_correct_witness:
  "in_bitmap 1000 \<and> (\<exists>s'. pmm_init 0x400FFF \<lparr>pm_bitmap = (\<lambda>_. 0), max_pg = 0, pg_lookup_ptr = 0\<rparr> = Some s'
     \<and> pmm_ok s' \<and> unat (max_pg s') = 1024 \<and> \<not> page_free s' 1000)"
proof -
  have "in_bitmap 1000" by (simp add: in_bitmap_def)
  then show ?thesis
    using pmm_init_correct [of "0x400FFF" "\<lparr>pm_bitmap = (\<lambda>_. 0), max_pg = 0, pg_lookup_ptr = 0\<rparr>"] by auto
qed

text \<open>C21: \<^verbatim>\<open>pmm_alloc_page\<close> always terminates inside the bitmap; it returns NULL and changes no
  page, or the address of a page other than page 0 that was free, which it marks occupied while
  every other page keeps its state.\<close>

theorem pmm_alloc_page_correct:
  assumes "pmm_ok s"
  shows "\<exists>p s'. pmm_alloc_page s = Some (push_bit 12 p, s') \<and> pmm_ok s' \<and> max_pg s' = max_pg s
    \<and> (if p = 0 then \<forall>q. page_free s' q = page_free s q
       else in_bitmap p \<and> page_free s p \<and> (\<forall>q. page_free s' q \<longleftrightarrow> page_free s q \<and> q \<noteq> p))"
proof (rule pmm_alloc_page_cases [OF assms])
  fix x
  assume "pmm_alloc_page s = Some (0, s\<lparr>pg_lookup_ptr := x\<rparr>)" "1 \<le> x"
  with assms show ?thesis
    by (intro exI [of _ 0] exI [of _ "s\<lparr>pg_lookup_ptr := x\<rparr>"]) (simp add: pmm_ok_def)
next
  fix p b
  assume "pmm_alloc_page s = Some (push_bit 12 p, s\<lparr>pg_lookup_ptr := p, pm_bitmap := b\<rparr>)"
    "1 \<le> p" "in_bitmap p" "page_free s p"
    "\<And>q. page_free (s\<lparr>pm_bitmap := b\<rparr>) q \<longleftrightarrow> page_free s q \<and> q \<noteq> p"
  note page = this
  let ?s = "s\<lparr>pg_lookup_ptr := p, pm_bitmap := b\<rparr>"
  have "p \<noteq> 0" using page(2) by auto
  moreover have "pmm_ok ?s" "max_pg ?s = max_pg s" using assms page(2) by (simp_all add: pmm_ok_def)
  moreover have "\<forall>q. page_free ?s q \<longleftrightarrow> page_free s q \<and> q \<noteq> p"
    using page(5) by (simp only: page_free_bitmap) blast
  ultimately show ?thesis using page(1,3,4) by (intro exI [of _ p] exI [of _ ?s]) simp
qed

text \<open>A small pool for the witnesses: 32 pages, of which only page 10 is free.\<close>

definition pool1 :: pmm where
  "pool1 = \<lparr>pm_bitmap = (\<lambda>g. if g = 1 then 0xDF else 0xFF), max_pg = 32, pg_lookup_ptr = 1\<rparr>"

lemma pool1_ok: "pmm_ok pool1"
  by (simp add: pool1_def pmm_ok_def)

lemma pmm_alloc_page_correct_witness:
  "pmm_ok pool1 \<and> (\<exists>p s'. pmm_alloc_page pool1 = Some (push_bit 12 p, s') \<and> pmm_ok s'
    \<and> max_pg s' = max_pg pool1
    \<and> (if p = 0 then \<forall>q. page_free s' q = page_free pool1 q
       else in_bitmap p \<and> page_free pool1 p \<and> (\<forall>q. page_free s' q \<longleftrightarrow> page_free pool1 q \<and> q \<noteq> p)))"
  using pool1_ok pmm_alloc_page_correct [OF pool1_ok] by blast

text \<open>\<^verbatim>\<open>pmm_free_page\<close> accepts exactly the addresses of pages other than page 0 below the
  limit: it then returns 1 and that page, and no other, becomes free; otherwise it returns 0
  and changes nothing.\<close>

theorem pmm_free_page_correct:
  "\<exists>r s'. pmm_free_page a s = Some (r, s')
     \<and> (r = 1 \<longleftrightarrow> PG_ALIGN a \<noteq> 0 \<and> drop_bit 12 a < max_pg s) \<and> (r = 0 \<or> r = 1)
     \<and> (\<forall>q. page_free s' q \<longleftrightarrow> page_free s q \<or> r = 1 \<and> q = drop_bit 12 a)"
proof -
  have "drop_bit 12 a = 0 \<longleftrightarrow> PG_ALIGN a = 0"
    by (simp add: word_unat_eq_iff unat_word minus_mod_eq_mult_div)
  then show ?thesis
    by (cases rule: pmm_free_page_cases [of a s]) auto
qed

text \<open>C25: marking a run of pages free or occupied touches exactly the requested pages when the run
  is longer than 8 pages or stays within one byte of the bitmap (\<open>chunk_covers\<close>), as long as
  it ends below page \<^verbatim>\<open>0x100000\<close>.\<close>

theorem pmm_mark_chunk_exact:
  assumes "chunk_in_bitmap st c" and "8 < c \<or> unat (st mod 8) + unat c \<le> 8"
  shows "\<exists>s1 s2. pmm_mark_chunk_free st c s = Some s1 \<and> pmm_mark_chunk_occupied st c s = Some s2
    \<and> (\<forall>q. page_free s1 q \<longleftrightarrow> page_free s q \<or> st \<le> q \<and> unat q < unat st + unat c)
    \<and> (\<forall>q. page_free s2 q \<longleftrightarrow> page_free s q \<and> \<not> (st \<le> q \<and> unat q < unat st + unat c))"
proof -
  have covers: "chunk_covers st c q \<longleftrightarrow> st \<le> q \<and> unat q < unat st + unat c" for q
    using assms(2) by (simp add: chunk_covers_def)
  obtain b1 where "pmm_mark_chunk_free st c s = Some (s\<lparr>pm_bitmap := b1\<rparr>)"
    "\<And>q. page_free (s\<lparr>pm_bitmap := b1\<rparr>) q \<longleftrightarrow> page_free s q \<or> chunk_covers st c q"
    by (rule mark_chunk_free_hit [OF assms(1), of s]) blast
  moreover obtain b2 where "pmm_mark_chunk_occupied st c s = Some (s\<lparr>pm_bitmap := b2\<rparr>)"
    "\<And>q. page_free (s\<lparr>pm_bitmap := b2\<rparr>) q \<longleftrightarrow> page_free s q \<and> \<not> chunk_covers st c q"
    by (rule mark_chunk_occupied_hit [OF assms(1), of s]) blast
  ultimately show ?thesis unfolding covers by blast
qed

lemma pmm_mark_chunk_exact_witness:
  "\<exists>s1 s2. pmm_mark_chunk_free 3 20 pool1 = Some s1 \<and> pmm_mark_chunk_occupied 3 20 pool1 = Some s2
    \<and> (\<forall>q. page_free s1 q \<longleftrightarrow> page_free pool1 q \<or> 3 \<le> q \<and> unat q < unat (3 :: u32) + unat (20 :: u32))
    \<and> (\<forall>q. page_free s2 q \<longleftrightarrow> page_free pool1 q \<and> \<not> (3 \<le> q \<and> unat q < unat (3 :: u32) + unat (20 :: u32)))"
  by (rule pmm_mark_chunk_exact) (simp_all add: chunk_in_bitmap_def)

lemma byte_boundary_crossed:
  fixes a c :: nat
  assumes "8 < a mod 8 + c"
  shows "(a + c - 1) div 8 \<noteq> a div 8"
proof
  assume eq: "(a + c - 1) div 8 = a div 8"
  have "a + c - 1 = 8 * ((a + c - 1) div 8) + (a + c - 1) mod 8" by simp
  also have "\<dots> < 8 * (a div 8) + 8" unfolding eq by simp
  finally show False using assms mult_div_mod_eq [of 8 a] by linarith
qed

text \<open>A run of at most 8 pages that crosses a byte boundary of the bitmap is only marked up to
  that boundary: the last page of the run keeps its state (the tail mask is dropped because the
  code compares \<^verbatim>\<open>page_count\<close> and not \<^verbatim>\<open>page_count + offset\<close> with 8).\<close>

theorem pmm_mark_chunk_short_run_cut:
  assumes "chunk_in_bitmap st c" and "c \<le> 8" and "8 < unat (st mod 8) + unat c"
    and "\<not> page_free s (st + c - 1)"
  shows "\<exists>s'. pmm_mark_chunk_free st c s = Some s' \<and> \<not> page_free s' (st + c - 1)
    \<and> (\<forall>q. page_free s' q \<longleftrightarrow> page_free s q \<or> st \<le> q \<and> q div 8 = st div 8)"
proof -
  have small: "unat st + unat c < 0x100000" using assms(1) by (simp add: chunk_in_bitmap_def)
  have c: "unat c \<le> 8" using assms(2) by (simp add: word_le_nat_alt)
  have covers: "chunk_covers st c q \<longleftrightarrow> st \<le> q \<and> q div 8 = st div 8" for q
    using assms(3) c by (simp add: chunk_covers_def word_less_nat_alt)
  obtain b where b: "pmm_mark_chunk_free st c s = Some (s\<lparr>pm_bitmap := b\<rparr>)"
    "\<And>q. page_free (s\<lparr>pm_bitmap := b\<rparr>) q \<longleftrightarrow> page_free s q \<or> chunk_covers st c q"
    by (rule mark_chunk_free_hit [OF assms(1), of s]) blast
  have "unat (st + c) = unat st + unat c" using small by (intro unat_add_u32) simp
  then have "unat (st + c - 1) = unat st + unat c - 1"
    using assms(3) by (subst unat_sub_u32) (auto simp: unat_word)
  then have "(st + c - 1) div 8 \<noteq> st div 8"
    using byte_boundary_crossed [of "unat st" "unat c"] assms(3)
    by (metis unat_div8 unat_mod8)
  with b assms(4) show ?thesis unfolding covers by blast
qed

lemma pmm_mark_chunk_short_run_cut_witness:
  "\<exists>s'. pmm_mark_chunk_free 4 8 pool1 = Some s' \<and> \<not> page_free s' (4 + 8 - 1)
    \<and> (\<forall>q. page_free s' q \<longleftrightarrow> page_free pool1 q \<or> 4 \<le> q \<and> q div 8 = 4 div 8)"
  by (rule pmm_mark_chunk_short_run_cut)
    (simp_all add: chunk_in_bitmap_def page_free_def pool1_def)

subsection \<open>Exhaustion\<close>

lemma alloc_loop_exhausted:
  assumes "alloc_loop good old up s = Some (g, s')" and "old = LOOKUP_START" and "g = 0"
  shows "up \<le> pg_lookup_ptr s'"
proof -
  have "old = LOOKUP_START \<longrightarrow> fst r = 0 \<longrightarrow> up \<le> pg_lookup_ptr (snd r)"
    if "alloc_loop good old up s = Some r" for r
  proof (rule alloc_loop.raw_induct [where P = "\<lambda>good old up s r. old = LOOKUP_START \<longrightarrow>
      fst r = 0 \<longrightarrow> up \<le> pg_lookup_ptr (snd r)", OF _ that])
    fix f good old up and s :: "'a pmm_scheme" and r :: "u32 \<times> 'a pmm_scheme"
    assume IH: "\<And>good old up s r. f good old up s = Some r \<Longrightarrow>
        old = LOOKUP_START \<longrightarrow> fst r = 0 \<longrightarrow> up \<le> pg_lookup_ptr (snd r)"
      and eq: "(if good = 0 \<and> pg_lookup_ptr s < up then do {
        chunk \<leftarrow> bmp_get s (drop_bit 3 (pg_lookup_ptr s));
        if chunk \<noteq> 0xFF then do {
          (good, s') \<leftarrow> scan_chunk chunk (unat (pg_lookup_ptr s mod 8)) s;
          f good old up s'
        } else do {
          let s' = s\<lparr>pg_lookup_ptr := pg_lookup_ptr s + 8\<rparr>;
          if up \<le> pg_lookup_ptr s' \<and> old \<noteq> LOOKUP_START
          then f 0 LOOKUP_START old (s'\<lparr>pg_lookup_ptr := LOOKUP_START\<rparr>)
          else f 0 old up s'
        }
      } else Some (good, s)) = Some r"
    show "old = LOOKUP_START \<longrightarrow> fst r = 0 \<longrightarrow> up \<le> pg_lookup_ptr (snd r)"
    proof (cases "good = 0 \<and> pg_lookup_ptr s < up")
      case True
      show ?thesis
      proof
        assume "old = LOOKUP_START"
        with eq True have "\<exists>good' s''. f good' old up s'' = Some r"
          by (auto simp: Let_def split: Option.bind_splits if_splits prod.splits)
        with IH show "fst r = 0 \<longrightarrow> up \<le> pg_lookup_ptr (snd r)"
          using \<open>old = LOOKUP_START\<close> by blast
      qed
    next
      case False
      with eq show ?thesis by auto
    qed
  qed
  from this [OF assms(1)] assms(2,3) show ?thesis by simp
qed

lemma pmm_alloc_page_frame:
  assumes "pmm_ok s"
  shows "\<exists>p x b. pmm_alloc_page s = Some (push_bit 12 p, s\<lparr>pg_lookup_ptr := x, pm_bitmap := b\<rparr>)"
proof (rule pmm_alloc_page_cases [OF assms])
  fix x
  assume "pmm_alloc_page s = Some (0, s\<lparr>pg_lookup_ptr := x\<rparr>)"
  moreover have "s\<lparr>pg_lookup_ptr := x, pm_bitmap := pm_bitmap s\<rparr> = s\<lparr>pg_lookup_ptr := x\<rparr>" by simp
  ultimately show ?thesis by (metis push_bit_of_0)
qed blast

text \<open>Once a search that began at page 1 has failed, the pointer stays behind the limit and
  every later request fails too, even right after a page has been released.\<close>

theorem pmm_exhausted_stays_exhausted:
  assumes "pmm_ok s" and "pg_lookup_ptr s = LOOKUP_START"
    and "pmm_alloc_page s = Some (0, s1)"
    and "pmm_free_page a s1 = Some (1, s2)"
  shows "page_free s2 (drop_bit 12 a) \<and> pmm_alloc_page s2 = Some (0, s2)"
proof -
  have p: "max_pg s1 = max_pg s"
    using pmm_alloc_page_frame [OF assms(1)] assms(3) by auto
  have "max_pg s1 \<le> pg_lookup_ptr s1"
    using alloc_loop_exhausted [OF assms(3) [unfolded pmm_alloc_page_def]] assms(2) p by simp
  moreover obtain b where b: "s2 = s1\<lparr>pm_bitmap := b\<rparr>" "page_free s2 (drop_bit 12 a)"
    by (cases rule: pmm_free_page_cases [of a s1]) (use assms(4) in auto)
  ultimately show ?thesis
    unfolding pmm_alloc_page_def by (subst alloc_loop.simps) (auto simp: not_less)
qed

definition pool2 :: pmm where
  "pool2 = \<lparr>pm_bitmap = (\<lambda>g. 0xFF), max_pg = 16, pg_lookup_ptr = 1\<rparr>"

lemma pmm_exhausted_stays_exhausted_witness:
  "\<exists>s1 s2. pmm_alloc_page pool2 = Some (0, s1) \<and> pmm_free_page 0x3000 s1 = Some (1, s2)
    \<and> page_free s2 3 \<and> pmm_alloc_page s2 = Some (0, s2)"
proof -
  let ?s1 = "pool2\<lparr>pg_lookup_ptr := 17\<rparr>"
  have a: "pmm_alloc_page pool2 = Some (0, ?s1)"
    by (simp add: pmm_alloc_page_def pool2_def alloc_loop.simps bmp_get_def PM_BMP_MAX_SIZE_def
        LOOKUP_START_def Let_def)
  obtain s2 where f: "pmm_free_page 0x3000 ?s1 = Some (1, s2)"
    by (cases rule: pmm_free_page_cases [of "0x3000" ?s1]) (auto simp: pool2_def)
  have ok: "pmm_ok pool2" "pg_lookup_ptr pool2 = LOOKUP_START"
    by (simp_all add: pool2_def pmm_ok_def LOOKUP_START_def)
  from pmm_exhausted_stays_exhausted [OF ok a f] a f show ?thesis by auto
qed

text \<open>A search moves in steps of 8 from page 1 and so passes over the first page of a byte whose predecessors
  are full: with page 8 the only free page below the limit, \<^verbatim>\<open>pmm_alloc_page\<close> on a fresh allocator answers NULL.\<close>

theorem pmm_alloc_page_misses_free_page:
  assumes "pg_lookup_ptr s = LOOKUP_START" "max_pg s = 16" "pm_bitmap s 0 = 0xFF" "pm_bitmap s 1 = 0x7F"
  shows "page_free s 8 \<and> pmm_alloc_page s = Some (0, s\<lparr>pg_lookup_ptr := 16\<rparr>)"
proof
  show "page_free s 8" using assms(4) by (simp add: page_free_def bit_iff_odd_drop_bit)
  show "pmm_alloc_page s = Some (0, s\<lparr>pg_lookup_ptr := 16\<rparr>)"
    unfolding pmm_alloc_page_def
    using assms by (simp add: alloc_loop.simps scan_chunk.simps bmp_get_def PM_BMP_MAX_SIZE_def LOOKUP_START_def Let_def)
qed

lemma pmm_alloc_page_misses_free_page_witness:
  "\<exists>s :: pmm. page_free s 8 \<and> max_pg s = 16 \<and> pmm_alloc_page s = Some (0, s\<lparr>pg_lookup_ptr := 16\<rparr>)"
  using pmm_alloc_page_misses_free_page [of "\<lparr>pm_bitmap = (\<lambda>g. if g = 1 then 0x7F else 0xFF), max_pg = 16, pg_lookup_ptr = 1\<rparr>"]
  by (intro exI [of _ "\<lparr>pm_bitmap = (\<lambda>g. if g = 1 then 0x7F else 0xFF), max_pg = 16, pg_lookup_ptr = 1\<rparr>"])
    (simp add: LOOKUP_START_def)

subsection \<open>Every page has one owner\<close>

text \<open>Histories of the allocator: requests and releases of pages that are out. The second
  argument is the set of addresses handed out and not yet released.\<close>

inductive pool_run :: "'a pmm_scheme \<Rightarrow> u32 set \<Rightarrow> bool" where
  start: "pmm_ok s \<Longrightarrow> pool_run s {}"
| request: "pool_run s out \<Longrightarrow> pmm_alloc_page s = Some (a, s') \<Longrightarrow> a \<noteq> 0 \<Longrightarrow>
    pool_run s' (insert a out)"
| refused: "pool_run s out \<Longrightarrow> pmm_alloc_page s = Some (0, s') \<Longrightarrow> pool_run s' out"
| released: "pool_run s out \<Longrightarrow> a \<in> out \<Longrightarrow> pmm_free_page a s = Some (1, s') \<Longrightarrow>
    pool_run s' (out - {a})"

definition owned_ok :: "'a pmm_scheme \<Rightarrow> u32 set \<Rightarrow> bool" where
  "owned_ok s out \<longleftrightarrow> pmm_ok s \<and>
     (\<forall>a \<in> out. page_aligned a \<and> \<not> page_free s (drop_bit 12 a))"

lemma push_drop_12: "push_bit 12 (drop_bit 12 a) = PG_ALIGN a"
proof -
  have "unat (drop_bit 12 a) * 2 ^ 12 < 4294967296"
    using unat_lt32 [of a] by (simp add: unat_word le_less_trans [OF div_times_less_eq_dividend])
  then show ?thesis
    by (simp add: word_unat_eq_iff unat_push_bit_u32 unat_word minus_mod_eq_div_mult)
qed

lemma aligned_page_number: "page_aligned a \<Longrightarrow> push_bit 12 (drop_bit 12 a) = a"
  by (simp add: push_drop_12 PG_ALIGN_id)

lemma pool_run_owned: "pool_run s out \<Longrightarrow> owned_ok s out"
proof (induction rule: pool_run.induct)
  case (start s)
  then show ?case by (simp add: owned_ok_def)
next
  case (request s out a s')
  then have ok: "pmm_ok s" by (simp add: owned_ok_def)
  have "page_aligned a" "\<not> page_free s' (drop_bit 12 a)"
    using pmm_pool.alloc_page [OF ok request.hyps(2,3)] by auto
  with request pmm_pool.alloc_occupied [OF ok request.hyps(2)] pmm_pool.alloc_inv [OF ok request.hyps(2)]
  show ?case by (auto simp: owned_ok_def)
next
  case (refused s out s')
  then have ok: "pmm_ok s" by (simp add: owned_ok_def)
  with refused pmm_pool.alloc_null [OF ok refused.hyps(2)] pmm_pool.alloc_inv [OF ok refused.hyps(2)]
  show ?case by (simp add: owned_ok_def)
next
  case (released s out a s')
  then have ok: "pmm_ok s" by (simp add: owned_ok_def)
  have free: "page_free s' = (page_free s)(drop_bit 12 a := True)"
    using pmm_pool.release_page [OF ok released.hyps(3)] by simp
  have "drop_bit 12 b \<noteq> drop_bit 12 a" if "b \<in> out - {a}" for b
    using that released aligned_page_number [of a] aligned_page_number [of b]
    by (auto simp: owned_ok_def)
  with released pmm_pool.release_inv [OF ok released.hyps(3)] show ?case
    by (auto simp: owned_ok_def free)
qed

text \<open>C3: in every history of requests and releases, a request never hands out a page that is
  already out, and never page 0.\<close>

theorem pmm_no_double_allocation:
  assumes "pool_run s out" and "pmm_alloc_page s = Some (a, s')" and "a \<noteq> 0"
  shows "a \<notin> out \<and> page_aligned a"
proof -
  have own: "owned_ok s out" using assms(1) by (rule pool_run_owned)
  then have "page_aligned a \<and> page_free s (drop_bit 12 a)"
    using pmm_pool.alloc_page [OF _ assms(2,3)] by (auto simp: owned_ok_def)
  with own show ?thesis by (auto simp: owned_ok_def)
qed

lemma pmm_no_double_allocation_witness:
  "\<exists>a s'. pmm_alloc_page pool1 = Some (a, s') \<and> a \<noteq> 0 \<and> a \<notin> {} \<and> page_aligned a"
proof -
  have a: "pmm_alloc_page pool1 = Some (0xA000, pool1\<lparr>pg_lookup_ptr := 10,
      pm_bitmap := (pm_bitmap pool1)(1 := 0xFF)\<rparr>)"
    by (simp add: pmm_alloc_page_def pool1_def alloc_loop.simps scan_chunk.simps bmp_get_def
        bmp_set_def PM_BMP_MAX_SIZE_def LOOKUP_START_def Let_def pmm_mark_page_occupied_def
        page_group_def page_msk_def)
  then show ?thesis
    using pmm_no_double_allocation [OF pool_run.start [OF pool1_ok] a] by auto
qed

end
