(* ===== verification/Mmu.thy ===== *)
theory Mmu
  imports Pmm
begin

text \<open>
  The machine behind \<^verbatim>\<open>kernel/mm/vmm.c\<close>: physical memory, the page directory register
  \<^verbatim>\<open>cr3\<close>, and the two-level page walk of a 32-bit x86 with 4 KiB pages (the boot code sets
  \<^verbatim>\<open>CR0.PG\<close> and neither \<^verbatim>\<open>CR0.WP\<close> nor \<^verbatim>\<open>CR4.PSE\<close>, so supervisor accesses only need the
  present bits). Every load and store of the kernel goes through the walk; a page fault is the
  result \<open>None\<close>. \<open>invlpg_log\<close> records the \<^verbatim>\<open>invlpg\<close> instructions
  (\<^verbatim>\<open>cpu_invplg\<close> of \<^verbatim>\<open>includes/hal/cpu.h\<close>); the TLB itself is not modelled. The last
  section shows that page-table entries read through the recursive mapping are the entries
  of the tables themselves.
\<close>

unbundle bit_operations_syntax

section \<open>State and page walk\<close>

record vm = pmm +
  phys :: mem
  cr3 :: u32
  invlpg_log :: "u32 list"

definition mmu_translate :: "'a vm_scheme \<Rightarrow> u32 \<Rightarrow> u32 option" where
  "mmu_translate s va =
     (let pde = load32 (phys s) (PG_ALIGN (cr3 s) + 4 * L1_INDEX va) in
      if IS_CACHED pde then
        let pte = load32 (phys s) (PG_ALIGN pde + 4 * L2_INDEX va) in
        if IS_CACHED pte then Some (PG_ALIGN pte + PG_OFFSET va) else None
      else None)"

definition vload8 :: "'a vm_scheme \<Rightarrow> u32 \<Rightarrow> u8 option" where
  "vload8 s va = do { p \<leftarrow> mmu_translate s va; Some (phys s p) }"

definition vstore8 :: "u32 \<Rightarrow> u8 \<Rightarrow> 'a vm_scheme \<Rightarrow> 'a vm_scheme option" where
  "vstore8 va v s = do { p \<leftarrow> mmu_translate s va; Some (s\<lparr>phys := (phys s)(p := v)\<rparr>) }"

text \<open>A 32-bit access translates each of its four bytes before it touches memory, so that an
  access across a page boundary behaves as on the machine.\<close>

definition vload32 :: "'a vm_scheme \<Rightarrow> u32 \<Rightarrow> u32 option" where
  "vload32 s va = do {
     p0 \<leftarrow> mmu_translate s va;
     p1 \<leftarrow> mmu_translate s (va + 1);
     p2 \<leftarrow> mmu_translate s (va + 2);
     p3 \<leftarrow> mmu_translate s (va + 3);
     Some (ucast (phys s p0) OR push_bit 8 (ucast (phys s p1))
       OR push_bit 16 (ucast (phys s p2)) OR push_bit 24 (ucast (phys s p3)))
   }"

definition vstore32 :: "u32 \<Rightarrow> u32 \<Rightarrow> 'a vm_scheme \<Rightarrow> 'a vm_scheme option" where
  "vstore32 va v s = do {
     p0 \<leftarrow> mmu_translate s va;
     p1 \<leftarrow> mmu_translate s (va + 1);
     p2 \<leftarrow> mmu_translate s (va + 2);
     p3 \<leftarrow> mmu_translate s (va + 3);
     Some (s\<lparr>phys := (phys s)(p0 := ucast v, p1 := ucast (drop_bit 8 v),
       p2 := ucast (drop_bit 16 v), p3 := ucast (drop_bit 24 v))\<rparr>)
   }"

text \<open>\<^verbatim>\<open>memset\<close> of \<^verbatim>\<open>libs/klibc/string/mem.c\<close> on the running kernel's address space.\<close>

fun vmemset :: "nat \<Rightarrow> u32 \<Rightarrow> u8 \<Rightarrow> 'a vm_scheme \<Rightarrow> 'a vm_scheme option" where
  "vmemset 0 c_ptr value s = Some s"
| "vmemset (Suc num) c_ptr value s = do {
     s' \<leftarrow> vstore8 c_ptr value s;
     vmemset num (c_ptr + 1) value s'
   }"

definition cpu_invplg :: "u32 \<Rightarrow> 'a vm_scheme \<Rightarrow> 'a vm_scheme" where
  "cpu_invplg va s = s\<lparr>invlpg_log := va # invlpg_log s\<rparr>"

section \<open>Aligned accesses\<close>

lemma aligned4_page:
  assumes "aligned4 a" and "k < 4"
  shows "PG_OFFSET (a + k) = PG_OFFSET a + k" and "PG_ALIGN (a + k) = PG_ALIGN a"
proof -
  have "4 dvd unat (PG_OFFSET a)"
    using assms(1) by (simp add: aligned4_unat unat_PG_OFFSET dvd_mod)
  moreover have "unat (PG_OFFSET a) < 4096" by (simp add: unat_PG_OFFSET)
  ultimately have o: "unat (PG_OFFSET a) \<le> 4092" by (auto elim!: dvdE)
  have k: "unat k < 4" using assms(2) by (simp add: word_less_nat_alt)
  have u: "unat (PG_OFFSET a + k) = unat (PG_OFFSET a) + unat k"
    using o k by (intro unat_add_u32) simp
  have "PG_OFFSET a + k < 4096" using u o k by (simp add: word_less_nat_alt)
  then have "PG_ALIGN (PG_ALIGN a + (PG_OFFSET a + k)) = PG_ALIGN a"
    and "PG_OFFSET (PG_ALIGN a + (PG_OFFSET a + k)) = PG_OFFSET a + k"
    using page_add [OF PG_ALIGN_aligned] by blast+
  moreover have "PG_ALIGN a + (PG_OFFSET a + k) = a + k"
    by (metis page_split add.assoc)
  ultimately show "PG_OFFSET (a + k) = PG_OFFSET a + k" and "PG_ALIGN (a + k) = PG_ALIGN a"
    by simp_all
qed

lemma index_PG_ALIGN: "L1_INDEX va = L1_INDEX (PG_ALIGN va)" "L2_INDEX va = L2_INDEX (PG_ALIGN va)"
  unfolding L1_INDEX_drop L2_INDEX_take PG_ALIGN_mask
  by (rule bit_word_eqI, auto simp: bit_simps dest: bit_imp_le_length)+

lemma mmu_translate_same_page:
  assumes "PG_ALIGN va = PG_ALIGN va'"
  shows "mmu_translate s va = None \<longleftrightarrow> mmu_translate s va' = None"
    and "mmu_translate s va = Some p \<Longrightarrow> PG_OFFSET va' = PG_OFFSET va + k \<Longrightarrow> mmu_translate s va' = Some (p + k)"
  using index_PG_ALIGN [of va] index_PG_ALIGN [of va'] assms
  by (auto simp: mmu_translate_def Let_def split: if_splits)

lemma mmu_translate_aligned4:
  assumes "aligned4 va" and "mmu_translate s va = Some p"
  shows "mmu_translate s (va + 1) = Some (p + 1)" "mmu_translate s (va + 2) = Some (p + 2)"
    "mmu_translate s (va + 3) = Some (p + 3)"
  by (rule mmu_translate_same_page(2) [OF _ assms(2)]; use assms(1) in \<open>simp add: aligned4_page\<close>)+

lemma vload32_aligned:
  assumes "aligned4 va"
  shows "vload32 s va = map_option (load32 (phys s)) (mmu_translate s va)"
proof (cases "mmu_translate s va")
  case (Some p)
  then show ?thesis
    using mmu_translate_aligned4 [OF assms Some] by (simp add: vload32_def load32_def)
qed (simp add: vload32_def)

lemma vstore32_aligned:
  assumes "aligned4 va"
  shows "vstore32 va v s = map_option (\<lambda>p. s\<lparr>phys := store32 (phys s) p v\<rparr>) (mmu_translate s va)"
proof (cases "mmu_translate s va")
  case (Some p)
  then show ?thesis
    using mmu_translate_aligned4 [OF assms Some] by (simp add: vstore32_def store32_def)
qed (simp add: vstore32_def)

section \<open>Page tables\<close>

text \<open>\<open>l1e s i\<close>: entry \<open>i\<close> of the page directory; \<open>tbl s i\<close>: the frame it names;
  \<open>l2e s i j\<close>: entry \<open>j\<close> of that table. These are reads of physical memory, the abstract
  view of the tables.\<close>

definition l1e :: "'a vm_scheme \<Rightarrow> u32 \<Rightarrow> u32" where
  "l1e s i = load32 (phys s) (cr3 s + 4 * i)"

definition tbl :: "'a vm_scheme \<Rightarrow> u32 \<Rightarrow> u32" where
  "tbl s i = PG_ALIGN (l1e s i)"

definition l2e :: "'a vm_scheme \<Rightarrow> u32 \<Rightarrow> u32 \<Rightarrow> u32" where
  "l2e s i j = load32 (phys s) (tbl s i + 4 * j)"

text \<open>The page tables are well formed: the last directory entry maps the directory itself,
  every non-zero directory entry is present, no two entries name the same frame, and no frame
  of a table is free in the page allocator.\<close>

definition vm_ok :: "'a vm_scheme \<Rightarrow> bool" where
  "vm_ok s \<longleftrightarrow> pmm_ok s \<and> page_aligned (cr3 s) \<and> l1e s 1023 \<noteq> 0 \<and> tbl s 1023 = cr3 s
     \<and> (\<forall>i < 1024. l1e s i \<noteq> 0 \<longrightarrow> IS_CACHED (l1e s i) \<and> \<not> page_free s (drop_bit 12 (tbl s i)))
     \<and> (\<forall>i < 1024. \<forall>j < 1024. l1e s i \<noteq> 0 \<longrightarrow> l1e s j \<noteq> 0 \<longrightarrow> tbl s i = tbl s j \<longrightarrow> i = j)"

lemma vm_okD:
  assumes "vm_ok s"
  shows "pmm_ok s" "page_aligned (cr3 s)" "l1e s 1023 \<noteq> 0" "tbl s 1023 = cr3 s"
    "i < 1024 \<Longrightarrow> l1e s i \<noteq> 0 \<Longrightarrow> IS_CACHED (l1e s i)"
    "i < 1024 \<Longrightarrow> l1e s i \<noteq> 0 \<Longrightarrow> \<not> page_free s (drop_bit 12 (tbl s i))"
    "i < 1024 \<Longrightarrow> j < 1024 \<Longrightarrow> l1e s i \<noteq> 0 \<Longrightarrow> l1e s j \<noteq> 0 \<Longrightarrow> tbl s i = tbl s j \<Longrightarrow> i = j"
  using assms unfolding vm_ok_def by blast+

lemma tbl_aligned [simp]: "page_aligned (tbl s i)"
  by (simp add: tbl_def)

lemma entry_offset: "i < (1024 :: u32) \<Longrightarrow> 4 * i < 4096" "i < 1024 \<Longrightarrow> unat (4 * i) = 4 * unat i"
  by (simp_all add: word_less_nat_alt unat_mult_u32)

lemma entry_addr:
  assumes "page_aligned f" and "j < (1024 :: u32)"
  shows "PG_ALIGN (f + 4 * j) = f" and "PG_OFFSET (f + 4 * j) = 4 * j" and "aligned4 (f + 4 * j)"
proof -
  show "PG_ALIGN (f + 4 * j) = f" and "PG_OFFSET (f + 4 * j) = 4 * j"
    using page_add [OF assms(1) entry_offset(1) [OF assms(2)]] by blast+
  have "unat (f + 4 * j) = unat f + 4 * unat j"
    using page_add(3) [OF assms(1) entry_offset(1) [OF assms(2)]] entry_offset(2) [OF assms(2)] by simp
  moreover have "4 dvd unat f"
    using assms(1) by (auto simp: page_aligned_mask aligned_dvd_u32 elim!: dvd_trans [rotated])
  ultimately show "aligned4 (f + 4 * j)" by (simp add: aligned4_unat)
qed

lemma entry_addr_inj:
  assumes "page_aligned f" "page_aligned g" "i < (1024 :: u32)" "j < 1024"
  shows "f + 4 * i = g + 4 * j \<longleftrightarrow> f = g \<and> i = j"
proof
  assume "f + 4 * i = g + 4 * j"
  with page_add_inj [OF assms(1,2) entry_offset(1) [OF assms(3)] entry_offset(1) [OF assms(4)]]
  have "f = g" "4 * i = 4 * j" by blast+
  then have "unat (4 * i) = unat (4 * j)" by simp
  then have "unat i = unat j" by (simp add: entry_offset(2) assms(3,4))
  with \<open>f = g\<close> show "f = g \<and> i = j" by (simp add: word_unat_eq_iff)
qed simp

text \<open>The virtual address \<^verbatim>\<open>L2_VADDR(i) + 4 * j\<close> splits into directory index 1023, table
  index \<open>i\<close> and offset \<open>4 * j\<close>.\<close>

lemma L2_VADDR_aligned: "i < 1024 \<Longrightarrow> page_aligned (L2_VADDR i)"
  unfolding page_aligned_mask L2_VADDR_def L2_BASE_VADDR_def page_masks
  by (rule bit_word_eqI) (auto simp: bit_simps)

lemma L1_INDEX_L2_VADDR:
  assumes "i < 1024" 
  shows "L1_INDEX (L2_VADDR i) = 1023" and "L2_INDEX (L2_VADDR i) = i"
proof -
  have hi: "n < 10" if "bit i n" for n
  proof -
    have "i = take_bit 10 i"
      using assms by (simp add: word_unat_eq_iff take_bit_eq_mod unat_mod word_less_nat_alt)
    then show ?thesis using that by (metis bit_take_bit_iff)
  qed
  have m: "(1023 :: u32) = mask 10" by (simp add: mask_eq_exp_minus_1)
  show "L1_INDEX (L2_VADDR i) = 1023"
    unfolding L1_INDEX_drop L2_VADDR_def L2_BASE_VADDR_def page_masks m
    by (rule bit_word_eqI) (auto simp: bit_simps dest: hi bit_imp_le_length)
  show "L2_INDEX (L2_VADDR i) = i"
    unfolding L2_INDEX_take L2_VADDR_def L2_BASE_VADDR_def page_masks
    by (rule bit_word_eqI) (auto simp: bit_simps dest: hi)
qed

lemma L2_VADDR_split:
  assumes "i < 1024" "j < 1024"
  shows "L1_INDEX (L2_VADDR i + 4 * j) = 1023" "L2_INDEX (L2_VADDR i + 4 * j) = i"
    "PG_OFFSET (L2_VADDR i + 4 * j) = 4 * j" "aligned4 (L2_VADDR i + 4 * j)"
  using entry_addr [OF L2_VADDR_aligned [OF assms(1)] assms(2)] L1_INDEX_L2_VADDR [OF assms(1)]
    index_PG_ALIGN [of "L2_VADDR i + 4 * j"]
  by simp_all

lemma L1_BASE_is_L2_VADDR: "L1_BASE_VADDR = L2_VADDR 1023"
  by (simp add: L1_BASE_VADDR_def L2_VADDR_def L2_BASE_VADDR_def)

lemma walk_l1: "page_aligned (cr3 s) \<Longrightarrow> load32 (phys s) (PG_ALIGN (cr3 s) + 4 * i) = l1e s i"
  by (simp add: l1e_def PG_ALIGN_id)

lemma mmu_translate_l2e:
  assumes "page_aligned (cr3 s)"
  shows "mmu_translate s va = (if IS_CACHED (l1e s (L1_INDEX va))
       \<and> IS_CACHED (l2e s (L1_INDEX va) (L2_INDEX va))
     then Some (PG_ALIGN (l2e s (L1_INDEX va) (L2_INDEX va)) + PG_OFFSET va) else None)"
  using assms by (simp add: mmu_translate_def walk_l1 l2e_def tbl_def Let_def)

lemma l2e_self: "vm_ok s \<Longrightarrow> l2e s 1023 i = l1e s i"
  by (simp add: l2e_def l1e_def vm_okD(4))

lemma mmu_translate_table:
  assumes "vm_ok s" "i < 1024" "j < 1024"
  shows "mmu_translate s (L2_VADDR i + 4 * j) = (if l1e s i \<noteq> 0 then Some (tbl s i + 4 * j) else None)"
  using assms vm_okD(3,5) [OF assms(1)]
  by (auto simp: mmu_translate_l2e vm_okD(2) L2_VADDR_split l2e_self tbl_def)

section \<open>Reading and writing entries\<close>

definition upd_entry :: "u32 \<Rightarrow> u32 \<Rightarrow> u32 \<Rightarrow> 'a vm_scheme \<Rightarrow> 'a vm_scheme" where
  "upd_entry i j v s = s\<lparr>phys := store32 (phys s) (tbl s i + 4 * j) v\<rparr>"

lemma read_entry:
  assumes "vm_ok s" "i < 1024" "j < 1024"
  shows "vload32 s (L2_VADDR i + 4 * j) = (if l1e s i \<noteq> 0 then Some (l2e s i j) else None)"
  by (simp add: vload32_aligned L2_VADDR_split mmu_translate_table assms l2e_def)

lemma write_entry:
  assumes "vm_ok s" "i < 1024" "j < 1024"
  shows "vstore32 (L2_VADDR i + 4 * j) v s = (if l1e s i \<noteq> 0 then Some (upd_entry i j v s) else None)"
  by (simp add: vstore32_aligned L2_VADDR_split mmu_translate_table assms upd_entry_def)

lemma upd_entry_fields [simp]:
  "cr3 (upd_entry i j v s) = cr3 s" "pm_bitmap (upd_entry i j v s) = pm_bitmap s"
  "max_pg (upd_entry i j v s) = max_pg s" "pg_lookup_ptr (upd_entry i j v s) = pg_lookup_ptr s"
  "invlpg_log (upd_entry i j v s) = invlpg_log s"
  by (simp_all add: upd_entry_def)

lemma pmm_view_cong:
  "pm_bitmap s = pm_bitmap t \<Longrightarrow> page_free s p = page_free t p"
  "pg_lookup_ptr s = pg_lookup_ptr t \<Longrightarrow> max_pg s = max_pg t \<Longrightarrow> pmm_ok s = pmm_ok t"
  by (simp_all add: page_free_def pmm_ok_def)

lemma l1e_upd:
  assumes "vm_ok s" "i < 1024" "j < 1024" "k < 1024" "l1e s i \<noteq> 0"
  shows "l1e (upd_entry i j v s) k = (if i = 1023 \<and> k = j then v else l1e s k)"
proof -
  have c: "page_aligned (cr3 s)" using assms(1) by (rule vm_okD)
  have "tbl s i + 4 * j = cr3 s + 4 * k \<longleftrightarrow> tbl s i = cr3 s \<and> j = k"
    by (rule entry_addr_inj) (simp_all add: c assms)
  moreover have "tbl s i = cr3 s \<longleftrightarrow> i = 1023"
    using vm_okD(7) [OF assms(1,2), of 1023] vm_okD(3,4) [OF assms(1)] assms(5) by auto
  ultimately show ?thesis
    by (simp add: l1e_def upd_entry_def load32_store32_aligned entry_addr c assms)
qed

lemma tbl_upd:
  assumes "vm_ok s" "i < 1023" "j < 1024" "k < 1024" "l1e s i \<noteq> 0"
  shows "l1e (upd_entry i j v s) k = l1e s k" "tbl (upd_entry i j v s) k = tbl s k"
proof -
  have "i < 1024" "i \<noteq> 1023" using assms(2) by (auto simp: word_less_nat_alt)
  with assms show "l1e (upd_entry i j v s) k = l1e s k" by (simp add: l1e_upd)
  then show "tbl (upd_entry i j v s) k = tbl s k" by (simp add: tbl_def)
qed

lemma l2e_upd:
  assumes "vm_ok s" "i < 1023" "j < 1024" "l1e s i \<noteq> 0" "a < 1024" "b < 1024" "l1e s a \<noteq> 0"
  shows "l2e (upd_entry i j v s) a b = (if a = i \<and> b = j then v else l2e s a b)"
proof -
  have i: "i < 1024" using assms(2) by (auto simp: word_less_nat_alt)
  have "tbl s i + 4 * j = tbl s a + 4 * b \<longleftrightarrow> tbl s i = tbl s a \<and> j = b"
    by (rule entry_addr_inj) (simp_all add: assms)
  moreover have "tbl s i = tbl s a \<longleftrightarrow> a = i"
    using vm_okD(7) [OF assms(1) i assms(5,4,7)] by auto
  ultimately show ?thesis
    unfolding l2e_def tbl_upd(2) [OF assms(1-3,5,4)]
    by (simp add: upd_entry_def load32_store32_aligned entry_addr assms)
qed

lemma vm_ok_upd:
  assumes "vm_ok s" "i < 1023" "j < 1024" "l1e s i \<noteq> 0"
  shows "vm_ok (upd_entry i j v s)"
  using assms(1) unfolding vm_ok_def
  by (simp add: tbl_upd [OF assms(1-3) _ assms(4)] pmm_view_cong [of "upd_entry i j v s" s])

section \<open>Stores that stay inside one page\<close>

lemma load32_in_page:
  assumes "aligned4 p" and "\<And>a. PG_ALIGN a = PG_ALIGN p \<Longrightarrow> m' a = m a"
  shows "load32 m' p = load32 m p"
  using assms(2) aligned4_page(2) [OF assms(1), of 0] aligned4_page(2) [OF assms(1), of 1]
    aligned4_page(2) [OF assms(1), of 2] aligned4_page(2) [OF assms(1), of 3]
  by (simp add: load32_def)

definition off_page :: "u32 \<Rightarrow> 'a vm_scheme \<Rightarrow> 'a vm_scheme \<Rightarrow> bool" where
  "off_page f s s' \<longleftrightarrow> (\<exists>m. s' = s\<lparr>phys := m\<rparr> \<and> (\<forall>a. PG_ALIGN a \<noteq> f \<longrightarrow> m a = phys s a))"

lemma off_page_entries:
  assumes "off_page f s s'" "page_aligned (cr3 s)" "f \<noteq> cr3 s" "k < 1024"
  shows "l1e s' k = l1e s k" and "tbl s' k = tbl s k"
    and "tbl s k \<noteq> f \<Longrightarrow> b < 1024 \<Longrightarrow> l2e s' k b = l2e s k b"
proof -
  obtain m where m: "s' = s\<lparr>phys := m\<rparr>" "\<forall>a. PG_ALIGN a \<noteq> f \<longrightarrow> m a = phys s a"
    using assms(1) by (auto simp: off_page_def)
  have load: "load32 m (g + 4 * k) = load32 (phys s) (g + 4 * k)"
    if "page_aligned g" "g \<noteq> f" "k < 1024" for g k
    using that m(2) by (intro load32_in_page) (simp_all add: entry_addr)
  show l1: "l1e s' k = l1e s k" using assms load by (simp add: l1e_def m(1))
  then show t: "tbl s' k = tbl s k" by (simp add: tbl_def)
  show "l2e s' k b = l2e s k b" if "tbl s k \<noteq> f" "b < 1024"
  proof -
    have "l2e s' k b = load32 (phys s') (tbl s k + 4 * b)" by (simp add: l2e_def t)
    also have "\<dots> = l2e s k b" using load [of "tbl s k" b] that by (simp add: m(1) l2e_def)
    finally show ?thesis .
  qed
qed

lemma vm_ok_off_page:
  assumes "off_page f s s'" "vm_ok s" "f \<noteq> cr3 s"
  shows "vm_ok s'"
proof -
  have e: "l1e s' k = l1e s k" "tbl s' k = tbl s k" if "k < 1024" for k
    using off_page_entries [OF assms(1) vm_okD(2) [OF assms(2)] assms(3) that] by blast+
  obtain m where m: "s' = s\<lparr>phys := m\<rparr>" using assms(1) by (auto simp: off_page_def)
  show ?thesis
    using assms(2) unfolding vm_ok_def
    by (simp add: e) (simp add: m page_free_def pmm_ok_def)
qed

text \<open>Clearing a table through its window at \<^verbatim>\<open>L2_VADDR\<close>.\<close>

lemma vmemset_table:
  assumes "vm_ok s" "i < 1023" "l1e s i \<noteq> 0" "unat k + n \<le> 4096"
  shows "\<exists>m. vmemset n (L2_VADDR i + k) v s = Some (s\<lparr>phys := m\<rparr>)
    \<and> (\<forall>a. m a = (if PG_ALIGN a = tbl s i \<and> unat k \<le> unat (PG_OFFSET a)
         \<and> unat (PG_OFFSET a) < unat k + n then v else phys s a))"
  using assms
proof (induction n arbitrary: k s)
  case 0
  then show ?case by (intro exI [of _ "phys s"]) auto
next
  case (Suc n)
  have i: "i < 1024" "i \<noteq> 1023" using Suc.prems(2) by (auto simp: word_less_nat_alt)
  have k: "k < 4096" "unat (k + 1) = unat k + 1" 
    using Suc.prems(4) by (simp add: word_less_nat_alt) (use Suc.prems(4) in \<open>subst unat_add_u32; simp\<close>)
  let ?va = "L2_VADDR i + k" and ?p = "tbl s i + k"
  have va: "PG_ALIGN ?va = L2_VADDR i" "PG_OFFSET ?va = k"
    using page_add [OF L2_VADDR_aligned [OF i(1)] k(1)] by blast+
  have p: "PG_ALIGN ?p = tbl s i" "PG_OFFSET ?p = k"
    using page_add [OF tbl_aligned k(1)] by blast+
  have "mmu_translate s (L2_VADDR i + 4 * 0) = Some (tbl s i)"
    by (subst mmu_translate_table) (use Suc.prems i in auto)
  then have tr: "mmu_translate s ?va = Some ?p"
    by (intro mmu_translate_same_page(2)) (auto simp: va PG_ALIGN_id L2_VADDR_aligned i
        L2_VADDR_aligned [OF i(1), unfolded page_aligned_def])
  define t where "t = s\<lparr>phys := (phys s)(?p := v)\<rparr>"
  have phys_t: "phys t a = (if a = ?p then v else phys s a)" for a by (simp add: t_def)
  have off: "off_page (tbl s i) s t" unfolding off_page_def t_def using p by fastforce
  have ne: "tbl s i \<noteq> cr3 s"
    using vm_okD(7) [OF Suc.prems(1) i(1), of 1023] vm_okD(3,4) [OF Suc.prems(1)] Suc.prems(3) i by auto
  have t: "vm_ok t" "l1e t i = l1e s i" "tbl t i = tbl s i"
    using vm_ok_off_page [OF off Suc.prems(1) ne]
      off_page_entries [OF off vm_okD(2) [OF Suc.prems(1)] ne i(1)] by blast+
  have step: "vmemset (Suc n) ?va v s = vmemset n (L2_VADDR i + (k + 1)) v t"
    by (simp add: vstore8_def tr t_def add.assoc)
  obtain m where m: "vmemset n (L2_VADDR i + (k + 1)) v t = Some (t\<lparr>phys := m\<rparr>)"
    "\<forall>a. m a = (if PG_ALIGN a = tbl t i \<and> unat (k + 1) \<le> unat (PG_OFFSET a)
         \<and> unat (PG_OFFSET a) < unat (k + 1) + n then v else phys t a)"
    using Suc.IH [OF t(1) Suc.prems(2), of "k + 1"] t Suc.prems k by auto
  have at_p: "a = ?p \<longleftrightarrow> PG_ALIGN a = tbl s i \<and> unat (PG_OFFSET a) = unat k" for a
    using p page_split [of a] by (auto simp: word_unat_eq_iff [symmetric])
  have "vmemset (Suc n) ?va v s = Some (s\<lparr>phys := m\<rparr>)"
    unfolding step using m(1) by (simp add: t_def)
  moreover have "m a = (if PG_ALIGN a = tbl s i \<and> unat k \<le> unat (PG_OFFSET a)
      \<and> unat (PG_OFFSET a) < unat k + Suc n then v else phys s a)" for a
    using m(2) [rule_format, of a, unfolded t(3)] at_p [of a] k(2) phys_t [of a] by auto
  ultimately show ?case by blast
qed

end
