(* ===== verification/Vmm.thy ===== *)
theory Vmm
  imports Mmu
begin

text \<open>
  The virtual memory manager, \<^verbatim>\<open>kernel/mm/vmm.c\<close>. Page tables are read and written the way the
  kernel does, by loads and stores at the virtual addresses of the recursive mapping, on the
  machine of theory Mmu. A page fault is \<open>None\<close>. The build without \<^verbatim>\<open>__AWAOS_DEBUG__\<close> is
  modelled: \<^verbatim>\<open>assert\<close> evaluates its argument and ignores the value (\<^verbatim>\<open>spike.h\<close> 35-36).

  The abstract view is \<open>pagemap\<close>: a partial map from pairs of table indices to entries. The
  lemmas show each operation as an update of that map.
\<close>

unbundle bit_operations_syntax

section \<open>Operations\<close>

text \<open>\<^verbatim>\<open>table->entry[idx]\<close>, read and written.\<close>

definition pt_get :: "u32 \<Rightarrow> u32 \<Rightarrow> 'a vm_scheme \<Rightarrow> u32 option" where
  "pt_get table idx s = vload32 s (table + 4 * idx)"

definition pt_set :: "u32 \<Rightarrow> u32 \<Rightarrow> u32 \<Rightarrow> 'a vm_scheme \<Rightarrow> 'a vm_scheme option" where
  "pt_set table idx v s = vstore32 (table + 4 * idx) v s"

definition vmm_init :: "'a vm_scheme \<Rightarrow> 'a vm_scheme" where
  "vmm_init s = s"

fun pt_clear :: "nat \<Rightarrow> u32 \<Rightarrow> u32 \<Rightarrow> 'a vm_scheme \<Rightarrow> 'a vm_scheme option" where
  "pt_clear 0 dir i s = Some s"
| "pt_clear (Suc n) dir i s = do { s' \<leftarrow> pt_set dir i PTE_NULL s; pt_clear n dir (i + 1) s' }"

definition vmm_init_pd :: "'a vm_scheme \<Rightarrow> (u32 \<times> 'a vm_scheme) option" where
  "vmm_init_pd s = do {
     (dir, s) \<leftarrow> pmm_alloc_page s;
     s \<leftarrow> pt_clear (unat PG_MAX_ENTRIES) dir 0 s;
     s \<leftarrow> pt_set dir (PG_MAX_ENTRIES - 1) (NEW_L1_ENTRY T_SELF_REF_PERM dir) s;
     Some (dir, s)
   }"

text \<open>The second half of \<^verbatim>\<open>__vmm_map_internal\<close>, once the table exists.\<close>

definition vmm_map_entry :: "u32 \<Rightarrow> u32 \<Rightarrow> u32 \<Rightarrow> u32 \<Rightarrow> bool \<Rightarrow> 'a vm_scheme \<Rightarrow> (int \<times> 'a vm_scheme) option" where
  "vmm_map_entry l2pt l2_inx pa attr forced s = do {
     l2pte \<leftarrow> pt_get l2pt l2_inx s;
     if l2pte \<noteq> 0 \<and> \<not> forced then Some (0, s)
     else do {
       s \<leftarrow> (if l2pte \<noteq> 0 \<and> HAS_FLAGS l2pte PG_PRESENT
            then map_option snd (pmm_free_page (GET_PG_ADDR l2pte) s) else Some s);
       s \<leftarrow> pt_set l2pt l2_inx (NEW_L2_ENTRY attr pa) s;
       Some (1, s)
     }
   }"

definition vmm_map_internal :: "u32 \<Rightarrow> u32 \<Rightarrow> u32 \<Rightarrow> u32 \<Rightarrow> bool \<Rightarrow> 'a vm_scheme \<Rightarrow> (int \<times> 'a vm_scheme) option" where
  "vmm_map_internal l1_inx l2_inx pa attr forced s = do {
     let l1pt = L1_BASE_VADDR;
     let l2pt = L2_VADDR l1_inx;
     l1pte \<leftarrow> pt_get l1pt l1_inx s;
     if l1pte \<noteq> 0 then vmm_map_entry l2pt l2_inx pa attr forced s
     else do {
       (new_l1pt_pa, s) \<leftarrow> pmm_alloc_page s;
       if new_l1pt_pa = 0 then Some (0, s)
       else do {
         s \<leftarrow> pt_set l1pt l1_inx (NEW_L1_ENTRY attr new_l1pt_pa) s;
         s \<leftarrow> vmemset (unat PG_SIZE) (L2_VADDR l1_inx) 0 s;
         vmm_map_entry l2pt l2_inx pa attr forced s
       }
     }
   }"

text \<open>The \<^verbatim>\<open>while\<close> loop of \<^verbatim>\<open>vmm_map_page\<close>: \<open>Inl\<close> is its \<^verbatim>\<open>return\<close>, \<open>Inr\<close> the indices it ends with.\<close>

partial_function (option) vmm_map_loop ::
  "u32 \<Rightarrow> u32 \<Rightarrow> u32 \<Rightarrow> u32 \<Rightarrow> u32 \<Rightarrow> u32 \<Rightarrow> u32 \<Rightarrow> 'a vm_scheme
    \<Rightarrow> ((u32 \<times> 'a vm_scheme) + (u32 \<times> u32)) option" where
  "vmm_map_loop va pa tattr l1_index l2_index l1pte l2pt s =
    (if l1pte \<noteq> 0 \<and> l1_index < PG_MAX_ENTRIES then do {
       (l1_index, l2_index, l1pte, l2pt) \<leftarrow>
         (if l2_index = PG_MAX_ENTRIES then do {
            l1pte \<leftarrow> pt_get L1_BASE_VADDR (l1_index + 1) s;
            Some (l1_index + 1, 0, l1pte, L2_VADDR (l1_index + 1))
          } else Some (l1_index, l2_index, l1pte, l2pt));
       slot \<leftarrow> (if l2pt \<noteq> 0 then map_option Some (pt_get l2pt l2_index s) else Some None);
       if slot = Some 0 then do {
         s \<leftarrow> pt_set l2pt l2_index (NEW_L2_ENTRY tattr pa) s;
         Some (Inl (V_ADDR l1_index l2_index (PG_OFFSET va), s))
       } else vmm_map_loop va pa tattr l1_index (l2_index + 1) l1pte l2pt s
     } else Some (Inr (l1_index, l2_index)))"

text \<open>What follows the loop.\<close>

definition vmm_map_rest :: "u32 \<Rightarrow> u32 \<Rightarrow> u32 \<Rightarrow> 'a vm_scheme
    \<Rightarrow> (u32 \<times> 'a vm_scheme) + (u32 \<times> u32) \<Rightarrow> (u32 \<times> 'a vm_scheme) option" where
  "vmm_map_rest va pa tattr s r = (case r of
     Inl (v, s') \<Rightarrow> Some (v, s')
   | Inr (l1_index, l2_index) \<Rightarrow>
       if l1_index > PG_MAX_ENTRIES then Some (0, s)
       else do {
         (ok, s) \<leftarrow> vmm_map_internal l1_index l2_index pa tattr False s;
         Some (if ok = 0 then 0 else V_ADDR l1_index l2_index (PG_OFFSET va), s)
       })"

definition vmm_map_page :: "u32 \<Rightarrow> u32 \<Rightarrow> u32 \<Rightarrow> 'a vm_scheme \<Rightarrow> (u32 \<times> 'a vm_scheme) option" where
  "vmm_map_page va pa tattr s =
    (if pa = 0 \<or> va = 0 then Some (0, s)
     else do {
       l1pte \<leftarrow> pt_get L1_BASE_VADDR (L1_INDEX va) s;
       r \<leftarrow> vmm_map_loop va pa tattr (L1_INDEX va) (L2_INDEX va) l1pte (L2_VADDR (L1_INDEX va)) s;
       vmm_map_rest va pa tattr s r
     })"

definition vmm_fmap_page :: "u32 \<Rightarrow> u32 \<Rightarrow> u32 \<Rightarrow> 'a vm_scheme \<Rightarrow> (u32 \<times> 'a vm_scheme) option" where
  "vmm_fmap_page va pa tattr s =
    (if pa = 0 \<or> va = 0 then Some (0, s)
     else do {
       let l1_index = L1_INDEX va;
       let l2_index = L2_INDEX va;
       (ok, s) \<leftarrow> vmm_map_internal l1_index l2_index pa tattr True s;
       if ok = 0 then Some (0, s)
       else Some (V_ADDR l1_index l2_index (PG_OFFSET va), cpu_invplg va s)
     })"

definition vmm_alloc_page :: "u32 \<Rightarrow> u32 \<Rightarrow> 'a vm_scheme \<Rightarrow> (u32 \<times> 'a vm_scheme) option" where
  "vmm_alloc_page vpn tattr s = do {
     (pp, s) \<leftarrow> pmm_alloc_page s;
     (result, s) \<leftarrow> vmm_map_page vpn pp tattr s;
     if result = 0 then do { (_, s) \<leftarrow> pmm_free_page pp s; Some (result, s) }
     else Some (result, s)
   }"

definition vmm_unmap_page :: "u32 \<Rightarrow> 'a vm_scheme \<Rightarrow> 'a vm_scheme option" where
  "vmm_unmap_page va s =
    (let l1_index = L1_INDEX va; l2_index = L2_INDEX va in
     if l1_index = 1023 then Some s
     else do {
       l1pte \<leftarrow> pt_get L1_BASE_VADDR l1_index s;
       if l1pte \<noteq> 0 then do {
         let l2pt = L2_VADDR l1_index;
         l2pte \<leftarrow> pt_get l2pt l2_index s;
         s \<leftarrow> (if IS_CACHED l2pte then map_option snd (pmm_free_page l2pte s) else Some s);
         pt_set l2pt l2_index PTE_NULL (cpu_invplg va s)
       } else Some s
     })"

text \<open>The rollback loop and the main loop of \<^verbatim>\<open>vmm_alloc_pages\<close>; \<open>n\<close> counts the pages still to
  do, \<open>done\<close> the pages mapped so far.\<close>

fun vmm_unmap_run :: "nat \<Rightarrow> u32 \<Rightarrow> 'a vm_scheme \<Rightarrow> 'a vm_scheme option" where
  "vmm_unmap_run 0 va s = Some s"
| "vmm_unmap_run (Suc j) va s = do { s' \<leftarrow> vmm_unmap_page va s; vmm_unmap_run j (va + PG_SIZE) s' }"

fun vmm_alloc_run :: "nat \<Rightarrow> nat \<Rightarrow> u32 \<Rightarrow> u32 \<Rightarrow> u32 \<Rightarrow> 'a vm_scheme \<Rightarrow> (bool \<times> 'a vm_scheme) option" where
  "vmm_alloc_run 0 i va cur tattr s = Some (True, s)"
| "vmm_alloc_run (Suc n) i va cur tattr s = do {
     (pp, s) \<leftarrow> pmm_alloc_page s;
     (ok, s) \<leftarrow> (if pp = 0 then Some (0, s)
                else vmm_map_internal (L1_INDEX cur) (L2_INDEX cur) pp tattr False s);
     if pp = 0 \<or> ok = 0 then do { s' \<leftarrow> vmm_unmap_run i va s; Some (False, s') }
     else vmm_alloc_run n (i + 1) va (cur + PG_SIZE) tattr s
   }"

definition vmm_alloc_pages :: "u32 \<Rightarrow> u32 \<Rightarrow> u32 \<Rightarrow> 'a vm_scheme \<Rightarrow> (bool \<times> 'a vm_scheme) option" where
  "vmm_alloc_pages va sz tattr s = vmm_alloc_run (unat (drop_bit PG_SIZE_BITS sz)) 0 va va tattr s"

definition vmm_set_mapping :: "u32 \<Rightarrow> u32 \<Rightarrow> u32 \<Rightarrow> 'a vm_scheme \<Rightarrow> 'a vm_scheme option" where
  "vmm_set_mapping va pa attr s =
    (let l1_index = L1_INDEX va; l2_index = L2_INDEX va in
     if l1_index = 1023 then Some s
     else map_option snd (vmm_map_internal l1_index l2_index pa attr False s))"

definition vmm_lookup :: "u32 \<Rightarrow> 'a vm_scheme \<Rightarrow> v_mapping option" where
  "vmm_lookup va s = do {
     let l1_index = L1_INDEX va;
     let l2_index = L2_INDEX va;
     l1pte \<leftarrow> pt_get L1_BASE_VADDR l1_index s;
     let mapping = \<lparr>vm_pn = 0, vm_pa = 0, vm_flags = 0\<rparr>;
     if l1pte \<noteq> 0 then do {
       l2pte \<leftarrow> pt_get (L2_VADDR l1_index) l2_index s;
       Some (if l2pte \<noteq> 0
             then mapping\<lparr>vm_flags := ucast (PG_ENTRY_FLAGS l2pte), vm_pa := PG_ENTRY_ADDR l2pte,
                    vm_pn := drop_bit PG_SIZE_BITS (PG_ENTRY_ADDR l2pte)\<rparr>
             else mapping)
     } else Some mapping
   }"

definition vmm_v2p :: "u32 \<Rightarrow> 'a vm_scheme \<Rightarrow> u32 option" where
  "vmm_v2p va s = map_option vm_pa (vmm_lookup va s)"

section \<open>The abstract page map\<close>

definition pagemap :: "'a vm_scheme \<Rightarrow> u32 \<times> u32 \<Rightarrow> u32 option" where
  "pagemap s = (\<lambda>(i, j). if i < 1023 \<and> j < 1024 \<and> l1e s i \<noteq> 0 \<and> l2e s i j \<noteq> 0
     then Some (l2e s i j) else None)"

definition table_frame :: "'a vm_scheme \<Rightarrow> u32 \<Rightarrow> bool" where
  "table_frame s f \<longleftrightarrow> (\<exists>k < 1024. l1e s k \<noteq> 0 \<and> tbl s k = f)"

text \<open>What every operation leaves alone: the directory stays where it is, tables are only
  added, and memory outside the tables keeps its contents.\<close>

definition vm_frame :: "'a vm_scheme \<Rightarrow> 'a vm_scheme \<Rightarrow> bool" where
  "vm_frame s s' \<longleftrightarrow> cr3 s' = cr3 s \<and> (\<forall>f. table_frame s f \<longrightarrow> table_frame s' f)
     \<and> (\<forall>a. \<not> table_frame s' (PG_ALIGN a) \<longrightarrow> phys s' a = phys s a)"

lemma vm_frame_refl [simp]: "vm_frame s s"
  by (simp add: vm_frame_def)

lemma vm_frame_trans: "vm_frame s t \<Longrightarrow> vm_frame t u \<Longrightarrow> vm_frame s u"
  unfolding vm_frame_def by metis

lemma view_pool_update [simp]:
  "l1e (s\<lparr>pm_bitmap := b\<rparr>) = l1e s" "l1e (s\<lparr>pg_lookup_ptr := x\<rparr>) = l1e s" "l1e (cpu_invplg va s) = l1e s"
  "l2e (s\<lparr>pm_bitmap := b\<rparr>) = l2e s" "l2e (s\<lparr>pg_lookup_ptr := x\<rparr>) = l2e s" "l2e (cpu_invplg va s) = l2e s"
  "tbl (s\<lparr>pm_bitmap := b\<rparr>) = tbl s" "tbl (s\<lparr>pg_lookup_ptr := x\<rparr>) = tbl s" "tbl (cpu_invplg va s) = tbl s"
  "page_free (cpu_invplg va s) = page_free s" "phys (cpu_invplg va s) = phys s" "cr3 (cpu_invplg va s) = cr3 s"
  by (simp_all add: l1e_def l2e_def tbl_def cpu_invplg_def page_free_def fun_eq_iff)

lemma abs_pool_update [simp]:
  "pagemap (s\<lparr>pm_bitmap := b\<rparr>) = pagemap s" "pagemap (s\<lparr>pg_lookup_ptr := x\<rparr>) = pagemap s"
  "pagemap (cpu_invplg va s) = pagemap s"
  "table_frame (s\<lparr>pm_bitmap := b\<rparr>) = table_frame s" "table_frame (s\<lparr>pg_lookup_ptr := x\<rparr>) = table_frame s"
  "table_frame (cpu_invplg va s) = table_frame s"
  by (simp_all add: pagemap_def table_frame_def fun_eq_iff)

lemma vm_ok_invplg [simp]: "vm_ok (cpu_invplg va s) = vm_ok s"
  by (simp add: vm_ok_def) (simp add: cpu_invplg_def pmm_ok_def)

lemma vm_ok_pool:
  assumes "vm_ok s" "pmm_ok (s\<lparr>pg_lookup_ptr := x, pm_bitmap := b\<rparr>)"
    "\<And>f. table_frame s f \<Longrightarrow> \<not> page_free (s\<lparr>pm_bitmap := b\<rparr>) (drop_bit 12 f)"
  shows "vm_ok (s\<lparr>pg_lookup_ptr := x, pm_bitmap := b\<rparr>)"
  using assms unfolding vm_ok_def table_frame_def by simp blast

lemma vm_ok_table_frame:
  assumes "vm_ok s" "table_frame s f"
  shows "page_aligned f" "\<not> page_free s (drop_bit 12 f)"
  using assms vm_okD(6) [OF assms(1)] by (auto simp: table_frame_def)

lemma index_eq_align:
  "(L1_INDEX a, L2_INDEX a) = (L1_INDEX b, L2_INDEX b) \<longleftrightarrow> PG_ALIGN a = PG_ALIGN b"
proof
  assume "(L1_INDEX a, L2_INDEX a) = (L1_INDEX b, L2_INDEX b)"
  then have "V_ADDR (L1_INDEX a) (L2_INDEX a) 0 = V_ADDR (L1_INDEX b) (L2_INDEX b) 0" by simp
  moreover have "V_ADDR (L1_INDEX c) (L2_INDEX c) 0 = PG_ALIGN c" for c
    using V_ADDR_split [of "PG_ALIGN c"] PG_ALIGN_aligned [of c]
    by (simp add: index_PG_ALIGN [of c, symmetric] page_aligned_def)
  ultimately show "PG_ALIGN a = PG_ALIGN b" by simp
next
  assume "PG_ALIGN a = PG_ALIGN b"
  then show "(L1_INDEX a, L2_INDEX a) = (L1_INDEX b, L2_INDEX b)"
    using index_PG_ALIGN [of a] index_PG_ALIGN [of b] by simp
qed

lemma dir_frame: "vm_ok s \<Longrightarrow> table_frame s (cr3 s)"
  using vm_okD(3,4) [of s] unfolding table_frame_def by (intro exI [of _ 1023]) simp

lemma mmu_translate_pagemap:
  assumes "vm_ok s" "L1_INDEX va < 1023"
  shows "mmu_translate s va = (case pagemap s (L1_INDEX va, L2_INDEX va) of None \<Rightarrow> None
    | Some e \<Rightarrow> if IS_CACHED e then Some (PG_ALIGN e + PG_OFFSET va) else None)"
  using assms(2) vm_okD(5) [OF assms(1), of "L1_INDEX va"]
  by (auto simp: mmu_translate_l2e vm_okD(2) [OF assms(1)] pagemap_def)

lemma l1_index_small: "i < 1023 \<Longrightarrow> i < (1024 :: u32)" "i < 1023 \<Longrightarrow> i \<noteq> (1023 :: u32)"
  by (auto simp: word_less_nat_alt)

lemma pagemap_upd:
  assumes "vm_ok s" "i < 1023" "j < 1024" "l1e s i \<noteq> 0"
  shows "pagemap (upd_entry i j v s) = (pagemap s)((i, j) := if v = 0 then None else Some v)"
proof (rule ext, clarify)
  fix a b :: u32
  show "pagemap (upd_entry i j v s) (a, b) = ((pagemap s)((i, j) := if v = 0 then None else Some v)) (a, b)"
  proof (cases "a < 1023 \<and> b < 1024 \<and> l1e s a \<noteq> 0")
    case True
    then show ?thesis
      using assms l1_index_small(1) [of a]
      by (auto simp: pagemap_def tbl_upd l2e_upd)
  next
    case False
    then show ?thesis
      using assms l1_index_small(1) [of a] tbl_upd(1) [OF assms(1-3) _ assms(4), of a v]
      by (auto simp: pagemap_def)
  qed
qed

lemma phys_upd_entry: "phys (upd_entry i j v s) = store32 (phys s) (tbl s i + 4 * j) v"
  by (simp add: upd_entry_def)

lemma of_nat_lt_4: "i < 4 \<Longrightarrow> (of_nat i :: u32) < 4"
  using of_nat_less_u32 [of i 4] by simp

lemma vm_frame_upd:
  assumes "vm_ok s" "i < 1023" "j < 1024" "l1e s i \<noteq> 0"
  shows "vm_frame s (upd_entry i j v s)" and "table_frame (upd_entry i j v s) = table_frame s"
proof -
  show t: "table_frame (upd_entry i j v s) = table_frame s"
    using tbl_upd [OF assms(1-3) _ assms(4)] unfolding table_frame_def fun_eq_iff by metis
  have "PG_ALIGN (tbl s i + 4 * j) = tbl s i" "aligned4 (tbl s i + 4 * j)"
    using entry_addr [OF tbl_aligned assms(3)] by blast+
  then have "store32 (phys s) (tbl s i + 4 * j) v a = phys s a" if "PG_ALIGN a \<noteq> tbl s i" for a
    using that aligned4_page(2) [of "tbl s i + 4 * j"]
    by (intro store32_apart) (metis of_nat_lt_4)
  moreover have "table_frame s (tbl s i)"
    using assms l1_index_small(1) [of i] by (auto simp: table_frame_def)
  ultimately show "vm_frame s (upd_entry i j v s)"
    unfolding vm_frame_def t by (metis upd_entry_fields(1) phys_upd_entry)
qed

section \<open>Releasing a frame\<close>

lemma drop_bit_PG_ALIGN: "drop_bit 12 (PG_ALIGN a) = drop_bit 12 a"
  unfolding PG_ALIGN_mask by (rule bit_word_eqI) (auto simp: bit_simps dest: bit_imp_le_length)

lemma free_page_vm:
  assumes "vm_ok s" "\<not> table_frame s (PG_ALIGN a)"
  obtains r s' where "pmm_free_page a s = Some (r, s')" "vm_ok s'" "l1e s' = l1e s" "l2e s' = l2e s"
    "phys s' = phys s" "cr3 s' = cr3 s" "invlpg_log s' = invlpg_log s"
    "\<And>q. page_free s' q \<longleftrightarrow> page_free s q \<or> (r \<noteq> 0 \<and> q = drop_bit 12 a)"
proof (cases rule: pmm_free_page_cases [of a s])
  case (freed b)
  have ok: "vm_ok (s\<lparr>pg_lookup_ptr := pg_lookup_ptr s, pm_bitmap := b\<rparr>)"
  proof (rule vm_ok_pool [OF assms(1)])
    show "pmm_ok (s\<lparr>pg_lookup_ptr := pg_lookup_ptr s, pm_bitmap := b\<rparr>)"
      using vm_okD(1) [OF assms(1)] by (simp add: pmm_ok_def)
    fix f
    assume f: "table_frame s f"
    then have "f \<noteq> PG_ALIGN a" "page_aligned f" using assms vm_ok_table_frame by auto
    then have "drop_bit 12 f \<noteq> drop_bit 12 a" by (metis push_drop_12 PG_ALIGN_id)
    with freed(4) [of "drop_bit 12 f"] vm_ok_table_frame(2) [OF assms(1) f]
    show "\<not> page_free (s\<lparr>pm_bitmap := b\<rparr>) (drop_bit 12 f)" by simp
  qed
  have eq: "s\<lparr>pg_lookup_ptr := pg_lookup_ptr s, pm_bitmap := b\<rparr> = s\<lparr>pm_bitmap := b\<rparr>" by simp
  show ?thesis
    by (rule that [OF freed(1)]) (use ok eq freed(4) in simp_all)
next
  case ignored
  show ?thesis by (rule that [OF ignored(1) assms(1)]) simp_all
qed

section \<open>Setting an entry of an existing table\<close>

definition entry_frame_unused :: "'a vm_scheme \<Rightarrow> u32 \<times> u32 \<Rightarrow> bool" where
  "entry_frame_unused s ij \<longleftrightarrow>
     (\<forall>e. pagemap s ij = Some e \<longrightarrow> IS_CACHED e \<longrightarrow> \<not> table_frame s (PG_ALIGN e))"

lemma HAS_FLAGS_present [simp]: "HAS_FLAGS e PG_PRESENT = IS_CACHED e"
proof -
  have "PG_ENTRY_FLAGS e AND PG_PRESENT = e AND 1"
    unfolding PG_ENTRY_FLAGS_def PG_PRESENT_def page_masks
    by (rule bit_word_eqI) (auto simp: bit_simps bit_1_iff)
  then show ?thesis
    by (simp add: HAS_FLAGS_def IS_CACHED_def PG_PRESENT_def and_one_eq mod_2_eq_odd)
qed

lemma new_entry_nonzero: "IS_CACHED attr \<Longrightarrow> NEW_L2_ENTRY attr pa \<noteq> 0"
  using IS_CACHED_new_entry(2) [of attr pa] IS_CACHED_0 by metis

text \<open>The pages an operation may release: the one the entry at \<open>ij\<close> maps.\<close>

definition released :: "'a vm_scheme \<Rightarrow> u32 \<times> u32 \<Rightarrow> u32 \<Rightarrow> bool" where
  "released s ij q \<longleftrightarrow> (\<exists>e. pagemap s ij = Some e \<and> IS_CACHED e \<and> q = drop_bit 12 e)"

lemma pt_table:
  assumes "vm_ok s" "i < 1024" "j < 1024" "l1e s i \<noteq> 0"
  shows "pt_get (L2_VADDR i) j s = Some (l2e s i j)"
    and "pt_set (L2_VADDR i) j v s = Some (upd_entry i j v s)"
  using assms by (simp_all add: pt_get_def pt_set_def read_entry write_entry)

lemma pt_dir:
  assumes "vm_ok s" "i < 1024"
  shows "pt_get L1_BASE_VADDR i s = Some (l1e s i)"
    and "pt_set L1_BASE_VADDR i v s = Some (upd_entry 1023 i v s)"
  using pt_table [OF assms(1) _ assms(2), of 1023] vm_okD(3) [OF assms(1)]
  by (simp_all add: L1_BASE_is_L2_VADDR l2e_self [OF assms(1)])

lemma map_entry_spec:
  assumes "vm_ok s" "i < 1023" "j < 1024" "l1e s i \<noteq> 0" "IS_CACHED attr"
    "forced \<longrightarrow> entry_frame_unused s (i, j)"
  obtains (kept) "vmm_map_entry (L2_VADDR i) j pa attr forced s = Some (0, s)"
      "pagemap s (i, j) \<noteq> None" "\<not> forced"
  | (set) s' where "vmm_map_entry (L2_VADDR i) j pa attr forced s = Some (1, s')"
      "pagemap s (i, j) = None \<or> forced" "vm_ok s'" "vm_frame s s'"
      "pagemap s' = (pagemap s)((i, j) \<mapsto> NEW_L2_ENTRY attr pa)"
      "table_frame s' = table_frame s" "invlpg_log s' = invlpg_log s"
      "\<And>q. page_free s q \<Longrightarrow> page_free s' q"
      "\<And>q. page_free s' q \<Longrightarrow> page_free s q \<or> released s (i, j) q"
proof -
  have i: "i < 1024" using assms(2) by (rule l1_index_small)
  let ?e = "l2e s i j"
  have get: "pt_get (L2_VADDR i) j s = Some ?e"
    and pm: "pagemap s (i, j) = (if ?e = 0 then None else Some ?e)"
    using assms i by (simp_all add: pt_table pagemap_def)
  show ?thesis
  proof (cases "?e \<noteq> 0 \<and> \<not> forced")
    case True
    then show ?thesis using kept get pm by (simp add: vmm_map_entry_def)
  next
    case False
    define t where "t = (if ?e \<noteq> 0 \<and> IS_CACHED ?e
      then map_option snd (pmm_free_page (GET_PG_ADDR ?e) s) else Some s)"
    have "\<exists>u. t = Some u \<and> vm_ok u \<and> l1e u = l1e s \<and> l2e u = l2e s \<and> phys u = phys s
      \<and> cr3 u = cr3 s \<and> invlpg_log u = invlpg_log s
      \<and> (\<forall>q. page_free u q \<longrightarrow> page_free s q \<or> released s (i, j) q) \<and> (\<forall>q. page_free s q \<longrightarrow> page_free u q)"
    proof (cases "?e \<noteq> 0 \<and> IS_CACHED ?e")
      case True
      with False have "entry_frame_unused s (i, j)" using assms(6) by blast
      then have "\<not> table_frame s (PG_ALIGN (GET_PG_ADDR ?e))"
        using True pm by (auto simp: entry_frame_unused_def GET_PG_ADDR_def PG_ALIGN_id)
      from free_page_vm [OF assms(1) this] obtain r u where
        u: "pmm_free_page (GET_PG_ADDR ?e) s = Some (r, u)" "vm_ok u" "l1e u = l1e s" "l2e u = l2e s"
        "phys u = phys s" "cr3 u = cr3 s" "invlpg_log u = invlpg_log s"
        "\<And>q. page_free u q \<longleftrightarrow> page_free s q \<or> (r \<noteq> 0 \<and> q = drop_bit 12 (GET_PG_ADDR ?e))"
        by blast
      have "drop_bit 12 (GET_PG_ADDR ?e) = drop_bit 12 ?e"
        unfolding GET_PG_ADDR_def PG_ALIGN_mask
        by (rule bit_word_eqI) (auto simp: bit_simps dest: bit_imp_le_length)
      then have "released s (i, j) (drop_bit 12 (GET_PG_ADDR ?e))"
        using True pm by (simp add: released_def)
      with u True show ?thesis by (auto simp: t_def)
    qed (use assms(1) in \<open>auto simp: t_def\<close>)
    then obtain u where u: "t = Some u" "vm_ok u" "l1e u = l1e s" "l2e u = l2e s" "phys u = phys s"
      "cr3 u = cr3 s" "invlpg_log u = invlpg_log s"
      "\<And>q. page_free u q \<Longrightarrow> page_free s q \<or> released s (i, j) q"
      "\<And>q. page_free s q \<Longrightarrow> page_free u q" by blast
    have tb: "tbl u = tbl s" using u(3) by (simp add: tbl_def fun_eq_iff)
    have abs: "pagemap u = pagemap s" "table_frame u = table_frame s"
      using u(3,4) tb by (simp_all add: pagemap_def table_frame_def fun_eq_iff)
    have l: "l1e u i \<noteq> 0" using u(3) assms(4) by simp
    let ?s' = "upd_entry i j (NEW_L2_ENTRY attr pa) u"
    have "vmm_map_entry (L2_VADDR i) j pa attr forced s = Some (1, ?s')"
      using False u(1) pt_table(2) [OF u(2) i assms(3) l] unfolding t_def
      by (simp add: vmm_map_entry_def get)
    moreover have "pagemap ?s' = (pagemap s)((i, j) \<mapsto> NEW_L2_ENTRY attr pa)"
      using pagemap_upd [OF u(2) assms(2,3) l] new_entry_nonzero [OF assms(5)] by (simp add: abs)
    moreover have "vm_frame s u" using u abs by (simp add: vm_frame_def)
    moreover note vm_frame_upd [OF u(2) assms(2,3) l, of "NEW_L2_ENTRY attr pa"]
      vm_ok_upd [OF u(2) assms(2,3) l, of "NEW_L2_ENTRY attr pa"]
    ultimately show ?thesis
      using False u(7-9) pm pmm_view_cong(1) [of ?s' u] abs(2)
      by (intro set [of ?s']) (auto intro: vm_frame_trans split: if_splits)
  qed
qed

section \<open>Adding a table\<close>

lemma alloc_page_vm:
  assumes "vm_ok s" "pmm_alloc_page s = Some (a, t)"
  shows "l1e t = l1e s" "l2e t = l2e s" "tbl t = tbl s" "pagemap t = pagemap s"
    "table_frame t = table_frame s" "phys t = phys s" "cr3 t = cr3 s" "invlpg_log t = invlpg_log s"
    "vm_ok t"
    "a = 0 \<Longrightarrow> page_free t = page_free s"
    "a \<noteq> 0 \<Longrightarrow> page_aligned a \<and> page_free s (drop_bit 12 a)
       \<and> page_free t = (page_free s)(drop_bit 12 a := False) \<and> \<not> table_frame s a"
proof -
  have ok: "pmm_ok s" using assms(1) by (rule vm_okD)
  obtain x b where t: "t = s\<lparr>pg_lookup_ptr := x, pm_bitmap := b\<rparr>"
    using pmm_alloc_page_frame [OF ok] assms(2) by auto
  show "l1e t = l1e s" "l2e t = l2e s" "tbl t = tbl s" "pagemap t = pagemap s"
    "table_frame t = table_frame s" "phys t = phys s" "cr3 t = cr3 s" "invlpg_log t = invlpg_log s"
    by (simp_all add: t)
  have "\<not> page_free t (drop_bit 12 f)" if "table_frame s f" for f
    using pmm_pool.alloc_occupied [OF ok assms(2)] vm_ok_table_frame(2) [OF assms(1) that] .
  then show "vm_ok t"
    using vm_ok_pool [OF assms(1), where x = x and b = b] pmm_pool.alloc_inv [OF ok assms(2)] by (simp add: t)
  show "a = 0 \<Longrightarrow> page_free t = page_free s" using pmm_pool.alloc_null ok assms(2) by blast
  show "page_aligned a \<and> page_free s (drop_bit 12 a)
       \<and> page_free t = (page_free s)(drop_bit 12 a := False) \<and> \<not> table_frame s a" if "a \<noteq> 0"
    using pmm_pool.alloc_page [OF ok assms(2) that] vm_ok_table_frame(2) [OF assms(1), of a] by blast
qed

lemma vm_ok_new_entry:
  assumes "vm_ok s" "i < 1023" "l1e s i = 0" "IS_CACHED e" "\<not> page_free s (drop_bit 12 (PG_ALIGN e))"
    "\<not> table_frame s (PG_ALIGN e)"
  shows "vm_ok (upd_entry 1023 i e s)"
    and "k < 1024 \<Longrightarrow> l1e (upd_entry 1023 i e s) k = (if k = i then e else l1e s k)"
    and "k < 1023 \<Longrightarrow> k \<noteq> i \<Longrightarrow> b < 1024 \<Longrightarrow> l1e s k \<noteq> 0 \<Longrightarrow> l2e (upd_entry 1023 i e s) k b = l2e s k b"
proof -
  let ?s = "upd_entry 1023 i e s"
  have i: "i < 1024" "i \<noteq> 1023" using assms(2) by (rule l1_index_small)+
  have l: "l1e ?s k = (if k = i then e else l1e s k)" if "k < 1024" for k
    using l1e_upd [OF assms(1) _ i(1) that vm_okD(3) [OF assms(1)], of e] by simp
  then have t: "tbl ?s k = (if k = i then PG_ALIGN e else tbl s k)" if "k < 1024" for k
    using that by (simp add: tbl_def)
  have pf: "page_free ?s = page_free s" "pmm_ok ?s = pmm_ok s" "cr3 ?s = cr3 s"
    using pmm_view_cong [of ?s s] by (simp_all add: fun_eq_iff)
  have fresh: "tbl s k \<noteq> PG_ALIGN e" if "k < 1024" "l1e s k \<noteq> 0" for k
    using assms(6) that by (auto simp: table_frame_def)
  have e: "e \<noteq> 0" using assms(4) by auto
  show "vm_ok ?s"
    unfolding vm_ok_def pf
  proof (intro conjI allI impI)
    show "pmm_ok s" "page_aligned (cr3 s)" using vm_okD [OF assms(1)] by blast+
    show "l1e ?s 1023 \<noteq> 0" "tbl ?s 1023 = cr3 s"
      using l [of 1023] t [of 1023] i vm_okD(3,4) [OF assms(1)] by simp_all
    show "IS_CACHED (l1e ?s k)" "\<not> page_free s (drop_bit 12 (tbl ?s k))" if "k < 1024" "l1e ?s k \<noteq> 0" for k
      using that l [of k] t [of k] vm_okD(5,6) [OF assms(1), of k] assms(4,5) by (auto split: if_splits)
    show "k = k'" if "k < 1024" "k' < 1024" "l1e ?s k \<noteq> 0" "l1e ?s k' \<noteq> 0" "tbl ?s k = tbl ?s k'" for k k'
      using that l t fresh [of k] fresh [of k'] vm_okD(7) [OF assms(1), of k k'] by (auto split: if_splits)
  qed
  show "k < 1024 \<Longrightarrow> l1e ?s k = (if k = i then e else l1e s k)" by (rule l)
  show "l2e ?s k b = l2e s k b" if k: "k < 1023" "k \<noteq> i" "b < 1024" "l1e s k \<noteq> 0"
  proof -
    have k': "k < 1024" "k \<noteq> 1023" using k(1) by (rule l1_index_small)+
    have "tbl s k \<noteq> tbl s 1023"
      using vm_okD(7) [OF assms(1) k'(1), of 1023] k' k(4) vm_okD(3) [OF assms(1)] by auto
    then have "tbl s 1023 + 4 * i \<noteq> tbl s k + 4 * b"
      using entry_addr_inj [of "tbl s 1023" "tbl s k" i b] i k by simp
    then show ?thesis
      using t [OF k'(1)] k(2,3) i
      by (simp add: l2e_def phys_upd_entry load32_store32_aligned entry_addr)
  qed
qed

lemma load32_zero: "(\<And>k. k < 4 \<Longrightarrow> m (p + k) = 0) \<Longrightarrow> load32 m p = 0"
proof -
  assume *: "\<And>k. k < 4 \<Longrightarrow> m (p + k) = 0"
  from * [of 0] * [of 1] * [of 2] * [of 3] show ?thesis by (simp add: load32_def)
qed

lemma new_table_spec:
  assumes "vm_ok s" "i < 1023" "l1e s i = 0" "IS_CACHED attr"
    "pmm_alloc_page s = Some (a, t)" "a \<noteq> 0"
  obtains u s' where "pt_set L1_BASE_VADDR i (NEW_L1_ENTRY attr a) t = Some u"
    "vmemset (unat PG_SIZE) (L2_VADDR i) 0 u = Some s'"
    "vm_ok s'" "vm_frame s s'" "pagemap s' = pagemap s" "l1e s' i \<noteq> 0"
    "\<And>f. table_frame s' f \<longleftrightarrow> table_frame s f \<or> f = a" "invlpg_log s' = invlpg_log s"
    "page_free s' = (page_free s)(drop_bit 12 a := False)"
proof -
  note al = alloc_page_vm [OF assms(1,5)]
  have a: "page_aligned a" "page_free s (drop_bit 12 a)" "\<not> table_frame s a"
    "page_free t = (page_free s)(drop_bit 12 a := False)" using al(11) [OF assms(6)] by blast+
  have i: "i < 1024" "i \<noteq> 1023" using assms(2) by (rule l1_index_small)+
  let ?e = "NEW_L1_ENTRY attr a"
  define u where "u = upd_entry 1023 i ?e t"
  have e: "IS_CACHED ?e" "PG_ALIGN ?e = a" "?e \<noteq> 0"
    using assms(4) a(1) IS_CACHED_0 by (auto simp: PG_ALIGN_id simp del: IS_CACHED_0) (metis IS_CACHED_0 IS_CACHED_new_entry(1))
  have "l1e t i = 0" using al(1) assms(3) by simp
  moreover have "\<not> page_free t (drop_bit 12 (PG_ALIGN ?e))" "\<not> table_frame t (PG_ALIGN ?e)"
    using a al(5) e by simp_all
  ultimately have u: "vm_ok u"
    "\<And>k. k < 1024 \<Longrightarrow> l1e u k = (if k = i then ?e else l1e s k)"
    "\<And>k b. k < 1023 \<Longrightarrow> k \<noteq> i \<Longrightarrow> b < 1024 \<Longrightarrow> l1e s k \<noteq> 0 \<Longrightarrow> l2e u k b = l2e s k b"
    using vm_ok_new_entry [OF al(9) assms(2) _ e(1)] unfolding u_def al(1,2) by blast+
  have set: "pt_set L1_BASE_VADDR i ?e t = Some u" using pt_dir(2) [OF al(9) i(1)] by (simp add: u_def)
  have ui: "l1e u i \<noteq> 0" "tbl u i = a" using u(2) [OF i(1)] e by (simp_all add: tbl_def)
  have "cr3 u = cr3 s" by (simp add: u_def al)
  obtain m where m: "vmemset 4096 (L2_VADDR i + 0) 0 u = Some (u\<lparr>phys := m\<rparr>)"
    "\<And>x. m x = (if PG_ALIGN x = a then 0 else phys u x)"
    using vmemset_table [OF u(1) assms(2) ui(1), of 0 4096 0] ui(2)
    by (auto simp: word_less_nat_alt unat_PG_OFFSET)
  let ?s' = "u\<lparr>phys := m\<rparr>"
  have off: "off_page a u ?s'" using m(2) by (auto simp: off_page_def)
  have ne: "a \<noteq> cr3 u"
    using dir_frame [OF assms(1)] a(3) \<open>cr3 u = cr3 s\<close> by auto
  have ent: "l1e ?s' k = l1e u k" "tbl ?s' k = tbl u k"
    "tbl u k \<noteq> a \<Longrightarrow> b < 1024 \<Longrightarrow> l2e ?s' k b = l2e u k b" if "k < 1024" for k b
    using off_page_entries [OF off vm_okD(2) [OF u(1)] ne that] by blast+
  have zero: "l2e ?s' i b = 0" if "b < 1024" for b
  proof -
    have "PG_ALIGN (a + 4 * b + k) = a" if "k < 4" for k
      using aligned4_page(2) [OF entry_addr(3) [OF a(1) \<open>b < 1024\<close>] that] entry_addr(1) [OF a(1) \<open>b < 1024\<close>]
      by simp
    then show ?thesis using ent(2) [OF i(1)] ui(2) m(2) by (simp add: l2e_def load32_zero)
  qed
  have l1: "l1e ?s' k = (if k = i then ?e else l1e s k)" if "k < 1024" for k
    using ent(1) u(2) that by simp
  have tb: "tbl ?s' k = (if k = i then a else tbl s k)" if "k < 1024" for k
    using l1 [OF that] e(2) by (simp add: tbl_def)
  have tf: "table_frame ?s' f \<longleftrightarrow> table_frame s f \<or> f = a" for f
    using l1 tb i assms(3) e(3) unfolding table_frame_def by metis
  have pm: "pagemap ?s' = pagemap s"
  proof (rule ext, clarify)
    fix k b
    show "pagemap ?s' (k, b) = pagemap s (k, b)"
    proof (cases "k < 1023 \<and> b < 1024 \<and> k \<noteq> i \<and> l1e s k \<noteq> 0")
      case True
      then have k: "k < 1024" using l1_index_small by blast
      have "tbl u k \<noteq> a"
        using True u(2) [OF k] a(3) k by (auto simp: table_frame_def tbl_def)
      then show ?thesis using True l1 [OF k] ent(3) [OF k] u(3) by (simp add: pagemap_def)
    next
      case False
      then show ?thesis
        using zero [of b] l1 [of k] assms(3) l1_index_small [of k] by (auto simp: pagemap_def)
    qed
  qed
  have frame: "vm_frame s ?s'"
    unfolding vm_frame_def
  proof (intro conjI allI impI)
    show "cr3 ?s' = cr3 s" by (simp add: \<open>cr3 u = cr3 s\<close>)
    fix x
    assume x: "\<not> table_frame ?s' (PG_ALIGN x)"
    then have "PG_ALIGN x \<noteq> a" "PG_ALIGN x \<noteq> cr3 t"
      using x dir_frame [OF assms(1)] unfolding tf al(7) by metis+
    moreover have "phys (upd_entry 1023 i ?e t) x = phys t x" if "PG_ALIGN x \<noteq> cr3 t"
    proof -
      have at: "aligned4 (cr3 t + 4 * i)" "PG_ALIGN (cr3 t + 4 * i) = cr3 t"
        using entry_addr [OF vm_okD(2) [OF al(9)] i(1)] by blast+
      then have "\<forall>k < 4. cr3 t + 4 * i + of_nat k \<noteq> x"
        using that at(2) by (auto simp: aligned4_page(2) [OF at(1) of_nat_lt_4])
      then show ?thesis
        unfolding phys_upd_entry vm_okD(4) [OF al(9)] by (rule store32_apart)
    qed
    ultimately show "phys ?s' x = phys s x"
      using m(2) [of x] al(6) by (simp add: u_def)
  qed (simp add: tf)
  show ?thesis
  proof (rule that [OF set])
    show "vmemset (unat PG_SIZE) (L2_VADDR i) 0 u = Some ?s'"
      using m(1) by (simp add: page_consts)
    show "vm_ok ?s'" by (rule vm_ok_off_page [OF off u(1) ne])
    show "vm_frame s ?s'" by (rule frame)
    show "l1e ?s' i \<noteq> 0" using l1 [OF i(1)] e by simp
    show "page_free ?s' = (page_free s)(drop_bit 12 a := False)"
      using a(4) by (simp add: page_free_def fun_eq_iff u_def upd_entry_def)
    show "invlpg_log ?s' = invlpg_log s" by (simp add: u_def al)
  qed (fact pm tf)+
qed

section \<open>\<^verbatim>\<open>__vmm_map_internal\<close> on every branch\<close>

lemma map_internal_present:
  assumes "vm_ok s" "i < 1023" "l1e s i \<noteq> 0"
  shows "vmm_map_internal i j pa attr forced s = vmm_map_entry (L2_VADDR i) j pa attr forced s"
  using assms(3) by (simp add: Let_def vmm_map_internal_def pt_dir(1) [OF assms(1) l1_index_small(1) [OF assms(2)]])

lemma map_internal_absent:
  assumes "vm_ok s" "i < 1023" "l1e s i = 0"
  shows "vmm_map_internal i j pa attr forced s = do {
     (a, t) \<leftarrow> pmm_alloc_page s;
     if a = 0 then Some (0, t)
     else do {
       t \<leftarrow> pt_set L1_BASE_VADDR i (NEW_L1_ENTRY attr a) t;
       t \<leftarrow> vmemset (unat PG_SIZE) (L2_VADDR i) 0 t;
       vmm_map_entry (L2_VADDR i) j pa attr forced t
     }}"
  using assms(3) by (simp add: Let_def vmm_map_internal_def pt_dir(1) [OF assms(1) l1_index_small(1) [OF assms(2)]])

lemma pagemap_absent: "l1e s i = 0 \<Longrightarrow> pagemap s (i, j) = None"
  by (simp add: pagemap_def)

lemma map_internal_spec:
  assumes "vm_ok s" "i < 1023" "j < 1024" "IS_CACHED attr" "forced \<longrightarrow> entry_frame_unused s (i, j)"
  obtains (kept) "vmm_map_internal i j pa attr forced s = Some (0, s)"
      "pagemap s (i, j) \<noteq> None" "\<not> forced"
  | (full) t where "vmm_map_internal i j pa attr forced s = Some (0, t)" "l1e s i = 0"
      "pmm_alloc_page s = Some (0, t)"
  | (set) s' where "vmm_map_internal i j pa attr forced s = Some (1, s')"
      "pagemap s (i, j) = None \<or> forced" "vm_ok s'" "vm_frame s s'"
      "pagemap s' = (pagemap s)((i, j) \<mapsto> NEW_L2_ENTRY attr pa)" "invlpg_log s' = invlpg_log s"
      "\<And>q. page_free s' q \<Longrightarrow> page_free s q \<or> released s (i, j) q"
      "\<And>q. page_free s q \<Longrightarrow> page_free s' q \<or> table_frame s' (push_bit 12 q)"
      "\<And>f. table_frame s' f \<Longrightarrow> table_frame s f \<or> page_free s (drop_bit 12 f)"
proof (cases "l1e s i = 0")
  case False
  show ?thesis
  proof (cases rule: map_entry_spec [OF assms(1-3) False assms(4,5), where pa = pa, case_names kept set])
    case kept
    then show ?thesis using that(1) map_internal_present [OF assms(1,2) False] by simp
  next
    case (set s')
    then show ?thesis
      using map_internal_present [OF assms(1,2) False] by (intro that(3) [of s']) simp_all
  qed
next
  case True
  note eq = map_internal_absent [OF assms(1,2) True]
  obtain a t where at: "pmm_alloc_page s = Some (a, t)"
    using pmm_pool.alloc_total vm_okD(1) [OF assms(1)] by blast
  show ?thesis
  proof (cases "a = 0")
    case True
    then show ?thesis using full \<open>l1e s i = 0\<close> at eq by simp
  next
    case False
    note fresh = alloc_page_vm(11) [OF assms(1) at False]
    from new_table_spec [OF assms(1,2) True assms(4) at False] obtain u v where
      u: "pt_set L1_BASE_VADDR i (NEW_L1_ENTRY attr a) t = Some u"
        "vmemset (unat PG_SIZE) (L2_VADDR i) 0 u = Some v" and
      v: "vm_ok v" "vm_frame s v" "pagemap v = pagemap s" "l1e v i \<noteq> 0"
        "\<And>f. table_frame v f \<longleftrightarrow> table_frame s f \<or> f = a" "invlpg_log v = invlpg_log s"
        "page_free v = (page_free s)(drop_bit 12 a := False)" by blast
    have pf: "page_free v q \<longleftrightarrow> page_free s q \<and> q \<noteq> drop_bit 12 a" for q using v(7) by simp
    have none: "pagemap v (i, j) = None" using v(3) True by (simp add: pagemap_absent)
    then have unused: "forced \<longrightarrow> entry_frame_unused v (i, j)" by (simp add: entry_frame_unused_def)
    have eq': "vmm_map_internal i j pa attr forced s = vmm_map_entry (L2_VADDR i) j pa attr forced v"
      using False u by (simp add: eq at)
    show ?thesis
    proof (cases rule: map_entry_spec [OF v(1) assms(2,3) v(4) assms(4) unused, where pa = pa,
          case_names kept set])
      case (set s')
      show ?thesis
      proof (rule that(3) [of s'])
        show "vmm_map_internal i j pa attr forced s = Some (1, s')" using eq' set(1) by simp
        show "vm_frame s s'" by (rule vm_frame_trans [OF v(2) set(4)])
        show "page_free s q \<or> released s (i, j) q" if "page_free s' q" for q
          using set(9) [OF that] by (simp add: pf released_def none)
        show "page_free s' q \<or> table_frame s' (push_bit 12 q)" if "page_free s q" for q
        proof (cases "q = drop_bit 12 a")
          case True
          then show ?thesis using aligned_page_number fresh by (simp add: set(6) v(5))
        qed (use set(8) that in \<open>simp add: pf\<close>)
        show "table_frame s f \<or> page_free s (drop_bit 12 f)" if "table_frame s' f" for f
          using that fresh unfolding set(6) v(5) by blast
      qed (simp_all add: set v pagemap_absent [OF True])
    qed (use none in simp_all)
  qed
qed

lemma map_internal_fresh:
  assumes "vm_ok s" "i < 1023" "j < 1024" "IS_CACHED attr"
  obtains (kept) "vmm_map_internal i j pa attr False s = Some (0, s)" "pagemap s (i, j) \<noteq> None"
  | (full) t where "vmm_map_internal i j pa attr False s = Some (0, t)" "l1e s i = 0"
      "pmm_alloc_page s = Some (0, t)"
  | (set) s' where "vmm_map_internal i j pa attr False s = Some (1, s')"
      "pagemap s (i, j) = None" "vm_ok s'" "vm_frame s s'"
      "pagemap s' = (pagemap s)((i, j) \<mapsto> NEW_L2_ENTRY attr pa)" "invlpg_log s' = invlpg_log s"
      "\<And>q. page_free s' q \<Longrightarrow> page_free s q"
      "\<And>q. page_free s q \<Longrightarrow> page_free s' q \<or> table_frame s' (push_bit 12 q)"
      "\<And>f. table_frame s' f \<Longrightarrow> table_frame s f \<or> page_free s (drop_bit 12 f)"
proof -
  have "False \<longrightarrow> entry_frame_unused s (i, j)" by simp
  from map_internal_spec [OF assms this, where pa = pa, case_names kept full set]
  show ?thesis
  proof cases
    case (set s')
    then show ?thesis using set(7) [unfolded released_def] by (intro that(3) [of s']) auto
  qed (use that in blast)+
qed

section \<open>Lookup\<close>

lemma lookup_present:
  assumes "vm_ok s"
  shows "vmm_lookup va s = Some (let e = l2e s (L1_INDEX va) (L2_INDEX va) in
    if l1e s (L1_INDEX va) \<noteq> 0 \<and> e \<noteq> 0
    then \<lparr>vm_pn = drop_bit 12 (PG_ALIGN e), vm_pa = PG_ALIGN e, vm_flags = ucast (PG_ENTRY_FLAGS e)\<rparr>
    else \<lparr>vm_pn = 0, vm_pa = 0, vm_flags = 0\<rparr>)"
  using pt_dir(1) [OF assms, of "L1_INDEX va"] pt_table(1) [OF assms, of "L1_INDEX va" "L2_INDEX va"]
  by (simp add: vmm_lookup_def Let_def PG_ENTRY_ADDR_align PG_SIZE_BITS_def)

section \<open>Unmapping\<close>

definition va_idx :: "u32 \<Rightarrow> u32 \<times> u32" where
  "va_idx va = (L1_INDEX va, L2_INDEX va)"

lemma unmap_spec:
  assumes "vm_ok s" "L1_INDEX va < 1023" "entry_frame_unused s (va_idx va)"
  obtains (absent) "vmm_unmap_page va s = Some s" "pagemap s (va_idx va) = None" 
  | (present) s' where "vmm_unmap_page va s = Some s'" "vm_ok s'" "vm_frame s s'"
      "pagemap s' = (pagemap s)(va_idx va := None)" "table_frame s' = table_frame s"
      "invlpg_log s' = va # invlpg_log s"
      "\<And>q. page_free s q \<Longrightarrow> page_free s' q"
      "\<And>q. page_free s' q \<Longrightarrow> page_free s q \<or> released s (va_idx va) q"
      "\<And>e. pagemap s (va_idx va) = Some e \<Longrightarrow> IS_CACHED e \<Longrightarrow> drop_bit 12 e \<noteq> 0
        \<Longrightarrow> drop_bit 12 e < max_pg s \<Longrightarrow> page_free s' (drop_bit 12 e)"
proof (cases "l1e s (L1_INDEX va) = 0")
  case True
  then show ?thesis
    using absent assms(2) by (simp add: vmm_unmap_page_def Let_def pt_dir(1) [OF assms(1)] va_idx_def
        pagemap_absent word_less_nat_alt)
next
  case False
  let ?i = "L1_INDEX va" and ?j = "L2_INDEX va" let ?e = "l2e s ?i ?j"
  have i: "?i < 1024" "?i \<noteq> 1023" using assms(2) by (rule l1_index_small)+
  have pm: "pagemap s (va_idx va) = (if ?e = 0 then None else Some ?e)"
    using assms(2) False by (simp add: va_idx_def pagemap_def)
  have eq: "vmm_unmap_page va s = do {
      s \<leftarrow> (if IS_CACHED ?e then map_option snd (pmm_free_page ?e s) else Some s);
      pt_set (L2_VADDR ?i) ?j PTE_NULL (cpu_invplg va s) }"
    using False i by (simp add: vmm_unmap_page_def Let_def pt_dir(1) [OF assms(1)] pt_table(1) [OF assms(1)])
  have "\<exists>u. (if IS_CACHED ?e then map_option snd (pmm_free_page ?e s) else Some s) = Some u
      \<and> vm_ok u \<and> l1e u = l1e s \<and> l2e u = l2e s \<and> phys u = phys s
      \<and> cr3 u = cr3 s \<and> invlpg_log u = invlpg_log s
      \<and> (\<forall>q. page_free u q \<longrightarrow> page_free s q \<or> released s (va_idx va) q)
      \<and> (\<forall>q. page_free s q \<longrightarrow> page_free u q)
      \<and> (IS_CACHED ?e \<longrightarrow> drop_bit 12 ?e \<noteq> 0 \<longrightarrow> drop_bit 12 ?e < max_pg s \<longrightarrow> page_free u (drop_bit 12 ?e))"
  proof (cases "IS_CACHED ?e")
    case True
    then have pme: "pagemap s (va_idx va) = Some ?e" using pm by (auto split: if_splits)
    then have "\<not> table_frame s (PG_ALIGN ?e)"
      using assms(3) True by (auto simp: entry_frame_unused_def)
    from free_page_vm [OF assms(1) this] obtain r u where
      u: "pmm_free_page ?e s = Some (r, u)" "vm_ok u" "l1e u = l1e s" "l2e u = l2e s"
        "phys u = phys s" "cr3 u = cr3 s" "invlpg_log u = invlpg_log s"
        "\<And>q. page_free u q \<longleftrightarrow> page_free s q \<or> (r \<noteq> 0 \<and> q = drop_bit 12 ?e)" by blast
    have "r \<noteq> 0" if "drop_bit 12 ?e \<noteq> 0" "drop_bit 12 ?e < max_pg s"
      using u(1) that by (cases rule: pmm_free_page_cases [of ?e s]) (auto simp: not_le)
    with u True pme show ?thesis by (auto simp: released_def)
  qed (use assms(1) in auto)
  then obtain u where u: "(if IS_CACHED ?e then map_option snd (pmm_free_page ?e s) else Some s) = Some u"
    "vm_ok u" "l1e u = l1e s" "l2e u = l2e s" "phys u = phys s" "cr3 u = cr3 s" "invlpg_log u = invlpg_log s"
    "\<And>q. page_free u q \<Longrightarrow> page_free s q \<or> released s (va_idx va) q"
    "\<And>q. page_free s q \<Longrightarrow> page_free u q"
    "IS_CACHED ?e \<Longrightarrow> drop_bit 12 ?e \<noteq> 0 \<Longrightarrow> drop_bit 12 ?e < max_pg s \<Longrightarrow> page_free u (drop_bit 12 ?e)"
    by blast
  let ?u = "cpu_invplg va u"
  have tb: "tbl u = tbl s" using u(3) by (simp add: tbl_def fun_eq_iff)
  have abs: "pagemap u = pagemap s" "table_frame u = table_frame s"
    using u(3,4) tb by (simp_all add: pagemap_def table_frame_def fun_eq_iff)
  have ok: "vm_ok ?u" "l1e ?u ?i \<noteq> 0" using u False by simp_all
  let ?s' = "upd_entry ?i ?j 0 ?u"
  have pf: "page_free ?s' = page_free u" using pmm_view_cong(1) [of ?s' ?u] by (simp add: fun_eq_iff)
  have frame: "vm_frame s ?u" using u(5,6) abs by (simp add: vm_frame_def)
  note upd = vm_frame_upd [OF ok(1) assms(2) L2_INDEX_lt [of va] ok(2), of 0]
  show ?thesis
  proof (rule present [of ?s'])
    show "vmm_unmap_page va s = Some ?s'"
      unfolding eq u(1) using pt_table(2) [OF ok(1) i(1) L2_INDEX_lt ok(2)] by (simp add: PTE_NULL_def)
    show "vm_ok ?s'" by (rule vm_ok_upd [OF ok(1) assms(2) L2_INDEX_lt [of va] ok(2)])
    show "vm_frame s ?s'" by (rule vm_frame_trans [OF frame upd(1)])
    show "pagemap ?s' = (pagemap s)(va_idx va := None)"
      using pagemap_upd [OF ok(1) assms(2) L2_INDEX_lt [of va] ok(2), of 0] by (simp add: abs va_idx_def)
    show "table_frame ?s' = table_frame s" using upd(2) abs by simp
    show "invlpg_log ?s' = va # invlpg_log s" using u(7) by (simp add: cpu_invplg_def)
  qed (use u(8-10) pf pm in \<open>auto split: if_splits\<close>)
qed

section \<open>The search of \<^verbatim>\<open>vmm_map_page\<close>\<close>

text \<open>Virtual pages are numbered; \<open>slot n\<close> are the table indices of page \<open>n\<close>. The loop is
  followed from one number to the next.\<close>

definition slot :: "nat \<Rightarrow> u32 \<times> u32" where
  "slot n = (of_nat (n div 1024), of_nat (n mod 1024))"

definition vpn :: "u32 \<Rightarrow> nat" where
  "vpn va = unat va div 4096"

lemma slot_vpn: "slot (vpn va) = va_idx va"
proof -
  have "unat va div 4096 div 1024 = unat va div 4194304" by (simp add: div_mult2_eq [symmetric])
  moreover have "unat va div 4194304 < 4294967296"
    using unat_lt32 [of va] by (rule le_less_trans [OF div_le_dividend])
  ultimately show ?thesis
    by (simp add: slot_def vpn_def va_idx_def word_unat_eq_iff unat_word unat_of_nat_u32)
qed

lemma slot_bounds:
  assumes "n < 1023 * 1024"
  shows "fst (slot n) < 1023" "fst (slot n) < 1024" "snd (slot n) < 1024"
  using assms by (simp_all add: slot_def word_less_nat_alt unat_of_nat_u32 less_mult_imp_div_less)

lemma V_ADDR_slot:
  assumes "m < 1023 * 1024"
  shows "V_ADDR (fst (slot m)) (snd (slot m)) 0 = of_nat (4096 * m)"
proof -
  let ?va = "of_nat (4096 * m) :: u32"
  have u: "unat ?va = 4096 * m" using assms by (intro unat_of_nat_u32) simp
  then have "vpn ?va = m" "PG_OFFSET ?va = 0" by (simp_all add: vpn_def word_unat_eq_iff unat_PG_OFFSET)
  then show ?thesis using V_ADDR_split [of ?va] slot_vpn [of ?va] by (simp add: va_idx_def)
qed

lemma slot_Suc:
  assumes "Suc n < 1023 * 1024"
  shows "slot (Suc n) = (if snd (slot n) = 1023 then (fst (slot n) + 1, 0)
    else (fst (slot n), snd (slot n) + 1))"
proof -
  have s: "(of_nat (n mod 1024) :: u32) = 1023 \<longleftrightarrow> n mod 1024 = 1023"
    using of_nat_inject_u32 [of "n mod 1024" 1023] by simp
  show ?thesis
  proof (cases "n mod 1024 = 1023")
    case True
    then have "Suc n mod 1024 = 0" "Suc n div 1024 = Suc (n div 1024)"
      by (simp_all add: mod_Suc div_Suc)
    with True s show ?thesis by (simp add: slot_def)
  next
    case False
    then have "Suc n mod 1024 = Suc (n mod 1024)" "Suc n div 1024 = n div 1024"
      by (simp_all add: mod_Suc div_Suc)
    with False s show ?thesis by (simp add: slot_def)
  qed
qed

lemma L2_VADDR_nonzero [simp]: "L2_VADDR i \<noteq> 0"
proof
  assume "L2_VADDR i = 0"
  then have "bit (L2_VADDR i) 31 = bit (0 :: u32) 31" by simp
  moreover have "bit L2_BASE_VADDR 31" by (simp add: L2_BASE_VADDR_def page_masks bit_simps)
  ultimately show False by (simp add: L2_VADDR_def bit_simps)
qed

abbreviation search_at :: "u32 \<Rightarrow> u32 \<Rightarrow> u32 \<Rightarrow> u32 \<times> u32 \<Rightarrow> 'a vm_scheme
    \<Rightarrow> ((u32 \<times> 'a vm_scheme) + (u32 \<times> u32)) option" where
  "search_at va pa attr ij s \<equiv>
     vmm_map_loop va pa attr (fst ij) (snd ij) (l1e s (fst ij)) (L2_VADDR (fst ij)) s"

lemma search_hit:
  assumes ok: "vm_ok s" and "i < 1023" "j < 1024" "l1e s i \<noteq> 0" "l2e s i j = 0"
  shows "search_at va pa attr (i, j) s
    = Some (Inl (V_ADDR i j (PG_OFFSET va), upd_entry i j (NEW_L2_ENTRY attr pa) s))"
proof -
  have "i < 1024" "j \<noteq> 1024" using l1_index_small(1) [OF assms(2)] assms(3) by auto
  then show ?thesis
    using assms by (subst vmm_map_loop.simps) (simp add: PG_MAX_ENTRIES_def pt_table [OF ok])
qed

lemma search_full:
  assumes ok: "vm_ok s" and "i < 1023" "j < 1024" "l1e s i \<noteq> 0" "l2e s i j \<noteq> 0"
  shows "search_at va pa attr (i, j) s = search_at va pa attr (i, j + 1) s"
proof -
  have "i < 1024" "j \<noteq> 1024" using l1_index_small(1) [OF assms(2)] assms(3) by auto
  then show ?thesis
    using assms by (subst vmm_map_loop.simps) (simp add: PG_MAX_ENTRIES_def pt_table [OF ok])
qed

lemma search_next_table:
  assumes ok: "vm_ok s" and "i + 1 < 1023" "i < 1023" "l1e s i \<noteq> 0"
  shows "search_at va pa attr (i, 1024) s
    = (if l1e s (i + 1) = 0 then None else search_at va pa attr (i + 1, 0) s)"
proof -
  have i: "i < 1024" "i + 1 < 1024" using assms(2,3) l1_index_small(1) by blast+
  have dir: "pt_get L1_BASE_VADDR (i + 1) s = Some (l1e s (i + 1))" by (rule pt_dir(1) [OF ok i(2)])
  show ?thesis
  proof (cases "l1e s (i + 1) = 0")
    case True
    then have "pt_get (L2_VADDR (i + 1)) 0 s = None"
      using read_entry [OF ok i(2), of 0] by (simp add: pt_get_def)
    with True assms i show ?thesis
      by (subst vmm_map_loop.simps) (simp add: PG_MAX_ENTRIES_def dir)
  next
    case False
    then show ?thesis
      apply (subst (2) vmm_map_loop.simps)
      apply (subst vmm_map_loop.simps)
      using assms i by (simp add: PG_MAX_ENTRIES_def dir cong: if_cong)
  qed
qed

text \<open>\<open>full_range s n m\<close>: every page numbered from \<open>n\<close> up to \<open>m - 1\<close> has an entry.\<close>

definition full_range :: "'a vm_scheme \<Rightarrow> nat \<Rightarrow> nat \<Rightarrow> bool" where
  "full_range s n m \<longleftrightarrow> (\<forall>x \<in> {n ..< m}. pagemap s (slot x) \<noteq> None)"

lemma pagemap_slot:
  "n < 1023 * 1024 \<Longrightarrow> pagemap s (slot n) = (if l1e s (fst (slot n)) \<noteq> 0
     \<and> l2e s (fst (slot n)) (snd (slot n)) \<noteq> 0 then Some (l2e s (fst (slot n)) (snd (slot n))) else None)"
  using slot_bounds [of n] by (simp add: pagemap_def split_beta)

lemma search_Suc:
  assumes "vm_ok s" "Suc n < 1023 * 1024" "pagemap s (slot n) \<noteq> None"
  shows "search_at va pa attr (slot n) s =
    (if l1e s (fst (slot (Suc n))) = 0 then None else search_at va pa attr (slot (Suc n)) s)"
proof -
  obtain i j where ij: "slot n = (i, j)" by fastforce
  have n: "n < 1023 * 1024" using assms(2) by simp
  have b: "i < 1023" "j < 1024" and e: "l1e s i \<noteq> 0" "l2e s i j \<noteq> 0"
    using slot_bounds [OF n] pagemap_slot [OF n, of s] assms(3) ij by (auto split: if_splits)
  note full = search_full [OF assms(1) b e, of va pa attr]
  show ?thesis
  proof (cases "j = 1023")
    case True
    then have suc: "slot (Suc n) = (i + 1, 0)" using slot_Suc [OF assms(2)] ij by simp
    then have "i + 1 < 1023" using slot_bounds(1) [OF assms(2)] by simp
    from search_next_table [OF assms(1) this b(1) e(1), of va pa attr] full True
    show ?thesis by (simp add: suc ij)
  next
    case False
    then have "slot (Suc n) = (i, j + 1)" using slot_Suc [OF assms(2)] ij by simp
    with full e show ?thesis by (simp add: ij)
  qed
qed

lemma search_run:
  assumes "vm_ok s" "n \<le> m" "m < 1023 * 1024" "full_range s n m"
    "l1e s (fst (slot m)) \<noteq> 0"
  shows "search_at va pa attr (slot n) s = search_at va pa attr (slot m) s"
  using assms(2-5)
proof (induction m rule: dec_induct)
  case (step m)
  have pm: "pagemap s (slot m) \<noteq> None" using step.hyps step.prems by (simp add: full_range_def)
  moreover have m: "m < 1023 * 1024" using step.prems by simp
  ultimately have "l1e s (fst (slot m)) \<noteq> 0" using pagemap_slot [OF m, of s] by (auto split: if_splits)
  then have "search_at va pa attr (slot n) s = search_at va pa attr (slot m) s"
    using step by (simp add: full_range_def)
  then show ?case using search_Suc [OF assms(1) step.prems(1) pm] step.prems(3) by simp
qed simp

lemma search_fault:
  assumes "vm_ok s" "n < m" "m < 1023 * 1024" "full_range s n m" "l1e s (fst (slot m)) = 0"
  shows "search_at va pa attr (slot n) s = None"
proof -
  obtain k where k: "m = Suc k" using assms(2) by (cases m) auto
  have pm: "pagemap s (slot k) \<noteq> None" using assms(2,4) k by (simp add: full_range_def)
  have "k < 1023 * 1024" using assms(3) k by simp
  then have "l1e s (fst (slot k)) \<noteq> 0"
    using pagemap_slot [of k s] pm by (auto split: if_splits)
  moreover have "full_range s n k" using assms(4) k by (simp add: full_range_def)
  ultimately have "search_at va pa attr (slot n) s = search_at va pa attr (slot k) s"
    using search_run [OF assms(1), of n k] assms(2,3) k by simp
  then show ?thesis using search_Suc [OF assms(1) _ pm] assms(3,5) k by simp
qed

lemma map_page_start:
  assumes "vm_ok s" "va \<noteq> 0" "pa \<noteq> 0"
  shows "vmm_map_page va pa attr s
    = Option.bind (search_at va pa attr (va_idx va) s) (vmm_map_rest va pa attr s)"
  using assms by (simp add: vmm_map_page_def pt_dir(1) va_idx_def)

lemma map_page_hit:
  assumes "vm_ok s" "va \<noteq> 0" "pa \<noteq> 0" "vpn va \<le> m" "m < 1023 * 1024" "full_range s (vpn va) m"
    "l1e s (fst (slot m)) \<noteq> 0" "pagemap s (slot m) = None"
  shows "vmm_map_page va pa attr s = Some (V_ADDR (fst (slot m)) (snd (slot m)) (PG_OFFSET va),
    upd_entry (fst (slot m)) (snd (slot m)) (NEW_L2_ENTRY attr pa) s)"
proof -
  have "l2e s (fst (slot m)) (snd (slot m)) = 0"
    using pagemap_slot [OF assms(5), of s] assms(7,8) by (auto split: if_splits)
  from search_hit [OF assms(1) slot_bounds(1,3) [OF assms(5)] assms(7) this, of va pa attr]
    search_run [OF assms(1,4-7), of va pa attr]
  show ?thesis by (simp add: map_page_start [OF assms(1-3)] slot_vpn vmm_map_rest_def)
qed

lemma map_page_absent:
  assumes "vm_ok s" "va \<noteq> 0" "pa \<noteq> 0" "L1_INDEX va < 1023" "l1e s (L1_INDEX va) = 0"
  shows "vmm_map_page va pa attr s = do {
     (ok, s) \<leftarrow> vmm_map_internal (L1_INDEX va) (L2_INDEX va) pa attr False s;
     Some (if ok = 0 then 0 else va, s)}"
proof -
  have "search_at va pa attr (va_idx va) s = Some (Inr (va_idx va))"
    using assms(5) by (subst vmm_map_loop.simps) (simp add: va_idx_def)
  moreover have "\<not> L1_INDEX va > PG_MAX_ENTRIES"
    using assms(4) by (simp add: PG_MAX_ENTRIES_def word_less_nat_alt)
  ultimately show ?thesis
    by (simp add: map_page_start [OF assms(1-3)] va_idx_def vmm_map_rest_def V_ADDR_split cong: if_cong)
qed

section \<open>Runs of pages\<close>

text \<open>\<open>grown s s'\<close>: the step from \<open>s\<close> to \<open>s'\<close> took frames from the pool and gave none back, and
  each frame that became a table came from the pool.\<close>

definition grown :: "'a vm_scheme \<Rightarrow> 'a vm_scheme \<Rightarrow> bool" where
  "grown s s' \<longleftrightarrow> vm_frame s s' \<and> (\<forall>q. page_free s' q \<longrightarrow> page_free s q)
     \<and> (\<forall>f. table_frame s' f \<longrightarrow> table_frame s f \<or> page_free s (drop_bit 12 f))"

lemma grown_refl [simp]: "grown s s"
  by (simp add: grown_def)

lemma grown_trans: "grown s t \<Longrightarrow> grown t u \<Longrightarrow> grown s u"
  unfolding grown_def using vm_frame_trans by blast

lemma grown_alloc:
  assumes "vm_ok s" "pmm_alloc_page s = Some (a, t)"
  shows "grown s t"
proof -
  note al = alloc_page_vm [OF assms]
  have "page_free t q \<Longrightarrow> page_free s q" for q
    using al(10,11) by (cases "a = 0") (auto split: if_splits)
  then show ?thesis using al(5-7) by (simp add: grown_def vm_frame_def)
qed

lemma next_page:
  assumes "page_aligned va" "vpn va + Suc n \<le> 1023 * 1024"
  shows "page_aligned (va + PG_SIZE)" "vpn (va + PG_SIZE) = Suc (vpn va)"
proof -
  have "unat va < 4096 * (vpn va + 1)"
    unfolding vpn_def by (metis Suc_eq_plus1 dividend_less_times_div zero_less_numeral add.commute mult_Suc_right)
  moreover have "4096 * (vpn va + 1) \<le> 4096 * (1023 * 1024)" using assms(2) by simp
  ultimately have u: "unat (va + PG_SIZE) = unat va + 4096"
    by (subst unat_add_u32) (simp_all add: page_consts)
  show "vpn (va + PG_SIZE) = Suc (vpn va)" by (simp add: vpn_def u)
  have "unat (PG_OFFSET (va + PG_SIZE)) = 0"
    using assms(1) by (simp add: unat_PG_OFFSET u page_aligned_def word_unat_eq_iff)
  then show "page_aligned (va + PG_SIZE)" by (simp add: page_aligned_def unat_eq_zero)
qed

lemma slot_inj:
  assumes "m < 1023 * 1024" "n < 1023 * 1024"
  shows "slot m = slot n \<longleftrightarrow> m = n"
proof
  assume "slot m = slot n"
  then have "m div 1024 = n div 1024" "m mod 1024 = n mod 1024"
    using assms by (simp_all add: slot_def of_nat_inject_u32)
  then show "m = n" by (metis div_mult_mod_eq)
qed simp

lemma aligned_slot:
  assumes "vpn va + Suc n \<le> 1023 * 1024"
  shows "L1_INDEX va < 1023" "va_idx va = slot (vpn va)" "(L1_INDEX va, L2_INDEX va) = slot (vpn va)"
  using slot_bounds(1) [of "vpn va"] assms by (simp_all add: slot_vpn) (simp_all add: va_idx_def)

lemma unmap_run_spec:
  assumes "vm_ok s" "page_aligned va" "vpn va + n \<le> 1023 * 1024"
    "\<forall>k < n. entry_frame_unused s (slot (vpn va + k))"
  shows "\<exists>s'. vmm_unmap_run n va s = Some s' \<and> vm_ok s' \<and> vm_frame s s' \<and>
    pagemap s' = (\<lambda>ij. if \<exists>k < n. ij = slot (vpn va + k) then None else pagemap s ij) \<and>
    table_frame s' = table_frame s \<and>
    (\<forall>q. page_free s' q \<longrightarrow> page_free s q \<or> (\<exists>k < n. released s (slot (vpn va + k)) q))"
  using assms
proof (induction n arbitrary: va s)
  case (Suc n)
  note slot = aligned_slot [OF Suc.prems(3)] and nxt = next_page [OF Suc.prems(2,3)]
  have unused: "entry_frame_unused s (va_idx va)" using Suc.prems(4) slot(2) by force
  have "\<exists>t. vmm_unmap_page va s = Some t \<and> vm_ok t \<and> vm_frame s t \<and> table_frame t = table_frame s
      \<and> pagemap t = (pagemap s)(slot (vpn va) := None)
      \<and> (\<forall>q. page_free t q \<longrightarrow> page_free s q \<or> released s (slot (vpn va)) q)"
    using Suc.prems(1) slot(2)
    by (cases rule: unmap_spec [OF Suc.prems(1) slot(1) unused]) auto
  then obtain t where t: "vmm_unmap_page va s = Some t" "vm_ok t" "vm_frame s t"
    "table_frame t = table_frame s" "pagemap t = (pagemap s)(slot (vpn va) := None)"
    "\<And>q. page_free t q \<Longrightarrow> page_free s q \<or> released s (slot (vpn va)) q" by blast
  have "entry_frame_unused t (slot (vpn (va + PG_SIZE) + k))" if "k < n" for k
    using Suc.prems(4) [rule_format, of "Suc k"] that t(4,5) nxt(2)
    by (simp add: entry_frame_unused_def)
  with Suc.IH [OF t(2) nxt(1)] Suc.prems(3) nxt(2) obtain u where
    u: "vmm_unmap_run n (va + PG_SIZE) t = Some u" "vm_ok u" "vm_frame t u"
      "pagemap u = (\<lambda>ij. if \<exists>k < n. ij = slot (Suc (vpn va + k)) then None else pagemap t ij)"
      "table_frame u = table_frame t"
      "\<And>q. page_free u q \<Longrightarrow> page_free t q \<or> (\<exists>k < n. released t (slot (Suc (vpn va + k))) q)"
    by auto
  have "pagemap u ij = (if \<exists>k < Suc n. ij = slot (vpn va + k) then None else pagemap s ij)" for ij
    unfolding u(4) t(5) by (auto simp: less_Suc_eq_0_disj)
  moreover have "page_free s q \<or> (\<exists>k < Suc n. released s (slot (vpn va + k)) q)" if q: "page_free u q" for q
  proof -
    have sub: "released t ij q \<Longrightarrow> released s ij q" for ij
      by (auto simp: released_def t(5) split: if_splits)
    from u(6) [OF q] show ?thesis
    proof
      assume "page_free t q"
      with t(6) show ?thesis by (metis add.right_neutral zero_less_Suc)
    next
      assume "\<exists>k < n. released t (slot (Suc (vpn va + k))) q"
      with sub show ?thesis by (metis Suc_less_eq add_Suc_right)
    qed
  qed
  ultimately show ?case using t u by (auto intro: vm_frame_trans)
qed simp

text \<open>A frame taken from the pool between two states, and not for a table.\<close>

definition fresh_frame :: "'a vm_scheme \<Rightarrow> 'a vm_scheme \<Rightarrow> u32 \<Rightarrow> bool" where
  "fresh_frame s s' p \<longleftrightarrow> in_bitmap p \<and> page_free s p \<and> \<not> page_free s' p
     \<and> \<not> table_frame s' (push_bit 12 p)"

lemma alloc_run_success:
  assumes "vm_ok s" "page_aligned cur" "vpn cur + n \<le> 1023 * 1024" "IS_CACHED attr"
    "vmm_alloc_run n i va cur attr s = Some (True, s')"
  shows "vm_ok s' \<and> grown s s' \<and>
    (\<exists>ps. length ps = n \<and> distinct ps \<and> (\<forall>p \<in> set ps. fresh_frame s s' p) \<and>
      (\<forall>k < n. pagemap s (slot (vpn cur + k)) = None
         \<and> pagemap s' (slot (vpn cur + k)) = Some (NEW_L2_ENTRY attr (push_bit 12 (ps ! k)))) \<and>
      (\<forall>ij. (\<forall>k < n. ij \<noteq> slot (vpn cur + k)) \<longrightarrow> pagemap s' ij = pagemap s ij))"
  using assms
proof (induction n arbitrary: cur s i)
  case (Suc n)
  note slot = aligned_slot [OF Suc.prems(3)] and nxt = next_page [OF Suc.prems(2,3)]
  obtain pp t where pp: "pmm_alloc_page s = Some (pp, t)"
    using pmm_pool.alloc_total vm_okD(1) [OF Suc.prems(1)] by blast
  note al = alloc_page_vm [OF Suc.prems(1) pp]
  have nz: "pp \<noteq> 0" using Suc.prems(5) pp by (auto split: bind_split_asm)
  note fresh = al(11) [OF nz]
  obtain s1 where s1: "vmm_map_internal (L1_INDEX cur) (L2_INDEX cur) pp attr False t = Some (1, s1)"
    "pagemap t (slot (vpn cur)) = None" "vm_ok s1" "vm_frame t s1"
    "pagemap s1 = (pagemap t)(slot (vpn cur) \<mapsto> NEW_L2_ENTRY attr pp)"
    "\<And>q. page_free s1 q \<Longrightarrow> page_free t q" "grown t s1"
  proof (cases rule: map_internal_fresh [OF al(9) slot(1) L2_INDEX_lt [of cur] Suc.prems(4), where pa = pp,
        case_names kept full set])
    case (set s')
    then show ?thesis using that [of s'] slot(3) by (simp add: grown_def)
  qed (use Suc.prems(5) pp nz in \<open>simp_all split: bind_split_asm\<close>)
  have rest: "vmm_alloc_run n (i + 1) va (cur + PG_SIZE) attr s1 = Some (True, s')"
    using Suc.prems(5) pp nz s1(1) by simp
  from Suc.IH [OF s1(3) nxt(1) _ Suc.prems(4) rest] Suc.prems(3) obtain ps where
    ps: "vm_ok s'" "grown s1 s'" "length ps = n"
      "distinct ps" "\<And>p. p \<in> set ps \<Longrightarrow> fresh_frame s1 s' p"
      "\<And>k. k < n \<Longrightarrow> pagemap s1 (slot (Suc (vpn cur + k))) = None
         \<and> pagemap s' (slot (Suc (vpn cur + k))) = Some (NEW_L2_ENTRY attr (push_bit 12 (ps ! k)))"
      "\<And>ij. \<forall>k < n. ij \<noteq> slot (Suc (vpn cur + k)) \<Longrightarrow> pagemap s' ij = pagemap s1 ij"
    unfolding nxt(2) by auto
  have ne: "slot (vpn cur) \<noteq> slot (Suc (vpn cur + k))" if "k < n" for k
    using that Suc.prems(3) by (subst slot_inj) auto
  let ?p = "drop_bit 12 pp"
  have p: "\<not> page_free s1 ?p" using s1(6) [of ?p] fresh by auto
  have sub: "page_free s1 q \<Longrightarrow> page_free s q" for q
    using s1(6) [of q] fresh by (auto split: if_splits)
  let ?ps = "?p # ps"
  show ?case
  proof (intro conjI exI [of _ ?ps] ballI allI impI)
    show "grown s s'" using grown_alloc [OF Suc.prems(1) pp] s1(7) ps(2) grown_trans by blast
    show "distinct ?ps" using ps(4,5) p by (auto simp: fresh_frame_def)
    have "\<not> table_frame s1 pp"
      using s1(7) fresh al(5) p by (auto simp: grown_def)
    then have "\<not> table_frame s' pp" using ps(2) p by (auto simp: grown_def)
    moreover have "push_bit 12 ?p = pp" using fresh aligned_page_number by blast
    moreover have "\<not> page_free s' ?p" using ps(2) p by (auto simp: grown_def)
    ultimately have "fresh_frame s s' ?p" using fresh by (simp add: fresh_frame_def page_number_lt)
    then show "fresh_frame s s' q" if "q \<in> set ?ps" for q
      using that ps(5) [of q] sub by (auto simp: fresh_frame_def)
    show "pagemap s (slot (vpn cur + k)) = None" if "k < Suc n" for k
      using that s1(2,5) ps(6) [of "k - 1"] ne [of "k - 1"] al(4) by (cases k) auto
    show "pagemap s' (slot (vpn cur + k)) = Some (NEW_L2_ENTRY attr (push_bit 12 (?ps ! k)))"
      if "k < Suc n" for k
    proof (cases k)
      case 0
      have "pagemap s' (slot (vpn cur)) = pagemap s1 (slot (vpn cur))" using ne by (intro ps(7)) blast
      with 0 s1(5) fresh aligned_page_number show ?thesis by simp
    qed (use that ps(6) in simp)
    show "pagemap s' ij = pagemap s ij" if a: "\<forall>k < Suc n. ij \<noteq> slot (vpn cur + k)" for ij
    proof -
      have "pagemap s' ij = pagemap s1 ij"
        using a by (intro ps(7) allI impI) (metis Suc_less_eq add_Suc_right)
      moreover have "ij \<noteq> slot (vpn cur)" using a [rule_format, of 0] by simp
      ultimately show ?thesis using s1(5) al(4) by simp
    qed
  qed (use ps sub in auto)
qed simp

text \<open>The state of the loop after \<open>i\<close> pages, compared with the state \<open>s0\<close> at its start: those
  pages carry entries of their own, with frames taken from the pool of \<open>s0\<close>, and outside of them
  the map is the one at the start.\<close>

definition run_state :: "'a vm_scheme \<Rightarrow> nat \<Rightarrow> nat \<Rightarrow> 'a vm_scheme \<Rightarrow> bool" where
  "run_state s0 v i s \<longleftrightarrow> grown s0 s
    \<and> (\<forall>k < i. pagemap s0 (slot (v + k)) = None
      \<and> (\<exists>e. pagemap s (slot (v + k)) = Some e \<and> \<not> table_frame s (PG_ALIGN e)
           \<and> \<not> page_free s (drop_bit 12 e) \<and> page_free s0 (drop_bit 12 e)))
    \<and> (\<forall>ij. (\<forall>k < i. ij \<noteq> slot (v + k)) \<longrightarrow> pagemap s ij = pagemap s0 ij)"

lemma run_stateD:
  assumes "run_state s0 v i s" "k < i"
  obtains e where "pagemap s (slot (v + k)) = Some e" "\<not> table_frame s (PG_ALIGN e)"
    "\<not> page_free s (drop_bit 12 e)" "page_free s0 (drop_bit 12 e)" "pagemap s0 (slot (v + k)) = None"
  using assms unfolding run_state_def by blast

lemma run_state_outside:
  "run_state s0 v i s \<Longrightarrow> \<forall>k < i. ij \<noteq> slot (v + k) \<Longrightarrow> pagemap s ij = pagemap s0 ij"
  unfolding run_state_def by blast

lemma run_state_unchanged:
  assumes "run_state s0 v i s" "pagemap t = pagemap s" "\<And>f. table_frame t f = table_frame s f" "grown s t"
  shows "run_state s0 v i t"
proof -
  have "grown s0 t" using assms(1,4) grown_trans unfolding run_state_def by blast
  moreover have "page_free t q \<Longrightarrow> page_free s q" for q using assms(4) by (simp add: grown_def)
  ultimately show ?thesis using assms(1) unfolding run_state_def assms(2,3) by blast
qed

lemma run_state_unmap:
  assumes "run_state s0 v i s" "vm_ok s" "page_aligned va" "vpn va = v" "v + i \<le> 1023 * 1024"
  shows "\<exists>s'. vmm_unmap_run i va s = Some s' \<and> vm_ok s' \<and> grown s0 s' \<and> pagemap s' = pagemap s0"
proof -
  have "entry_frame_unused s (slot (vpn va + k))" if "k < i" for k
  proof (rule run_stateD [OF assms(1) that])
    fix e
    assume "pagemap s (slot (v + k)) = Some e" "\<not> table_frame s (PG_ALIGN e)"
    then show ?thesis by (simp add: entry_frame_unused_def assms(4))
  qed
  with unmap_run_spec [OF assms(2,3), of i] assms(4,5) obtain s' where
    s': "vmm_unmap_run i va s = Some s'" "vm_ok s'" "vm_frame s s'"
      "pagemap s' = (\<lambda>ij. if \<exists>k < i. ij = slot (v + k) then None else pagemap s ij)"
      "table_frame s' = table_frame s"
      "\<And>q. page_free s' q \<Longrightarrow> page_free s q \<or> (\<exists>k < i. released s (slot (v + k)) q)" by auto
  have "pagemap s' ij = pagemap s0 ij" for ij
  proof (cases "\<exists>k < i. ij = slot (v + k)")
    case True
    then obtain k where k: "k < i" "ij = slot (v + k)" by blast
    have "pagemap s0 ij = None" by (rule run_stateD [OF assms(1) k(1)]) (simp add: k(2))
    with True show ?thesis by (simp add: s'(4))
  next
    case False
    then show ?thesis using run_state_outside [OF assms(1), of ij] by (auto simp: s'(4))
  qed
  then have pm: "pagemap s' = pagemap s0" by blast
  have g: "grown s0 s" using assms(1) by (simp add: run_state_def)
  have "page_free s0 q" if q: "page_free s' q" for q
    using s'(6) [OF q]
  proof (elim disjE exE conjE)
    show "page_free s q \<Longrightarrow> page_free s0 q" using g by (simp add: grown_def)
    fix k
    assume k: "k < i" "released s (slot (v + k)) q"
    show "page_free s0 q"
      by (rule run_stateD [OF assms(1) k(1)]) (use k(2) in \<open>simp add: released_def\<close>)
  qed
  moreover have "vm_frame s0 s'" using g s'(3) vm_frame_trans unfolding grown_def by blast
  ultimately have "grown s0 s'" using g s'(5) by (simp add: grown_def)
  with s' pm show ?thesis by blast
qed

lemma run_state_step:
  assumes "run_state s0 v i s" "vm_ok s" "pmm_alloc_page s = Some (pp, t)" "pp \<noteq> 0"
    "pagemap t (slot (v + i)) = None" "v + i < 1023 * 1024"
    "pagemap s1 = (pagemap t)(slot (v + i) \<mapsto> NEW_L2_ENTRY attr pp)" "grown t s1"
  shows "run_state s0 v (Suc i) s1"
proof -
  note al = alloc_page_vm [OF assms(2,3)] and fresh = alloc_page_vm(11) [OF assms(2,3,4)]
  have g0: "grown s0 s" using assms(1) by (simp add: run_state_def)
  have mono: "\<And>q. page_free s1 q \<Longrightarrow> page_free t q"
    "\<And>f. table_frame s1 f \<Longrightarrow> table_frame t f \<or> page_free t (drop_bit 12 f)"
    "\<And>q. page_free s q \<Longrightarrow> page_free s0 q"
    using assms(8) g0 by (simp_all add: grown_def)
  have ne: "slot (v + i) \<noteq> slot (v + k)" if "k < i" for k
    using assms(6) that by (subst slot_inj) auto
  have out: "\<not> page_free t q" if "\<not> page_free s q" for q
    using fresh that by simp
  have old: "pagemap s0 (slot (v + k)) = None \<and> (\<exists>e. pagemap s1 (slot (v + k)) = Some e
      \<and> \<not> table_frame s1 (PG_ALIGN e) \<and> \<not> page_free s1 (drop_bit 12 e) \<and> page_free s0 (drop_bit 12 e))"
    if k: "k < i" for k
  proof (rule run_stateD [OF assms(1) k])
    fix e
    assume e: "pagemap s (slot (v + k)) = Some e" "\<not> table_frame s (PG_ALIGN e)"
      "\<not> page_free s (drop_bit 12 e)" "page_free s0 (drop_bit 12 e)" "pagemap s0 (slot (v + k)) = None"
    have "\<not> table_frame s1 (PG_ALIGN e)"
      using mono(2) [of "PG_ALIGN e"] e(2) out [OF e(3)] al(5) by (auto simp: drop_bit_PG_ALIGN)
    moreover have "\<not> page_free s1 (drop_bit 12 e)" using mono(1) out [OF e(3)] by blast
    ultimately show ?thesis using e assms(7) ne [OF k] al(4) by simp
  qed
  let ?e = "NEW_L2_ENTRY attr pp"
  have tp: "\<not> page_free t (drop_bit 12 pp)" "\<not> table_frame t pp" using fresh al(5) by simp_all
  then have new: "\<not> page_free s1 (drop_bit 12 pp)" "\<not> table_frame s1 pp"
    using mono(1) [of "drop_bit 12 pp"] mono(2) [of pp] by blast+
  have pp: "PG_ALIGN ?e = pp" using fresh by (simp add: PG_ALIGN_id)
  then have dp: "drop_bit 12 ?e = drop_bit 12 pp" by (metis drop_bit_PG_ALIGN)
  have "pagemap s (slot (v + i)) = pagemap s0 (slot (v + i))"
    using ne by (intro run_state_outside [OF assms(1)]) blast
  then have i: "pagemap s0 (slot (v + i)) = None" using assms(5) al(4) by simp
  show ?thesis
    unfolding run_state_def
  proof (intro conjI allI impI)
    show "grown s0 s1" using g0 grown_alloc [OF assms(2,3)] assms(8) grown_trans by blast
    fix k
    assume "k < Suc i"
    then show "pagemap s0 (slot (v + k)) = None" using old i less_Suc_eq by auto
    show "\<exists>e. pagemap s1 (slot (v + k)) = Some e \<and> \<not> table_frame s1 (PG_ALIGN e)
        \<and> \<not> page_free s1 (drop_bit 12 e) \<and> page_free s0 (drop_bit 12 e)"
    proof (cases "k = i")
      case True
      then show ?thesis using new assms(7) fresh mono(3) pp by (simp add: dp)
    qed (use old \<open>k < Suc i\<close> in auto)
  next
    fix ij
    assume a: "\<forall>k < Suc i. ij \<noteq> slot (v + k)"
    then have "pagemap s1 ij = pagemap s ij" using assms(7) al(4) by simp
    also have "\<dots> = pagemap s0 ij" using a by (intro run_state_outside [OF assms(1)]) auto
    finally show "pagemap s1 ij = pagemap s0 ij" .
  qed
qed

lemma alloc_run_total:
  assumes "run_state s0 v i s" "vm_ok s" "page_aligned va" "vpn va = v" "page_aligned cur"
    "vpn cur = v + i" "v + i + n \<le> 1023 * 1024" "IS_CACHED attr"
  shows "\<exists>b s'. vmm_alloc_run n i va cur attr s = Some (b, s') \<and> vm_ok s' \<and> grown s0 s'
    \<and> (\<not> b \<longrightarrow> pagemap s' = pagemap s0)"
  using assms
proof (induction n arbitrary: i cur s)
  case 0
  then show ?case by (auto simp: run_state_def)
next
  case (Suc n)
  have vi: "vpn cur + Suc n \<le> 1023 * 1024" "v + i < 1023 * 1024" "v + i \<le> 1023 * 1024"
    using Suc.prems(6,7) by simp_all
  note slot = aligned_slot [OF vi(1)] and nxt = next_page [OF Suc.prems(5) vi(1)]
  obtain pp t where pp: "pmm_alloc_page s = Some (pp, t)"
    using pmm_pool.alloc_total vm_okD(1) [OF Suc.prems(2)] by blast
  note al = alloc_page_vm [OF Suc.prems(2) pp] and ga = grown_alloc [OF Suc.prems(2) pp]
  have undo: "\<exists>s'. vmm_unmap_run i va u = Some s' \<and> vm_ok s' \<and> grown s0 s' \<and> pagemap s' = pagemap s0"
    if u: "pagemap u = pagemap s" "table_frame u = table_frame s" "vm_ok u" "grown s u" for u :: "'a vm_scheme"
    using run_state_unmap [OF run_state_unchanged [OF Suc.prems(1) u(1) _ u(4)] u(3) Suc.prems(3,4) vi(3)]
      u(2) by auto
  show ?case
  proof (cases "pp = 0")
    case True
    with undo [OF al(4,5,9) ga] pp show ?thesis by auto
  next
    case False
    show ?thesis
    proof (cases rule: map_internal_fresh [OF al(9) slot(1) L2_INDEX_lt [of cur] Suc.prems(8),
          where pa = pp, case_names kept full set])
      case kept
      with undo [OF al(4,5,9) ga] pp False show ?thesis by auto
    next
      case (full u)
      note al' = alloc_page_vm [OF al(9) full(3)]
      have "\<exists>s'. vmm_unmap_run i va u = Some s' \<and> vm_ok s' \<and> grown s0 s' \<and> pagemap s' = pagemap s0"
        by (rule undo) (use al al' grown_trans [OF ga grown_alloc [OF al(9) full(3)]] in auto)
      with pp False full(1) show ?thesis by auto
    next
      case (set s1)
      have "run_state s0 v (Suc i) s1"
        by (rule run_state_step [OF Suc.prems(1,2) pp False _ vi(2)])
          (use set slot(3) Suc.prems(6) in \<open>auto simp: grown_def\<close>)
      with Suc.IH [OF this set(3) Suc.prems(3,4) nxt(1)] nxt(2) Suc.prems(6,7,8)
      show ?thesis by (simp add: pp False set(1))
    qed
  qed
qed

lemma alloc_pages_spec:
  assumes "vm_ok s" "page_aligned va" "IS_CACHED attr" "n = unat (drop_bit PG_SIZE_BITS sz)"
    "vpn va + n \<le> 1023 * 1024"
  shows "\<exists>b s'. vmm_alloc_pages va sz attr s = Some (b, s') \<and> vm_ok s' \<and> grown s s' \<and>
    (if b then \<exists>ps. length ps = n \<and> distinct ps
        \<and> (\<forall>p \<in> set ps. fresh_frame s s' p)
        \<and> (\<forall>k < n. pagemap s (slot (vpn va + k)) = None
             \<and> pagemap s' (slot (vpn va + k)) = Some (NEW_L2_ENTRY attr (push_bit 12 (ps ! k))))
        \<and> (\<forall>ij. (\<forall>k < n. ij \<noteq> slot (vpn va + k)) \<longrightarrow> pagemap s' ij = pagemap s ij)
     else pagemap s' = pagemap s)"
proof -
  have "run_state s (vpn va) 0 s" by (simp add: run_state_def)
  from alloc_run_total [OF this assms(1,2) refl assms(2), of n attr] assms(3,5)
  obtain b s' where r: "vmm_alloc_run n 0 va va attr s = Some (b, s')" "vm_ok s'" "grown s s'"
    "\<not> b \<longrightarrow> pagemap s' = pagemap s" by auto
  show ?thesis
  proof (cases b)
    case True
    with r show ?thesis
      using alloc_run_success [OF assms(1,2,5,3), of 0 va s'] by (auto simp: vmm_alloc_pages_def assms(4))
  qed (use r in \<open>auto simp: vmm_alloc_pages_def assms(4)\<close>)
qed

section \<open>A concrete machine\<close>

text \<open>One directory at \<open>0x1000\<close>, one table at \<open>0x2000\<close> for the first 4 MiB whose last entry maps
  the frame \<open>0x5000\<close>, and frames 8 to 15 free. It serves as instance of the properties below.\<close>

definition vm1 :: vm where
  "vm1 = \<lparr>pm_bitmap = (\<lambda>g. if g = 1 then 0 else 0xFF), max_pg = 32, pg_lookup_ptr = 1,
     phys = store32 (store32 (store32 (\<lambda>_. 0) 0x1FFC 0x1003) 0x1000 0x2003) 0x2FFC 0x5003,
     cr3 = 0x1000, invlpg_log = []\<rparr>"

lemma load32_no_byte [simp]: "load32 (\<lambda>_. 0) a = 0"
  by (simp add: load32_def)

lemma vm1_load:
  assumes "aligned4 a"
  shows "load32 (phys vm1) a = (if a = 0x2FFC then 0x5003 else if a = 0x1000 then 0x2003
    else if a = 0x1FFC then 0x1003 else 0)"
  using assms by (simp add: vm1_def load32_store32_aligned aligned4_def)

lemma vm1_consts: "page_aligned 0x1000" "page_aligned 0x2000" "PG_ALIGN 0x2003 = 0x2000"
  "PG_ALIGN 0x1003 = 0x1000" "PG_ALIGN 0x5003 = 0x5000" "IS_CACHED 0x1003" "IS_CACHED 0x2003" "IS_CACHED 0x5003"
  by (simp_all add: page_aligned_def PG_OFFSET_def PG_ALIGN_def IS_CACHED_def)

lemma vm1_l1e: "i < 1024 \<Longrightarrow> l1e vm1 i = (if i = 1023 then 0x1003 else if i = 0 then 0x2003 else 0)"
proof -
  assume i: "i < 1024"
  have "aligned4 (0x1000 + 4 * i)" using entry_addr(3) [OF vm1_consts(1) i] .
  moreover have "0x1000 + 4 * i = 0x2000 + 4 * 1023 \<longleftrightarrow> False"
    "0x1000 + 4 * i = 0x1000 + 4 * 0 \<longleftrightarrow> i = 0" "0x1000 + 4 * i = 0x1000 + 4 * 1023 \<longleftrightarrow> i = 1023"
    using entry_addr_inj [OF vm1_consts(1,2) i, of 1023] entry_addr_inj [OF vm1_consts(1,1) i, of 0]
      entry_addr_inj [OF vm1_consts(1,1) i, of 1023] by simp_all
  moreover have "cr3 vm1 = 0x1000" by (simp add: vm1_def)
  ultimately show ?thesis by (simp add: l1e_def vm1_load)
qed

lemma vm1_tbl: "tbl vm1 0 = 0x2000" "tbl vm1 1023 = 0x1000" "cr3 vm1 = 0x1000"
  by (simp_all add: tbl_def vm1_l1e vm1_consts) (simp add: vm1_def)

lemma vm1_l2e: "j < 1024 \<Longrightarrow> l2e vm1 0 j = (if j = 1023 then 0x5003 else 0)"
proof -
  assume j: "j < 1024"
  have "aligned4 (0x2000 + 4 * j)" using entry_addr(3) [OF vm1_consts(2) j] .
  moreover have "0x2000 + 4 * j = 0x1000 + 4 * 0 \<longleftrightarrow> False"
    "0x2000 + 4 * j = 0x1000 + 4 * 1023 \<longleftrightarrow> False" "0x2000 + 4 * j = 0x2000 + 4 * 1023 \<longleftrightarrow> j = 1023"
    using entry_addr_inj [OF vm1_consts(2,1) j, of 0] entry_addr_inj [OF vm1_consts(2,1) j, of 1023]
      entry_addr_inj [OF vm1_consts(2,2) j, of 1023] by simp_all
  ultimately show ?thesis by (simp add: l2e_def vm1_tbl vm1_load)
qed

lemma vm1_page_free: "page_free vm1 p \<longleftrightarrow> 8 \<le> p \<and> p < 16"
proof -
  have "p div 8 = 1 \<longleftrightarrow> 8 \<le> p \<and> p < 16"
    by (auto simp: word_unat_eq_iff unat_word word_le_nat_alt word_less_nat_alt)
  moreover have "bit (0xFF :: u8) (7 - unat (p mod 8))" by (rule bit_0xFF [OF page_bit_8])
  ultimately show ?thesis by (simp add: page_free_def vm1_def)
qed

lemma vm1_ok: "vm_ok vm1"
  unfolding vm_ok_def
proof (intro conjI allI impI)
  show "pmm_ok vm1" by (simp add: pmm_ok_def vm1_def)
  show "page_aligned (cr3 vm1)" "l1e vm1 1023 \<noteq> 0" "tbl vm1 1023 = cr3 vm1"
    by (simp_all add: vm1_consts vm1_tbl vm1_l1e)
  show "IS_CACHED (l1e vm1 i)" "\<not> page_free vm1 (drop_bit 12 (tbl vm1 i))"
    if "i < 1024" "l1e vm1 i \<noteq> 0" for i
    using that by (auto simp: vm1_l1e vm1_consts vm1_page_free tbl_def word_le_nat_alt split: if_splits)
  show "i = j" if "i < 1024" "j < 1024" "l1e vm1 i \<noteq> 0" "l1e vm1 j \<noteq> 0" "tbl vm1 i = tbl vm1 j" for i j
    using that by (auto simp: vm1_l1e tbl_def vm1_consts split: if_splits)
qed

lemma vm1_pagemap: "pagemap vm1 = [(0, 1023) \<mapsto> 0x5003]"
proof (rule ext, clarify)
  fix i j :: u32
  show "pagemap vm1 (i, j) = [(0, 1023) \<mapsto> 0x5003] (i, j)"
    using vm1_l1e [OF l1_index_small(1), of i] vm1_l2e [of j] by (auto simp: pagemap_def)
qed

lemma vm1_table_frame: "table_frame vm1 f \<longleftrightarrow> f = 0x1000 \<or> f = 0x2000"
proof -
  have "\<exists>k < 1024. l1e vm1 k \<noteq> 0 \<and> tbl vm1 k = 0x1000" by (intro exI [of _ 1023]) (simp add: vm1_l1e vm1_tbl)
  moreover have "\<exists>k < 1024. l1e vm1 k \<noteq> 0 \<and> tbl vm1 k = 0x2000" by (intro exI [of _ 0]) (simp add: vm1_l1e vm1_tbl)
  ultimately show ?thesis
    unfolding table_frame_def by (auto simp: vm1_l1e tbl_def vm1_consts split: if_splits)
qed

lemma vm1_unused: "entry_frame_unused vm1 ij"
  by (cases ij) (auto simp: entry_frame_unused_def vm1_pagemap vm1_table_frame vm1_consts)

lemma vm1_alloc: "pmm_alloc_page vm1 = Some (0x9000, vm1\<lparr>pg_lookup_ptr := 9, pm_bitmap := (pm_bitmap vm1)(1 := 0x40)\<rparr>)"
  by (simp add: pmm_alloc_page_def vm1_def alloc_loop.simps scan_chunk.simps bmp_get_def bmp_set_def PM_BMP_MAX_SIZE_def
      LOOKUP_START_def Let_def pmm_mark_page_occupied_def page_group_def page_msk_def)

section \<open>Properties\<close>

text \<open>C4: \<^verbatim>\<open>__vmm_map_internal\<close> returns on every branch. It answers 1 exactly when it has replaced
  the entry in the abstract page map (and then the slot was empty or the call forced); it answers
  0, with the map and the pool unchanged, when the slot is taken or no frame is left for a table.
  Only the frame of the old entry can become free.\<close>

theorem vmm_map_internal_refines:
  assumes "vm_ok s" "i < 1023" "j < 1024" "IS_CACHED attr" "forced \<longrightarrow> entry_frame_unused s (i, j)"
  shows "\<exists>r s'. vmm_map_internal i j pa attr forced s = Some (r, s') \<and> vm_ok s' \<and> vm_frame s s' \<and>
    (if r = 1 then (pagemap s (i, j) = None \<or> forced)
         \<and> pagemap s' = (pagemap s)((i, j) \<mapsto> NEW_L2_ENTRY attr pa)
         \<and> (\<forall>q. page_free s' q \<longrightarrow> page_free s q \<or> released s (i, j) q)
     else r = 0 \<and> pagemap s' = pagemap s \<and> page_free s' = page_free s
         \<and> (pagemap s (i, j) \<noteq> None \<and> \<not> forced \<or> l1e s i = 0 \<and> pmm_alloc_page s = Some (0, s')))"
proof (cases rule: map_internal_spec [OF assms, where pa = pa, case_names kept full set])
  case kept
  with assms(1) show ?thesis by simp
next
  case (full t)
  note al = alloc_page_vm [OF assms(1) full(3)]
  from al have "vm_frame s t" by (simp add: vm_frame_def)
  with full al show ?thesis by simp
next
  case (set s')
  then show ?thesis by auto
qed

lemma vmm_map_internal_refines_witness:
  "\<exists>r s'. vmm_map_internal 0 1023 0x9000 3 True vm1 = Some (r, s') \<and> vm_ok s' \<and> vm_frame vm1 s' \<and>
    (if r = 1 then (pagemap vm1 (0, 1023) = None \<or> True)
         \<and> pagemap s' = (pagemap vm1)((0, 1023) \<mapsto> NEW_L2_ENTRY 3 0x9000)
         \<and> (\<forall>q. page_free s' q \<longrightarrow> page_free vm1 q \<or> released vm1 (0, 1023) q)
     else r = 0 \<and> pagemap s' = pagemap vm1 \<and> page_free s' = page_free vm1
         \<and> (pagemap vm1 (0, 1023) \<noteq> None \<and> \<not> True \<or> l1e vm1 0 = 0 \<and> pmm_alloc_page vm1 = Some (0, s')))"
  by (rule vmm_map_internal_refines) (simp_all add: vm1_ok vm1_unused IS_CACHED_def)

text \<open>C5: after \<^verbatim>\<open>vmm_fmap_page\<close> has returned the address it was given, the processor translates
  every address of that page into the requested frame, every other address below the recursive
  window as before, and the page has been invalidated in the TLB. The only other outcome is
  NULL, when a page table was needed and the pool was empty.\<close>

theorem vmm_fmap_page_translates:
  assumes "vm_ok s" "va \<noteq> 0" "pa \<noteq> 0" "L1_INDEX va < 1023" "IS_CACHED attr"
    "entry_frame_unused s (va_idx va)"
  shows "\<exists>r s'. vmm_fmap_page va pa attr s = Some (r, s') \<and> vm_ok s' \<and>
    (if r = va then invlpg_log s' = va # invlpg_log s
        \<and> (\<forall>a. PG_ALIGN a = PG_ALIGN va \<longrightarrow> mmu_translate s' a = Some (PG_ALIGN pa + PG_OFFSET a))
        \<and> (\<forall>a. PG_ALIGN a \<noteq> PG_ALIGN va \<longrightarrow> L1_INDEX a < 1023 \<longrightarrow> mmu_translate s' a = mmu_translate s a)
     else r = 0 \<and> l1e s (L1_INDEX va) = 0 \<and> pmm_alloc_page s = Some (0, s'))"
proof (cases rule: map_internal_spec [OF assms(1,4) L2_INDEX_lt [of va] assms(5), where forced = True and pa = pa,
      simplified, OF assms(6) [unfolded va_idx_def], case_names full set])
  case (full t)
  then show ?thesis
    using assms(2,3) alloc_page_vm(9) [OF assms(1)] by (simp add: vmm_fmap_page_def)
next
  case (set s')
  have same: "(L1_INDEX a, L2_INDEX a) = (L1_INDEX va, L2_INDEX va) \<longleftrightarrow> PG_ALIGN a = PG_ALIGN va" for a
    by (rule index_eq_align)
  have same_page: "L1_INDEX a = L1_INDEX va" "L2_INDEX a = L2_INDEX va" if "PG_ALIGN a = PG_ALIGN va" for a
    using same [of a] that by simp_all
  let ?s' = "cpu_invplg va s'"
  have ok: "vm_ok ?s'" using set by simp
  have "mmu_translate ?s' a = Some (PG_ALIGN pa + PG_OFFSET a)" if "PG_ALIGN a = PG_ALIGN va" for a
    using mmu_translate_pagemap [OF ok, of a] assms(4,5) set(4)
    by (simp add: same_page [OF that] va_idx_def)
  moreover have "mmu_translate ?s' a = mmu_translate s a"
    if "PG_ALIGN a \<noteq> PG_ALIGN va" "L1_INDEX a < 1023" for a
    using mmu_translate_pagemap [OF ok that(2)] mmu_translate_pagemap [OF assms(1) that(2)] set(4)
      same [of a] that(1) by (auto simp: va_idx_def)
  moreover have "vmm_fmap_page va pa attr s = Some (va, ?s')"
    using assms(2,3) set(1) V_ADDR_split by (simp add: vmm_fmap_page_def va_idx_def)
  ultimately show ?thesis using ok set by (simp add: cpu_invplg_def)
qed

lemma vmm_fmap_page_translates_witness:
  "\<exists>r s'. vmm_fmap_page 0x3FF000 0x9000 3 vm1 = Some (r, s') \<and> vm_ok s' \<and>
    (if r = 0x3FF000 then invlpg_log s' = 0x3FF000 # invlpg_log vm1
        \<and> (\<forall>a. PG_ALIGN a = PG_ALIGN 0x3FF000 \<longrightarrow>
             mmu_translate s' a = Some (PG_ALIGN 0x9000 + PG_OFFSET a))
        \<and> (\<forall>a. PG_ALIGN a \<noteq> PG_ALIGN 0x3FF000 \<longrightarrow> L1_INDEX a < 1023 \<longrightarrow>
             mmu_translate s' a = mmu_translate vm1 a)
     else r = 0 \<and> l1e vm1 (L1_INDEX 0x3FF000) = 0 \<and> pmm_alloc_page vm1 = Some (0, s'))"
  by (rule vmm_fmap_page_translates) (simp_all add: vm1_ok vm1_unused IS_CACHED_def L1_INDEX_def)

text \<open>C20: \<^verbatim>\<open>vmm_v2p\<close> and \<^verbatim>\<open>vmm_lookup\<close>, which read the tables through the recursive mapping, against
  the processor's walk. For the address of a page that the walk translates, \<^verbatim>\<open>vmm_v2p\<close> answers the physical address; for an
  address inside the page it answers that of the page, without the offset, and \<^verbatim>\<open>vmm_lookup\<close> adds the frame
  number and the flags of the entry. For an address whose slot is empty the walk fails, and they answer NULL and a zero mapping. For a
  slot with an entry that is not present the walk fails as well, but they report what the entry holds.\<close>

theorem vmm_v2p_agrees_with_walk:
  assumes "vm_ok s"
  shows "(\<forall>p. mmu_translate s va = Some p \<longrightarrow>
        (page_aligned va \<longrightarrow> vmm_v2p va s = Some p) \<and> vmm_v2p va s = Some (p - PG_OFFSET va)
        \<and> vmm_lookup va s = Some \<lparr>vm_pn = drop_bit 12 p, vm_pa = p - PG_OFFSET va,
            vm_flags = ucast (PG_ENTRY_FLAGS (l2e s (L1_INDEX va) (L2_INDEX va)))\<rparr>)
    \<and> (L1_INDEX va < 1023 \<longrightarrow> pagemap s (va_idx va) = None \<longrightarrow> mmu_translate s va = None
        \<and> vmm_lookup va s = Some \<lparr>vm_pn = 0, vm_pa = 0, vm_flags = 0\<rparr> \<and> vmm_v2p va s = Some 0)
    \<and> (\<forall>e. L1_INDEX va < 1023 \<longrightarrow> pagemap s (va_idx va) = Some e \<longrightarrow> \<not> IS_CACHED e \<longrightarrow> mmu_translate s va = None
        \<and> vmm_lookup va s = Some \<lparr>vm_pn = drop_bit 12 e, vm_pa = PG_ALIGN e, vm_flags = ucast (PG_ENTRY_FLAGS e)\<rparr>
        \<and> vmm_v2p va s = Some (PG_ALIGN e))"
proof (intro conjI allI impI)
  let ?e = "l2e s (L1_INDEX va) (L2_INDEX va)"
  fix p
  assume "mmu_translate s va = Some p"
  then have p: "IS_CACHED (l1e s (L1_INDEX va))" "IS_CACHED ?e" "p = PG_ALIGN ?e + PG_OFFSET va"
    by (auto simp: mmu_translate_l2e vm_okD(2) [OF assms] split: if_splits)
  have base: "p - PG_OFFSET va = PG_ALIGN ?e" unfolding p(3) by simp
  have "PG_ALIGN p = PG_ALIGN ?e" unfolding p(3) by (rule page_add(1)) simp_all
  then have pn: "drop_bit 12 (PG_ALIGN ?e) = drop_bit 12 p" by (metis drop_bit_PG_ALIGN)
  have "l1e s (L1_INDEX va) \<noteq> 0" "?e \<noteq> 0" using p(1,2) by auto
  then show l: "vmm_lookup va s = Some \<lparr>vm_pn = drop_bit 12 p, vm_pa = p - PG_OFFSET va, vm_flags = ucast (PG_ENTRY_FLAGS ?e)\<rparr>"
    by (simp add: lookup_present [OF assms] Let_def base pn)
  then show v: "vmm_v2p va s = Some (p - PG_OFFSET va)" by (simp add: vmm_v2p_def)
  show "vmm_v2p va s = Some p" if "page_aligned va" using v that by (simp add: page_aligned_def)
next
  assume "L1_INDEX va < 1023" "pagemap s (va_idx va) = None"
  then show "mmu_translate s va = None" and l: "vmm_lookup va s = Some \<lparr>vm_pn = 0, vm_pa = 0, vm_flags = 0\<rparr>"
    using mmu_translate_pagemap [OF assms, of va]
    by (auto simp: lookup_present [OF assms] Let_def va_idx_def pagemap_def split: if_splits)
  then show "vmm_v2p va s = Some 0" by (simp add: vmm_v2p_def)
next
  fix e
  assume "L1_INDEX va < 1023" "pagemap s (va_idx va) = Some e" "\<not> IS_CACHED e"
  then show "mmu_translate s va = None"
    and l: "vmm_lookup va s = Some \<lparr>vm_pn = drop_bit 12 e, vm_pa = PG_ALIGN e, vm_flags = ucast (PG_ENTRY_FLAGS e)\<rparr>"
    using mmu_translate_pagemap [OF assms, of va]
    by (auto simp: lookup_present [OF assms] Let_def va_idx_def pagemap_def drop_bit_PG_ALIGN split: if_splits)
  then show "vmm_v2p va s = Some (PG_ALIGN e)" by (simp add: vmm_v2p_def)
qed

lemma vmm_v2p_agrees_with_walk_witness:
  "mmu_translate vm1 0x3FF123 = Some 0x5123 \<and> vmm_v2p 0x3FF123 vm1 = Some 0x5000 \<and> vmm_v2p 0x3FF000 vm1 = Some 0x5000"
proof -
  have i: "L1_INDEX 0x3FF123 = 0" "L2_INDEX 0x3FF123 = 1023" "PG_OFFSET 0x3FF123 = 0x123"
    "L1_INDEX 0x3FF000 = 0" "L2_INDEX 0x3FF000 = 1023" "PG_OFFSET 0x3FF000 = 0"
    by (simp_all add: L1_INDEX_def L2_INDEX_def PG_OFFSET_def)
  have "mmu_translate vm1 0x3FF123 = Some 0x5123" "mmu_translate vm1 0x3FF000 = Some 0x5000"
    using mmu_translate_pagemap [OF vm1_ok, of "0x3FF123"] mmu_translate_pagemap [OF vm1_ok, of "0x3FF000"] by (simp_all add: i vm1_pagemap vm1_consts)
  then show ?thesis
    using vmm_v2p_agrees_with_walk [OF vm1_ok, of "0x3FF123"] vmm_v2p_agrees_with_walk [OF vm1_ok, of "0x3FF000"] by (simp add: i page_aligned_def)
qed

text \<open>C17: \<^verbatim>\<open>vmm_map_page\<close> uses the first empty page at or above the requested one, as long as the
  table that page belongs to exists, and returns its address.\<close>

theorem vmm_map_page_first_free:
  assumes "vm_ok s" "page_aligned va" "va \<noteq> 0" "pa \<noteq> 0" "IS_CACHED attr"
    "vpn va \<le> m" "m < 1023 * 1024" "full_range s (vpn va) m"
    "l1e s (fst (slot m)) \<noteq> 0" "pagemap s (slot m) = None"
  shows "\<exists>s'. vmm_map_page va pa attr s = Some (of_nat (4096 * m), s') \<and> vm_ok s' \<and> vm_frame s s'
    \<and> pagemap s' = (pagemap s)(slot m \<mapsto> NEW_L2_ENTRY attr pa) \<and> page_free s' = page_free s"
proof -
  obtain i j where ij: "slot m = (i, j)" by fastforce
  let ?s' = "upd_entry i j (NEW_L2_ENTRY attr pa) s"
  have b: "i < 1023" "j < 1024" "l1e s i \<noteq> 0"
    using slot_bounds [OF assms(7)] assms(9) by (simp_all add: ij)
  have "vmm_map_page va pa attr s = Some (V_ADDR i j 0, ?s')"
    using map_page_hit [OF assms(1,3,4,6-10), of attr] assms(2) by (simp add: ij page_aligned_def)
  moreover have "V_ADDR i j 0 = of_nat (4096 * m)" using V_ADDR_slot [OF assms(7)] by (simp add: ij)
  moreover have "page_free ?s' = page_free s" using pmm_view_cong(1) [of ?s' s] by (simp add: fun_eq_iff)
  ultimately show ?thesis
    using vm_ok_upd [OF assms(1) b, of "NEW_L2_ENTRY attr pa"]
      vm_frame_upd(1) [OF assms(1) b, of "NEW_L2_ENTRY attr pa"]
      pagemap_upd [OF assms(1) b, of "NEW_L2_ENTRY attr pa"] new_entry_nonzero [OF assms(5), of pa]
    by (simp add: ij)
qed

lemma vmm_map_page_first_free_witness:
  "\<exists>s'. vmm_map_page 0x7000 0x9000 3 vm1 = Some (of_nat (4096 * 7), s') \<and> vm_ok s' \<and> vm_frame vm1 s'
    \<and> pagemap s' = (pagemap vm1)(slot 7 \<mapsto> NEW_L2_ENTRY 3 0x9000) \<and> page_free s' = page_free vm1"
proof (rule vmm_map_page_first_free)
  have "vpn 0x7000 = 7" by (simp add: vpn_def)
  then show "vpn 0x7000 \<le> 7" "full_range vm1 (vpn 0x7000) 7" by (simp_all add: full_range_def)
  show "pagemap vm1 (slot 7) = None" "l1e vm1 (fst (slot 7)) \<noteq> 0"
    by (simp_all add: vm1_pagemap slot_def vm1_l1e)
qed (simp_all add: vm1_ok page_aligned_def PG_OFFSET_def IS_CACHED_def)

text \<open>The same search page-faults when the requested page and all after it up to the end of a
  table are taken and the next directory entry is empty: the loop reads the table that does not
  exist instead of leaving to create it.\<close>

theorem vmm_map_page_faults_at_table_edge:
  assumes "vm_ok s" "va \<noteq> 0" "pa \<noteq> 0" "vpn va < m" "m < 1023 * 1024" "full_range s (vpn va) m"
    "l1e s (fst (slot m)) = 0"
  shows "vmm_map_page va pa attr s = None"
  using search_fault [OF assms(1,4-7), of va pa attr] assms(1-3)
  by (simp add: map_page_start slot_vpn)

lemma vmm_map_page_faults_at_table_edge_witness: "vmm_map_page 0x3FF000 0x9000 3 vm1 = None"
proof (rule vmm_map_page_faults_at_table_edge)
  have v: "vpn 0x3FF000 = 1023" by (simp add: vpn_def)
  then show "vpn 0x3FF000 < 1024" by simp
  have "{1023 ..< 1024 :: nat} = {1023}" by auto
  then show "full_range vm1 (vpn 0x3FF000) 1024"
    by (simp add: full_range_def v vm1_pagemap slot_def)
  show "l1e vm1 (fst (slot 1024)) = 0" by (simp add: slot_def vm1_l1e)
qed (simp_all add: vm1_ok)

text \<open>C18: \<^verbatim>\<open>vmm_unmap_page\<close> empties exactly the one slot: the page no longer translates, every
  other one does as before, and the frame of a present entry goes back to the pool.\<close>

theorem vmm_unmap_page_correct:
  assumes "vm_ok s" "L1_INDEX va < 1023" "entry_frame_unused s (va_idx va)"
  shows "\<exists>s'. vmm_unmap_page va s = Some s' \<and> vm_ok s' \<and> pagemap s' = (pagemap s)(va_idx va := None)
    \<and> (\<forall>a. PG_ALIGN a = PG_ALIGN va \<longrightarrow> mmu_translate s' a = None)
    \<and> (\<forall>a. PG_ALIGN a \<noteq> PG_ALIGN va \<longrightarrow> L1_INDEX a < 1023 \<longrightarrow> mmu_translate s' a = mmu_translate s a)
    \<and> (\<forall>e. pagemap s (va_idx va) = Some e \<longrightarrow> IS_CACHED e \<longrightarrow> drop_bit 12 e \<noteq> 0 \<longrightarrow>
         drop_bit 12 e < max_pg s \<longrightarrow> page_free s' (drop_bit 12 e))
    \<and> (\<forall>q. page_free s' q \<longrightarrow> page_free s q \<or> released s (va_idx va) q)"
proof -
  obtain s' where s': "vmm_unmap_page va s = Some s'" "vm_ok s'"
    "pagemap s' = (pagemap s)(va_idx va := None)"
    "\<forall>e. pagemap s (va_idx va) = Some e \<longrightarrow> IS_CACHED e \<longrightarrow> drop_bit 12 e \<noteq> 0 \<longrightarrow>
         drop_bit 12 e < max_pg s \<longrightarrow> page_free s' (drop_bit 12 e)"
    "\<forall>q. page_free s' q \<longrightarrow> page_free s q \<or> released s (va_idx va) q"
  proof (cases rule: unmap_spec [OF assms, case_names absent present])
    case absent
    then have "pagemap s = (pagemap s)(va_idx va := None)" by (simp add: fun_upd_idem)
    with absent assms(1) show ?thesis by (intro that [of s]) simp_all
  next
    case (present s')
    then show ?thesis using that [of s'] by blast
  qed
  have idx: "va_idx a = va_idx va \<longleftrightarrow> PG_ALIGN a = PG_ALIGN va" for a
    unfolding va_idx_def by (rule index_eq_align)
  have "mmu_translate s' a = None" if a: "PG_ALIGN a = PG_ALIGN va" for a
  proof -
    have "L1_INDEX a < 1023" "va_idx a = va_idx va" using idx [of a] a assms(2) by (simp_all add: va_idx_def)
    then show ?thesis using mmu_translate_pagemap [OF s'(2), of a] s'(3) by (simp add: va_idx_def)
  qed
  moreover have "mmu_translate s' a = mmu_translate s a"
    if "PG_ALIGN a \<noteq> PG_ALIGN va" "L1_INDEX a < 1023" for a
  proof -
    have "pagemap s' (va_idx a) = pagemap s (va_idx a)" using idx [of a] that(1) s'(3) by simp
    then show ?thesis
      using mmu_translate_pagemap [OF s'(2) that(2)] mmu_translate_pagemap [OF assms(1) that(2)]
      by (simp add: va_idx_def)
  qed
  ultimately show ?thesis using s' by blast
qed

lemma vmm_unmap_page_correct_witness:
  "\<exists>s'. vmm_unmap_page 0x3FF000 vm1 = Some s' \<and> pagemap s' = (pagemap vm1)(va_idx 0x3FF000 := None)
    \<and> page_free s' 5 \<and> \<not> page_free vm1 5"
proof -
  have i: "va_idx 0x3FF000 = (0, 1023)" by (simp add: va_idx_def L1_INDEX_def L2_INDEX_def)
  have "drop_bit 12 (0x5003 :: u32) = 5" by simp
  moreover have "\<not> page_free vm1 5" by (simp add: vm1_page_free word_le_nat_alt)
  moreover have "max_pg vm1 = 32" by (simp add: vm1_def)
  ultimately show ?thesis
    using vmm_unmap_page_correct [OF vm1_ok, of "0x3FF000"] vm1_unused i
    by (auto simp: L1_INDEX_def vm1_pagemap vm1_consts)
qed

text \<open>C14: \<^verbatim>\<open>vmm_alloc_pages\<close> always returns. On success every page of the range, empty before, is
  mapped to a frame of its own that was free before and is not free after, and nothing else
  in the map has changed. On failure the map is the one before the call.\<close>

theorem vmm_alloc_pages_all_or_nothing:
  assumes "vm_ok s" "page_aligned va" "IS_CACHED attr" "n = unat (drop_bit PG_SIZE_BITS sz)"
    "vpn va + n \<le> 1023 * 1024"
  shows "\<exists>b s'. vmm_alloc_pages va sz attr s = Some (b, s') \<and> vm_ok s' \<and>
    (if b then \<exists>ps. length ps = n \<and> distinct ps
        \<and> (\<forall>p \<in> set ps. fresh_frame s s' p)
        \<and> (\<forall>k < n. pagemap s (slot (vpn va + k)) = None
             \<and> pagemap s' (slot (vpn va + k)) = Some (NEW_L2_ENTRY attr (push_bit 12 (ps ! k))))
        \<and> (\<forall>ij. (\<forall>k < n. ij \<noteq> slot (vpn va + k)) \<longrightarrow> pagemap s' ij = pagemap s ij)
     else pagemap s' = pagemap s)"
  using alloc_pages_spec [OF assms] by blast

lemma vmm_alloc_pages_all_or_nothing_witness:
  "\<exists>b s'. vmm_alloc_pages 0x4000 0x3000 3 vm1 = Some (b, s') \<and> vm_ok s' \<and>
    (if b then \<exists>ps. length ps = 3 \<and> distinct ps
        \<and> (\<forall>p \<in> set ps. fresh_frame vm1 s' p)
        \<and> (\<forall>k < 3. pagemap vm1 (slot (vpn 0x4000 + k)) = None
             \<and> pagemap s' (slot (vpn 0x4000 + k)) = Some (NEW_L2_ENTRY 3 (push_bit 12 (ps ! k))))
        \<and> (\<forall>ij. (\<forall>k < 3. ij \<noteq> slot (vpn 0x4000 + k)) \<longrightarrow> pagemap s' ij = pagemap vm1 ij)
     else pagemap s' = pagemap vm1)"
  by (rule vmm_alloc_pages_all_or_nothing)
    (simp_all add: vm1_ok page_aligned_def PG_OFFSET_def IS_CACHED_def vpn_def PG_SIZE_BITS_def)

text \<open>A failing \<^verbatim>\<open>vmm_alloc_pages\<close> rolls back the pages it mapped but not the frame it had just
  taken for the page that failed: that frame is neither free nor mapped afterwards.\<close>

theorem vmm_alloc_pages_leaks_frame:
  assumes "vm_ok s" "L1_INDEX va < 1023" "pagemap s (va_idx va) \<noteq> None" "IS_CACHED attr"
    "PG_SIZE \<le> sz" "pmm_alloc_page s = Some (pp, t)" "pp \<noteq> 0"
  shows "vmm_alloc_pages va sz attr s = Some (False, t) \<and> pagemap t = pagemap s
    \<and> page_free s (drop_bit 12 pp) \<and> \<not> page_free t (drop_bit 12 pp)"
proof -
  note al = alloc_page_vm [OF assms(1,6)]
  have "unat (drop_bit PG_SIZE_BITS sz) \<noteq> 0"
    using assms(5) by (simp add: PG_SIZE_BITS_def PG_SIZE_def unat_word word_le_nat_alt)
  then obtain n where n: "unat (drop_bit PG_SIZE_BITS sz) = Suc n" by (cases "unat (drop_bit PG_SIZE_BITS sz)") auto
  have taken: "pagemap t (L1_INDEX va, L2_INDEX va) \<noteq> None" using assms(3) al(4) by (simp add: va_idx_def)
  have "vmm_map_internal (L1_INDEX va) (L2_INDEX va) pp attr False t = Some (0, t)"
    by (cases rule: map_internal_fresh [OF al(9) assms(2) L2_INDEX_lt [of va] assms(4),
          where pa = pp, case_names kept full set]) (use taken pagemap_absent [of t "L1_INDEX va" "L2_INDEX va"] in simp_all)
  then have "vmm_alloc_pages va sz attr s = Some (False, t)"
    using assms(6,7) by (simp add: vmm_alloc_pages_def n)
  then show ?thesis using al(4) al(11) [OF assms(7)] by simp
qed

lemma vmm_alloc_pages_leaks_frame_witness:
  "\<exists>t. vmm_alloc_pages 0x3FF000 0x1000 3 vm1 = Some (False, t) \<and> pagemap t = pagemap vm1
    \<and> page_free vm1 9 \<and> \<not> page_free t 9"
proof -
  have "va_idx 0x3FF000 = (0, 1023)" by (simp add: va_idx_def L1_INDEX_def L2_INDEX_def)
  then show ?thesis
    using vmm_alloc_pages_leaks_frame [OF vm1_ok _ _ _ _ vm1_alloc, of "0x3FF000" 3 "0x1000"]
    by (auto simp: vm1_pagemap L1_INDEX_def IS_CACHED_def PG_SIZE_def PG_SIZE_BITS_def)
qed

end
