(* ===== verification/Dmm.thy ===== *)
theory Dmm
  imports Vmm
begin

text \<open>
  The heap area, \<^verbatim>\<open>kernel/mm/dmm.c\<close> with the macros of \<^verbatim>\<open>includes/awa/mm/dmm.h\<close>: the
  \<^verbatim>\<open>heap_context_t\<close> record and the two operations that move the break. The second half
  shows the mapped heap pages as flat byte memory: \<open>heap_st v n m s\<close> states that the \<open>n\<close> pages
  from page number \<open>v\<close> on are mapped to frames of their own and hold the bytes \<open>m\<close>. The code of
  theory Kalloc is verified over \<open>m\<close>.
\<close>

unbundle bit_operations_syntax

section \<open>Macros and state\<close>

definition M_ALLOCATED :: u32 where "M_ALLOCATED = 0x1"
definition M_PREV_FREE :: u32 where "M_PREV_FREE = 0x2"
definition M_NOT_ALLOCATED :: u32 where "M_NOT_ALLOCATED = 0x0"
definition M_PREV_ALLOCATED :: u32 where "M_PREV_ALLOCATED = 0x0"
definition BOUNDARY :: u32 where "BOUNDARY = 4"
definition WSIZE :: u32 where "WSIZE = 4"
definition HEAP_INIT_SIZE :: u32 where "HEAP_INIT_SIZE = 4096"

definition CHUNK_S :: "u32 \<Rightarrow> u32" where "CHUNK_S header = header AND NOT 0x3"
definition CHUNK_PF :: "u32 \<Rightarrow> u32" where "CHUNK_PF header = header AND M_PREV_FREE"
definition CHUNK_A :: "u32 \<Rightarrow> u32" where "CHUNK_A header = header AND M_ALLOCATED"
definition PACK :: "u32 \<Rightarrow> u32 \<Rightarrow> u32" where "PACK sz flags = (sz AND NOT 0x3) OR flags"
definition BPTR :: "u32 \<Rightarrow> u32" where "BPTR bp = bp + WSIZE"
definition FPTR :: "u32 \<Rightarrow> u32 \<Rightarrow> u32" where "FPTR hp sz = hp + sz - WSIZE"

record heap_context =
  hp_start :: u32
  hp_brk :: u32
  hp_max_addr :: u32

section \<open>Operations\<close>

definition dmm_init :: "heap_context \<Rightarrow> 'a vm_scheme \<Rightarrow> (bool \<times> heap_context \<times> 'a vm_scheme) option" where
  "dmm_init heap s = do {
     let heap = heap\<lparr>hp_brk := hp_start heap\<rparr>;
     (r, s) \<leftarrow> vmm_alloc_page (hp_brk heap) PG_PREM_RW s;
     Some (r \<noteq> 0, heap, s)
   }"

definition lxbrk :: "heap_context \<Rightarrow> u32 \<Rightarrow> 'a vm_scheme \<Rightarrow> (u32 \<times> heap_context \<times> 'a vm_scheme) option" where
  "lxbrk heap sz s =
    (if sz = 0 then Some (hp_brk heap, heap, s)
     else let current_brk = hp_brk heap; next_brk = current_brk + ROUNDUP sz BOUNDARY in
       if hp_max_addr heap \<le> next_brk \<or> next_brk < current_brk then Some (0, heap, s)
       else let diff = PG_ALIGN next_brk - PG_ALIGN current_brk in
         if diff \<noteq> 0 then do {
           (ok, s) \<leftarrow> vmm_alloc_pages (PG_ALIGN current_brk + PG_SIZE) diff PG_PREM_RW s;
           if \<not> ok then Some (0, heap, s)
           else Some (current_brk, heap\<lparr>hp_brk := hp_brk heap + sz\<rparr>, s)
         } else Some (current_brk, heap\<lparr>hp_brk := hp_brk heap + sz\<rparr>, s))"

definition lxsbrk :: "heap_context \<Rightarrow> u32 \<Rightarrow> 'a vm_scheme \<Rightarrow> (bool \<times> heap_context \<times> 'a vm_scheme) option" where
  "lxsbrk heap addr s = do {
     (r, heap, s) \<leftarrow> lxbrk heap (addr - hp_brk heap) s;
     Some (r \<noteq> 0, heap, s)
   }"

section \<open>Heap pages\<close>

definition heap_frame :: "'a vm_scheme \<Rightarrow> nat \<Rightarrow> u32" where
  "heap_frame s p = PG_ALIGN (case pagemap s (slot p) of Some e \<Rightarrow> e | None \<Rightarrow> 0)"

definition heap_pages :: "'a vm_scheme \<Rightarrow> nat \<Rightarrow> nat \<Rightarrow> bool" where
  "heap_pages s v n \<longleftrightarrow> v + n \<le> 1023 * 1024
     \<and> (\<forall>p \<in> {v ..< v + n}. \<exists>e. pagemap s (slot p) = Some e \<and> IS_CACHED e
          \<and> \<not> table_frame s (PG_ALIGN e) \<and> \<not> page_free s (drop_bit 12 e))
     \<and> inj_on (heap_frame s) {v ..< v + n}"

definition in_pages :: "nat \<Rightarrow> nat \<Rightarrow> u32 \<Rightarrow> bool" where
  "in_pages v n a \<longleftrightarrow> v \<le> vpn a \<and> vpn a < v + n"

lemma heap_page_entry:
  assumes "heap_pages s v n" "in_pages v n a"
  obtains e where "pagemap s (va_idx a) = Some e" "IS_CACHED e" "\<not> table_frame s (PG_ALIGN e)"
    "\<not> page_free s (drop_bit 12 e)" "heap_frame s (vpn a) = PG_ALIGN e" "L1_INDEX a < 1023"
proof -
  have v: "vpn a \<in> {v ..< v + n}" "vpn a < 1023 * 1024"
    using assms by (auto simp: in_pages_def heap_pages_def)
  with assms(1) obtain e where "pagemap s (slot (vpn a)) = Some e" "IS_CACHED e"
    "\<not> table_frame s (PG_ALIGN e)" "\<not> page_free s (drop_bit 12 e)" unfolding heap_pages_def by blast
  moreover have "L1_INDEX a < 1023" using slot_bounds(1) [OF v(2)] by (simp add: slot_vpn va_idx_def)
  ultimately show ?thesis using that [of e] by (simp add: slot_vpn heap_frame_def)
qed

lemma heap_translate:
  assumes "vm_ok s" "heap_pages s v n" "in_pages v n a"
  shows "mmu_translate s a = Some (heap_frame s (vpn a) + PG_OFFSET a)"
proof -
  obtain e where "pagemap s (va_idx a) = Some e" "IS_CACHED e" "heap_frame s (vpn a) = PG_ALIGN e"
    "L1_INDEX a < 1023" by (rule heap_page_entry [OF assms(2,3)])
  then show ?thesis using mmu_translate_pagemap [OF assms(1), of a] by (simp add: va_idx_def)
qed

lemma vpn_PG_ALIGN: "vpn a = vpn b \<longleftrightarrow> PG_ALIGN a = PG_ALIGN b"
proof
  assume "vpn a = vpn b"
  then show "PG_ALIGN a = PG_ALIGN b"
    by (simp add: word_unat_eq_iff unat_PG_ALIGN vpn_def minus_mod_eq_mult_div)
next
  have "vpn c = unat (PG_ALIGN c) div 4096" for c
    by (simp add: vpn_def unat_PG_ALIGN minus_mod_eq_mult_div)
  then show "PG_ALIGN a = PG_ALIGN b \<Longrightarrow> vpn a = vpn b" by simp
qed

lemma heap_frame_aligned [simp]: "page_aligned (heap_frame s p)"
  by (simp add: heap_frame_def)

lemma heap_translate_inj:
  assumes "heap_pages s v n" "in_pages v n a" "in_pages v n b"
    "heap_frame s (vpn a) + PG_OFFSET a = heap_frame s (vpn b) + PG_OFFSET b"
  shows "a = b"
proof -
  have "heap_frame s (vpn a) = heap_frame s (vpn b)" "PG_OFFSET a = PG_OFFSET b"
    using page_add_inj [OF _ _ _ _ assms(4)] by simp_all
  moreover from this have "vpn a = vpn b"
    using assms(1-3) by (auto simp: heap_pages_def in_pages_def dest: inj_onD)
  ultimately show ?thesis using vpn_PG_ALIGN page_split by metis
qed

section \<open>The heap as byte memory\<close>

definition heap_st :: "nat \<Rightarrow> nat \<Rightarrow> mem \<Rightarrow> 'a vm_scheme \<Rightarrow> bool" where
  "heap_st v n m s \<longleftrightarrow> vm_ok s \<and> heap_pages s v n
     \<and> (\<forall>a. in_pages v n a \<longrightarrow> phys s (heap_frame s (vpn a) + PG_OFFSET a) = m a)"

lemma heap_load8: "heap_st v n m s \<Longrightarrow> in_pages v n a \<Longrightarrow> vload8 s a = Some (m a)"
  using heap_translate [of s v n a] by (simp add: heap_st_def vload8_def)

lemma heap_phys_update:
  assumes "heap_st v n m s" "in_pages v n a" "p = heap_frame s (vpn a) + PG_OFFSET a"
  shows "heap_st v n (m(a := x)) (s\<lparr>phys := (phys s)(p := x)\<rparr>)"
    and "heap_frame (s\<lparr>phys := (phys s)(p := x)\<rparr>) = heap_frame s"
    and "pagemap (s\<lparr>phys := (phys s)(p := x)\<rparr>) = pagemap s"
proof -
  let ?s' = "s\<lparr>phys := (phys s)(p := x)\<rparr>"
  have ok: "vm_ok s" "heap_pages s v n" using assms(1) by (simp_all add: heap_st_def)
  obtain e where e: "\<not> table_frame s (PG_ALIGN e)" "heap_frame s (vpn a) = PG_ALIGN e"
    by (rule heap_page_entry [OF ok(2) assms(2)])
  have f: "PG_ALIGN p = heap_frame s (vpn a)"
    unfolding assms(3) by (rule page_add(1)) simp_all
  have off: "off_page (PG_ALIGN p) s ?s'" by (auto simp: off_page_def)
  have ne: "PG_ALIGN p \<noteq> cr3 s" using dir_frame [OF ok(1)] e f by auto
  have ent: "l1e ?s' k = l1e s k" "tbl ?s' k = tbl s k" if "k < 1024" for k
    using off_page_entries [OF off vm_okD(2) [OF ok(1)] ne that] by blast+
  have tf: "table_frame ?s' g = table_frame s g" for g
    using ent unfolding table_frame_def by auto
  have l2: "l2e ?s' k b = l2e s k b" if "k < 1024" "b < 1024" "l1e s k \<noteq> 0" for k b
  proof (rule off_page_entries(3) [OF off vm_okD(2) [OF ok(1)] ne that(1) _ that(2)])
    have "table_frame s (tbl s k)" using that unfolding table_frame_def by blast
    then show "tbl s k \<noteq> PG_ALIGN p" using e f by auto
  qed
  show pm: "pagemap ?s' = pagemap s"
  proof (rule ext, clarify)
    fix i j
    show "pagemap ?s' (i, j) = pagemap s (i, j)"
      using ent [OF l1_index_small(1), of i] l2 [OF l1_index_small(1), of i j]
      by (auto simp: pagemap_def)
  qed
  have hf: "heap_frame ?s' = heap_frame s" by (simp add: heap_frame_def pm fun_eq_iff)
  have pf: "page_free ?s' = page_free s" by (simp add: page_free_def fun_eq_iff)
  have "phys ?s' (heap_frame s (vpn b) + PG_OFFSET b) = (m(a := x)) b" if b: "in_pages v n b" for b
    using heap_translate_inj [OF ok(2) b assms(2)] assms(1,3) b by (auto simp: heap_st_def)
  moreover have "vm_ok ?s'" by (rule vm_ok_off_page [OF off ok(1) ne])
  moreover have "heap_pages ?s' v n" using ok(2) by (simp add: heap_pages_def pm tf pf hf)
  ultimately show "heap_st v n (m(a := x)) ?s'" by (simp add: heap_st_def hf)
  show "heap_frame ?s' = heap_frame s" by (rule hf)
qed

lemma heap_store8:
  assumes "heap_st v n m s" "in_pages v n a"
  obtains b where "vstore8 a x s = Some (s\<lparr>phys := b\<rparr>)" "heap_st v n (m(a := x)) (s\<lparr>phys := b\<rparr>)"
proof -
  have "mmu_translate s a = Some (heap_frame s (vpn a) + PG_OFFSET a)"
    using assms heap_translate [of s v n a] by (simp add: heap_st_def)
  with heap_phys_update(1) [OF assms refl, of x] show ?thesis using that by (simp add: vstore8_def)
qed

lemma in_pages_same_page: "PG_ALIGN a = PG_ALIGN b \<Longrightarrow> in_pages v n a = in_pages v n b"
  using vpn_PG_ALIGN [of a b] by (simp add: in_pages_def)

lemma aligned4_in_pages:
  assumes "aligned4 a" "in_pages v n a" "k < 4"
  shows "in_pages v n (a + k)" "vpn (a + k) = vpn a" "PG_OFFSET (a + k) = PG_OFFSET a + k"
  using aligned4_page [OF assms(1,3)] in_pages_same_page [of "a + k" a] vpn_PG_ALIGN [of "a + k" a] assms(2)
  by simp_all

lemma heap_load32:
  assumes "heap_st v n m s" "in_pages v n a" "aligned4 a"
  shows "vload32 s a = Some (load32 m a)"
proof -
  have ok: "vm_ok s" "heap_pages s v n" using assms(1) by (simp_all add: heap_st_def)
  have tr: "mmu_translate s (a + k) = Some (heap_frame s (vpn a) + PG_OFFSET a + k)"
    and ph: "phys s (heap_frame s (vpn a) + PG_OFFSET a + k) = m (a + k)" if "k < 4" for k
    using heap_translate [OF ok aligned4_in_pages(1) [OF assms(3,2) that]] assms(1)
      aligned4_in_pages [OF assms(3,2) that] by (auto simp: heap_st_def add.assoc)
  show ?thesis
    using tr [of 0] tr [of 1] tr [of 2] tr [of 3] ph [of 0] ph [of 1] ph [of 2] ph [of 3]
    by (simp add: vload32_def load32_def)
qed

lemma heap_store32_pagemap:
  assumes "heap_st v n m s" "in_pages v n a" "aligned4 a"
  obtains b where "vstore32 a x s = Some (s\<lparr>phys := b\<rparr>)" "heap_st v n (store32 m a x) (s\<lparr>phys := b\<rparr>)"
    "pagemap (s\<lparr>phys := b\<rparr>) = pagemap s"
proof -
  have ok: "vm_ok s" "heap_pages s v n" using assms(1) by (simp_all add: heap_st_def)
  let ?p = "heap_frame s (vpn a) + PG_OFFSET a"
  have in4: "in_pages v n (a + k)" "?p + k = heap_frame s (vpn (a + k)) + PG_OFFSET (a + k)" if "k < 4" for k
    using aligned4_in_pages [OF assms(3,2) that] by (simp_all add: add.assoc)
  have tr: "mmu_translate s (a + k) = Some (?p + k)" if "k < 4" for k
    using heap_translate [OF ok in4(1) [OF that]] in4(2) [OF that] by simp
  let ?s1 = "s\<lparr>phys := (phys s)(?p := ucast x)\<rparr>"
  have 1: "heap_st v n (m(a := ucast x)) ?s1" "heap_frame ?s1 = heap_frame s" "pagemap ?s1 = pagemap s"
    using heap_phys_update [OF assms(1,2) refl, of "ucast x"] by simp_all
  let ?x1 = "ucast (drop_bit 8 x) :: u8" and ?x2 = "ucast (drop_bit 16 x) :: u8"
    and ?x3 = "ucast (drop_bit 24 x) :: u8"
  let ?s2 = "?s1\<lparr>phys := (phys ?s1)(?p + 1 := ?x1)\<rparr>"
  have 2: "heap_st v n (m(a := ucast x, a + 1 := ?x1)) ?s2" "heap_frame ?s2 = heap_frame s" "pagemap ?s2 = pagemap s"
    using heap_phys_update [OF 1(1) in4(1) [of 1], of "?p + 1" ?x1] in4(2) [of 1] 1(2,3) by simp_all
  let ?s3 = "?s2\<lparr>phys := (phys ?s2)(?p + 2 := ?x2)\<rparr>"
  have 3: "heap_st v n (m(a := ucast x, a + 1 := ?x1, a + 2 := ?x2)) ?s3" "heap_frame ?s3 = heap_frame s" "pagemap ?s3 = pagemap s"
    using heap_phys_update [OF 2(1) in4(1) [of 2], of "?p + 2" ?x2] in4(2) [of 2] 2(2,3) by simp_all
  let ?s4 = "?s3\<lparr>phys := (phys ?s3)(?p + 3 := ?x3)\<rparr>"
  have 4: "heap_st v n (m(a := ucast x, a + 1 := ?x1, a + 2 := ?x2, a + 3 := ?x3)) ?s4" "pagemap ?s4 = pagemap s"
    using heap_phys_update [OF 3(1) in4(1) [of 3], of "?p + 3" ?x3] in4(2) [of 3] 3(2,3) by simp_all
  have eq: "?s4 = s\<lparr>phys := (phys s)(?p := ucast x, ?p + 1 := ?x1, ?p + 2 := ?x2, ?p + 3 := ?x3)\<rparr>" by simp
  have st: "vstore32 a x s = Some ?s4"
    using tr [of 0] tr [of 1] tr [of 2] tr [of 3] by (simp add: vstore32_def)
  show ?thesis
    using that [OF st [unfolded eq]] 4 [unfolded eq] by (simp only: store32_def)
qed

lemma heap_store32:
  assumes "heap_st v n m s" "in_pages v n a" "aligned4 a"
  obtains b where "vstore32 a x s = Some (s\<lparr>phys := b\<rparr>)" "heap_st v n (store32 m a x) (s\<lparr>phys := b\<rparr>)"
  using heap_store32_pagemap [OF assms] by blast

text \<open>Behind the page tables, the heap satisfies the interface of word-addressed memory.\<close>

definition heap_word :: "nat \<Rightarrow> nat \<Rightarrow> 'a vm_scheme \<Rightarrow> u32 \<Rightarrow> bool" where
  "heap_word v n s a \<longleftrightarrow> vm_ok s \<and> heap_pages s v n \<and> in_pages v n a \<and> aligned4 a"

definition heap_mem :: "'a vm_scheme \<Rightarrow> mem" where
  "heap_mem s a = phys s (heap_frame s (vpn a) + PG_OFFSET a)"

lemma heap_word_st: "heap_word v n s a \<Longrightarrow> heap_st v n (heap_mem s) s"
  by (simp add: heap_word_def heap_st_def heap_mem_def)

lemma heap_st_word: "heap_st v n m s \<Longrightarrow> heap_word v n s a \<longleftrightarrow> in_pages v n a \<and> aligned4 a"
  by (auto simp: heap_word_def heap_st_def)

interpretation heap_store: word_store vload32 "\<lambda>s a v. vstore32 a v s" "heap_word v n" for v n
proof unfold_locales
  fix s s' :: "'a vm_scheme" and a b x :: u32
  assume a: "heap_word v n s a"
  then have a': "in_pages v n a" "aligned4 a" by (simp_all add: heap_word_def)
  note st = heap_word_st [OF a]
  show "\<exists>x. vload32 s a = Some x" using heap_load32 [OF st a'] by simp
  obtain m where m: "vstore32 a x s = Some (s\<lparr>phys := m\<rparr>)"
    "heap_st v n (store32 (heap_mem s) a x) (s\<lparr>phys := m\<rparr>)" by (rule heap_store32 [OF st a'])
  then show "\<exists>s'. vstore32 a x s = Some s'" by blast
  assume s': "vstore32 a x s = Some s'"
  with m have st': "heap_st v n (store32 (heap_mem s) a x) s'" by simp
  show "heap_word v n s' = heap_word v n s"
    using heap_st_word [OF st'] heap_st_word [OF st] by (simp add: fun_eq_iff)
  show "vload32 s' a = Some x" using heap_load32 [OF st' a'] by simp
  assume "heap_word v n s b" "a \<noteq> b"
  then have b': "in_pages v n b" "aligned4 b" by (simp_all add: heap_word_def)
  show "vload32 s' b = vload32 s b"
    using heap_load32 [OF st' b'] heap_load32 [OF st b'] a'(2) b'(2) \<open>a \<noteq> b\<close>
    by (simp add: load32_store32_aligned)
qed

section \<open>Moving the break\<close>

lemma PG_PREM_RW_present [simp]: "IS_CACHED PG_PREM_RW"
  by (simp add: PG_PREM_RW_def PG_PRESENT_def PG_WRITE_def IS_CACHED_def)

lemma new_entry_frame:
  assumes "in_bitmap p"
  shows "PG_ALIGN (NEW_L2_ENTRY attr (push_bit 12 p)) = push_bit 12 p"
    and "drop_bit 12 (NEW_L2_ENTRY attr (push_bit 12 p)) = p"
proof -
  have "page_aligned (push_bit 12 p)"
    by (simp only: page_aligned_def PG_OFFSET_mask) (rule bit_word_eqI, auto simp: bit_simps)
  then show *: "PG_ALIGN (NEW_L2_ENTRY attr (push_bit 12 p)) = push_bit 12 p" by (simp add: PG_ALIGN_id)
  show "drop_bit 12 (NEW_L2_ENTRY attr (push_bit 12 p)) = p"
    using * drop_bit_PG_ALIGN page_number_shift [OF assms] by metis
qed

text \<open>Existing heap pages survive any step that only takes frames from the pool and leaves their
  entries alone.\<close>

lemma heap_kept:
  assumes "heap_st v n m s" "grown s s'" "vm_ok s'" "\<And>p. p \<in> {v ..< v + n} \<Longrightarrow> pagemap s' (slot p) = pagemap s (slot p)"
  shows "heap_st v n m s'"
    and "p \<in> {v ..< v + n} \<Longrightarrow> heap_frame s' p = heap_frame s p \<and> \<not> page_free s (drop_bit 12 (heap_frame s p))"
proof -
  have hp: "heap_pages s v n" using assms(1) by (simp add: heap_st_def)
  have hf: "heap_frame s' p = heap_frame s p" if "p \<in> {v ..< v + n}" for p
    using assms(4) [OF that] by (simp add: heap_frame_def)
  have ent: "\<exists>e. pagemap s' (slot p) = Some e \<and> IS_CACHED e \<and> \<not> table_frame s' (PG_ALIGN e)
      \<and> \<not> page_free s' (drop_bit 12 e) \<and> heap_frame s p = PG_ALIGN e \<and> \<not> page_free s (drop_bit 12 e)"
    if p: "p \<in> {v ..< v + n}" for p
  proof -
    obtain e where e: "pagemap s (slot p) = Some e" "IS_CACHED e" "\<not> table_frame s (PG_ALIGN e)"
      "\<not> page_free s (drop_bit 12 e)" using hp p unfolding heap_pages_def by blast
    moreover have "\<not> table_frame s' (PG_ALIGN e)" "\<not> page_free s' (drop_bit 12 e)"
      using assms(2) e(3,4) by (auto simp: grown_def drop_bit_PG_ALIGN)
    ultimately show ?thesis using assms(4) [OF p] by (simp add: heap_frame_def)
  qed
  have "inj_on (heap_frame s') {v ..< v + n}"
    using hp hf unfolding heap_pages_def by (simp add: inj_on_def)
  moreover have "v + n \<le> 1023 * 1024" using hp unfolding heap_pages_def by blast
  ultimately have hp': "heap_pages s' v n" using ent unfolding heap_pages_def by blast
  have "phys s' (heap_frame s' (vpn a) + PG_OFFSET a) = m a" if a: "in_pages v n a" for a
  proof -
    have p: "vpn a \<in> {v ..< v + n}" using a by (simp add: in_pages_def)
    have "PG_ALIGN (heap_frame s (vpn a) + PG_OFFSET a) = heap_frame s (vpn a)"
      by (rule page_add(1)) simp_all
    then have "\<not> table_frame s' (PG_ALIGN (heap_frame s (vpn a) + PG_OFFSET a))" using ent [OF p] by auto
    then have "phys s' (heap_frame s (vpn a) + PG_OFFSET a) = phys s (heap_frame s (vpn a) + PG_OFFSET a)"
      using assms(2) unfolding grown_def vm_frame_def by blast
    then show ?thesis using assms(1) a hf [OF p] by (simp add: heap_st_def)
  qed
  then show "heap_st v n m s'" using hp' assms(3) by (simp add: heap_st_def)
  show "p \<in> {v ..< v + n} \<Longrightarrow> heap_frame s' p = heap_frame s p \<and> \<not> page_free s (drop_bit 12 (heap_frame s p))"
    using ent [of p] hf [of p] by (auto simp: drop_bit_PG_ALIGN)
qed

lemma range_index:
  assumes "p \<in> {v ..< v + (n + k)}" "\<not> p < v + n"
  obtains i :: nat where "p = v + n + i" "i < k"
  using assms that [of "p - (v + n)"] by auto

text \<open>Pages mapped to fresh frames extend the heap.\<close>

lemma heap_extended:
  assumes "heap_st v n m s" "grown s s'" "vm_ok s'" "v + n + k \<le> 1023 * 1024"
    "length ps = k" "distinct ps" "\<forall>p \<in> set ps. fresh_frame s s' p"
    "\<forall>i < k. pagemap s (slot (v + n + i)) = None
       \<and> pagemap s' (slot (v + n + i)) = Some (NEW_L2_ENTRY PG_PREM_RW (push_bit 12 (ps ! i)))"
    "\<forall>ij. (\<forall>i < k. ij \<noteq> slot (v + n + i)) \<longrightarrow> pagemap s' ij = pagemap s ij"
  shows "\<exists>m'. heap_st v (n + k) m' s' \<and> (\<forall>a. in_pages v n a \<longrightarrow> m' a = m a)"
proof -
  have hp: "heap_pages s v n" using assms(1) by (simp add: heap_st_def)
  have old: "pagemap s' (slot p) = pagemap s (slot p)" if "p \<in> {v ..< v + n}" for p
  proof -
    have "slot p \<noteq> slot (v + n + i)" if "i < k" for i
      using \<open>p \<in> {v ..< v + n}\<close> that assms(4) by (subst slot_inj) auto
    then show ?thesis using assms(9) by blast
  qed
  note kept = heap_kept [OF assms(1-3) old]
  have hp': "heap_pages s' v n" using kept(1) by (simp add: heap_st_def)
  have new: "heap_frame s' (v + n + i) = push_bit 12 (ps ! i)" "fresh_frame s s' (ps ! i)" if "i < k" for i
  proof -
    show f: "fresh_frame s s' (ps ! i)" using assms(5,7) that by simp
    then show "heap_frame s' (v + n + i) = push_bit 12 (ps ! i)"
      using assms(8) that new_entry_frame(1) by (simp add: heap_frame_def fresh_frame_def)
  qed
  have entry: "\<exists>e. pagemap s' (slot p) = Some e \<and> IS_CACHED e \<and> \<not> table_frame s' (PG_ALIGN e)
      \<and> \<not> page_free s' (drop_bit 12 e)" if p: "p \<in> {v ..< v + (n + k)}" for p
  proof (cases "p < v + n")
    case True
    then show ?thesis using hp' p unfolding heap_pages_def by simp
  next
    case False
    obtain i where i: "p = v + n + i" "i < k" by (rule range_index [OF p False])
    then show ?thesis
      using assms(8) new(2) [OF i(2)] new_entry_frame by (simp add: fresh_frame_def)
  qed
  have inj: "inj_on (heap_frame s') {v ..< v + (n + k)}"
  proof (rule inj_onI)
    fix p q
    assume p: "p \<in> {v ..< v + (n + k)}" and q: "q \<in> {v ..< v + (n + k)}" and eq: "heap_frame s' p = heap_frame s' q"
    have free: "page_free s (drop_bit 12 (heap_frame s' x)) \<longleftrightarrow> v + n \<le> x"
      if xr: "x \<in> {v ..< v + (n + k)}" for x
    proof (cases "x < v + n")
      case True
      then show ?thesis using kept(2) [of x] xr by auto
    next
      case False
      obtain i where "x = v + n + i" "i < k" by (rule range_index [OF xr False])
      then show ?thesis using new page_number_shift by (simp add: fresh_frame_def)
    qed
    show "p = q"
    proof (cases "v + n \<le> p")
      case False
      then have "v + n > q" using free [OF p] free [OF q] eq by auto
      then show ?thesis using hp' False p q eq unfolding heap_pages_def
        by (auto dest: inj_onD)
    next
      case True
      then have "\<not> q < v + n" "\<not> p < v + n" using free [OF p] free [OF q] eq by auto
      then obtain i j where ij: "p = v + n + i" "i < k" "q = v + n + j" "j < k"
        using range_index [OF p] range_index [OF q] by metis
      then have "push_bit 12 (ps ! i) = push_bit 12 (ps ! j)" using eq new(1) by simp
      then have "ps ! i = ps ! j"
        using new(2) [OF ij(2)] new(2) [OF ij(4)] page_number_shift unfolding fresh_frame_def by metis
      then show ?thesis using ij assms(5,6) by (simp add: nth_eq_iff_index_eq)
    qed
  qed
  have "heap_pages s' v (n + k)" unfolding heap_pages_def
    using entry inj assms(4) by (simp add: add.assoc)
  then have "heap_st v (n + k) (heap_mem s') s'"
    using assms(3) by (simp add: heap_st_def heap_mem_def)
  moreover have "heap_mem s' a = m a" if "in_pages v n a" for a
    using kept(1) that by (simp add: heap_st_def heap_mem_def)
  ultimately show ?thesis by blast
qed

lemma map_page_here:
  assumes "vm_ok s" "page_aligned va" "va \<noteq> 0" "pa \<noteq> 0" "L1_INDEX va < 1023"
    "pagemap s (va_idx va) = None" "IS_CACHED attr"
  obtains (full) s' where "vmm_map_page va pa attr s = Some (0, s')" "vm_ok s'" "pagemap s' = pagemap s"
      "grown s s'"
  | (mapped) s' where "vmm_map_page va pa attr s = Some (va, s')" "vm_ok s'" "grown s s'"
      "pagemap s' = (pagemap s)(va_idx va \<mapsto> NEW_L2_ENTRY attr pa)"
proof (cases "l1e s (L1_INDEX va) = 0")
  case True
  note eq = map_page_absent [OF assms(1,3,4,5) True]
  show ?thesis
  proof (cases rule: map_internal_fresh [OF assms(1,5) L2_INDEX_lt [of va] assms(7),
        where pa = pa, case_names kept full set])
    case kept
    then show ?thesis using assms(6) by (simp add: va_idx_def)
  next
    case (full t)
    then show ?thesis
      using that(1) [of t] alloc_page_vm [OF assms(1) full(3)] grown_alloc [OF assms(1) full(3)] by (simp add: eq)
  next
    case (set s')
    then show ?thesis using that(2) [of s'] by (simp add: eq grown_def va_idx_def)
  qed
next
  case False
  let ?i = "L1_INDEX va" and ?j = "L2_INDEX va"
  let ?s' = "upd_entry ?i ?j (NEW_L2_ENTRY attr pa) s"
  have "unat va div 4096 < 1023 * 1024"
    using assms(5) by (simp add: word_less_nat_alt unat_word)
  then have m: "vpn va < 1023 * 1024" by (simp add: vpn_def)
  have "full_range s (vpn va) (vpn va)" by (simp add: full_range_def)
  with map_page_hit [OF assms(1,3,4) order.refl m this] False assms(6)
  have "vmm_map_page va pa attr s = Some (V_ADDR ?i ?j (PG_OFFSET va), ?s')"
    by (simp add: slot_vpn va_idx_def)
  moreover note upd = vm_ok_upd [OF assms(1,5) L2_INDEX_lt False] vm_frame_upd [OF assms(1,5) L2_INDEX_lt False]
  moreover have "pagemap ?s' = (pagemap s)(va_idx va \<mapsto> NEW_L2_ENTRY attr pa)"
    using pagemap_upd [OF assms(1,5) L2_INDEX_lt False] new_entry_nonzero [OF assms(7)]
    by (simp add: va_idx_def)
  moreover have "page_free ?s' = page_free s" using pmm_view_cong(1) [of ?s' s] by (simp add: fun_eq_iff)
  ultimately show ?thesis using that(2) [of ?s'] by (simp add: V_ADDR_split grown_def)
qed

lemma alloc_page_here:
  assumes "vm_ok s" "page_aligned va" "va \<noteq> 0" "L1_INDEX va < 1023"
    "pagemap s (va_idx va) = None" "IS_CACHED attr"
  obtains (oom) s' where "vmm_alloc_page va attr s = Some (0, s')" "vm_ok s'" "pagemap s' = pagemap s" "grown s s'"
  | (mapped) s' p where "vmm_alloc_page va attr s = Some (va, s')" "vm_ok s'" "grown s s'" "fresh_frame s s' p"
      "pagemap s' = (pagemap s)(va_idx va \<mapsto> NEW_L2_ENTRY attr (push_bit 12 p))"
proof -
  obtain pp t where pp: "pmm_alloc_page s = Some (pp, t)"
    using pmm_pool.alloc_total vm_okD(1) [OF assms(1)] by blast
  note al = alloc_page_vm [OF assms(1) pp] and ga = grown_alloc [OF assms(1) pp]
  show ?thesis
  proof (cases "pp = 0")
    case True
    have "pmm_free_page 0 t = Some (0, t)"
      by (cases rule: pmm_free_page_cases [of 0 t]) simp_all
    then have "vmm_alloc_page va attr s = Some (0, t)"
      by (simp add: vmm_alloc_page_def pp True vmm_map_page_def)
    then show ?thesis using oom al ga by simp
  next
    case False
    note fresh = al(11) [OF False]
    have none: "pagemap t (va_idx va) = None" using assms(5) al(4) by simp
    have tp: "\<not> page_free t (drop_bit 12 pp)" "\<not> table_frame t pp" using fresh al(5) by simp_all
    show ?thesis
    proof (cases rule: map_page_here [OF al(9) assms(2,3) False assms(4) none assms(6), case_names full mapped])
      case (full u)
      have pa: "PG_ALIGN pp = pp" using fresh by (simp add: PG_ALIGN_id)
      have "table_frame u pp \<Longrightarrow> table_frame t pp \<or> page_free t (drop_bit 12 pp)"
        using full(4) unfolding grown_def by blast
      with tp pa have tf: "\<not> table_frame u (PG_ALIGN pp)" by auto
      obtain r w where
        w: "pmm_free_page pp u = Some (r, w)" "vm_ok w" "l1e w = l1e u" "l2e w = l2e u" "phys w = phys u" "cr3 w = cr3 u"
          "\<And>q. page_free w q \<longleftrightarrow> page_free u q \<or> (r \<noteq> 0 \<and> q = drop_bit 12 pp)"
        by (rule free_page_vm [OF full(2) tf]) (rule that; assumption)
      have "tbl w = tbl u" by (simp add: tbl_def fun_eq_iff w(3))
      then have tab: "table_frame w = table_frame u" by (simp add: table_frame_def fun_eq_iff w(3))
      have su: "grown s u" by (rule grown_trans [OF ga full(4)])
      then have "page_free w q \<Longrightarrow> page_free s q" for q using w(7) fresh by (auto simp: grown_def)
      moreover have "vm_frame u w" by (simp add: vm_frame_def tab w(5,6))
      ultimately have gw: "grown s w" using su by (auto simp: grown_def tab intro: vm_frame_trans)
      have "pagemap w = pagemap u" by (simp add: pagemap_def w(3,4) cong: if_cong)
      then have "pagemap w = pagemap s" by (simp only: full(3) al(4))
      moreover have "vmm_alloc_page va attr s = Some (0, w)"
        by (simp add: vmm_alloc_page_def pp full(1) w(1))
      ultimately show ?thesis using oom w(2) gw by blast
    next
      case (mapped s')
      have "\<not> table_frame s' pp" "\<not> page_free s' (drop_bit 12 pp)"
        using mapped(3) tp by (auto simp: grown_def)
      then have "fresh_frame s s' (drop_bit 12 pp)"
        using fresh aligned_page_number [of pp] by (simp add: fresh_frame_def page_number_lt)
      moreover have "push_bit 12 (drop_bit 12 pp) = pp" using fresh aligned_page_number by blast
      moreover have "vmm_alloc_page va attr s = Some (va, s')"
        using assms(3) by (simp add: vmm_alloc_page_def pp mapped(1))
      moreover have "grown s s'" by (rule grown_trans [OF ga mapped(3)])
      ultimately show ?thesis
        using that(2) [of s' "drop_bit 12 pp"] mapped(2,4) al(4) by simp
    qed
  qed
qed

lemma unat_ROUNDUP:
  assumes "unat x + 3 < 4294967296"
  shows "unat (ROUNDUP x BOUNDARY) = (unat x + 3) div 4 * 4"
proof -
  have eq: "ROUNDUP x BOUNDARY = (x + 3) AND NOT (mask 2)"
    by (simp add: ROUNDUP_def BOUNDARY_def mask_eq_exp_minus_1 algebra_simps)
  have "unat (x + 3) = unat x + 3" using assms by (subst unat_add_u32) simp_all
  then show ?thesis by (simp add: eq unat_word minus_mod_eq_div_mult)
qed

lemma aligned4_ROUNDUP:
  assumes "aligned4 x"
  shows "ROUNDUP x BOUNDARY = x" 
proof -
  obtain k where k: "unat x = 4 * k" using assms by (auto simp: aligned4_unat)
  moreover have "unat x + 3 < 4294967296" using unat_lt32 [of x] k by presburger
  ultimately have "unat (ROUNDUP x BOUNDARY) = unat x" by (simp add: unat_ROUNDUP)
  then show ?thesis by (simp add: word_unat_eq_iff)
qed

lemma add_no_wrap:
  assumes "\<not> (a + b < (a :: u32))"
  shows "unat (a + b) = unat a + unat b"
proof (rule ccontr)
  assume n: "unat (a + b) \<noteq> unat a + unat b"
  then have "4294967296 \<le> unat a + unat b" using unat_add_u32 [of a b] by linarith
  moreover have "unat (a + b) = (unat a + unat b) mod 4294967296"
    by (simp add: unat_word_ariths(1))
  moreover have "unat a + unat b - 4294967296 < 4294967296"
    using unat_lt32 [of a] unat_lt32 [of b] by linarith
  ultimately have "unat (a + b) = unat a + unat b - 4294967296"
    by (simp only: le_mod_geq mod_less)
  with unat_lt32 [of b] have "unat (a + b) < unat a" using \<open>4294967296 \<le> unat a + unat b\<close> by linarith
  with assms show False by (simp add: word_less_nat_alt)
qed

lemma vpn_bounds: "4096 * vpn a \<le> unat a" "unat a < 4096 * (vpn a + 1)"
  unfolding vpn_def by simp_all

lemma unat_PG_ALIGN_vpn: "unat (PG_ALIGN a) = 4096 * vpn a"
  by (simp add: unat_PG_ALIGN vpn_def minus_mod_eq_mult_div)

lemma page_span:
  assumes "vpn a < vpn b"
  shows "unat (drop_bit PG_SIZE_BITS (PG_ALIGN b - PG_ALIGN a)) = vpn b - vpn a"
    and "vpn (PG_ALIGN a + PG_SIZE) = vpn a + 1" and "page_aligned (PG_ALIGN a + PG_SIZE)"
proof -
  have "unat (PG_ALIGN b - PG_ALIGN a) = 4096 * vpn b - 4096 * vpn a"
    using assms by (subst unat_sub_u32) (simp_all add: unat_PG_ALIGN_vpn)
  then show "unat (drop_bit PG_SIZE_BITS (PG_ALIGN b - PG_ALIGN a)) = vpn b - vpn a"
    by (simp add: unat_drop_bit_u32 PG_SIZE_BITS_def diff_mult_distrib2 [symmetric])
  have "4096 * (vpn a + 1) \<le> 4096 * vpn b" using assms by simp
  also have "\<dots> \<le> unat b" by (rule vpn_bounds)
  finally have "4096 * vpn a + 4096 \<le> unat b" by simp
  then have lim: "4096 * vpn a + 4096 < 4294967296" using unat_lt32 [of b] by (rule le_less_trans)
  then have u: "unat (PG_ALIGN a + PG_SIZE) = 4096 * (vpn a + 1)"
    by (subst unat_add_u32) (simp_all add: unat_PG_ALIGN_vpn page_consts)
  then show "vpn (PG_ALIGN a + PG_SIZE) = vpn a + 1" by (simp add: vpn_def)
  have "unat (PG_OFFSET (PG_ALIGN a + PG_SIZE)) = 0" unfolding unat_PG_OFFSET u by simp
  then show "page_aligned (PG_ALIGN a + PG_SIZE)" by (simp add: page_aligned_def unat_eq_zero)
qed

lemma lxbrk_spec:
  assumes st: "heap_st v n m s" and sz: "sz \<noteq> 0" "aligned4 sz" and brk: "in_pages v n (hp_brk heap)"
    and max: "unat (hp_max_addr heap) \<le> 1023 * 4194304"
  obtains (fail) s' where "lxbrk heap sz s = Some (0, heap, s')" "heap_st v n m s'"
  | (ok) s' n' m' where "lxbrk heap sz s = Some (hp_brk heap, heap\<lparr>hp_brk := hp_brk heap + sz\<rparr>, s')"
      "heap_st v n' m' s'" "n \<le> n'" "\<And>a. in_pages v n a \<Longrightarrow> m' a = m a"
      "unat (hp_brk heap) + unat sz < unat (hp_max_addr heap)"
      "unat (hp_brk heap) + unat sz < 4096 * (v + n')"
proof -
  let ?brk = "hp_brk heap" and ?next = "hp_brk heap + sz"
  have vm: "vm_ok s" "heap_pages s v n" using st by (simp_all add: heap_st_def)
  show ?thesis
  proof (cases "hp_max_addr heap \<le> ?next \<or> ?next < ?brk")
    case True
    then have "lxbrk heap sz s = Some (0, heap, s)"
      using sz by (simp add: lxbrk_def Let_def aligned4_ROUNDUP)
    with st show ?thesis by (rule fail [rotated])
  next
    case False
    then have u: "unat ?next = unat ?brk + unat sz" by (intro add_no_wrap) simp
    have lt: "unat ?next < unat (hp_max_addr heap)" using False by (simp add: word_less_nat_alt not_le)
    show ?thesis
    proof (cases "vpn ?next = vpn ?brk")
      case True
      then have "PG_ALIGN ?next - PG_ALIGN ?brk = 0" by (simp add: vpn_PG_ALIGN)
      then have eq: "lxbrk heap sz s = Some (?brk, heap\<lparr>hp_brk := ?brk + sz\<rparr>, s)"
        using sz False by (simp add: lxbrk_def Let_def aligned4_ROUNDUP)
      have "vpn ?next + 1 \<le> v + n" using True brk by (simp add: in_pages_def)
      then have "4096 * (vpn ?next + 1) \<le> 4096 * (v + n)" by (rule mult_le_mono2)
      with vpn_bounds(2) [of ?next] have "unat ?brk + unat sz < 4096 * (v + n)" unfolding u by linarith
      with eq st lt u show ?thesis by (intro ok [of s n m]) simp_all
    next
      case ne: False
      have "vpn ?brk \<le> vpn ?next" unfolding vpn_def u by (rule div_le_mono) simp
      with ne have less: "vpn ?brk < vpn ?next" by simp
      note span = page_span [OF less]
      define k where "k = vpn ?next - vpn ?brk"
      have k: "vpn ?brk + k = vpn ?next" "0 < k" using less by (simp_all add: k_def)
      have diff: "PG_ALIGN ?next - PG_ALIGN ?brk \<noteq> 0" using ne by (simp add: vpn_PG_ALIGN)
      have "4096 * vpn ?next < 4096 * (1023 * 1024)"
        using vpn_bounds(1) [of ?next] lt max by linarith
      then have top: "vpn ?next < 1023 * 1024" by simp
      let ?va = "PG_ALIGN ?brk + PG_SIZE"
      have "vpn ?va + k \<le> 1023 * 1024" using span(2) k top by simp
      from alloc_pages_spec [OF vm(1) span(3) PG_PREM_RW_present span(1) [folded k_def, symmetric] this]
      obtain b s' where al: "vmm_alloc_pages ?va (PG_ALIGN ?next - PG_ALIGN ?brk) PG_PREM_RW s = Some (b, s')"
        "vm_ok s'" "grown s s'" and res: "if b then \<exists>ps. length ps = k \<and> distinct ps
          \<and> (\<forall>p \<in> set ps. fresh_frame s s' p)
          \<and> (\<forall>i < k. pagemap s (slot (vpn ?va + i)) = None
             \<and> pagemap s' (slot (vpn ?va + i)) = Some (NEW_L2_ENTRY PG_PREM_RW (push_bit 12 (ps ! i))))
          \<and> (\<forall>ij. (\<forall>i < k. ij \<noteq> slot (vpn ?va + i)) \<longrightarrow> pagemap s' ij = pagemap s ij)
        else pagemap s' = pagemap s" by blast
      show ?thesis
      proof (cases b)
        case False
        then have "lxbrk heap sz s = Some (0, heap, s')"
          using sz diff al(1) \<open>\<not> (hp_max_addr heap \<le> ?next \<or> ?next < ?brk)\<close>
          by (simp add: lxbrk_def Let_def aligned4_ROUNDUP)
        moreover have "heap_st v n m s'"
          using False res by (intro heap_kept(1) [OF st al(3,2)]) simp
        ultimately show ?thesis by (rule fail)
      next
        case True
        then obtain ps where ps: "length ps = k" "distinct ps" "\<forall>p \<in> set ps. fresh_frame s s' p"
          "\<forall>i < k. pagemap s (slot (vpn ?va + i)) = None
             \<and> pagemap s' (slot (vpn ?va + i)) = Some (NEW_L2_ENTRY PG_PREM_RW (push_bit 12 (ps ! i)))"
          "\<forall>ij. (\<forall>i < k. ij \<noteq> slot (vpn ?va + i)) \<longrightarrow> pagemap s' ij = pagemap s ij"
          using res by auto
        have end': "vpn ?va = v + n"
        proof (rule ccontr)
          assume "vpn ?va \<noteq> v + n"
          then have "vpn ?va \<in> {v ..< v + n}" using brk span(2) by (auto simp: in_pages_def)
          with vm(2) have "pagemap s (slot (vpn ?va)) \<noteq> None" unfolding heap_pages_def by blast
          with ps(4) k(2) show False by force
        qed
        have bound: "v + n + k \<le> 1023 * 1024" using end' span(2) k top by simp
        obtain m' where m': "heap_st v (n + k) m' s'" "\<forall>a. in_pages v n a \<longrightarrow> m' a = m a"
          using heap_extended [OF st al(3,2) bound ps [unfolded end']] by blast
        have "lxbrk heap sz s = Some (?brk, heap\<lparr>hp_brk := ?brk + sz\<rparr>, s')"
          using sz diff al(1) True \<open>\<not> (hp_max_addr heap \<le> ?next \<or> ?next < ?brk)\<close>
          by (simp add: lxbrk_def Let_def aligned4_ROUNDUP)
        moreover have "v + (n + k) = vpn ?next + 1" using end' span(2) k(1) by simp
        then have "unat ?brk + unat sz < 4096 * (v + (n + k))" using vpn_bounds(2) [of ?next] u by simp
        ultimately show ?thesis using m' lt u by (intro ok [of s' "n + k" m']) simp_all
      qed
    qed
  qed
qed

text \<open>When the page after the one of the break is already mapped, no request that needs it can be
  served: \<^verbatim>\<open>vmm_alloc_pages\<close> refuses a taken page.\<close>

lemma lxbrk_refused:
  assumes st: "heap_st v n m s" and sz: "sz \<noteq> 0" "aligned4 sz" and brk: "in_pages v n (hp_brk heap)"
    and max: "unat (hp_max_addr heap) \<le> 1023 * 4194304"
    and next_page: "vpn (hp_brk heap) + 1 < v + n" and cross: "vpn (hp_brk heap) \<noteq> vpn (hp_brk heap + sz)"
  shows "\<exists>s'. lxbrk heap sz s = Some (0, heap, s') \<and> heap_st v n m s'"
proof (cases rule: lxbrk_spec [OF st sz brk max, case_names fail ok])
  case (ok s' n' m')
  let ?next = "hp_brk heap + sz" and ?va = "PG_ALIGN (hp_brk heap) + PG_SIZE"
  have vm: "vm_ok s" "heap_pages s v n" using st by (simp_all add: heap_st_def)
  have nz: "lxbrk heap sz s \<noteq> Some (0, heap, s'')" for s''
    using ok(1) sz(1) by (auto dest: arg_cong [where f = hp_brk])
  have u: "unat ?next = unat (hp_brk heap) + unat sz"
    using ok(5) unat_lt32 [of "hp_max_addr heap"] by (intro unat_add_u32) linarith
  then have c: "\<not> (hp_max_addr heap \<le> ?next \<or> ?next < hp_brk heap)"
    using ok(5) by (simp add: word_le_nat_alt word_less_nat_alt not_le)
  have "vpn (hp_brk heap) \<le> vpn ?next" unfolding vpn_def u by (rule div_le_mono) simp
  with cross have less: "vpn (hp_brk heap) < vpn ?next" by simp
  note span = page_span [OF less]
  have va: "vpn ?va \<in> {v ..< v + n}" using span(2) brk next_page by (auto simp: in_pages_def)
  have top: "vpn ?va < 1023 * 1024" using va vm(2) unfolding heap_pages_def by auto
  have l1: "L1_INDEX ?va < 1023" and idx: "va_idx ?va = slot (vpn ?va)"
    using slot_bounds(1) [OF top] by (simp_all add: slot_vpn va_idx_def)
  have taken: "pagemap s (va_idx ?va) \<noteq> None" using va vm(2) unfolding idx heap_pages_def by blast
  obtain k where k: "unat (drop_bit PG_SIZE_BITS (PG_ALIGN ?next - PG_ALIGN (hp_brk heap))) = Suc k"
    using span(1) less by (metis Suc_diff_Suc)
  obtain pp t where pp: "pmm_alloc_page s = Some (pp, t)"
    using pmm_pool.alloc_total vm_okD(1) [OF vm(1)] by blast
  note al = alloc_page_vm [OF vm(1) pp]
  have taken_t: "pagemap t (L1_INDEX ?va, L2_INDEX ?va) \<noteq> None" using taken al(4) by (simp add: va_idx_def)
  have "\<exists>u. vmm_map_internal (L1_INDEX ?va) (L2_INDEX ?va) pp PG_PREM_RW False t = Some (0, u)"
    by (cases rule: map_internal_fresh [OF al(9) l1 L2_INDEX_lt [of ?va] PG_PREM_RW_present,
          where pa = pp, case_names kept full set]) (use taken_t in auto)
  then have "\<exists>s''. vmm_alloc_pages ?va (PG_ALIGN ?next - PG_ALIGN (hp_brk heap)) PG_PREM_RW s = Some (False, s'')"
    by (cases "pp = 0") (auto simp: vmm_alloc_pages_def k pp)
  moreover have "PG_ALIGN ?next - PG_ALIGN (hp_brk heap) \<noteq> 0" using cross by (simp add: vpn_PG_ALIGN)
  ultimately have "\<exists>s''. lxbrk heap sz s = Some (0, heap, s'')"
    using sz c by (auto simp: lxbrk_def Let_def aligned4_ROUNDUP)
  with nz show ?thesis by blast
qed blast

section \<open>Initialisation\<close>

lemma dmm_init_spec:
  assumes "vm_ok s" "page_aligned (hp_start heap)" "hp_start heap \<noteq> 0" "L1_INDEX (hp_start heap) < 1023"
    "pagemap s (va_idx (hp_start heap)) = None"
  obtains (fail) s' where "dmm_init heap s = Some (False, heap\<lparr>hp_brk := hp_start heap\<rparr>, s')" "vm_ok s'"
  | (ok) s' m where "dmm_init heap s = Some (True, heap\<lparr>hp_brk := hp_start heap\<rparr>, s')"
      "heap_st (vpn (hp_start heap)) 1 m s'"
proof (cases rule: alloc_page_here [OF assms PG_PREM_RW_present, case_names oom mapped])
  case (oom s')
  then show ?thesis using fail [of s'] by (simp add: dmm_init_def)
next
  case (mapped s' p)
  let ?v = "vpn (hp_start heap)"
  have "unat (hp_start heap) div 4096 < 1023 * 1024"
    using assms(4) by (simp add: word_less_nat_alt unat_word)
  then have v: "?v + 0 + 1 \<le> 1023 * 1024" by (simp add: vpn_def)
  then have st: "heap_st ?v 0 (heap_mem s) s"
    using assms(1) by (simp add: heap_st_def heap_pages_def heap_mem_def)
  have "\<exists>m'. heap_st ?v (0 + 1) m' s' \<and> (\<forall>a. in_pages ?v 0 a \<longrightarrow> m' a = heap_mem s a)"
  proof (rule heap_extended [OF st mapped(3,2) v, of "[p]"])
    show "\<forall>i < 1. pagemap s (slot (?v + 0 + i)) = None \<and> pagemap s' (slot (?v + 0 + i))
        = Some (NEW_L2_ENTRY PG_PREM_RW (push_bit 12 ([p] ! i)))"
      using assms(5) mapped(5) by (simp add: slot_vpn)
    show "\<forall>ij. (\<forall>i < 1. ij \<noteq> slot (?v + 0 + i)) \<longrightarrow> pagemap s' ij = pagemap s ij"
      using mapped(5) by (simp add: slot_vpn)
  qed (use mapped(4) in simp_all)
  then obtain m where "heap_st ?v 1 m s'" by auto
  then show ?thesis using ok [of s' m] mapped(1) assms(3) by (simp add: dmm_init_def)
qed

end
