(* ===== verification/Kalloc.thy ===== *)
theory Kalloc
  imports Dmm
begin

text \<open>
  The kernel heap, \<^verbatim>\<open>kernel/mm/kalloc.c\<close>: an implicit list of chunks between
  \<^verbatim>\<open>heap->start\<close> and \<^verbatim>\<open>heap->brk\<close>. A chunk starts with a header word (its size and two
  flags: allocated, previous chunk free), a free chunk repeats it in its last word, and an
  epilogue header of size 0 stands at the break. The operations are modelled on the machine
  behind the page tables; the heap invariant relates the mapped bytes to a list of
  (size, allocated) pairs, and each operation is shown to be an update of that list.
\<close>

unbundle bit_operations_syntax

section \<open>Operations\<close>

definition coalesce :: "u32 \<Rightarrow> 'a vm_scheme \<Rightarrow> (u32 \<times> 'a vm_scheme) option" where
  "coalesce chunk_ptr s = do {
     hdr \<leftarrow> vload32 s chunk_ptr;
     let pf = CHUNK_PF hdr;
     let sz = CHUNK_S hdr;
     n_hdr \<leftarrow> vload32 s (chunk_ptr + sz);
     if CHUNK_A n_hdr \<noteq> 0 \<and> pf \<noteq> 0 then do {
       prev_ftr \<leftarrow> vload32 s (chunk_ptr - WSIZE);
       let prev_chunk_sz = CHUNK_S prev_ftr;
       let new_hdr = PACK (prev_chunk_sz + sz) (CHUNK_PF prev_ftr);
       s \<leftarrow> vstore32 (chunk_ptr - prev_chunk_sz) new_hdr s;
       s \<leftarrow> vstore32 (FPTR chunk_ptr sz) new_hdr s;
       Some (chunk_ptr - prev_chunk_sz, s)
     } else if CHUNK_A n_hdr = 0 \<and> pf = 0 then do {
       let next_chunk_sz = CHUNK_S n_hdr;
       let new_hdr = PACK (next_chunk_sz + sz) pf;
       s \<leftarrow> vstore32 chunk_ptr new_hdr s;
       s \<leftarrow> vstore32 (FPTR chunk_ptr (sz + next_chunk_sz)) new_hdr s;
       Some (chunk_ptr, s)
     } else if CHUNK_A n_hdr = 0 \<and> pf \<noteq> 0 then do {
       prev_ftr \<leftarrow> vload32 s (chunk_ptr - WSIZE);
       let next_chunk_sz = CHUNK_S n_hdr;
       let prev_chunk_sz = CHUNK_S prev_ftr;
       let new_hdr = PACK (next_chunk_sz + prev_chunk_sz + sz) (CHUNK_PF prev_ftr);
       s \<leftarrow> vstore32 (chunk_ptr - prev_chunk_sz) new_hdr s;
       s \<leftarrow> vstore32 (FPTR chunk_ptr (sz + next_chunk_sz)) new_hdr s;
       Some (chunk_ptr - prev_chunk_sz, s)
     } else Some (chunk_ptr, s)
   }"

definition place_chunk :: "u32 \<Rightarrow> u32 \<Rightarrow> 'a vm_scheme \<Rightarrow> 'a vm_scheme option" where
  "place_chunk ptr sz s = do {
     header \<leftarrow> vload32 s ptr;
     let chunk_size = CHUNK_S header;
     s \<leftarrow> vstore32 ptr (PACK sz (CHUNK_PF header OR M_ALLOCATED)) s;
     let n_hdrptr = ptr + sz;
     let diff = chunk_size - sz;
     if diff = 0 then do {
       n_hdr \<leftarrow> vload32 s n_hdrptr;
       vstore32 n_hdrptr (n_hdr AND NOT 0x2) s
     } else do {
       let remainder_hdr = PACK diff (M_NOT_ALLOCATED OR M_PREV_ALLOCATED);
       s \<leftarrow> vstore32 n_hdrptr remainder_hdr s;
       s \<leftarrow> vstore32 (FPTR n_hdrptr diff) remainder_hdr s;
       map_option snd (coalesce n_hdrptr s)
     }
   }"

definition lx_grow_heap :: "heap_context \<Rightarrow> u32 \<Rightarrow> 'a vm_scheme \<Rightarrow> (u32 \<times> heap_context \<times> 'a vm_scheme) option" where
  "lx_grow_heap heap sz s = do {
     (start, heap, s) \<leftarrow> lxbrk heap (sz + WSIZE) s;
     if start = 0 then Some (0, heap, s)
     else do {
       let sz = ROUNDUP sz BOUNDARY;
       let heap = heap\<lparr>hp_brk := hp_brk heap - WSIZE\<rparr>;
       old_marker \<leftarrow> vload32 s start;
       let free_hdr = PACK sz (CHUNK_PF old_marker);
       s \<leftarrow> vstore32 start free_hdr s;
       s \<leftarrow> vstore32 (FPTR start sz) free_hdr s;
       first \<leftarrow> vload32 s start;
       s \<leftarrow> vstore32 (start + CHUNK_S first) (PACK 0 (M_ALLOCATED OR M_PREV_FREE)) s;
       (r, s) \<leftarrow> coalesce start s;
       Some (r, heap, s)
     }
   }"

text \<open>The first-fit loop of \<^verbatim>\<open>lx_malloc_internal\<close>; the result is the chunk found, if any.\<close>

partial_function (option) lx_search :: "u32 \<Rightarrow> u32 \<Rightarrow> u32 \<Rightarrow> 'a vm_scheme \<Rightarrow> u32 option option" where
  "lx_search brk sz ptr s =
    (if ptr < brk then do {
       header \<leftarrow> vload32 s ptr;
       let chunk_size = CHUNK_S header;
       if chunk_size = 0 \<and> CHUNK_A header \<noteq> 0 then Some None
       else if sz \<le> chunk_size \<and> CHUNK_A header = 0 then Some (Some ptr)
       else lx_search brk sz (ptr + chunk_size) s
     } else Some None)"

definition lx_malloc_internal :: "heap_context \<Rightarrow> u32 \<Rightarrow> 'a vm_scheme \<Rightarrow> (u32 \<times> heap_context \<times> 'a vm_scheme) option" where
  "lx_malloc_internal heap sz s =
    (if sz = 0 then Some (0, heap, s)
     else do {
       let sz = ROUNDUP (sz + WSIZE) BOUNDARY;
       found \<leftarrow> lx_search (hp_brk heap) sz (hp_start heap) s;
       case found of
         Some ptr \<Rightarrow> do { s \<leftarrow> place_chunk ptr sz s; Some (BPTR ptr, heap, s) }
       | None \<Rightarrow> do {
           (ptr, heap, s) \<leftarrow> lx_grow_heap heap sz s;
           if ptr \<noteq> 0 then do { s \<leftarrow> place_chunk ptr sz s; Some (BPTR ptr, heap, s) }
           else Some (0, heap, s)
         }
     })"

text \<open>\<^verbatim>\<open>heap_start\<close> stands for the address of the linker symbol \<^verbatim>\<open>__kernel_heap_start\<close>.\<close>

definition kalloc_init :: "u32 \<Rightarrow> 'a vm_scheme \<Rightarrow> (bool \<times> heap_context \<times> 'a vm_scheme) option" where
  "kalloc_init heap_start s = do {
     let heap = \<lparr>hp_start = heap_start, hp_brk = 0, hp_max_addr = K_STACK_START\<rparr>;
     (ok, heap, s) \<leftarrow> dmm_init heap s;
     if \<not> ok then Some (False, heap, s)
     else do {
       s \<leftarrow> vstore32 (hp_start heap) (PACK 4 M_ALLOCATED) s;
       s \<leftarrow> vstore32 (hp_start heap + WSIZE) (PACK 0 M_ALLOCATED) s;
       let heap = heap\<lparr>hp_brk := hp_brk heap + WSIZE\<rparr>;
       (r, heap, s) \<leftarrow> lx_grow_heap heap HEAP_INIT_SIZE s;
       Some (r \<noteq> 0, heap, s)
     }
   }"

definition lxmalloc :: "u32 \<Rightarrow> heap_context \<Rightarrow> 'a vm_scheme \<Rightarrow> (u32 \<times> heap_context \<times> 'a vm_scheme) option" where
  "lxmalloc sz kheap s = lx_malloc_internal kheap sz s"

definition lxcalloc :: "u32 \<Rightarrow> u32 \<Rightarrow> heap_context \<Rightarrow> 'a vm_scheme \<Rightarrow> (u32 \<times> heap_context \<times> 'a vm_scheme) option" where
  "lxcalloc n elem kheap s =
    (let pd = n * elem in
     if pd < elem \<or> pd < n then Some (0, kheap, s)
     else do {
       (ptr, kheap, s) \<leftarrow> lxmalloc pd kheap s;
       if ptr = 0 then Some (0, kheap, s)
       else do { s \<leftarrow> vmemset (unat pd) ptr 0 s; Some (ptr, kheap, s) }
     })"

definition lxfree :: "u32 \<Rightarrow> 'a vm_scheme \<Rightarrow> 'a vm_scheme option" where
  "lxfree ptr s =
    (if ptr = 0 then Some s
     else do {
       let chunk_ptr = ptr - WSIZE;
       hdr \<leftarrow> vload32 s chunk_ptr;
       let sz = CHUNK_S hdr;
       let next_hdr = chunk_ptr + sz;
       s \<leftarrow> vstore32 chunk_ptr (hdr AND NOT M_ALLOCATED) s;
       s \<leftarrow> vstore32 (FPTR chunk_ptr sz) (hdr AND NOT M_ALLOCATED) s;
       n_hdr \<leftarrow> vload32 s next_hdr;
       s \<leftarrow> vstore32 next_hdr (n_hdr OR M_PREV_FREE) s;
       map_option snd (coalesce chunk_ptr s)
     })"

section \<open>Headers\<close>

definition hdr :: "nat \<Rightarrow> bool \<Rightarrow> bool \<Rightarrow> u32" where
  "hdr c a pf = of_nat c OR (if a then 1 else 0) OR (if pf then 2 else 0)"

lemma low_bits_clear:
  assumes "4 dvd (c :: nat)" "n < 2"
  shows "\<not> bit c n"
proof -
  obtain k where "c = 4 * k" using assms(1) by (elim dvdE)
  then have "c = push_bit 2 k" by (simp add: push_bit_eq_mult)
  then show ?thesis using assms(2) by (simp add: bit_push_bit_iff)
qed

lemma bit_numerals:
  "bit (2 :: int) n \<longleftrightarrow> n = 1" "bit (3 :: int) n \<longleftrightarrow> n < 2"
proof -
  have "(3 :: int) = mask 2" by (simp add: mask_eq_exp_minus_1)
  then show "bit (3 :: int) n \<longleftrightarrow> n < 2" by (simp only: bit_mask_iff) simp
  have "(2 :: int) = push_bit 1 1" by simp
  then show "bit (2 :: int) n \<longleftrightarrow> n = 1" by (simp only: bit_push_bit_iff bit_1_iff) auto
qed

lemma mask_2_u32: "mask 2 = (0x3 :: u32)"
  by (simp add: mask_eq_exp_minus_1)

lemma hdr_fields:
  assumes "4 dvd c"
  shows "CHUNK_S (hdr c a pf) = of_nat c" "CHUNK_A (hdr c a pf) = (if a then 1 else 0)"
    "CHUNK_PF (hdr c a pf) = (if pf then 2 else 0)"
    "PACK (of_nat c) ((if pf then 2 else 0) OR M_ALLOCATED) = hdr c True pf"
    "PACK (of_nat c) (if pf then 2 else 0) = hdr c False pf"
    "hdr c a pf AND NOT M_ALLOCATED = hdr c False pf" "hdr c a pf OR M_PREV_FREE = hdr c a True"
    "hdr c a pf AND NOT 0x2 = hdr c a False"
  unfolding CHUNK_S_def CHUNK_A_def CHUNK_PF_def PACK_def hdr_def M_ALLOCATED_def M_PREV_FREE_def
    mask_2_u32 [symmetric]
  by (rule bit_word_eqI, use low_bits_clear [OF assms, of 0] low_bits_clear [OF assms, of 1] in
      \<open>auto simp: bit_simps bit_1_iff bit_numerals less_2_cases_iff intro!: gr0I\<close>)+

lemma hdr_clear_prev: "4 dvd c \<Longrightarrow> hdr c a pf AND - 3 = hdr c a False"
  using hdr_fields(8) [of c a pf] by simp

lemmas hdr_simps = hdr_fields hdr_clear_prev M_NOT_ALLOCATED_def M_PREV_ALLOCATED_def

section \<open>Words at natural number addresses\<close>

definition wd :: "mem \<Rightarrow> nat \<Rightarrow> u32" where
  "wd m a = load32 m (of_nat a)"

definition put :: "nat \<Rightarrow> u32 \<Rightarrow> mem \<Rightarrow> mem" where
  "put a x m = store32 m (of_nat a) x"

definition addr_ok :: "nat \<Rightarrow> bool" where
  "addr_ok a \<longleftrightarrow> 4 dvd a \<and> a < 4294967296"

lemma wd_put: "addr_ok a \<Longrightarrow> addr_ok b \<Longrightarrow> wd (put a x m) b = (if a = b then x else wd m b)"
  by (simp add: wd_def put_def addr_ok_def load32_store32_aligned aligned4_of_nat of_nat_inject_u32)

lemma put_byte:
  assumes "addr_ok a" "b < 4294967296" "b < a \<or> a + 4 \<le> b"
  shows "put a x m (of_nat b) = m (of_nat b)"
  unfolding put_def
proof (rule store32_apart, intro allI impI)
  fix i :: nat
  assume i: "i < 4"
  obtain k where "a = 4 * k" using assms(1) by (auto simp: addr_ok_def)
  then have "a + 4 \<le> 4294967296" using assms(1) unfolding addr_ok_def by presburger
  then have "a + i < 4294967296" "a + i \<noteq> b" using assms(3) i by auto
  then have "(of_nat (a + i) :: u32) \<noteq> of_nat b" using assms(2) by (subst of_nat_inject_u32) simp_all
  then show "(of_nat a :: u32) + of_nat i \<noteq> of_nat b" by simp
qed

section \<open>The chunk list\<close>

type_synonym chunk = "nat \<times> bool"

fun seg :: "mem \<Rightarrow> nat \<Rightarrow> bool \<Rightarrow> chunk list \<Rightarrow> bool" where
  "seg m p pf [] = True"
| "seg m p pf ((c, a) # cs) \<longleftrightarrow> 4 dvd c \<and> 4 \<le> c \<and> wd m p = hdr c a pf
     \<and> (\<not> a \<longrightarrow> \<not> pf \<and> wd m (p + c - 4) = hdr c False False) \<and> seg m (p + c) (\<not> a) cs"

fun last_free :: "bool \<Rightarrow> chunk list \<Rightarrow> bool" where
  "last_free pf [] = pf"
| "last_free pf ((c, a) # cs) = last_free (\<not> a) cs"

definition extent :: "chunk list \<Rightarrow> nat" where
  "extent cs = sum_list (map fst cs)"

definition heap_chunks :: "mem \<Rightarrow> nat \<Rightarrow> bool \<Rightarrow> chunk list \<Rightarrow> bool" where
  "heap_chunks m p pf cs \<longleftrightarrow> seg m p pf cs \<and> wd m (p + extent cs) = hdr 0 True (last_free pf cs)"

lemma extent_simps [simp]: "extent [] = 0" "extent ((c, a) # cs) = c + extent cs" "extent (xs @ ys) = extent xs + extent ys"
  by (simp_all add: extent_def)

lemma last_free_append [simp]: "last_free pf (xs @ ys) = last_free (last_free pf xs) ys"
  by (induction pf xs rule: last_free.induct) simp_all

lemma seg_append [simp]:
  "seg m p pf (xs @ ys) \<longleftrightarrow> seg m p pf xs \<and> seg m (p + extent xs) (last_free pf xs) ys"
  by (induction m p pf xs rule: seg.induct) (auto simp: add.assoc)

lemma heap_chunks_append:
  "heap_chunks m p pf (xs @ ys) \<longleftrightarrow> seg m p pf xs \<and> heap_chunks m (p + extent xs) (last_free pf xs) ys"
  by (auto simp: heap_chunks_def add.assoc)

lemma heap_chunks_Cons:
  "heap_chunks m p pf ((c, a) # cs) \<longleftrightarrow> seg m p pf [(c, a)] \<and> heap_chunks m (p + c) (\<not> a) cs"
  using heap_chunks_append [of m p pf "[(c, a)]" cs] by simp

lemma heap_chunks_Nil: "heap_chunks m p pf [] \<longleftrightarrow> wd m p = hdr 0 True pf"
  by (simp add: heap_chunks_def)

lemma seg_extent_dvd: "seg m p pf cs \<Longrightarrow> 4 dvd extent cs"
  by (induction m p pf cs rule: seg.induct) auto

lemma seg_cong:
  assumes "seg m p pf cs" "4 dvd p" "\<And>a. p \<le> a \<Longrightarrow> a < p + extent cs \<Longrightarrow> 4 dvd a \<Longrightarrow> wd m' a = wd m a"
  shows "seg m' p pf cs"
  using assms
proof (induction m p pf cs rule: seg.induct)
  case (2 m p pf c a cs)
  then have c: "4 dvd c" "4 \<le> c" by simp_all
  have "wd m' p = wd m p" using 2(4) [of p] 2(3) c by simp
  moreover have "wd m' (p + c - 4) = wd m (p + c - 4)" using 2(3) c by (intro 2(4)) auto
  moreover have "seg m' (p + c) (\<not> a) cs"
    using 2(2,3) c by (intro 2(1)) (auto intro!: 2(4))
  ultimately show ?case using 2(2) by simp
qed simp

lemma heap_chunks_cong:
  assumes "heap_chunks m p pf cs" "4 dvd p" "\<And>a. p \<le> a \<Longrightarrow> a \<le> p + extent cs \<Longrightarrow> 4 dvd a \<Longrightarrow> wd m' a = wd m a"
  shows "heap_chunks m' p pf cs"
  using assms seg_cong [of m p pf cs m'] seg_extent_dvd [of m p pf cs] unfolding heap_chunks_def by simp

text \<open>A free chunk is written by its header and its footer.\<close>

lemma free_chunk_written:
  assumes "seg m st False xs" "\<not> last_free False xs" "q = st + extent xs" "4 dvd st" "4 dvd c" "4 \<le> c"
    "heap_chunks m (q + c) True ys" "q + c + extent ys < 4294967296"
  shows "heap_chunks (put (q + c - 4) (hdr c False False) (put q (hdr c False False) m)) st False (xs @ (c, False) # ys)"
    (is "heap_chunks ?m _ _ _")
proof -
  have q: "4 dvd q" using assms(1,3,4) seg_extent_dvd by simp
  have ok: "addr_ok q" "addr_ok (q + c - 4)" using q assms(5,6,8) by (auto simp: addr_ok_def)
  have same: "wd ?m a = wd m a" if "4 dvd a" "a < q \<or> q + c \<le> a" "a \<le> q + c + extent ys" for a
  proof -
    have "addr_ok a" using that assms(8) by (simp add: addr_ok_def)
    then show ?thesis using that(2) ok assms(6) by (auto simp: wd_put)
  qed
  have "seg ?m st False xs"
    by (rule seg_cong [OF assms(1,4) same]) (use assms(3) in auto)
  moreover have "heap_chunks ?m (q + c) True ys"
    by (rule heap_chunks_cong [OF assms(7) _ same]) (use q assms(5) in auto)
  moreover have "wd ?m q = hdr c False False" "wd ?m (q + c - 4) = hdr c False False"
    using ok by (simp_all add: wd_put)
  ultimately show ?thesis
    using assms(2,3,5,6) by (simp add: heap_chunks_append heap_chunks_Cons)
qed

section \<open>The machine in terms of the memory\<close>

definition at :: "nat \<Rightarrow> nat \<Rightarrow> nat \<Rightarrow> bool" where
  "at v n a \<longleftrightarrow> 4 dvd a \<and> 4096 * v \<le> a \<and> a < 4096 * (v + n)"

lemma heap_st_bound: "heap_st v n m s \<Longrightarrow> v + n \<le> 1023 * 1024"
  by (simp add: heap_st_def heap_pages_def)

lemma at_addr:
  assumes "heap_st v n m s" "at v n a"
  shows "in_pages v n (of_nat a)" "aligned4 (of_nat a)" "addr_ok a" "unat (of_nat a :: u32) = a"
proof -
  have "a < 4096 * (v + n)" using assms(2) by (simp only: at_def)
  also have "4096 * (v + n) \<le> 4096 * (1023 * 1024)"
    using heap_st_bound [OF assms(1)] by (rule mult_le_mono2)
  finally have lt: "a < 4294967296" by simp
  then show u: "unat (of_nat a :: u32) = a" by simp
  show "aligned4 (of_nat a)" "addr_ok a" using assms(2) lt by (simp_all add: at_def aligned4_of_nat addr_ok_def)
  have "v \<le> a div 4096" "a div 4096 < v + n"
    using assms(2) unfolding at_def by (simp_all add: less_mult_imp_div_less mult.commute less_eq_div_iff_mult_less_eq)
  then show "in_pages v n (of_nat a)" by (simp add: in_pages_def vpn_def u)
qed

lemma load_at: "heap_st v n m s \<Longrightarrow> at v n a \<Longrightarrow> vload32 s (of_nat a) = Some (wd m a)"
  unfolding wd_def by (rule heap_load32) (auto intro: at_addr)

text \<open>\<open>wr a x s\<close>: the machine after a store that is known to succeed.\<close>

definition wr :: "nat \<Rightarrow> u32 \<Rightarrow> 'a vm_scheme \<Rightarrow> 'a vm_scheme" where
  "wr a x s = (case vstore32 (of_nat a) x s of Some s' \<Rightarrow> s' | None \<Rightarrow> s)"

lemma store_at:
  assumes "heap_st v n m s" "at v n a"
  shows "vstore32 (of_nat a) x s = Some (wr a x s)" "heap_st v n (put a x m) (wr a x s)" "pagemap (wr a x s) = pagemap s"
proof -
  obtain b where "vstore32 (of_nat a) x s = Some (s\<lparr>phys := b\<rparr>)"
    "heap_st v n (store32 m (of_nat a) x) (s\<lparr>phys := b\<rparr>)" "pagemap (s\<lparr>phys := b\<rparr>) = pagemap s"
    by (rule heap_store32_pagemap [OF assms(1) at_addr(1,2) [OF assms]])
  then show "vstore32 (of_nat a) x s = Some (wr a x s)" "heap_st v n (put a x m) (wr a x s)" "pagemap (wr a x s) = pagemap s"
    by (simp_all add: wr_def put_def)
qed

section \<open>Coalescing\<close>

definition fits :: "nat \<Rightarrow> nat \<Rightarrow> nat \<Rightarrow> nat \<Rightarrow> bool" where
  "fits v n st len \<longleftrightarrow> 4 dvd st \<and> 4096 * v \<le> st \<and> st + len + 4 \<le> 4096 * (v + n)"

lemma fits_at: "fits v n st len \<Longrightarrow> st \<le> a \<Longrightarrow> a \<le> st + len \<Longrightarrow> 4 dvd a \<Longrightarrow> at v n a"
  by (simp add: fits_def at_def)

lemma fits_bound: "heap_st v n m s \<Longrightarrow> fits v n st len \<Longrightarrow> st + len + 4 \<le> 4096 * (1023 * 1024)"
  using heap_st_bound [of v n m s] mult_le_mono2 [of "v + n" "1023 * 1024" 4096] by (simp add: fits_def)

lemma sub_addr: "b \<le> a \<Longrightarrow> (of_nat a :: u32) - of_nat b = of_nat (a - b)"
  by (simp add: of_nat_diff)

lemma sub_WSIZE: "4 \<le> a \<Longrightarrow> (of_nat a :: u32) - WSIZE = of_nat (a - 4)"
  using sub_addr [of 4 a] by (simp add: WSIZE_def)

lemma FPTR_nat: "4 \<le> a + c \<Longrightarrow> FPTR (of_nat a) (of_nat c) = of_nat (a + c - 4)"
  using sub_WSIZE [of "a + c"] by (simp add: FPTR_def)

lemma PACK_nat:
  assumes "4 dvd c"
  shows "PACK (of_nat c) 0 = hdr c False False" "PACK (of_nat c) M_ALLOCATED = hdr c True False"
  using hdr_fields(4,5) [OF assms, of False] by simp_all

text \<open>What the neighbours of a chunk contribute when it is merged with the free ones.\<close>

definition prev_free :: "chunk list \<Rightarrow> nat" where
  "prev_free xs = (if last_free False xs then fst (last xs) else 0)"

definition before :: "chunk list \<Rightarrow> chunk list" where
  "before xs = (if last_free False xs then butlast xs else xs)"

definition next_free :: "chunk list \<Rightarrow> nat" where
  "next_free ys = (case ys of (d, False) # _ \<Rightarrow> d | _ \<Rightarrow> 0)"

definition after :: "chunk list \<Rightarrow> chunk list" where
  "after ys = (case ys of (d, False) # ys' \<Rightarrow> ys' | _ \<Rightarrow> ys)"

definition merged :: "chunk list \<Rightarrow> nat \<Rightarrow> chunk list \<Rightarrow> chunk list" where
  "merged xs c ys = before xs @ (prev_free xs + c + next_free ys, False) # after ys"

definition next_ok :: "mem \<Rightarrow> nat \<Rightarrow> chunk list \<Rightarrow> bool" where
  "next_ok m q ys \<longleftrightarrow> (case ys of
     (d, False) # ys' \<Rightarrow> 4 dvd d \<and> 4 \<le> d \<and> (\<exists>pf. wd m q = hdr d False pf) \<and> heap_chunks m (q + d) True ys'
   | _ \<Rightarrow> heap_chunks m q True ys)"

lemma last_free_cases:
  assumes "seg m st False xs"
  obtains (used) "\<not> last_free False xs" "prev_free xs = 0" "before xs = xs"
  | (free) xs0 d where "xs = xs0 @ [(d, False)]" "last_free False xs" "prev_free xs = d" "before xs = xs0"
      "seg m st False xs0" "\<not> last_free False xs0" "4 dvd d" "4 \<le> d"
      "wd m (st + extent xs - 4) = hdr d False False"
proof (cases "last_free False xs")
  case True
  then obtain xs0 x where xs: "xs = xs0 @ [x]" by (cases xs rule: rev_cases) auto
  obtain d a where "x = (d, a)" by fastforce
  with True xs assms show ?thesis
    using free [of xs0 d] by (simp add: prev_free_def before_def add.assoc)
next
  case False
  then show ?thesis using used by (simp add: prev_free_def before_def)
qed

lemma next_cases:
  assumes "next_ok m q ys"
  obtains (used) "next_free ys = 0" "after ys = ys" "CHUNK_A (wd m q) = 1" "heap_chunks m q True ys"
  | (free) d ys' where "ys = (d, False) # ys'" "next_free ys = d" "after ys = ys'" "4 dvd d" "4 \<le> d"
      "CHUNK_A (wd m q) = 0" "CHUNK_S (wd m q) = of_nat d" "heap_chunks m (q + d) True ys'"
proof (cases ys)
  case Nil
  then show ?thesis using assms used
    by (simp add: next_ok_def next_free_def after_def heap_chunks_Nil hdr_simps)
next
  case (Cons y ys')
  obtain d a where y: "y = (d, a)" by fastforce
  show ?thesis
  proof (cases a)
    case True
    then show ?thesis using assms used Cons y
      by (simp add: next_ok_def next_free_def after_def heap_chunks_Cons hdr_simps)
  next
    case False
    then show ?thesis using assms free [of d ys'] Cons y
      by (auto simp: next_ok_def next_free_def after_def hdr_simps)
  qed
qed

text \<open>Writing header and footer of the merged chunk, on the machine.\<close>

lemma write_free_chunk:
  assumes "heap_st v n m s" "fits v n st (extent xs + c + extent ys)" "seg m st False xs"
    "\<not> last_free False xs" "q = st + extent xs" "4 dvd c" "4 \<le> c" "heap_chunks m (q + c) True ys"
  defines "s1 \<equiv> wr q (hdr c False False) s" and "s2 \<equiv> wr (q + c - 4) (hdr c False False) (wr q (hdr c False False) s)"
  shows "vstore32 (of_nat q) (hdr c False False) s = Some s1"
    "vstore32 (of_nat (q + c - 4)) (hdr c False False) s1 = Some s2"
    "\<exists>m'. heap_st v n m' s2 \<and> heap_chunks m' st False (xs @ (c, False) # ys)
      \<and> (\<forall>b < 4294967296. b < q \<or> q + c \<le> b \<longrightarrow> m' (of_nat b) = m (of_nat b))"
    "pagemap s2 = pagemap s"
proof -
  have q: "4 dvd q" using assms(2,3,5) seg_extent_dvd by (simp add: fits_def)
  have at: "at v n q" "at v n (q + c - 4)"
    using q assms(5,6,7) by (auto intro!: fits_at [OF assms(2)])
  note st1 = store_at [OF assms(1) at(1), of "hdr c False False"]
  note st2 = store_at [OF st1(2) at(2), of "hdr c False False"]
  show "vstore32 (of_nat q) (hdr c False False) s = Some s1"
    "vstore32 (of_nat (q + c - 4)) (hdr c False False) s1 = Some s2"
    using st1(1) st2(1) by (simp_all add: s1_def s2_def)
  show "pagemap s2 = pagemap s" using st1(3) st2(3) by (simp add: s2_def)
  let ?m = "put (q + c - 4) (hdr c False False) (put q (hdr c False False) m)"
  have lim: "q + c + extent ys < 4294967296" using fits_bound [OF assms(1,2)] assms(5) by simp
  have "heap_chunks ?m st False (xs @ (c, False) # ys)"
    using assms(2) by (intro free_chunk_written assms lim) (simp add: fits_def)
  moreover have "?m (of_nat b) = m (of_nat b)" if "b < 4294967296" "b < q \<or> q + c \<le> b" for b
    using that at_addr(3) [OF assms(1) at(1)] at_addr(3) [OF assms(1) at(2)] assms(7)
    by (subst put_byte; (subst put_byte)?; auto)
  ultimately show "\<exists>m'. heap_st v n m' s2 \<and> heap_chunks m' st False (xs @ (c, False) # ys)
      \<and> (\<forall>b < 4294967296. b < q \<or> q + c \<le> b \<longrightarrow> m' (of_nat b) = m (of_nat b))"
    using st2(2) s2_def by blast
qed

text \<open>The place of the merged chunk: it begins where the free predecessor does and ends with the free successor.\<close>

lemma merged_area:
  assumes "fits v n st (extent xs + c + extent ys)" "seg m st False xs" "p = st + extent xs" "4 dvd c" "4 \<le> c" "next_ok m (p + c) ys"
  defines "q \<equiv> p - prev_free xs" and "z \<equiv> prev_free xs + c + next_free ys"
  shows "fits v n st (extent (before xs) + z + extent (after ys))" "seg m st False (before xs)" "\<not> last_free False (before xs)"
    "q = st + extent (before xs)" "p = q + prev_free xs" "4 dvd z" "4 \<le> z" "heap_chunks m (q + z) True (after ys)"
proof -
  have n: "extent ys = next_free ys + extent (after ys)" "4 dvd next_free ys" "heap_chunks m (p + c + next_free ys) True (after ys)"
    by (cases rule: next_cases [OF assms(6)]; simp)+
  have x: "extent xs = extent (before xs) + prev_free xs" "4 dvd prev_free xs" "seg m st False (before xs)" "\<not> last_free False (before xs)"
    by (cases rule: last_free_cases [OF assms(2)]; simp add: assms(2))+
  show q: "q = st + extent (before xs)" "p = q + prev_free xs" using assms(3) x(1) by (simp_all add: q_def)
  show "fits v n st (extent (before xs) + z + extent (after ys))" using assms(1) x(1) n(1) by (simp add: z_def fits_def)
  show "4 dvd z" "4 \<le> z" using assms(4,5) x(2) n(2) by (simp_all add: z_def)
  have "q + z = p + c + next_free ys" using q(2) by (simp add: z_def)
  then show "heap_chunks m (q + z) True (after ys)" using n(3) by simp
qed (cases rule: last_free_cases [OF assms(2)]; simp add: assms(2))+

text \<open>In its four cases \<^verbatim>\<open>coalesce\<close> does the same: it writes the header and the footer of the merged chunk, or
  nothing when there is nothing to merge.\<close>

lemma coalesce_run:
  assumes st: "heap_st v n m s" and fits: "fits v n st (extent xs + c + extent ys)"
    and seg: "seg m st False xs" and p: "p = st + extent xs" and c: "4 dvd c" "4 \<le> c"
    and hd: "wd m p = hdr c False (last_free False xs)" and nxt: "next_ok m (p + c) ys"
  defines "q \<equiv> p - prev_free xs" and "z \<equiv> prev_free xs + c + next_free ys"
  shows "coalesce (of_nat p) s = (if z = c then Some (of_nat p, s) else do {
      s \<leftarrow> vstore32 (of_nat q) (hdr z False False) s;
      s \<leftarrow> vstore32 (of_nat (q + z - 4)) (hdr z False False) s;
      Some (of_nat q, s) })"
proof -
  note A = merged_area [OF fits seg p c nxt, folded q_def z_def]
  have p4: "4 dvd p" using fits seg p seg_extent_dvd by (simp add: fits_def)
  have at: "at v n p" "at v n (p + c)" using p4 p c by (auto intro!: fits_at [OF fits])
  have sum: "(of_nat p :: u32) + of_nat c = of_nat (p + c)" by simp
  note run = coalesce_def Let_def load_at [OF st at(1)] load_at [OF st at(2)] hd hdr_simps(1-3) [OF c(1)] sum
  have h: "PACK (of_nat (next_free ys) + of_nat (prev_free xs) + of_nat c) 0 = hdr z False False"
    using PACK_nat(1) [OF A(6)] by (simp add: z_def ac_simps)
  have fp: "FPTR (of_nat p) (of_nat c + of_nat (next_free ys)) = of_nat (q + z - 4)"
    using FPTR_nat [of p "c + next_free ys"] c A(5) by (simp add: z_def ac_simps)
  show ?thesis
  proof (cases rule: last_free_cases [OF seg, case_names used free])
    case used
    have [simp]: "q = p" using used by (simp add: q_def)
    show ?thesis
      by (cases rule: next_cases [OF nxt]) (use used h fp in \<open>simp_all add: run z_def del: of_nat_add\<close>)
  next
    case (free xs0 d)
    have pd: "4 \<le> p" "d \<le> p" using p free(1,8) by simp_all
    have "at v n (p - 4)" using p p4 free(1,8) by (intro fits_at [OF fits]) auto
    from load_at [OF st this] have ftr: "vload32 s (of_nat p - WSIZE) = Some (hdr d False False)"
      using free(9) p sub_WSIZE [OF pd(1)] by simp
    have sub: "(of_nat p :: u32) - of_nat d = of_nat q" using sub_addr [OF pd(2)] free(3) by (simp add: q_def)
    note tail = ftr hdr_simps(1-3) [OF free(7)] sub
    show ?thesis
      by (cases rule: next_cases [OF nxt]) (use free(2,3,8) h fp in \<open>simp_all add: run tail z_def del: of_nat_add\<close>)
  qed
qed

lemma coalesce_spec:
  assumes st: "heap_st v n m s" and fits: "fits v n st (extent xs + c + extent ys)"
    and seg: "seg m st False xs" and p: "p = st + extent xs" and c: "4 dvd c" "4 \<le> c"
    and hd: "wd m p = hdr c False (last_free False xs)" and nxt: "next_ok m (p + c) ys"
    and ft: "\<not> last_free False xs \<longrightarrow> next_free ys = 0 \<longrightarrow> wd m (p + c - 4) = hdr c False False"
  shows "\<exists>s' m'. coalesce (of_nat p) s = Some (of_nat (p - prev_free xs), s') \<and> heap_st v n m' s'
    \<and> heap_chunks m' st False (merged xs c ys)
    \<and> (\<forall>b < 4294967296. b < p - prev_free xs \<or> p + c + next_free ys \<le> b \<longrightarrow> m' (of_nat b) = m (of_nat b))
    \<and> pagemap s' = pagemap s"
proof -
  let ?q = "p - prev_free xs" and ?z = "prev_free xs + c + next_free ys"
  note A = merged_area [OF fits seg p c nxt] and run = coalesce_run [OF st fits seg p c hd nxt]
  show ?thesis
  proof (cases "?z = c")
    case True
    then have "\<not> last_free False xs" by (cases rule: last_free_cases [OF seg]) auto
    moreover have "heap_chunks m st False (xs @ (c, False) # ys)"
      by (cases rule: next_cases [OF nxt])
        (use True seg ft c p hd \<open>\<not> last_free False xs\<close> in \<open>simp_all add: heap_chunks_append heap_chunks_Cons\<close>)
    moreover have "merged xs c ys = xs @ (c, False) # ys"
      by (cases rule: next_cases [OF nxt]; cases rule: last_free_cases [OF seg]) (use True in \<open>auto simp: merged_def\<close>)
    ultimately show ?thesis using st run True by auto
  next
    case False
    note w = write_free_chunk [OF st A(1-4,6-8)]
    have e: "?q + ?z = p + c + next_free ys" using A(5) by simp
    have "coalesce (of_nat p) s = Some (of_nat ?q, wr (?q + ?z - 4) (hdr ?z False False) (wr ?q (hdr ?z False False) s))"
      using run w(1,2) False by simp
    then show ?thesis using w(3,4) unfolding merged_def e by blast
  qed
qed

section \<open>Blocks\<close>

text \<open>The allocated blocks of a chunk list: payload address and payload size. Their contents are
  what the operations must not touch.\<close>

fun blocks :: "nat \<Rightarrow> chunk list \<Rightarrow> (nat \<times> nat) set" where
  "blocks p [] = {}"
| "blocks p ((c, a) # cs) = (if a then {(p + 4, c - 4)} else {}) \<union> blocks (p + c) cs"

definition same_blocks :: "(nat \<times> nat) set \<Rightarrow> mem \<Rightarrow> mem \<Rightarrow> bool" where
  "same_blocks B m m' \<longleftrightarrow> (\<forall>(a, k) \<in> B. \<forall>b \<in> {a ..< a + k}. m' (of_nat b) = m (of_nat b))"

lemma same_blocks_refl [simp]: "same_blocks B m m"
  by (simp add: same_blocks_def)

lemma same_blocks_trans: "same_blocks B m m' \<Longrightarrow> same_blocks B m' m'' \<Longrightarrow> same_blocks B m m''"
  unfolding same_blocks_def by fastforce

lemma same_blocks_mono: "A \<subseteq> B \<Longrightarrow> same_blocks B m m' \<Longrightarrow> same_blocks A m m'"
  unfolding same_blocks_def by blast

lemma blocks_append: "blocks p (xs @ ys) = blocks p xs \<union> blocks (p + extent xs) ys"
  by (induction p xs rule: blocks.induct) (auto simp: add.assoc)

lemma blocks_range:
  "seg m p pf cs \<Longrightarrow> (a, k) \<in> blocks p cs \<Longrightarrow> p + 4 \<le> a \<and> a + k \<le> p + extent cs"
proof (induction m p pf cs rule: seg.induct)
  case (2 m p pf c al cs)
  then show ?case by (fastforce split: if_splits)
qed simp

lemma blocks_disjoint:
  "seg m p pf cs \<Longrightarrow> (a, k) \<in> blocks p cs \<Longrightarrow> (b, l) \<in> blocks p cs \<Longrightarrow>
    (a, k) = (b, l) \<or> a + k \<le> b \<or> b + l \<le> a"
proof (induction m p pf cs rule: seg.induct)
  case (2 m p pf c al cs)
  have "p + c + 4 \<le> x" if "(x, y) \<in> blocks (p + c) cs" for x y
    using blocks_range [of m "p + c" "\<not> al" cs] 2(2) that by auto
  with 2 show ?case by (fastforce split: if_splits)
qed simp

text \<open>Stores outside the blocks: anywhere in a region that starts at a chunk boundary and ends
  before the payload of the next chunk.\<close>

lemma same_blocks_outside:
  assumes "\<And>a k. (a, k) \<in> B \<Longrightarrow> a + k \<le> lo \<or> hi \<le> a" "\<And>a k. (a, k) \<in> B \<Longrightarrow> a + k \<le> 4294967296"
    "\<And>b. b < 4294967296 \<Longrightarrow> b < lo \<or> hi \<le> b \<Longrightarrow> m' (of_nat b) = m (of_nat b)"
  shows "same_blocks B m m'"
  unfolding same_blocks_def
proof (clarify)
  fix a k b
  assume ak: "(a, k) \<in> B" and b: "b \<in> {a ..< a + k}"
  from assms(1,2) [OF ak] b have "b < 4294967296" "b < lo \<or> hi \<le> b" by auto
  then show "m' (of_nat b) = m (of_nat b)" by (rule assms(3))
qed

lemma blocks_around:
  assumes "heap_chunks m st False (xs @ (c, al) # ys)" "st + extent (xs @ (c, al) # ys) < 4294967296"
    "(a, k) \<in> blocks st xs \<or> (a, k) \<in> blocks (st + extent xs + c) ys"
  shows "a + k \<le> st + extent xs \<or> st + extent xs + c + 4 \<le> a" "a + k \<le> 4294967296"
proof -
  have seg: "seg m st False xs" "seg m (st + extent xs + c) (\<not> al) ys"
    using assms(1) by (simp_all add: heap_chunks_def)
  from assms(3) blocks_range [OF seg(1)] blocks_range [OF seg(2)]
  have *: "st + 4 \<le> a \<and> a + k \<le> st + extent xs
      \<or> st + extent xs + c + 4 \<le> a \<and> a + k \<le> st + extent xs + c + extent ys" by blast
  then show "a + k \<le> st + extent xs \<or> st + extent xs + c + 4 \<le> a" by auto
  show "a + k \<le> 4294967296" using * assms(2) by auto
qed

section \<open>Placing a block in a free chunk\<close>

lemma next_ok_used:
  assumes "heap_chunks m q True ys"
  shows "next_ok m q ys" "next_free ys = 0" "after ys = ys"
proof -
  have "next_ok m q ys \<and> next_free ys = 0 \<and> after ys = ys"
  proof (cases ys)
    case (Cons y ys')
    then show ?thesis using assms
      by (cases y) (auto simp: next_ok_def next_free_def after_def heap_chunks_Cons)
  qed (use assms in \<open>simp add: next_ok_def next_free_def after_def\<close>)
  then show "next_ok m q ys" "next_free ys = 0" "after ys = ys" by blast+
qed

text \<open>The header after a chunk, when the chunk becomes allocated.\<close>

lemma next_prev_used:
  assumes "heap_chunks m q True ys" "4 dvd q" "q + extent ys < 4294967296"
  shows "heap_chunks (put q (wd m q AND NOT 0x2) m) q False ys"
proof -
  let ?m = "put q (wd m q AND NOT 0x2) m"
  have ok: "addr_ok q" using assms(2,3) by (simp add: addr_ok_def)
  show ?thesis
  proof (cases ys)
    case Nil
    then show ?thesis using assms(1) ok by (simp add: heap_chunks_Nil wd_put hdr_simps)
  next
    case (Cons y ys')
    obtain d a where y: "y = (d, a)" by fastforce
    with Cons assms(1) have d: "a" "4 dvd d" "4 \<le> d" "wd m q = hdr d True True"
      "heap_chunks m (q + d) False ys'" by (auto simp: heap_chunks_Cons)
    have "heap_chunks ?m (q + d) False ys'"
    proof (rule heap_chunks_cong [OF d(5)])
      fix b
      assume "q + d \<le> b" "b \<le> q + d + extent ys'" "4 dvd b"
      then show "wd ?m b = wd m b"
        using ok d(3) assms(3) Cons y by (subst wd_put) (auto simp: addr_ok_def)
    qed (use assms(2) d in simp)
    then show ?thesis using Cons y d ok by (simp add: heap_chunks_Cons wd_put hdr_simps)
  qed
qed

definition placed :: "nat \<Rightarrow> nat \<Rightarrow> chunk list" where
  "placed z c = (if c = z then [(c, True)] else [(z, True), (c - z, False)])"

lemma place_chunk_spec:
  assumes st: "heap_st v n m s" and fits: "fits v n st (extent (xs @ (c, False) # ys))"
    and h: "heap_chunks m st False (xs @ (c, False) # ys)" and p: "p = st + extent xs"
    and z: "4 dvd z" "4 \<le> z" "z \<le> c"
  shows "\<exists>s' m'. place_chunk (of_nat p) (of_nat z) s = Some s' \<and> heap_st v n m' s'
    \<and> heap_chunks m' st False (xs @ placed z c @ ys)
    \<and> (\<forall>b < 4294967296. b < p \<or> p + c + 4 \<le> b \<longrightarrow> m' (of_nat b) = m (of_nat b))"
proof -
  have c: "4 dvd c" "4 \<le> c" "wd m p = hdr c False False" "\<not> last_free False xs"
    and seg: "seg m st False xs" and rest: "heap_chunks m (p + c) True ys"
    using h p by (auto simp: heap_chunks_append heap_chunks_Cons)
  have p4: "4 dvd p" "4 dvd st" using fits p seg_extent_dvd [OF seg] by (simp_all add: fits_def)
  have lim: "p + c + extent ys + 4 \<le> 4096 * (1023 * 1024)" using fits_bound [OF st fits] p by simp
  have at: "at v n p" "at v n (p + c)"
    using p4 p c by (auto intro!: fits_at [OF fits])
  have ok: "addr_ok p" "addr_ok (p + c)" by (rule at_addr(3) [OF st]; fact at)+
  have hd: "vload32 s (of_nat p) = Some (hdr c False False)" using load_at [OF st at(1)] c(3) by simp
  have new: "PACK (of_nat z) (CHUNK_PF (hdr c False False) OR M_ALLOCATED) = hdr z True False"
    using hdr_fields(3) [OF c(1), of False False] hdr_fields(4) [OF z(1), of False] by simp
  let ?m1 = "put p (hdr z True False) m" and ?s1 = "wr p (hdr z True False) s"
  note st1 = store_at [OF st at(1), of "hdr z True False"]
  have same1: "wd ?m1 b = wd m b" if "b \<noteq> p" "addr_ok b" for b using that ok by (simp add: wd_put)
  have seg1: "seg ?m1 st False xs"
    by (rule seg_cong [OF seg p4(2) same1]) (use p lim in \<open>auto simp: addr_ok_def\<close>)
  have rest1: "heap_chunks ?m1 (p + c) True ys"
    by (rule heap_chunks_cong [OF rest _ same1]) (use p4 c lim in \<open>auto simp: addr_ok_def\<close>)
  have byte1: "?m1 (of_nat b) = m (of_nat b)" if "b < 4294967296" "b < p \<or> p + 4 \<le> b" for b
    by (rule put_byte) (use ok that in auto)
  have hp: "wd ?m1 p = hdr z True False" using ok by (simp add: wd_put)
  have sum: "(of_nat p :: u32) + of_nat z = of_nat (p + z)" by simp
  have diff: "(of_nat c :: u32) - of_nat z = of_nat (c - z)" using z(3) by (rule sub_addr)
  have diff0: "(of_nat c :: u32) = of_nat z \<longleftrightarrow> c = z"
    using of_nat_inject_u32 [of c z] lim z(3) by simp
  note run = place_chunk_def hd hdr_simps(1) [OF c(1)] new st1(1) sum diff Let_def diff0
  show ?thesis
  proof (cases "c = z")
    case True
    let ?m2 = "put (p + c) (wd ?m1 (p + c) AND NOT 0x2) ?m1"
    note st2 = store_at [OF st1(2) at(2), of "wd ?m1 (p + c) AND NOT 0x2"]
    have run: "place_chunk (of_nat p) (of_nat z) s = Some (wr (p + c) (wd ?m1 (p + c) AND NOT 0x2) ?s1)"
      using load_at [OF st1(2) at(2)] st2(1) unfolding True by (simp add: run [unfolded True] del: of_nat_add)
    have "heap_chunks ?m2 (p + c) False ys"
      by (rule next_prev_used [OF rest1]) (use p4 c lim in auto)
    moreover have same2: "wd ?m2 b = wd ?m1 b" if "b < p + c" "addr_ok b" for b
      using that ok by (simp add: wd_put)
    have "seg ?m2 st False xs"
      by (rule seg_cong [OF seg1 p4(2) same2]) (use p lim in \<open>auto simp: addr_ok_def\<close>)
    moreover have "wd ?m2 p = hdr c True False" using same2 [of p] ok c hp True by simp
    ultimately have "heap_chunks ?m2 st False (xs @ placed z c @ ys)"
      using p c True by (simp add: placed_def heap_chunks_append heap_chunks_Cons)
    moreover have "?m2 (of_nat b) = m (of_nat b)" if "b < 4294967296" "b < p \<or> p + c + 4 \<le> b" for b
      using that byte1 [of b] c(2) by (subst put_byte [OF ok(2)]) auto
    ultimately show ?thesis using st2(2) run by blast
  next
    case False
    have d: "4 dvd c - z" "4 \<le> c - z" using z c False by (auto elim!: dvdE simp: diff_mult_distrib2 [symmetric])
    let ?xs = "xs @ [(z, True)]"
    have seg1': "seg ?m1 st False ?xs" using seg1 hp z p c(4) by simp
    have q: "p + z = st + extent ?xs" "p + z + (c - z) = p + c" using p z(3) by simp_all
    have f: "fits v n st (extent ?xs + (c - z) + extent ys)" using fits z(3) by (simp add: ac_simps)
    have rest1': "heap_chunks ?m1 (p + z + (c - z)) True ys" using rest1 by (simp only: q(2))
    note w = write_free_chunk [OF st1(2) f seg1' _ q(1) d rest1', simplified]
    from w(3) obtain m3 where m3:
      "heap_st v n m3 (wr (p + z + (c - z) - 4) (hdr (c - z) False False) (wr (p + z) (hdr (c - z) False False) ?s1))"
      "heap_chunks m3 st False (?xs @ (c - z, False) # ys)"
      "\<forall>b < 4294967296. b < p + z \<or> p + z + (c - z) \<le> b \<longrightarrow> m3 (of_nat b) = ?m1 (of_nat b)" by auto
    have rem: "PACK (of_nat (c - z)) (M_NOT_ALLOCATED OR M_PREV_ALLOCATED) = hdr (c - z) False False"
      using PACK_nat(1) [OF d(1)] by (simp add: M_NOT_ALLOCATED_def M_PREV_ALLOCATED_def)
    have fp: "FPTR (of_nat (p + z)) (of_nat (c - z)) = of_nat (p + z + (c - z) - 4)"
      using z by (intro FPTR_nat) simp
    have m3': "seg m3 st False ?xs" "wd m3 (p + z) = hdr (c - z) False False" "heap_chunks m3 (p + z + (c - z)) True ys"
      "wd m3 (p + z + (c - z) - 4) = hdr (c - z) False False"
      using m3(2) unfolding heap_chunks_append [of m3 st False ?xs] heap_chunks_Cons q(1) [symmetric] by auto
    have "\<exists>s' m'. coalesce (of_nat (p + z)) (wr (p + z + (c - z) - 4) (hdr (c - z) False False)
            (wr (p + z) (hdr (c - z) False False) ?s1)) = Some (of_nat (p + z - prev_free ?xs), s')
        \<and> heap_st v n m' s' \<and> heap_chunks m' st False (merged ?xs (c - z) ys)
        \<and> (\<forall>b < 4294967296. b < p + z - prev_free ?xs \<or> p + z + (c - z) + next_free ys \<le> b
             \<longrightarrow> m' (of_nat b) = m3 (of_nat b)) \<and> pagemap s' = pagemap (wr (p + z + (c - z) - 4) (hdr (c - z) False False)
            (wr (p + z) (hdr (c - z) False False) ?s1))"
      by (rule coalesce_spec [OF m3(1) f m3'(1) q(1) d _ next_ok_used(1) [OF m3'(3)]])
        (use m3'(2,4) in simp_all)
    then obtain s' r m' where co: "coalesce (of_nat (p + z)) (wr (p + z + (c - z) - 4) (hdr (c - z) False False)
            (wr (p + z) (hdr (c - z) False False) ?s1)) = Some (r, s')"
        "heap_st v n m' s'" "heap_chunks m' st False (merged ?xs (c - z) ys)"
        "\<forall>b < 4294967296. b < p + z \<or> p + z + (c - z) \<le> b \<longrightarrow> m' (of_nat b) = m3 (of_nat b)"
      using next_ok_used(2) [OF m3'(3)] by (auto simp: prev_free_def)
    have "merged ?xs (c - z) ys = xs @ placed z c @ ys"
      using False next_ok_used(2,3) [OF m3'(3)] by (simp add: merged_def prev_free_def before_def placed_def)
    moreover have "place_chunk (of_nat p) (of_nat z) s = Some s'"
      using w(1,2) co(1) False by (simp add: run rem fp del: of_nat_add of_nat_diff)
    moreover have "m' (of_nat b) = m (of_nat b)" if "b < 4294967296" "b < p \<or> p + c + 4 \<le> b" for b
      using co(4) m3(3) byte1 [of b] that z(2,3) by auto
    ultimately show ?thesis using co(2,3) by auto
  qed
qed

lemma blocks_placed:
  assumes "z \<le> c"
  shows "blocks st (xs @ placed z c @ ys)
    = insert (st + extent xs + 4, z - 4) (blocks st (xs @ (c, False) # ys))"
  using assms by (auto simp: placed_def blocks_append add.assoc)

lemma extent_placed: "z \<le> c \<Longrightarrow> extent (placed z c) = c"
  by (simp add: placed_def)

section \<open>Merging in the chunk list\<close>

lemma merged_list:
  assumes "seg m st False xs"
  shows "extent (merged xs c ys) = extent xs + c + extent ys"
    and "blocks st (merged xs c ys) = blocks st xs \<union> blocks (st + extent xs + c) ys"
    and "prev_free xs \<le> extent xs" "blocks st xs = blocks st (before xs)"
proof -
  have y: "next_free ys + extent (after ys) = extent ys"
    "blocks (q + next_free ys) (after ys) = blocks q ys" for q
    by (auto simp: next_free_def after_def split: list.splits prod.splits bool.splits)
  have "prev_free xs + extent (before xs) = extent xs" "blocks st xs = blocks st (before xs)"
    by (cases rule: last_free_cases [OF assms]; simp add: blocks_append)+
  then show "extent (merged xs c ys) = extent xs + c + extent ys"
    and "blocks st (merged xs c ys) = blocks st xs \<union> blocks (st + extent xs + c) ys"
    and "prev_free xs \<le> extent xs" "blocks st xs = blocks st (before xs)"
    using y(1) y(2) [of "st + extent xs + c"] by (auto simp: merged_def blocks_append ac_simps)
qed

section \<open>The heap invariant\<close>

definition heap_inv :: "heap_context \<Rightarrow> nat \<Rightarrow> nat \<Rightarrow> mem \<Rightarrow> chunk list \<Rightarrow> 'a vm_scheme \<Rightarrow> bool" where
  "heap_inv heap v n m cs s \<longleftrightarrow> heap_st v n m s \<and> 0 < unat (hp_start heap)
     \<and> fits v n (unat (hp_start heap)) (extent cs)
     \<and> hp_brk heap = of_nat (unat (hp_start heap) + extent cs)
     \<and> heap_chunks m (unat (hp_start heap)) False cs
     \<and> unat (hp_max_addr heap) \<le> 1023 * 4194304"

abbreviation heap_blocks :: "heap_context \<Rightarrow> chunk list \<Rightarrow> (nat \<times> nat) set" where
  "heap_blocks heap cs \<equiv> blocks (unat (hp_start heap)) cs"

lemma heap_invD:
  assumes "heap_inv heap v n m cs s"
  shows "heap_st v n m s" "0 < unat (hp_start heap)" "fits v n (unat (hp_start heap)) (extent cs)"
    "hp_brk heap = of_nat (unat (hp_start heap) + extent cs)"
    "heap_chunks m (unat (hp_start heap)) False cs" "unat (hp_max_addr heap) \<le> 1023 * 4194304"
    "seg m (unat (hp_start heap)) False cs" "unat (hp_brk heap) = unat (hp_start heap) + extent cs"
    "unat (hp_start heap) + extent cs + 4 \<le> 4096 * (1023 * 1024)" "4 dvd extent cs"
proof -
  show *: "heap_st v n m s" "0 < unat (hp_start heap)" "fits v n (unat (hp_start heap)) (extent cs)"
    "hp_brk heap = of_nat (unat (hp_start heap) + extent cs)"
    "heap_chunks m (unat (hp_start heap)) False cs" "unat (hp_max_addr heap) \<le> 1023 * 4194304"
    using assms unfolding heap_inv_def by blast+
  show "seg m (unat (hp_start heap)) False cs" using *(5) by (simp add: heap_chunks_def)
  then show "4 dvd extent cs" by (rule seg_extent_dvd)
  show "unat (hp_start heap) + extent cs + 4 \<le> 4096 * (1023 * 1024)" by (rule fits_bound [OF *(1,3)])
  then show "unat (hp_brk heap) = unat (hp_start heap) + extent cs"
    unfolding *(4) by (intro unat_of_nat_u32) simp
qed

section \<open>First fit\<close>

fun first_fit :: "nat \<Rightarrow> chunk list \<Rightarrow> (chunk list \<times> nat \<times> chunk list) option" where
  "first_fit z [] = None"
| "first_fit z ((c, a) # cs) = (if \<not> a \<and> z \<le> c then Some ([], c, cs)
     else map_option (\<lambda>(xs, c', ys). ((c, a) # xs, c', ys)) (first_fit z cs))"

lemma first_fit_Some:
  "first_fit z cs = Some (xs, c, ys) \<Longrightarrow> cs = xs @ (c, False) # ys \<and> z \<le> c"
  by (induction z cs arbitrary: xs rule: first_fit.induct) (auto split: if_splits)

lemma search_spec:
  assumes "heap_st v n m s" "fits v n st (extent xs + extent ys)" "p = st + extent xs" "4 dvd p"
    "heap_chunks m p pf ys" "brk = of_nat (p + extent ys)" "z < 4294967296"
  shows "lx_search brk (of_nat z) (of_nat p) s
    = Some (map_option (\<lambda>r. of_nat (p + extent (fst r))) (first_fit z ys))"
  using assms
proof (induction z ys arbitrary: p pf xs rule: first_fit.induct)
  case (1 z)
  then show ?case by (subst lx_search.simps) simp
next
  case (2 z c a cs)
  have lim: "p + c + extent cs + 4 \<le> 4096 * (1023 * 1024)"
    using fits_bound [OF 2(2,3)] 2(4) by simp
  have c: "4 dvd c" "4 \<le> c" "wd m p = hdr c a pf" "heap_chunks m (p + c) (\<not> a) cs"
    using 2(6) by (auto simp: heap_chunks_Cons)
  have "at v n p" by (rule fits_at [OF 2(3)]) (use 2(4,5) in simp_all)
  then have ld: "vload32 s (of_nat p) = Some (hdr c a pf)" using load_at [OF 2(2)] c(3) by simp
  have lt: "(of_nat p :: u32) < brk"
    unfolding 2(7) using lim c(2) by (subst of_nat_less_u32) simp_all
  have cmp: "(of_nat z :: u32) \<le> of_nat c \<longleftrightarrow> z \<le> c" "(of_nat c :: u32) \<noteq> 0"
    using lim 2(8) c(2) of_nat_inject_u32 [of c 0] by (simp_all add: word_le_nat_alt)
  have sum: "(of_nat p :: u32) + of_nat c = of_nat (p + c)" by simp
  have IH: "lx_search brk (of_nat z) (of_nat (p + c)) s
      = Some (map_option (\<lambda>r. of_nat (p + c + extent (fst r))) (first_fit z cs))"
    if "\<not> (\<not> a \<and> z \<le> c)"
  proof (rule 2(1) [where xs = "xs @ [(c, a)]" and pf = "\<not> a"])
    show "fits v n st (extent (xs @ [(c, a)]) + extent cs)" using 2(3) by (simp add: add.assoc)
    show "brk = of_nat (p + c + extent cs)" using 2(7) by (simp add: add.assoc)
  qed (use that 2(2,4,5,8) c in simp_all)
  show ?case
    using lt cmp ld IH
    by (subst lx_search.simps) (auto simp: hdr_simps(1,2) [OF c(1)] sum option.map_comp comp_def
        split_beta add.assoc simp del: of_nat_add)
qed

section \<open>Growing the heap\<close>

lemma in_pages_nat: "4096 * v \<le> b \<Longrightarrow> b < 4096 * (v + n) \<Longrightarrow> b < 4294967296 \<Longrightarrow> in_pages v n (of_nat b)"
  by (simp add: in_pages_def vpn_def less_mult_imp_div_less mult.commute less_eq_div_iff_mult_less_eq)

lemma grow_heap_spec:
  assumes inv: "heap_inv heap v n m cs s" and z: "4 dvd z" "4 \<le> z" "z + 4 < 4294967296"
  obtains (fail) s' where "lx_grow_heap heap (of_nat z) s = Some (0, heap, s')" "heap_inv heap v n m cs s'"
  | (ok) s' n' m' q where "lx_grow_heap heap (of_nat z) s
        = Some (of_nat q, heap\<lparr>hp_brk := hp_brk heap + of_nat z\<rparr>, s')"
      "heap_inv (heap\<lparr>hp_brk := hp_brk heap + of_nat z\<rparr>) v n' m' (merged cs z []) s'"
      "same_blocks (heap_blocks heap cs) m m'" "q = unat (hp_start heap) + extent (before cs)"
      "vpn (hp_brk heap + of_nat (z + 4)) < v + n'"
      "\<exists>h s1. lxbrk heap (of_nat (z + 4)) s = Some (hp_brk heap, h, s1) \<and> pagemap s' = pagemap s1"
proof -
  note I = heap_invD [OF inv]
  let ?st = "unat (hp_start heap)" and ?b = "unat (hp_start heap) + extent cs"
  have st4: "4 dvd ?st" using I(3) by (simp add: fits_def)
  have b4: "4 dvd ?b" using st4 I(10) by simp
  have sz: "(of_nat (z + 4) :: u32) \<noteq> 0" "aligned4 (of_nat (z + 4))"
    using z of_nat_inject_u32 [of "z + 4" 0] by (simp_all add: aligned4_of_nat del: of_nat_add)
  have at_b: "at v n ?b" by (rule fits_at [OF I(3)]) (use b4 in simp_all)
  have brk: "in_pages v n (hp_brk heap)" using at_addr(1) [OF I(1) at_b] I(4) by simp
  have add4: "(of_nat z :: u32) + WSIZE = of_nat (z + 4)" by (simp add: WSIZE_def)
  have b0: "hp_brk heap \<noteq> 0" using I(2,8) by (auto simp: unat_eq_zero [symmetric])
  show ?thesis
  proof (cases rule: lxbrk_spec [OF I(1) sz brk I(6), case_names fail ok])
    case (fail s')
    then have "lx_grow_heap heap (of_nat z) s = Some (0, heap, s')"
      by (simp add: lx_grow_heap_def add4 del: of_nat_add)
    moreover have "heap_inv heap v n m cs s'" using inv fail(2) by (simp add: heap_inv_def)
    ultimately show ?thesis by (rule that(1))
  next
    case (ok s1 n' m1)
    let ?heap = "heap\<lparr>hp_brk := hp_brk heap + of_nat z\<rparr>"
    have us: "unat (of_nat (z + 4) :: u32) = z + 4" using z(3) by (intro unat_of_nat_u32)
    have lim: "?b + z + 4 < 4096 * (v + n')" using ok(6) unfolding us I(8) by simp
    have fits': "fits v n' ?st (extent cs + z)" using I(3) lim by (simp add: fits_def)
    have old: "m1 (of_nat b) = m (of_nat b)" if "?st \<le> b" "b < ?b + 4" for b
      using that I(3,9) by (intro ok(4) in_pages_nat) (auto simp: fits_def)
    have wd_old: "wd m1 a = wd m a" if "?st \<le> a" "a \<le> ?b" for a
    proof -
      have "m1 (of_nat a + of_nat j) = m (of_nat a + of_nat j)" if "j < 4" for j
        using old [of "a + j"] that \<open>?st \<le> a\<close> \<open>a \<le> ?b\<close> by simp
      from this [of 0] this [of 1] this [of 2] this [of 3] show ?thesis by (simp add: wd_def load32_def)
    qed
    have at: "at v n' ?b" "at v n' (?b + z - 4)" "at v n' (?b + z)"
      using b4 z by (auto intro!: fits_at [OF fits'])
    have h1: "heap_chunks m1 ?st False cs" by (rule heap_chunks_cong [OF I(5) st4 wd_old])
    let ?pf = "last_free False cs"
    have mark: "vload32 s1 (hp_brk heap) = Some (hdr 0 True ?pf)"
      using load_at [OF ok(2) at(1)] h1 I(4) by (simp add: heap_chunks_def)
    have ru: "ROUNDUP (of_nat z) BOUNDARY = (of_nat z :: u32)"
      using z by (intro aligned4_ROUNDUP) (simp add: aligned4_of_nat)
    have fh: "PACK (of_nat z) (CHUNK_PF (hdr 0 True ?pf)) = hdr z False ?pf"
      using hdr_fields(5) [OF z(1)] hdr_fields(3) [of 0] by simp
    let ?h = "hdr z False ?pf"
    note s2 = store_at [OF ok(2) at(1), of ?h]
    note s3 = store_at [OF s2(2) at(2), of ?h]
    let ?m3 = "put (?b + z - 4) ?h (put ?b ?h m1)"
    have okb: "addr_ok ?b" "addr_ok (?b + z - 4)" "addr_ok (?b + z)"
      by (rule at_addr(3) [OF ok(2)]; fact at)+
    have first: "wd ?m3 ?b = ?h" using okb by (simp add: wd_put)
    let ?e = "hdr 0 True True"
    note s4 = store_at [OF s3(2) at(3), of ?e]
    let ?m4 = "put (?b + z) ?e ?m3"
    let ?s4 = "wr (?b + z) ?e (wr (?b + z - 4) ?h (wr ?b ?h s1))"
    have fp: "FPTR (hp_brk heap) (of_nat z) = of_nat (?b + z - 4)"
      using FPTR_nat [of ?b z] z(2) by (simp add: I(4))
    have nx: "hp_brk heap + of_nat z = of_nat (?b + z)" by (simp add: I(4))
    have ep: "PACK 0 (M_ALLOCATED OR M_PREV_FREE) = ?e"
      by (simp add: PACK_def hdr_def M_ALLOCATED_def M_PREV_FREE_def)
    have brk_back: "heap\<lparr>hp_brk := hp_brk heap + of_nat (z + 4) - WSIZE\<rparr> = ?heap"
      by (simp add: WSIZE_def)
    have same4: "wd ?m4 a = wd m1 a" if "a < ?b" "addr_ok a" for a using that okb z(2) by (auto simp: wd_put)
    have seg4: "seg ?m4 ?st False cs"
    proof (rule seg_cong [OF _ st4 same4])
      show "seg m1 ?st False cs" using h1 by (simp add: heap_chunks_def)
    qed (use I(9) in \<open>auto simp: addr_ok_def\<close>)
    have w4: "wd ?m4 ?b = ?h" "wd ?m4 (?b + z) = ?e" "wd ?m4 (?b + z - 4) = ?h"
      using okb z(2) by (auto simp: wd_put)
    have f4: "fits v n' ?st (extent cs + z + extent [])" using fits' by simp
    have n4: "next_ok ?m4 (?b + z) []" using w4(2) by (simp add: next_ok_def heap_chunks_Nil)
    have ft: "\<not> ?pf \<longrightarrow> next_free [] = 0 \<longrightarrow> wd ?m4 (?b + z - 4) = hdr z False False" unfolding w4(3) by simp
    from coalesce_spec [OF s4(2) f4 seg4 refl z(1,2) w4(1) n4 ft]
    obtain s5 m5 where co: "coalesce (of_nat ?b) ?s4 = Some (of_nat (?b - prev_free cs), s5)"
      "heap_st v n' m5 s5" "heap_chunks m5 ?st False (merged cs z [])"
      "\<forall>b < 4294967296. b < ?b - prev_free cs \<or> ?b + z + next_free [] \<le> b \<longrightarrow> m5 (of_nat b) = ?m4 (of_nat b)"
      "pagemap s5 = pagemap ?s4"
      by blast
    have pages: "\<exists>h s1. lxbrk heap (of_nat (z + 4)) s = Some (hp_brk heap, h, s1) \<and> pagemap s5 = pagemap s1"
      using ok(1) co(5) s2(3) s3(3) s4(3) by metis
    have run: "lx_grow_heap heap (of_nat z) s = Some (of_nat (?b - prev_free cs), ?heap, s5)"
      using ok(1) b0 mark s2(1) s3(1) s4(1) co(1) load_at [OF s3(2) at(1)] first
      by (simp add: lx_grow_heap_def Let_def add4 ru fh fp nx ep brk_back hdr_fields(1) [OF z(1)] I(4) [symmetric]
          del: of_nat_add)
    have ml: "extent (merged cs z []) = extent cs + z" "prev_free cs \<le> extent cs"
      "heap_blocks heap cs = heap_blocks heap (before cs)"
      using merged_list [OF I(7)] by simp_all
    have "extent (before cs) = extent cs - prev_free cs"
      by (cases rule: last_free_cases [OF I(7)]) simp_all
    then have end_before: "?b - prev_free cs = ?st + extent (before cs)" using ml(2) by simp
    have "heap_inv ?heap v n' m5 (merged cs z []) s5"
      using co(2,3) fits' I(2,4,6) ml(1) by (simp add: heap_inv_def add.assoc)
    moreover have "same_blocks (heap_blocks heap cs) m m5"
      unfolding same_blocks_def
    proof clarify
      fix a k b
      assume ak: "(a, k) \<in> heap_blocks heap cs" and b: "b \<in> {a ..< a + k}"
      have "seg m ?st False (before cs)" by (cases rule: last_free_cases [OF I(7)]; use I(7) in simp)
      with ak have "?st + 4 \<le> a" "a + k \<le> ?st + extent (before cs)"
        unfolding ml(3) by (blast dest: blocks_range)+
      with b end_before have in_seg: "?st \<le> b" "b < ?b - prev_free cs" by simp_all
      then have "b < 4294967296" "b < ?b" using I(9) by simp_all
      then show "m5 (of_nat b) = m (of_nat b)"
        using co(4) in_seg old [of b] okb z(2) by (simp add: put_byte)
    qed
    moreover have "vpn (hp_brk heap + of_nat (z + 4)) < v + n'"
    proof -
      have "?b + z + 4 < 4294967296"
        using lim heap_st_bound [OF ok(2)] mult_le_mono2 [of "v + n'" "1023 * 1024" 4096] by simp
      then have "unat (hp_brk heap + of_nat (z + 4)) = ?b + z + 4"
        using us I(8) by (subst unat_add_u32) simp_all
      then show ?thesis using lim by (simp add: vpn_def less_mult_imp_div_less mult.commute)
    qed
    ultimately show ?thesis using that(2) [OF run] end_before pages by simp
  qed
qed

end
