(* ===== verification/Heap.thy ===== *)
theory Heap
  imports Kalloc
begin

text \<open>
  What the heap operations of \<^verbatim>\<open>kernel/mm/kalloc.c\<close> promise to their callers: allocation,
  release, clearing allocation and initialisation, over the chunk list of theory Kalloc.
\<close>

unbundle bit_operations_syntax

section \<open>Allocation\<close>

definition block_size :: "u32 \<Rightarrow> nat" where
  "block_size sz = (unat sz + 7) div 4 * 4"

lemma block_size:
  assumes "unat sz \<le> 0xFFFFFFF0"
  shows "ROUNDUP (sz + WSIZE) BOUNDARY = of_nat (block_size sz)" "4 dvd block_size sz"
    "unat sz + 4 \<le> block_size sz" "block_size sz + 4 < 4294967296"
proof -
  have le: "(x + 7) div 4 * 4 \<le> x + 7" "x + 4 \<le> (x + 7) div 4 * 4" for x :: nat
    using div_mult_mod_eq [of "x + 7" 4] mod_less_divisor [of 4 "x + 7"] by linarith+
  show *: "4 dvd block_size sz" "unat sz + 4 \<le> block_size sz" "block_size sz + 4 < 4294967296"
    using le [of "unat sz"] assms unfolding block_size_def by simp_all
  have "unat (sz + WSIZE) = unat sz + 4" using assms by (subst unat_add_u32) (simp_all add: WSIZE_def)
  then have "unat (ROUNDUP (sz + WSIZE) BOUNDARY) = block_size sz"
    using assms by (subst unat_ROUNDUP) (simp_all add: block_size_def)
  then show "ROUNDUP (sz + WSIZE) BOUNDARY = of_nat (block_size sz)"
    using *(3) by (simp add: word_unat_eq_iff)
qed

lemma place_inv:
  assumes inv: "heap_inv heap v n m (xs @ (c, False) # ys) s"
    and z: "4 dvd z" "4 \<le> z" "z \<le> c"
  defines "p \<equiv> unat (hp_start heap) + extent xs"
  obtains s' m' where "place_chunk (of_nat p) (of_nat z) s = Some s'"
    "heap_inv heap v n m' (xs @ placed z c @ ys) s'"
    "same_blocks (heap_blocks heap (xs @ (c, False) # ys)) m m'" "p + z + 4 \<le> 4294967296" "0 < p"
proof -
  note I = heap_invD [OF inv]
  obtain s' m' where s': "place_chunk (of_nat p) (of_nat z) s = Some s'" "heap_st v n m' s'"
    "heap_chunks m' (unat (hp_start heap)) False (xs @ placed z c @ ys)"
    "\<And>b. b < 4294967296 \<Longrightarrow> b < p \<or> p + c + 4 \<le> b \<Longrightarrow> m' (of_nat b) = m (of_nat b)"
    using place_chunk_spec [OF I(1,3,5) p_def [THEN meta_eq_to_obj_eq] z] by blast
  have "heap_inv heap v n m' (xs @ placed z c @ ys) s'"
    using inv s'(2,3) extent_placed [OF z(3)] by (simp add: heap_inv_def add.assoc)
  moreover have "same_blocks (heap_blocks heap (xs @ (c, False) # ys)) m m'"
  proof (rule same_blocks_outside [where lo = p and hi = "p + c + 4"])
    show "m' (of_nat b) = m (of_nat b)" if "b < 4294967296" "b < p \<or> p + c + 4 \<le> b" for b
      using that by (rule s'(4))
    fix a k
    assume "(a, k) \<in> heap_blocks heap (xs @ (c, False) # ys)"
    then have ak: "(a, k) \<in> heap_blocks heap xs \<or> (a, k) \<in> blocks (unat (hp_start heap) + extent xs + c) ys"
      by (auto simp: blocks_append)
    have "unat (hp_start heap) + extent (xs @ (c, False) # ys) < 4294967296" using I(9) by simp
    from blocks_around [OF I(5) this ak]
    show "a + k \<le> p \<or> p + c + 4 \<le> a" "a + k \<le> 4294967296" by (auto simp: p_def)
  qed
  ultimately show ?thesis
    using that [of s' m'] s'(1) I(2,9) z(3) by (simp add: p_def)
qed

text \<open>What a successful request has done: the chunk list has one more block, of at least the
  requested size, and the old blocks hold what they held.\<close>

definition granted :: "heap_context \<Rightarrow> chunk list \<Rightarrow> mem \<Rightarrow> u32 \<Rightarrow> u32 \<Rightarrow> heap_context \<Rightarrow> chunk list \<Rightarrow> mem \<Rightarrow> bool" where
  "granted heap cs m sz r heap' cs' m' \<longleftrightarrow> r \<noteq> 0 \<and> hp_start heap' = hp_start heap
     \<and> heap_blocks heap cs' = insert (unat r, block_size sz - 4) (heap_blocks heap cs)
     \<and> (unat r, block_size sz - 4) \<notin> heap_blocks heap cs
     \<and> same_blocks (heap_blocks heap cs) m m'"

lemma place_granted:
  assumes inv: "heap_inv heap v n m (xs @ (c, False) # ys) s" and sz: "unat sz \<le> 0xFFFFFFF0"
    and c: "block_size sz \<le> c" and p: "p = unat (hp_start heap) + extent xs"
  obtains s' m' cs' where "place_chunk (of_nat p) (of_nat (block_size sz)) s = Some s'"
    "heap_inv heap v n m' cs' s'" "granted heap (xs @ (c, False) # ys) m sz (BPTR (of_nat p)) heap cs' m'"
proof -
  note z = block_size(2-4) [OF sz]
  have "4 \<le> block_size sz" using z(2) by simp
  from place_inv [OF inv z(1) this c] obtain s' m' where s':
    "place_chunk (of_nat p) (of_nat (block_size sz)) s = Some s'"
    "heap_inv heap v n m' (xs @ placed (block_size sz) c @ ys) s'"
    "same_blocks (heap_blocks heap (xs @ (c, False) # ys)) m m'" "p + block_size sz + 4 \<le> 4294967296" "0 < p"
    unfolding p by blast
  have r: "unat (BPTR (of_nat p)) = p + 4"
    using s'(4) z(2) unfolding BPTR_def WSIZE_def by (subst unat_add_u32) simp_all
  then have "BPTR (of_nat p) \<noteq> 0" by auto
  moreover have "(p + 4, block_size sz - 4) \<notin> heap_blocks heap (xs @ (c, False) # ys)"
  proof
    assume "(p + 4, block_size sz - 4) \<in> heap_blocks heap (xs @ (c, False) # ys)"
    then have ak: "(p + 4, block_size sz - 4) \<in> heap_blocks heap xs
        \<or> (p + 4, block_size sz - 4) \<in> blocks (unat (hp_start heap) + extent xs + c) ys"
      by (auto simp: blocks_append)
    note I = heap_invD [OF inv]
    have "unat (hp_start heap) + extent (xs @ (c, False) # ys) < 4294967296" using I(9) by simp
    from blocks_around(1) [OF I(5) this ak] show False using z(2) c by (auto simp: p)
  qed
  ultimately have "granted heap (xs @ (c, False) # ys) m sz (BPTR (of_nat p)) heap
      (xs @ placed (block_size sz) c @ ys) m'"
    using blocks_placed [OF c] s'(3) r by (simp add: granted_def p)
  with s' show ?thesis using that by blast
qed

lemma first_fit_search:
  assumes inv: "heap_inv heap v n m cs s" and "z < 4294967296"
  shows "lx_search (hp_brk heap) (of_nat z) (hp_start heap) s
    = Some (map_option (\<lambda>r. of_nat (unat (hp_start heap) + extent (fst r))) (first_fit z cs))"
proof -
  note I = heap_invD [OF inv]
  have "lx_search (hp_brk heap) (of_nat z) (of_nat (unat (hp_start heap))) s
    = Some (map_option (\<lambda>r. of_nat (unat (hp_start heap) + extent (fst r))) (first_fit z cs))"
    by (rule search_spec [OF I(1) _ _ _ I(5,4) assms(2), where xs = "[]"]) (use I(3) in \<open>simp_all add: fits_def\<close>)
  then show ?thesis by simp
qed

lemma malloc_spec:
  assumes inv: "heap_inv heap v n m cs s" and sz: "sz \<noteq> 0" "unat sz \<le> 0xFFFFFFF0"
  obtains (oom) s' where "lx_malloc_internal heap sz s = Some (0, heap, s')" "heap_inv heap v n m cs s'"
      "first_fit (block_size sz) cs = None"
  | (block) r heap' s' n' m' cs' where "lx_malloc_internal heap sz s = Some (r, heap', s')"
      "heap_inv heap' v n' m' cs' s'" "granted heap cs m sz r heap' cs' m'"
proof -
  note I = heap_invD [OF inv]
  let ?z = "block_size sz" and ?st = "unat (hp_start heap)"
  note z = block_size [OF sz(2)]
  have zlt: "?z < 4294967296" using z(4) by simp
  note run = lx_malloc_internal_def Let_def z(1) first_fit_search [OF inv zlt]
  show ?thesis
  proof (cases "first_fit ?z cs")
    case (Some f)
    obtain xs c ys where f: "f = (xs, c, ys)" by (cases f) auto
    then have cs: "cs = xs @ (c, False) # ys" "?z \<le> c" using first_fit_Some Some by auto
    from place_granted [OF inv [unfolded cs(1)] sz(2) cs(2) refl] obtain s' m' cs' where
      pl: "place_chunk (of_nat (?st + extent xs)) (of_nat ?z) s = Some s'" "heap_inv heap v n m' cs' s'"
        "granted heap cs m sz (BPTR (of_nat (?st + extent xs))) heap cs' m'" unfolding cs(1) by blast
    have "lx_malloc_internal heap sz s = Some (BPTR (of_nat (?st + extent xs)), heap, s')"
      using sz(1) pl(1) Some f by (simp add: run del: of_nat_add)
    then show ?thesis using pl(2,3) by (rule block)
  next
    case None
    show ?thesis
    proof (cases rule: grow_heap_spec [OF inv z(2) _ z(4), case_names min fail ok])
      case min
      then show ?case using z(3) by simp
    next
      case (fail s')
      then have "lx_malloc_internal heap sz s = Some (0, heap, s')"
        using sz(1) None by (simp add: run)
      then show ?thesis using fail(2) None by (rule oom)
    next
      case (ok s1 n' m1 q)
      let ?h = "heap\<lparr>hp_brk := hp_brk heap + of_nat ?z\<rparr>"
      have mc: "merged cs ?z [] = before cs @ (prev_free cs + ?z, False) # []"
        by (simp add: merged_def next_free_def after_def)
      have q: "q = unat (hp_start ?h) + extent (before cs)" using ok(4) by simp
      from place_granted [OF ok(2) [unfolded mc] sz(2) _ q] obtain s' m' cs' where
        pl: "place_chunk (of_nat q) (of_nat ?z) s1 = Some s'" "heap_inv ?h v n' m' cs' s'"
          "granted ?h (merged cs ?z []) m1 sz (BPTR (of_nat q)) ?h cs' m'"
        unfolding mc by auto
      have "q + 4 \<le> 4294967296" "0 < q"
        using q I(2) heap_invD(9) [OF ok(2)] by (simp_all add: mc)
      then have q0: "(of_nat q :: u32) \<noteq> 0" using of_nat_inject_u32 [of q 0] by simp
      have "heap_blocks heap (merged cs ?z []) = heap_blocks heap cs"
        using merged_list(2) [OF I(7), of ?z "[]"] by simp
      then have "granted heap cs m sz (BPTR (of_nat q)) ?h cs' m'"
        using pl(3) ok(3) same_blocks_trans [of "heap_blocks heap cs" m m1 m'] by (simp add: granted_def)
      moreover have "lx_malloc_internal heap sz s = Some (BPTR (of_nat q), ?h, s')"
        using sz(1) None ok(1) pl(1) q0 by (simp add: run)
      ultimately show ?thesis using pl(2) block by blast
    qed
  qed
qed

section \<open>Release\<close>

lemma next_prev_free:
  assumes "heap_chunks m q False ys" "4 dvd q" "q + extent ys < 4294967296"
  shows "next_ok (put q (wd m q OR M_PREV_FREE) m) q ys"
proof -
  let ?m = "put q (wd m q OR M_PREV_FREE) m"
  have ok: "addr_ok q" using assms(2,3) by (simp add: addr_ok_def)
  show ?thesis
  proof (cases ys)
    case Nil
    then show ?thesis using assms(1) ok by (simp add: next_ok_def heap_chunks_Nil wd_put hdr_simps)
  next
    case (Cons y ys')
    obtain d a where y: "y = (d, a)" by fastforce
    with Cons assms(1) have d: "4 dvd d" "4 \<le> d" "wd m q = hdr d a False"
      "heap_chunks m (q + d) (\<not> a) ys'" by (auto simp: heap_chunks_Cons)
    have "heap_chunks ?m (q + d) (\<not> a) ys'"
    proof (rule heap_chunks_cong [OF d(4)])
      fix b
      assume "q + d \<le> b" "b \<le> q + d + extent ys'" "4 dvd b"
      then show "wd ?m b = wd m b"
        using ok d(2) assms(3) Cons y by (subst wd_put) (auto simp: addr_ok_def)
    qed (use assms(2) d in simp)
    then show ?thesis using Cons y d ok
      by (cases a) (auto simp: next_ok_def heap_chunks_Cons wd_put hdr_simps)
  qed
qed

lemma blocks_merged_around:
  assumes "heap_chunks m st False (merged xs c ys)" "seg m0 st False xs" "p = st + extent xs"
    "st + extent (merged xs c ys) < 4294967296" "(a, k) \<in> blocks st (merged xs c ys)"
  shows "a + k \<le> p - prev_free xs \<or> p + c + next_free ys + 4 \<le> a" "a + k \<le> 4294967296"
proof -
  have e: "st + extent (before xs) = p - prev_free xs" "prev_free xs \<le> extent xs"
    unfolding assms(3) by (cases rule: last_free_cases [OF assms(2)]; simp)+
  then have "p - prev_free xs + (prev_free xs + c + next_free ys) = p + c + next_free ys"
    using assms(3) by simp
  note e = e(1) this
  have "(a, k) \<in> blocks st (before xs)
      \<or> (a, k) \<in> blocks (st + extent (before xs) + (prev_free xs + c + next_free ys)) (after ys)"
    using assms(5) by (simp add: merged_def blocks_append)
  from blocks_around [OF assms(1,4) [unfolded merged_def] this]
  show "a + k \<le> p - prev_free xs \<or> p + c + next_free ys + 4 \<le> a" "a + k \<le> 4294967296"
    unfolding e by blast+
qed

lemma free_spec:
  assumes inv: "heap_inv heap v n m (xs @ (c, True) # ys) s" and p: "p = unat (hp_start heap) + extent xs"
  obtains s' m' where "lxfree (of_nat (p + 4)) s = Some s'"
    "heap_inv heap v n m' (merged xs c ys) s'" "same_blocks (heap_blocks heap (merged xs c ys)) m m'"
proof -
  note I = heap_invD [OF inv]
  let ?st = "unat (hp_start heap)" and ?pf = "last_free False xs"
  let ?h = "hdr c False ?pf"
  have c: "4 dvd c" "4 \<le> c" "wd m p = hdr c True ?pf" and seg: "seg m ?st False xs"
    and rest: "heap_chunks m (p + c) False ys"
    using I(5) p by (auto simp: heap_chunks_append heap_chunks_Cons)
  have p4: "4 dvd p" "4 dvd ?st" using I(3) p seg_extent_dvd [OF seg] by (simp_all add: fits_def)
  have lim: "p + c + extent ys + 4 \<le> 4096 * (1023 * 1024)" using I(9) p by simp
  have at: "at v n p" "at v n (p + c - 4)" "at v n (p + c)"
    using p4 p c by (auto intro!: fits_at [OF I(3)])
  have ok: "addr_ok p" "addr_ok (p + c - 4)" "addr_ok (p + c)" by (rule at_addr(3) [OF I(1)]; fact at)+
  note st1 = store_at [OF I(1) at(1), of ?h]
  note st2 = store_at [OF st1(2) at(2), of ?h]
  let ?m2 = "put (p + c - 4) ?h (put p ?h m)" and ?s2 = "wr (p + c - 4) ?h (wr p ?h s)"
  let ?n = "wd ?m2 (p + c) OR M_PREV_FREE"
  note st3 = store_at [OF st2(2) at(3), of ?n]
  let ?m3 = "put (p + c) ?n ?m2" and ?s3 = "wr (p + c) ?n ?s2"
  have same2: "wd ?m2 b = wd m b" if "b < p \<or> p + c \<le> b" "addr_ok b" for b
    using that ok c(2) by (auto simp: wd_put)
  have rest2: "heap_chunks ?m2 (p + c) False ys"
    by (rule heap_chunks_cong [OF rest _ same2]) (use p4 c lim in \<open>auto simp: addr_ok_def\<close>)
  have n3: "next_ok ?m3 (p + c) ys"
    by (rule next_prev_free [OF rest2]) (use p4 c lim in auto)
  have same3: "wd ?m3 b = wd m b" if "b < p" "addr_ok b" for b
    using that same2 [of b] ok by (subst wd_put) auto
  have seg3: "seg ?m3 ?st False xs"
    by (rule seg_cong [OF seg p4(2) same3]) (use p lim in \<open>auto simp: addr_ok_def\<close>)
  have hd3: "wd ?m3 p = ?h" "wd ?m3 (p + c - 4) = ?h" using ok c(2) by (auto simp: wd_put)
  have f3: "fits v n ?st (extent xs + c + extent ys)" using I(3) by (simp add: add.assoc)
  have ft3: "\<not> ?pf \<longrightarrow> next_free ys = 0 \<longrightarrow> wd ?m3 (p + c - 4) = hdr c False False"
    unfolding hd3(2) by simp
  from coalesce_spec [OF st3(2) f3 seg3 p c(1,2) hd3(1) n3 ft3]
  obtain s' m' where co: "coalesce (of_nat p) ?s3 = Some (of_nat (p - prev_free xs), s')"
    "heap_st v n m' s'" "heap_chunks m' ?st False (merged xs c ys)"
    "\<forall>b < 4294967296. b < p - prev_free xs \<or> p + c + next_free ys \<le> b \<longrightarrow> m' (of_nat b) = ?m3 (of_nat b)"
    by blast
  have p0: "(of_nat (p + 4) :: u32) \<noteq> 0" using lim of_nat_inject_u32 [of "p + 4" 0] by (simp del: of_nat_add)
  have cp: "(of_nat (p + 4) :: u32) - WSIZE = of_nat p" by (simp add: WSIZE_def)
  have fp: "FPTR (of_nat p) (of_nat c) = of_nat (p + c - 4)" using c(2) by (intro FPTR_nat) simp
  have sum: "(of_nat p :: u32) + of_nat c = of_nat (p + c)" by simp
  have clr: "hdr c True ?pf AND NOT M_ALLOCATED = ?h" by (rule hdr_fields(6) [OF c(1)])
  have run: "lxfree (of_nat (p + 4)) s = Some s'"
    using p0 load_at [OF I(1) at(1)] st1(1) st2(1) load_at [OF st2(2) at(3)] st3(1) co(1)
    by (simp add: lxfree_def Let_def cp c(3) hdr_fields(1) [OF c(1)] clr fp sum del: of_nat_add)
  have ext: "extent (merged xs c ys) = extent (xs @ (c, True) # ys)"
    using merged_list(1) [OF seg] by simp
  have inv': "heap_inv heap v n m' (merged xs c ys) s'"
    using inv co(2,3) ext by (simp add: heap_inv_def)
  have "same_blocks (heap_blocks heap (merged xs c ys)) m m'"
  proof (rule same_blocks_outside [where lo = "p - prev_free xs" and hi = "p + c + next_free ys + 4"])
    fix b :: nat
    assume b: "b < 4294967296" "b < p - prev_free xs \<or> p + c + next_free ys + 4 \<le> b"
    then have "?m3 (of_nat b) = m (of_nat b)"
      using ok c(2) by (subst put_byte; (subst put_byte)?; (subst put_byte)?; auto)
    then show "m' (of_nat b) = m (of_nat b)" using co(4) b by auto
  next
    fix a k
    assume "(a, k) \<in> heap_blocks heap (merged xs c ys)"
    moreover have "?st + extent (merged xs c ys) < 4294967296" using I(9) ext by simp
    ultimately show "a + k \<le> p - prev_free xs \<or> p + c + next_free ys + 4 \<le> a" "a + k \<le> 4294967296"
      using blocks_merged_around [OF co(3) seg p] by blast+
  qed
  with run inv' show ?thesis by (rule that)
qed

lemma block_split:
  "(a, k) \<in> blocks st cs \<Longrightarrow> seg m st pf cs \<Longrightarrow>
    \<exists>xs c ys. cs = xs @ (c, True) # ys \<and> a = st + extent xs + 4 \<and> c = k + 4"
proof (induction st cs arbitrary: pf rule: blocks.induct)
  case (2 p c al cs)
  show ?case
  proof (cases "al \<and> (a, k) = (p + 4, c - 4)")
    case True
    then have "(c, al) # cs = [] @ (c, True) # cs \<and> a = p + extent [] + 4 \<and> c = k + 4"
      using 2(3) by simp
    then show ?thesis by blast
  next
    case False
    then have "(a, k) \<in> blocks (p + c) cs" using 2(2) by (auto split: if_splits)
    moreover have "seg m (p + c) (\<not> al) cs" using 2(3) by simp
    ultimately obtain xs c' ys where "cs = xs @ (c', True) # ys" "a = p + c + extent xs + 4" "c' = k + 4"
      using 2(1) by blast
    then have "(c, al) # cs = ((c, al) # xs) @ (c', True) # ys \<and> a = p + extent ((c, al) # xs) + 4 \<and> c' = k + 4"
      by simp
    then show ?thesis by blast
  qed
qed simp

lemma block_absent:
  assumes "seg m st pf (xs @ (c, a) # ys)"
  shows "(st + extent xs + 4, k) \<notin> blocks st xs \<union> blocks (st + extent xs + c) ys"
proof -
  have s: "seg m st pf xs" "seg m (st + extent xs + c) (\<not> a) ys" "4 \<le> c" using assms by auto
  show ?thesis
    using blocks_range [OF s(1), of "st + extent xs + 4" k] blocks_range [OF s(2), of "st + extent xs + 4" k] s(3)
    by auto
qed

text \<open>Releasing a block removes it, and only it.\<close>

lemma free_block:
  assumes inv: "heap_inv heap v n m cs s" and b: "(a, k) \<in> heap_blocks heap cs"
  obtains s' m' cs' where "lxfree (of_nat a) s = Some s'" "heap_inv heap v n m' cs' s'"
    "heap_blocks heap cs' = heap_blocks heap cs - {(a, k)}" "same_blocks (heap_blocks heap cs') m m'"
proof -
  note I = heap_invD [OF inv]
  let ?st = "unat (hp_start heap)"
  obtain xs c ys where cs: "cs = xs @ (c, True) # ys" "a = ?st + extent xs + 4" "c = k + 4"
    using block_split [OF b I(7)] by blast
  obtain s' m' where s': "lxfree (of_nat (?st + extent xs + 4)) s = Some s'"
    "heap_inv heap v n m' (merged xs c ys) s'" "same_blocks (heap_blocks heap (merged xs c ys)) m m'"
    by (rule free_spec [OF inv [unfolded cs(1)] refl])
  have seg: "seg m ?st False xs" using I(7) cs(1) by simp
  have "heap_blocks heap (merged xs c ys) = heap_blocks heap cs - {(a, k)}"
    using merged_list(2) [OF seg, of c ys] block_absent [OF I(7) [unfolded cs(1)], of k]
    by (auto simp: cs blocks_append)
  then show ?thesis using that [OF s'(1) [folded cs(2)] s'(2) _ s'(3)] by simp
qed

section \<open>Writing into a block\<close>

text \<open>A client that writes only inside one of its blocks keeps the heap invariant.\<close>

lemma client_write:
  assumes inv: "heap_inv heap v n m cs s" and b: "(a, k) \<in> heap_blocks heap cs" and st: "heap_st v n m' s'"
    and m': "\<And>b. b < 4294967296 \<Longrightarrow> b < a \<or> a + k \<le> b \<Longrightarrow> m' (of_nat b) = m (of_nat b)"
  shows "heap_inv heap v n m' cs s'"
proof -
  note I = heap_invD [OF inv]
  let ?st = "unat (hp_start heap)"
  obtain xs c ys where cs: "cs = xs @ (c, True) # ys" "a = ?st + extent xs + 4" "c = k + 4"
    using block_split [OF b I(7)] by blast
  let ?p = "?st + extent xs"
  have parts: "seg m ?st False xs" "4 dvd c" "4 \<le> c" "wd m ?p = hdr c True (last_free False xs)"
    "heap_chunks m (?p + c) False ys"
    using I(5) cs(1) by (auto simp: heap_chunks_append heap_chunks_Cons)
  have st4: "4 dvd ?st" using I(3) by (simp add: fits_def)
  have p4: "4 dvd ?p" using st4 seg_extent_dvd [OF parts(1)] by simp
  have lim: "?p + c + extent ys < 4294967296" using I(9) cs(1) by simp
  have same: "wd m' b = wd m b" if "b + 4 \<le> a \<or> a + k \<le> b" "b \<le> ?p + c + extent ys" for b
  proof -
    have top: "?p + c + extent ys + 3 < 4294967296" using I(9) cs(1) by simp
    have "m' (of_nat b + of_nat j) = m (of_nat b + of_nat j)" if "j < 4" for j
      using m' [of "b + j"] that \<open>b + 4 \<le> a \<or> a + k \<le> b\<close> \<open>b \<le> _\<close> top by auto
    from this [of 0] this [of 1] this [of 2] this [of 3] show ?thesis by (simp add: wd_def load32_def)
  qed
  have below: "b + 4 \<le> a" if "b < ?p" "4 dvd b" for b using that cs(2) by simp
  have "seg m' ?st False xs"
    by (rule seg_cong [OF parts(1) st4 same]) (use lim below in auto)
  moreover have "wd m' ?p = wd m ?p" by (rule same) (use cs(2) lim in auto)
  moreover have "heap_chunks m' (?p + c) False ys"
    by (rule heap_chunks_cong [OF parts(5) _ same]) (use p4 parts(2) cs(2,3) in auto)
  ultimately have "heap_chunks m' ?st False cs"
    using parts unfolding cs(1) by (simp add: heap_chunks_append heap_chunks_Cons)
  then show ?thesis using inv st by (simp add: heap_inv_def)
qed

lemma vmemset_spec:
  assumes "heap_st v n m s" "4096 * v \<le> a" "a + k \<le> 4096 * (v + n)"
  shows "\<exists>s' m'. vmemset k (of_nat a) x s = Some s' \<and> heap_st v n m' s'
    \<and> (\<forall>b < 4294967296. m' (of_nat b) = (if a \<le> b \<and> b < a + k then x else m (of_nat b)))"
  using assms
proof (induction k arbitrary: a m s)
  case 0
  then show ?case by auto
next
  case (Suc k)
  have "4096 * (v + n) \<le> 4096 * (1023 * 1024)"
    using heap_st_bound [OF Suc.prems(1)] by (rule mult_le_mono2)
  then have lim: "a < 4294967296" using Suc.prems(3) by simp
  have "in_pages v n (of_nat a)" using Suc.prems lim by (intro in_pages_nat) simp_all
  then obtain b where b: "vstore8 (of_nat a) x s = Some (s\<lparr>phys := b\<rparr>)"
    "heap_st v n (m(of_nat a := x)) (s\<lparr>phys := b\<rparr>)" by (rule heap_store8 [OF Suc.prems(1)])
  obtain s' m' where s': "vmemset k (of_nat (a + 1)) x (s\<lparr>phys := b\<rparr>) = Some s'" "heap_st v n m' s'"
    "\<forall>b < 4294967296. m' (of_nat b)
       = (if a + 1 \<le> b \<and> b < a + 1 + k then x else (m(of_nat a := x)) (of_nat b))"
    using Suc.IH [OF b(2), of "a + 1"] Suc.prems by auto
  have "vmemset (Suc k) (of_nat a) x s = Some s'" using b(1) s'(1) by (simp add: add.commute)
  moreover have "m' (of_nat b) = (if a \<le> b \<and> b < a + Suc k then x else m (of_nat b))"
    if "b < 4294967296" for b
    using s'(3) that lim of_nat_inject_u32 [OF that lim] by auto
  ultimately show ?case using s'(2) by blast
qed

lemma block_in_pages:
  assumes "heap_inv heap v n m cs s" "(a, k) \<in> heap_blocks heap cs"
  shows "4096 * v \<le> a" "a + k \<le> 4096 * (v + n)" "a + k < 4294967296"
proof -
  note I = heap_invD [OF assms(1)]
  from blocks_range [OF I(7) assms(2)] show "4096 * v \<le> a" "a + k \<le> 4096 * (v + n)" "a + k < 4294967296"
    using I(3,9) by (auto simp: fits_def)
qed

lemma same_blocks_fresh_write:
  assumes "heap_inv heap v n m cs s" "B \<subseteq> heap_blocks heap cs" "(a, k) \<in> heap_blocks heap cs" "(a, k) \<notin> B"
    "\<And>b. b < 4294967296 \<Longrightarrow> b < a \<or> a + k \<le> b \<Longrightarrow> m' (of_nat b) = m (of_nat b)"
  shows "same_blocks B m m'"
proof (rule same_blocks_outside [where lo = a and hi = "a + k"])
  show "m' (of_nat b) = m (of_nat b)" if "b < 4294967296" "b < a \<or> a + k \<le> b" for b
    using that by (rule assms(5))
  fix c l
  assume "(c, l) \<in> B"
  then have c: "(c, l) \<in> heap_blocks heap cs" "(c, l) \<noteq> (a, k)" using assms(2,4) by auto
  show "c + l \<le> a \<or> a + k \<le> c"
    using blocks_disjoint [OF heap_invD(7) [OF assms(1)] c(1) assms(3)] c(2) by blast
  show "c + l \<le> 4294967296" using block_in_pages(3) [OF assms(1) c(1)] by simp
qed

section \<open>Clearing allocation\<close>

lemma calloc_spec:
  assumes inv: "heap_inv heap v n m cs s" and sz: "unat k * unat e \<noteq> 0" "unat k * unat e \<le> 0xFFFFFFF0"
  obtains (oom) s' where "lxcalloc k e heap s = Some (0, heap, s')" "heap_inv heap v n m cs s'"
      "first_fit (block_size (k * e)) cs = None"
  | (block) r heap' s' n' m' cs' where "lxcalloc k e heap s = Some (r, heap', s')"
      "heap_inv heap' v n' m' cs' s'" "granted heap cs m (k * e) r heap' cs' m'"
      "\<forall>b < unat (k * e). m' (r + of_nat b) = 0"
proof -
  have u: "unat (k * e) = unat k * unat e" using sz(2) by (intro unat_mult_u32) simp
  have pos: "unat k \<noteq> 0" "unat e \<noteq> 0" using sz(1) by auto
  have "unat k * 1 \<le> unat k * unat e" "1 * unat e \<le> unat k * unat e"
    using pos by (intro mult_le_mono; linarith)+
  then have "\<not> unat (k * e) < unat k" "\<not> unat (k * e) < unat e" unfolding u by linarith+
  then have nov: "\<not> (k * e < e \<or> k * e < k)" unfolding word_less_nat_alt by blast
  have pd: "k * e \<noteq> 0" "unat (k * e) \<le> 0xFFFFFFF0" using sz u by (auto simp: unat_eq_zero [symmetric])
  show ?thesis
  proof (cases rule: malloc_spec [OF inv pd, case_names oom block])
    case (oom s')
    then have "lxcalloc k e heap s = Some (0, heap, s')" using nov by (simp add: lxcalloc_def lxmalloc_def Let_def)
    then show ?thesis using oom(2,3) by (rule that(1))
  next
    case (block r heap' s1 n' m1 cs')
    let ?k = "block_size (k * e) - 4"
    have g: "r \<noteq> 0" "hp_start heap' = hp_start heap" "(unat r, ?k) \<in> heap_blocks heap' cs'"
      "(unat r, ?k) \<notin> heap_blocks heap cs" "same_blocks (heap_blocks heap cs) m m1"
      "heap_blocks heap' cs' = insert (unat r, ?k) (heap_blocks heap cs)"
      using block(3) by (simp_all add: granted_def)
    have len: "unat (k * e) \<le> ?k" using block_size(3) [OF pd(2)] by simp
    note pg = block_in_pages [OF block(2) g(3)]
    obtain s' m' where s': "vmemset (unat (k * e)) (of_nat (unat r)) 0 s1 = Some s'" "heap_st v n' m' s'"
      "\<forall>b < 4294967296. m' (of_nat b)
         = (if unat r \<le> b \<and> b < unat r + unat (k * e) then 0 else m1 (of_nat b))"
      using vmemset_spec [OF heap_invD(1) [OF block(2)] pg(1), of "unat (k * e)" 0] pg(2) len by auto
    have out: "m' (of_nat b) = m1 (of_nat b)" if "b < 4294967296" "b < unat r \<or> unat r + ?k \<le> b" for b
      using s'(3) that len by auto
    have inv': "heap_inv heap' v n' m' cs' s'" by (rule client_write [OF block(2) g(3) s'(2) out])
    have "same_blocks (heap_blocks heap cs) m1 m'"
      by (rule same_blocks_fresh_write [OF block(2) _ g(3,4) out]) (use g(6) in auto)
    then have "same_blocks (heap_blocks heap cs) m m'" using g(5) by (metis same_blocks_trans)
    then have gr: "granted heap cs m (k * e) r heap' cs' m'" using block(3) by (simp add: granted_def)
    have z: "\<forall>b < unat (k * e). m' (r + of_nat b) = 0"
    proof (intro allI impI)
      fix b
      assume b: "b < unat (k * e)"
      have "unat r + b < 4294967296" using pg(3) b len by simp
      then show "m' (r + of_nat b) = 0" using s'(3) [rule_format, of "unat r + b"] b by simp
    qed
    have "lxcalloc k e heap s = Some (r, heap', s')"
      using nov block(1) g(1) s'(1) by (simp add: lxcalloc_def lxmalloc_def Let_def)
    then show ?thesis using inv' gr z by (rule that(2))
  qed
qed

section \<open>Initialisation\<close>

lemma K_STACK_START_bound: "unat K_STACK_START \<le> 1023 * 4194304"
  by (simp add: K_STACK_START_def K_STACK_SIZE_def)

text \<open>The first two words of the heap.\<close>

lemma heap_prologue:
  assumes "dmm_init \<lparr>hp_start = start, hp_brk = 0, hp_max_addr = K_STACK_START\<rparr> s
      = Some (True, \<lparr>hp_start = start, hp_brk = start, hp_max_addr = K_STACK_START\<rparr>, s1)"
    "heap_st (vpn start) 1 m s1" "page_aligned start" "start \<noteq> 0"
  obtains m' b where "kalloc_init start s = map_option (\<lambda>(r, heap, s). (r \<noteq> 0, heap, s))
      (lx_grow_heap \<lparr>hp_start = start, hp_brk = start + WSIZE, hp_max_addr = K_STACK_START\<rparr> HEAP_INIT_SIZE (s1\<lparr>phys := b\<rparr>))"
    "heap_inv \<lparr>hp_start = start, hp_brk = start + WSIZE, hp_max_addr = K_STACK_START\<rparr> (vpn start) 1 m' [(4, True)] (s1\<lparr>phys := b\<rparr>)"
    "pagemap (s1\<lparr>phys := b\<rparr>) = pagemap s1"
proof -
  let ?v = "vpn start" and ?a = "unat start"
  have a: "?a = 4096 * ?v" using assms(3) unat_PG_ALIGN_vpn [of start] by (simp add: PG_ALIGN_id)
  have lim: "?v + 1 \<le> 1023 * 1024" using heap_st_bound [OF assms(2)] .
  have at: "at ?v 1 ?a" "at ?v 1 (?a + 4)" using a by (auto simp: at_def)
  have okw: "addr_ok ?a" "addr_ok (?a + 4)" by (rule at_addr(3) [OF assms(2)]; fact at)+
  obtain b1 where 1: "vstore32 (of_nat ?a) (hdr 4 True False) s1 = Some (s1\<lparr>phys := b1\<rparr>)"
    "heap_st ?v 1 (store32 m (of_nat ?a) (hdr 4 True False)) (s1\<lparr>phys := b1\<rparr>)" "pagemap (s1\<lparr>phys := b1\<rparr>) = pagemap s1"
    by (rule heap_store32_pagemap [OF assms(2) at_addr(1,2) [OF assms(2) at(1)]])
  obtain b2 where 2: "vstore32 (of_nat (?a + 4)) (hdr 0 True False) (s1\<lparr>phys := b1\<rparr>) = Some (s1\<lparr>phys := b1, phys := b2\<rparr>)"
    "heap_st ?v 1 (store32 (store32 m (of_nat ?a) (hdr 4 True False)) (of_nat (?a + 4)) (hdr 0 True False)) (s1\<lparr>phys := b1, phys := b2\<rparr>)"
    "pagemap (s1\<lparr>phys := b1, phys := b2\<rparr>) = pagemap (s1\<lparr>phys := b1\<rparr>)"
    by (rule heap_store32_pagemap [OF 1(2) at_addr(1,2) [OF 1(2) at(2)]])
  have run: "vstore32 start (PACK 4 M_ALLOCATED) s1 = Some (s1\<lparr>phys := b1\<rparr>)"
    "vstore32 (start + WSIZE) (PACK 0 M_ALLOCATED) (s1\<lparr>phys := b1\<rparr>) = Some (s1\<lparr>phys := b2\<rparr>)"
    using 1(1) 2(1) PACK_nat(2) [of 4] PACK_nat(2) [of 0] by (simp_all add: WSIZE_def)
  have fits: "fits ?v 1 ?a 4" using a by (simp add: fits_def)
  have pos: "0 < ?a" using assms(4) by (simp add: unat_gt_0)
  have "heap_st ?v 1 (put (?a + 4) (hdr 0 True False) (put ?a (hdr 4 True False) m)) (s1\<lparr>phys := b2\<rparr>)"
    using 2(2) by (simp add: put_def)
  then have "heap_inv \<lparr>hp_start = start, hp_brk = start + WSIZE, hp_max_addr = K_STACK_START\<rparr> ?v 1
      (put (?a + 4) (hdr 0 True False) (put ?a (hdr 4 True False) m)) [(4, True)] (s1\<lparr>phys := b2\<rparr>)"
    using fits pos okw K_STACK_START_bound by (simp add: heap_inv_def heap_chunks_def wd_put WSIZE_def)
  moreover have gen: "x \<bind> (\<lambda>(r, heap, s). Some (r \<noteq> 0, heap, s)) = map_option (\<lambda>(r, heap, s). (r \<noteq> 0, heap, s)) x"
    for x :: "(u32 \<times> heap_context \<times> 'a vm_scheme) option" by (cases x) auto
  moreover have "kalloc_init start s = map_option (\<lambda>(r, heap, s). (r \<noteq> 0, heap, s))
      (lx_grow_heap \<lparr>hp_start = start, hp_brk = start + WSIZE, hp_max_addr = K_STACK_START\<rparr> HEAP_INIT_SIZE (s1\<lparr>phys := b2\<rparr>))"
    using assms(1) run gen by (simp add: kalloc_init_def Let_def)
  ultimately show ?thesis using that [of b2] 1(3) 2(3) by simp
qed


lemma kalloc_init_spec:
  assumes "vm_ok s" "page_aligned start" "start \<noteq> 0" "L1_INDEX start < 1023" "pagemap s (va_idx start) = None"
  shows "\<exists>b heap s'. kalloc_init start s = Some (b, heap, s')
    \<and> (b \<longrightarrow> hp_start heap = start \<and> (\<exists>n m. heap_inv heap (vpn start) n m [(4, True), (4096, False)] s'))"
proof -
  let ?h0 = "\<lparr>hp_start = start, hp_brk = 0, hp_max_addr = K_STACK_START\<rparr>"
  let ?h1 = "\<lparr>hp_start = start, hp_brk = start + WSIZE, hp_max_addr = K_STACK_START\<rparr>"
  have h0: "hp_start ?h0 = start" by simp
  show ?thesis
  proof (cases rule: dmm_init_spec [where heap = ?h0 and s = s, unfolded h0, OF assms, case_names fail ok])
    case (fail s')
    then have "\<exists>heap. kalloc_init start s = Some (False, heap, s')" by (simp add: kalloc_init_def)
    then show ?thesis by blast
  next
    case (ok s1 m)
    have dmm: "dmm_init ?h0 s = Some (True, \<lparr>hp_start = start, hp_brk = start, hp_max_addr = K_STACK_START\<rparr>, s1)" using ok(1) by simp
    obtain m' b where 1: "kalloc_init start s
        = map_option (\<lambda>(r, heap, s). (r \<noteq> 0, heap, s)) (lx_grow_heap ?h1 HEAP_INIT_SIZE (s1\<lparr>phys := b\<rparr>))"
      "heap_inv ?h1 (vpn start) 1 m' [(4, True)] (s1\<lparr>phys := b\<rparr>)"
      by (rule heap_prologue [OF dmm ok(2) assms(2,3)])
    have sz: "4 dvd (4096 :: nat)" "4 \<le> (4096 :: nat)" "(4096 :: nat) + 4 < 4294967296" by simp_all
    have init: "(of_nat 4096 :: u32) = HEAP_INIT_SIZE" by (simp add: HEAP_INIT_SIZE_def)
    have merged: "merged [(4, True)] 4096 [] = [(4, True), (4096, False)]"
      by (simp add: merged_def before_def prev_free_def next_free_def after_def)
    show ?thesis
      by (cases rule: grow_heap_spec [OF 1(2) sz, unfolded init merged, case_names fail ok]) (use 1(1) in auto)
  qed
qed

section \<open>Requests near the top of the address space\<close>

text \<open>A request of \<open>0xFFFFFFFC\<close> bytes wraps to a chunk of size 0 in \<^verbatim>\<open>ROUNDUP(size + WSIZE, ...)\<close>.\<close>

lemma place_zero:
  assumes inv: "heap_inv heap v n m (xs @ (c, False) # ys) s" and p: "p = unat (hp_start heap) + extent xs"
  obtains s' m' where "place_chunk (of_nat p) 0 s = Some s'" "heap_inv heap v n m' (xs @ (c, False) # ys) s'"
proof -
  note I = heap_invD [OF inv]
  let ?st = "unat (hp_start heap)"
  have c: "4 dvd c" "4 \<le> c" "wd m p = hdr c False False" "\<not> last_free False xs"
    and seg: "seg m ?st False xs" and rest: "heap_chunks m (p + c) True ys"
    using I(5) p by (auto simp: heap_chunks_append heap_chunks_Cons)
  have p4: "4 dvd p" "4 dvd ?st" using I(3) p seg_extent_dvd [OF seg] by (simp_all add: fits_def)
  have lim: "p + c + extent ys + 4 \<le> 4096 * (1023 * 1024)" using I(9) p by simp
  have at: "at v n p" using p4 p by (auto intro!: fits_at [OF I(3)])
  have ok: "addr_ok p" by (rule at_addr(3) [OF I(1) at])
  let ?h = "hdr 0 True False"
  note st1 = store_at [OF I(1) at, of ?h]
  have same1: "wd (put p ?h m) b = wd m b" if "b \<noteq> p" "addr_ok b" for b using that ok by (simp add: wd_put)
  have seg1: "seg (put p ?h m) ?st False xs"
    by (rule seg_cong [OF seg p4(2) same1]) (use p lim in \<open>auto simp: addr_ok_def\<close>)
  have rest1: "heap_chunks (put p ?h m) (p + c) True ys"
    by (rule heap_chunks_cong [OF rest _ same1]) (use p4 c lim in \<open>auto simp: addr_ok_def\<close>)
  have f: "fits v n ?st (extent xs + c + extent ys)" using I(3) by (simp add: add.assoc)
  note w = write_free_chunk [OF st1(2) f seg1 c(4) p c(1,2) rest1]
  from w(3) obtain m3 where m3:
    "heap_st v n m3 (wr (p + c - 4) (hdr c False False) (wr p (hdr c False False) (wr p ?h s)))"
    "heap_chunks m3 ?st False (xs @ (c, False) # ys)" by blast
  have m3': "seg m3 ?st False xs" "wd m3 p = hdr c False (last_free False xs)" "heap_chunks m3 (p + c) True ys"
    "wd m3 (p + c - 4) = hdr c False False"
    using m3(2) c(4) unfolding heap_chunks_append [of m3 ?st False xs] heap_chunks_Cons p [symmetric] by auto
  have ft: "\<not> last_free False xs \<longrightarrow> next_free ys = 0 \<longrightarrow> wd m3 (p + c - 4) = hdr c False False"
    using m3'(4) by simp
  from coalesce_spec [OF m3(1) f m3'(1) p c(1,2) m3'(2) next_ok_used(1) [OF m3'(3)] ft]
  obtain s' m' r where co:
    "coalesce (of_nat p) (wr (p + c - 4) (hdr c False False) (wr p (hdr c False False) (wr p ?h s))) = Some (r, s')"
    "heap_st v n m' s'" "heap_chunks m' ?st False (merged xs c ys)" by blast
  have "merged xs c ys = xs @ (c, False) # ys"
    using c(4) next_ok_used(2,3) [OF m3'(3)] by (simp add: merged_def prev_free_def before_def)
  then have "heap_inv heap v n m' (xs @ (c, False) # ys) s'" using inv co(2,3) by (simp add: heap_inv_def)
  moreover have "place_chunk (of_nat p) 0 s = Some s'"
  proof -
    have "PACK 0 (CHUNK_PF (hdr c False False) OR M_ALLOCATED) = ?h"
      using hdr_fields(3) [OF c(1), of False False] hdr_fields(4) [of 0 False] by simp
    moreover have "PACK (of_nat c) (M_NOT_ALLOCATED OR M_PREV_ALLOCATED) = hdr c False False"
      using PACK_nat(1) [OF c(1)] by (simp add: M_NOT_ALLOCATED_def M_PREV_ALLOCATED_def)
    moreover have "FPTR (of_nat p) (of_nat c) = of_nat (p + c - 4)" using c(2) by (intro FPTR_nat) simp
    moreover have "(of_nat c :: u32) \<noteq> 0" using c(2) lim of_nat_inject_u32 [of c 0] by simp
    ultimately show ?thesis
      using load_at [OF I(1) at] st1(1) w(1,2) co(1)
      by (simp add: place_chunk_def Let_def c(3) hdr_fields(1) [OF c(1)] del: of_nat_add of_nat_diff)
  qed
  ultimately show ?thesis using that by blast
qed

section \<open>A concrete heap\<close>

text \<open>The machine of theory Vmm with the pages 3 and 4 mapped to the frames of the same number; the
  heap starts at \<open>0x3000\<close> and its break is the last word of its first page. It holds the
  prologue, a block of 12 bytes and a free chunk.\<close>

definition vh0 :: vm where
  "vh0 = upd_entry 0 4 0x4003 (upd_entry 0 3 0x3003 vm1)"

definition vh :: vm where
  "vh = wr 0x3FFC 3 (wr 0x3FF8 0xFE8 (wr 0x3014 0xFE8 (wr 0x3004 0x11 (wr 0x3000 5 vh0))))"

definition heap_vh :: heap_context where
  "heap_vh = \<lparr>hp_start = 0x3000, hp_brk = 0x3FFC, hp_max_addr = K_STACK_START\<rparr>"

definition mem_vh :: mem where
  "mem_vh = put 0x3FFC 3 (put 0x3FF8 0xFE8 (put 0x3014 0xFE8 (put 0x3004 0x11 (put 0x3000 5 (heap_mem vh0)))))"

definition chunks_vh :: "chunk list" where
  "chunks_vh = [(4, True), (16, True), (0xFE8, False)]"

lemma vh0_heap: "heap_st 3 2 (heap_mem vh0) vh0"
proof -
  let ?s = "upd_entry 0 3 0x3003 vm1"
  have 1: "vm_ok ?s" "l1e ?s 0 \<noteq> 0" "pagemap ?s = [(0, 1023) \<mapsto> 0x5003, (0, 3) \<mapsto> 0x3003]"
    "table_frame ?s = table_frame vm1"
    using vm_ok_upd [OF vm1_ok, of 0 3 "0x3003"] tbl_upd(1) [OF vm1_ok, of 0 3 0 "0x3003"]
      pagemap_upd [OF vm1_ok, of 0 3 "0x3003"] vm_frame_upd(2) [OF vm1_ok, of 0 3 "0x3003"]
    by (simp_all add: vm1_l1e vm1_pagemap)
  have ok: "vm_ok vh0" and pm: "pagemap vh0 = [(0, 1023) \<mapsto> 0x5003, (0, 3) \<mapsto> 0x3003, (0, 4) \<mapsto> 0x4003]"
    and tf: "table_frame vh0 = table_frame vm1"
    using vm_ok_upd [OF 1(1) _ _ 1(2), of 4 "0x4003"] pagemap_upd [OF 1(1) _ _ 1(2), of 4 "0x4003"]
      vm_frame_upd(2) [OF 1(1) _ _ 1(2), of 4 "0x4003"] 1(3,4) by (simp_all add: vh0_def)
  have pf: "page_free vh0 p \<longleftrightarrow> 8 \<le> p \<and> p < 16" for p
    using vm1_page_free [of p] by (simp add: page_free_def vh0_def)
  have frames: "PG_ALIGN 0x3003 = 0x3000" "PG_ALIGN 0x4003 = 0x4000" "IS_CACHED 0x3003" "IS_CACHED 0x4003"
    by (simp_all add: PG_ALIGN_def IS_CACHED_def)
  have pages: "{3 ..< 3 + 2} = {3, 4 :: nat}" by auto
  have sl: "slot 3 = (0, 3)" "slot 4 = (0, 4)" by (simp_all add: slot_def)
  have hf: "heap_frame vh0 3 = 0x3000" "heap_frame vh0 4 = 0x4000"
    by (simp_all add: heap_frame_def sl pm frames)
  have "heap_pages vh0 3 2"
    unfolding heap_pages_def pages
    by (simp add: sl pm frames tf vm1_table_frame pf word_le_nat_alt hf)
  with ok show ?thesis by (simp add: heap_st_def heap_mem_def)
qed

lemma vh_heap: "heap_st 3 2 mem_vh vh"
proof -
  have at: "at 3 2 0x3000" "at 3 2 0x3004" "at 3 2 0x3014" "at 3 2 0x3FF8" "at 3 2 0x3FFC"
    by (simp_all add: at_def)
  show ?thesis
    unfolding vh_def mem_vh_def
    by (intro store_at(2) vh0_heap at)
qed

lemma vh_inv: "heap_inv heap_vh 3 2 mem_vh chunks_vh vh"
proof -
  have ok: "addr_ok 0x3000" "addr_ok 0x3004" "addr_ok 0x3014" "addr_ok 0x3FF8" "addr_ok 0x3FFC"
    by (simp_all add: addr_ok_def)
  have "heap_chunks mem_vh 0x3000 False chunks_vh"
    using ok by (simp add: heap_chunks_def chunks_vh_def mem_vh_def wd_put hdr_def)
  then show ?thesis
    using vh_heap K_STACK_START_bound
    by (simp add: heap_inv_def heap_vh_def fits_def chunks_vh_def)
qed

lemma vh_blocks: "heap_blocks heap_vh chunks_vh = {(0x3004, 0), (0x3008, 12)}"
  by (auto simp: heap_vh_def chunks_vh_def)

text \<open>A request that some free chunk can serve is served by the first such chunk, which is split.\<close>

lemma malloc_reuses:
  assumes inv: "heap_inv heap v n m cs s" and sz: "sz \<noteq> 0" "unat sz \<le> 0xFFFFFFF0"
    and fit: "first_fit (block_size sz) cs = Some (xs, c, ys)"
  shows "\<exists>s' m'. lxmalloc sz heap s = Some (BPTR (of_nat (unat (hp_start heap) + extent xs)), heap, s')
    \<and> heap_inv heap v n m' (xs @ placed (block_size sz) c @ ys) s'"
proof -
  have cs: "cs = xs @ (c, False) # ys" "block_size sz \<le> c" using first_fit_Some [OF fit] by simp_all
  note z = block_size [OF sz(2)]
  have "4 \<le> block_size sz" using z(3) by simp
  from place_inv [OF inv [unfolded cs(1)] z(2) this cs(2)] obtain s' m' where
    "place_chunk (of_nat (unat (hp_start heap) + extent xs)) (of_nat (block_size sz)) s = Some s'"
    "heap_inv heap v n m' (xs @ placed (block_size sz) c @ ys) s'" by blast
  moreover have "lx_search (hp_brk heap) (of_nat (block_size sz)) (hp_start heap) s
      = Some (Some (of_nat (unat (hp_start heap) + extent xs)))"
    using first_fit_search [OF inv, of "block_size sz"] z(4) fit by simp
  ultimately show ?thesis
    using sz(1) by (auto simp: lxmalloc_def lx_malloc_internal_def Let_def z(1) simp del: of_nat_add)
qed

section \<open>The interface to clients\<close>

definition bytes_kept :: "('s \<Rightarrow> nat \<Rightarrow> u8 option) \<Rightarrow> (nat \<times> nat) set \<Rightarrow> 's \<Rightarrow> 's \<Rightarrow> bool" where
  "bytes_kept byte B s s' \<longleftrightarrow> (\<forall>(a, k) \<in> B. \<forall>b \<in> {a ..< a + k}. byte s' b = byte s b)"

text \<open>What a client of an allocator relies on: a set \<open>B\<close> of live blocks (address and size), to
  which a request adds and from which a release removes, while the other blocks stay disjoint
  and keep their bytes.\<close>

locale block_allocator =
  fixes alloc :: "u32 \<Rightarrow> 's \<Rightarrow> (u32 \<times> 's) option"
    and release :: "u32 \<Rightarrow> 's \<Rightarrow> 's option"
    and inv :: "'s \<Rightarrow> (nat \<times> nat) set \<Rightarrow> bool"
    and byte :: "'s \<Rightarrow> nat \<Rightarrow> u8 option"
    and good :: "u32 \<Rightarrow> bool"
  assumes alloc_ok: "inv s B \<Longrightarrow> good sz \<Longrightarrow> \<exists>r s'. alloc sz s = Some (r, s') \<and> bytes_kept byte B s s'
      \<and> (if r = 0 then inv s' B
         else \<exists>k. unat sz \<le> k \<and> (unat r, k) \<notin> B \<and> inv s' (insert (unat r, k) B))"
    and release_ok: "inv s B \<Longrightarrow> (a, k) \<in> B \<Longrightarrow> \<exists>s'. release (of_nat a) s = Some s'
      \<and> inv s' (B - {(a, k)}) \<and> bytes_kept byte (B - {(a, k)}) s s'"
    and apart: "inv s B \<Longrightarrow> (a, k) \<in> B \<Longrightarrow> (b, l) \<in> B \<Longrightarrow> (a, k) = (b, l) \<or> a + k \<le> b \<or> b + l \<le> a"
begin

lemma alloc_cases:
  assumes "inv s B" "good sz"
  obtains (null) s' where "alloc sz s = Some (0, s')" "inv s' B" "bytes_kept byte B s s'"
  | (block) r s' k where "alloc sz s = Some (r, s')" "r \<noteq> 0" "unat sz \<le> k" "(unat r, k) \<notin> B"
      "inv s' (insert (unat r, k) B)" "bytes_kept byte B s s'"
proof -
  from alloc_ok [OF assms] obtain r s' where *: "alloc sz s = Some (r, s')" "bytes_kept byte B s s'"
    "if r = 0 then inv s' B else \<exists>k. unat sz \<le> k \<and> (unat r, k) \<notin> B \<and> inv s' (insert (unat r, k) B)"
    by blast
  show ?thesis using * null block by (cases "r = 0") auto
qed

lemma kept_trans: "bytes_kept byte B s t \<Longrightarrow> bytes_kept byte B t u \<Longrightarrow> bytes_kept byte B s u"
  unfolding bytes_kept_def by fastforce

text \<open>Giving a block back straight away leaves the live blocks as they were.\<close>

lemma alloc_then_release:
  assumes "inv s B" "good sz" "alloc sz s = Some (r, t)" "r \<noteq> 0"
  shows "\<exists>u. release r t = Some u \<and> inv u B \<and> bytes_kept byte B s u"
proof (cases rule: alloc_cases [OF assms(1,2), case_names null block])
  case (block r' s' k)
  with assms(3) have eq: "r' = r" "s' = t" by simp_all
  have B: "insert (unat r, k) B - {(unat r, k)} = B" using block(4) eq by simp
  have "(unat r, k) \<in> insert (unat r, k) B" by simp
  from release_ok [OF block(5) [unfolded eq] this] obtain u where
    "release r t = Some u" "inv u B" "bytes_kept byte B t u" unfolding B by auto
  then show ?thesis using kept_trans block(6) eq by blast
qed (use assms(3,4) in simp)

text \<open>Two blocks handed out one after the other do not overlap, and the second request leaves
  the bytes of the first alone.\<close>

lemma alloc_twice:
  assumes "inv s B" "good m" "good n" "alloc m s = Some (p, t)" "p \<noteq> 0" "alloc n t = Some (q, u)" "q \<noteq> 0"
  shows "(unat p + unat m \<le> unat q \<or> unat q + unat n \<le> unat p)
    \<and> (\<forall>b \<in> {unat p ..< unat p + unat m}. byte u b = byte t b) \<and> bytes_kept byte B s u"
proof (cases rule: alloc_cases [OF assms(1,2), case_names null block])
  case (block r1 s1 k)
  with assms(4) have 1: "r1 = p" "s1 = t" by simp_all
  show ?thesis
  proof (cases rule: alloc_cases [OF block(5) [unfolded 1] assms(3), case_names null block])
    case second: (block r2 s2 l)
    with assms(6) have 2: "r2 = q" "s2 = u" by simp_all
    have "unat p + k \<le> unat q \<or> unat q + l \<le> unat p"
      using apart [OF second(5) [unfolded 2], of "unat p" k "unat q" l] second(4) 2 by auto
    then have "unat p + unat m \<le> unat q \<or> unat q + unat n \<le> unat p"
      using block(3) second(3) by linarith
    moreover have "\<forall>b \<in> {unat p ..< unat p + unat m}. byte u b = byte t b"
      using second(6) block(3) 2 by (auto simp: bytes_kept_def)
    moreover have "bytes_kept byte B s u"
      using kept_trans [of B s t u] block(6) second(6) 1 2 by (auto simp: bytes_kept_def)
    ultimately show ?thesis by blast
  qed (use assms(6,7) in simp)
qed (use assms(4,5) in simp)

end

type_synonym 'a heap_machine = "heap_context \<times> 'a vm_scheme"

definition malloc_step :: "u32 \<Rightarrow> 'a heap_machine \<Rightarrow> (u32 \<times> 'a heap_machine) option" where
  "malloc_step sz = (\<lambda>(heap, s). lxmalloc sz heap s)"

definition free_step :: "u32 \<Rightarrow> 'a heap_machine \<Rightarrow> 'a heap_machine option" where
  "free_step ptr = (\<lambda>(heap, s). map_option (Pair heap) (lxfree ptr s))"

definition live_blocks :: "'a heap_machine \<Rightarrow> (nat \<times> nat) set \<Rightarrow> bool" where
  "live_blocks = (\<lambda>(heap, s) B. \<exists>v n m cs. heap_inv heap v n m cs s \<and> B = heap_blocks heap cs)"

definition heap_byte :: "'a heap_machine \<Rightarrow> nat \<Rightarrow> u8 option" where
  "heap_byte = (\<lambda>(heap, s) b. vload8 s (of_nat b))"

definition servable :: "u32 \<Rightarrow> bool" where
  "servable sz \<longleftrightarrow> sz \<noteq> 0 \<and> unat sz \<le> 0xFFFFFFF0"

lemma block_byte:
  assumes "heap_inv heap v n m cs s" "(a, k) \<in> heap_blocks heap cs" "b \<in> {a ..< a + k}"
  shows "heap_byte (heap, s) b = Some (m (of_nat b))"
proof -
  have "in_pages v n (of_nat b)"
    using block_in_pages [OF assms(1,2)] assms(3) by (intro in_pages_nat) simp_all
  then show ?thesis by (simp add: heap_byte_def heap_load8 [OF heap_invD(1) [OF assms(1)]])
qed

lemma same_blocks_bytes:
  assumes "heap_inv heap v n m cs s" "heap_inv heap' v' n' m' cs' s'" "same_blocks B m m'"
    "B \<subseteq> heap_blocks heap cs" "B \<subseteq> heap_blocks heap' cs'"
  shows "bytes_kept heap_byte B (heap, s) (heap', s')"
  unfolding bytes_kept_def
proof clarify
  fix a k b
  assume ak: "(a, k) \<in> B" and b: "b \<in> {a ..< a + k}"
  then have "m' (of_nat b) = m (of_nat b)" using assms(3) by (fastforce simp: same_blocks_def)
  moreover have "(a, k) \<in> heap_blocks heap cs" "(a, k) \<in> heap_blocks heap' cs'" using ak assms(4,5) by blast+
  ultimately show "heap_byte (heap', s') b = heap_byte (heap, s) b"
    using block_byte [OF assms(1) _ b] block_byte [OF assms(2) _ b] by simp
qed

lemma vh_live: "live_blocks (heap_vh, vh) {(0x3004, 0), (0x3008, 12)}"
  using vh_inv vh_blocks [symmetric] unfolding live_blocks_def prod.case by blast

lemma vh_malloc:
  obtains s t m m' where "malloc_step 20 (heap_vh, vh) = Some (0x3018, heap_vh, s)"
    "malloc_step 100 (heap_vh, s) = Some (0x3030, heap_vh, t)"
    "heap_inv heap_vh 3 2 m [(4, True), (16, True), (24, True), (0xFD0, False)] s"
    "heap_inv heap_vh 3 2 m' [(4, True), (16, True), (24, True), (104, True), (0xF68, False)] t"
proof -
  have sz: "unat (20 :: u32) \<le> 0xFFFFFFF0" "unat (100 :: u32) \<le> 0xFFFFFFF0" "(20 :: u32) \<noteq> 0" "(100 :: u32) \<noteq> 0" by simp_all
  have f: "first_fit (block_size 20) chunks_vh = Some ([(4, True), (16, True)], 0xFE8, [])"
    by (simp add: chunks_vh_def block_size_def)
  obtain s m where 1: "lxmalloc 20 heap_vh vh = Some (0x3018, heap_vh, s)"
    "heap_inv heap_vh 3 2 m [(4, True), (16, True), (24, True), (0xFD0, False)] s"
    using malloc_reuses [OF vh_inv sz(3,1) f]
    by (auto simp: placed_def block_size_def heap_vh_def BPTR_def WSIZE_def)
  have g: "first_fit (block_size 100) [(4, True), (16, True), (24, True), (0xFD0, False)]
      = Some ([(4, True), (16, True), (24, True)], 0xFD0, [])" by (simp add: block_size_def)
  obtain t m' where 2: "lxmalloc 100 heap_vh s = Some (0x3030, heap_vh, t)"
    "heap_inv heap_vh 3 2 m' [(4, True), (16, True), (24, True), (104, True), (0xF68, False)] t"
    using malloc_reuses [OF 1(2) sz(4,2) g]
    by (auto simp: placed_def block_size_def heap_vh_def BPTR_def WSIZE_def)
  show ?thesis using that [of s t m m'] 1 2 by (simp add: malloc_step_def)
qed

interpretation kheap: block_allocator malloc_step free_step live_blocks heap_byte servable
proof unfold_locales
  fix h :: "'a heap_machine" and B :: "(nat \<times> nat) set"
  assume B: "live_blocks h B"
  obtain heap s where h: "h = (heap, s)" by fastforce
  from B obtain v n m cs where inv: "heap_inv heap v n m cs s" and Bc: "B = heap_blocks heap cs"
    unfolding h live_blocks_def by auto
  show "(a, k) = (b, l) \<or> a + k \<le> b \<or> b + l \<le> a" if "(a, k) \<in> B" "(b, l) \<in> B" for a k b l
    by (rule blocks_disjoint [OF heap_invD(7) [OF inv]]) (use that Bc in simp_all)
  show "\<exists>s'. free_step (of_nat a) h = Some s' \<and> live_blocks s' (B - {(a, k)})
      \<and> bytes_kept heap_byte (B - {(a, k)}) h s'" if ak: "(a, k) \<in> B" for a k
  proof -
    obtain s' m' cs' where f: "lxfree (of_nat a) s = Some s'" "heap_inv heap v n m' cs' s'"
      "heap_blocks heap cs' = heap_blocks heap cs - {(a, k)}" "same_blocks (heap_blocks heap cs') m m'"
      by (rule free_block [OF inv ak [unfolded Bc]])
    have "bytes_kept heap_byte (heap_blocks heap cs') (heap, s) (heap, s')"
      by (rule same_blocks_bytes [OF inv f(2,4)]) (use f(3) in auto)
    moreover have "live_blocks (heap, s') (heap_blocks heap cs')" using f(2) unfolding live_blocks_def by blast
    ultimately show ?thesis using f(1,3) h Bc by (auto simp: free_step_def)
  qed
  show "\<exists>r s'. malloc_step sz h = Some (r, s') \<and> bytes_kept heap_byte B h s'
      \<and> (if r = 0 then live_blocks s' B
         else \<exists>k. unat sz \<le> k \<and> (unat r, k) \<notin> B \<and> live_blocks s' (insert (unat r, k) B))"
    if sz: "servable sz" for sz
  proof -
    have sz': "sz \<noteq> 0" "unat sz \<le> 0xFFFFFFF0" using sz by (simp_all add: servable_def)
    show ?thesis
    proof (cases rule: malloc_spec [OF inv sz', case_names oom block])
      case (oom s')
      have "bytes_kept heap_byte B (heap, s) (heap, s')"
        by (rule same_blocks_bytes [OF inv oom(2) same_blocks_refl]) (simp_all add: Bc)
      moreover have "live_blocks (heap, s') B" using oom(2) Bc unfolding live_blocks_def by blast
      ultimately show ?thesis using oom(1) by (simp add: malloc_step_def lxmalloc_def h)
    next
      case (block r heap' s' n' m' cs')
      let ?k = "block_size sz - 4"
      have g: "r \<noteq> 0" "heap_blocks heap' cs' = insert (unat r, ?k) B" "(unat r, ?k) \<notin> B" "same_blocks B m m'"
        using block(3) by (simp_all add: granted_def Bc)
      have "bytes_kept heap_byte B (heap, s) (heap', s')"
        by (rule same_blocks_bytes [OF inv block(2) g(4)]) (use g(2) Bc in auto)
      moreover have "live_blocks (heap', s') (insert (unat r, ?k) B)"
        using block(2) g(2) [symmetric] unfolding live_blocks_def by blast
      moreover have "unat sz \<le> ?k" using block_size(3) [OF sz'(2)] by simp
      ultimately show ?thesis using block(1) g(1,3) by (auto simp: malloc_step_def lxmalloc_def h)
    qed
  qed
qed

section \<open>A heap that cannot grow\<close>

lemma vpn_page_end:
  assumes "unat a mod 4096 = 4092" "unat a + unat d < 4294967296" "4 \<le> unat d"
  shows "vpn a \<noteq> vpn (a + d)"
proof -
  have "unat (a + d) = unat a + unat d" using assms(2) by (rule unat_add_u32)
  moreover obtain q where q: "unat a = 4096 * q + 4092" using assms(1) by (metis mult_div_mod_eq)
  ultimately have "(q + 1) * 4096 \<le> unat (a + d)" using assms(3) by simp
  then have "q + 1 \<le> unat (a + d) div 4096" by (simp add: less_eq_div_iff_mult_less_eq)
  moreover have "unat a div 4096 = q" using q by simp
  ultimately show ?thesis by (simp add: vpn_def)
qed

lemma vpn_page_next:
  assumes "unat a mod 4096 = 4092" "unat a + 4 < 4294967296"
  shows "vpn (a + 4) = vpn a + 1"
proof -
  obtain q where q: "unat a = 4096 * q + 4092" using assms(1) by (metis mult_div_mod_eq)
  have "unat (a + 4) = 4096 * (q + 1)" using assms(2) q by (subst unat_add_u32) simp_all
  then show ?thesis using q by (simp add: vpn_def)
qed

lemma grow_stuck:
  assumes inv: "heap_inv heap v n m cs s" and z: "4 dvd z" "4 \<le> z" "z + 4 < 4294967296"
    and brk_end: "unat (hp_brk heap) mod 4096 = 4092" and mapped: "vpn (hp_brk heap) + 1 < v + n"
  shows "\<exists>s'. lx_grow_heap heap (of_nat z) s = Some (0, heap, s') \<and> heap_inv heap v n m cs s'"
proof -
  note I = heap_invD [OF inv]
  let ?sz = "of_nat (z + 4) :: u32"
  have sz: "?sz \<noteq> 0" "aligned4 ?sz" "unat ?sz = z + 4"
    using z of_nat_inject_u32 [of "z + 4" 0] by (simp_all add: aligned4_of_nat del: of_nat_add)
  have "at v n (unat (hp_brk heap))"
    using I(3,8,10) by (auto intro!: fits_at [OF I(3)] simp: fits_def)
  from at_addr(1) [OF I(1) this] have brk: "in_pages v n (hp_brk heap)" by simp
  have "\<exists>s'. lxbrk heap ?sz s = Some (0, heap, s') \<and> heap_st v n m s'"
  proof (cases rule: lxbrk_spec [OF I(1) sz(1,2) brk I(6), case_names fail ok])
    case (ok s' n' m')
    have "unat (hp_brk heap) + unat ?sz < 4294967296"
      using ok(5) unat_lt32 [of "hp_max_addr heap"] by linarith
    then have "vpn (hp_brk heap) \<noteq> vpn (hp_brk heap + ?sz)"
      using brk_end z sz(3) by (intro vpn_page_end) simp_all
    then show ?thesis by (rule lxbrk_refused [OF I(1) sz(1,2) brk I(6) mapped])
  qed blast
  then obtain s' where s': "lxbrk heap ?sz s = Some (0, heap, s')" "heap_st v n m s'" by blast
  have "(of_nat z :: u32) + WSIZE = ?sz" by (simp add: WSIZE_def)
  then have "lx_grow_heap heap (of_nat z) s = Some (0, heap, s')"
    using s'(1) by (simp add: lx_grow_heap_def del: of_nat_add)
  moreover have "heap_inv heap v n m cs s'" using inv s'(2) by (simp add: heap_inv_def)
  ultimately show ?thesis by blast
qed

text \<open>A growth that ends at the last word of a page leaves the page after it mapped.\<close>

lemma grow_to_page_end:
  assumes inv: "heap_inv heap v n m cs s" and z: "4 dvd z" "4 \<le> z" "z + 4 < 4294967296"
    and run: "lx_grow_heap heap (of_nat z) s = Some (r, heap', s')" "r \<noteq> 0"
    and page_end: "unat (hp_brk heap') mod 4096 = 4092"
  shows "\<exists>n' m' cs'. heap_inv heap' v n' m' cs' s' \<and> vpn (hp_brk heap') + 1 < v + n'"
proof (cases rule: grow_heap_spec [OF inv z, case_names fail ok])
  case (ok s1 n' m' q)
  then have eq: "heap' = heap\<lparr>hp_brk := hp_brk heap + of_nat z\<rparr>" "s1 = s'" using run by simp_all
  note I = heap_invD [OF ok(2)]
  let ?b = "hp_brk heap + of_nat z"
  have b: "unat ?b mod 4096 = 4092" using page_end eq by simp
  have "unat ?b = unat (hp_start heap) + extent (merged cs z [])"
    "unat (hp_start heap) + extent (merged cs z []) + 4 \<le> 4096 * (1023 * 1024)"
    using I(8,9) by simp_all
  then have "unat ?b + 4 < 4294967296" by linarith
  with b have "vpn (?b + 4) = vpn ?b + 1" by (rule vpn_page_next)
  moreover have "?b + 4 = hp_brk heap + of_nat (z + 4)" by simp
  ultimately have "vpn ?b + 1 < v + n'" using ok(5) by (simp only:)
  then show ?thesis using ok(2) eq by auto
qed (use run in simp)

section \<open>Properties\<close>

text \<open>C1: \<^verbatim>\<open>lxmalloc\<close> returns for every request of 1 to \<open>0xFFFFFFF0\<close> bytes and keeps the heap
  well-formed, whether it reuses a chunk, splits one or grows the heap. A non-NULL answer is the
  payload of one new block, large enough for the request, added to the blocks in use, whose
  contents are what they were; NULL means no free chunk was large enough, and nothing changed.\<close>

theorem lxmalloc_correct:
  assumes "heap_inv heap v n m cs s" "sz \<noteq> 0" "unat sz \<le> 0xFFFFFFF0"
  shows "\<exists>r heap' s' n' m' cs'. lxmalloc sz heap s = Some (r, heap', s') \<and> heap_inv heap' v n' m' cs' s'
    \<and> same_blocks (heap_blocks heap cs) m m'
    \<and> (if r = 0 then heap' = heap \<and> cs' = cs \<and> first_fit (block_size sz) cs = None
       else unat sz \<le> block_size sz - 4 \<and> (unat r, block_size sz - 4) \<notin> heap_blocks heap cs
         \<and> heap_blocks heap' cs' = insert (unat r, block_size sz - 4) (heap_blocks heap cs))"
proof (cases rule: malloc_spec [OF assms, case_names oom block])
  case (oom s')
  then show ?thesis
    by (intro exI [of _ 0] exI [of _ heap] exI [of _ s'] exI [of _ n] exI [of _ m] exI [of _ cs])
      (simp add: lxmalloc_def)
next
  case (block r heap' s' n' m' cs')
  then show ?thesis using block_size(3) [OF assms(3)]
    by (intro exI [of _ r] exI [of _ heap'] exI [of _ s'] exI [of _ n'] exI [of _ m'] exI [of _ cs'])
      (simp add: lxmalloc_def granted_def)
qed

lemma lxmalloc_correct_witness:
  "\<exists>r heap' s' n' m' cs'. lxmalloc 20 heap_vh vh = Some (r, heap', s') \<and> heap_inv heap' 3 n' m' cs' s'
    \<and> same_blocks (heap_blocks heap_vh chunks_vh) mem_vh m'
    \<and> (if r = 0 then heap' = heap_vh \<and> cs' = chunks_vh \<and> first_fit (block_size 20) chunks_vh = None
       else unat (20 :: u32) \<le> block_size 20 - 4 \<and> (unat r, block_size 20 - 4) \<notin> heap_blocks heap_vh chunks_vh
         \<and> heap_blocks heap' cs' = insert (unat r, block_size 20 - 4) (heap_blocks heap_vh chunks_vh))"
  by (rule lxmalloc_correct [OF vh_inv]) simp_all

text \<open>C2: releasing a block in use with \<^verbatim>\<open>lxfree\<close> returns, keeps the heap well-formed (headers,
  footers and flags agree, and no two free chunks are adjacent), takes exactly that block out
  of use and leaves the bytes of every other block alone.\<close>

theorem lxfree_correct:
  assumes "heap_inv heap v n m cs s" "(a, k) \<in> heap_blocks heap cs"
  shows "\<exists>s' m' cs'. lxfree (of_nat a) s = Some s' \<and> heap_inv heap v n m' cs' s'
    \<and> heap_blocks heap cs' = heap_blocks heap cs - {(a, k)} \<and> same_blocks (heap_blocks heap cs') m m'"
  using free_block [OF assms] by metis

lemma lxfree_correct_witness:
  "\<exists>s' m' cs'. lxfree (of_nat 0x3008) vh = Some s' \<and> heap_inv heap_vh 3 2 m' cs' s'
    \<and> heap_blocks heap_vh cs' = heap_blocks heap_vh chunks_vh - {(0x3008, 12)}
    \<and> same_blocks (heap_blocks heap_vh cs') mem_vh m'"
  by (rule lxfree_correct [OF vh_inv]) (simp add: vh_blocks)

text \<open>C15: blocks handed out by two successive calls of \<^verbatim>\<open>lxmalloc\<close> do not overlap, the second
  call leaves the bytes of the first block alone, and both leave every older block alone.\<close>

theorem lxmalloc_twice_disjoint:
  assumes "live_blocks h B" "servable j" "servable k" "malloc_step j h = Some (p, h')" "p \<noteq> 0"
    "malloc_step k h' = Some (q, h'')" "q \<noteq> 0"
  shows "(unat p + unat j \<le> unat q \<or> unat q + unat k \<le> unat p)
    \<and> (\<forall>b \<in> {unat p ..< unat p + unat j}. heap_byte h'' b = heap_byte h' b) \<and> bytes_kept heap_byte B h h''"
  by (rule kheap.alloc_twice [OF assms])

lemma lxmalloc_twice_disjoint_witness:
  "\<exists>p h' q h''. malloc_step 20 (heap_vh, vh) = Some (p, h') \<and> malloc_step 100 h' = Some (q, h'') \<and> p \<noteq> 0 \<and> q \<noteq> 0
    \<and> (unat p + unat (20 :: u32) \<le> unat q \<or> unat q + unat (100 :: u32) \<le> unat p)
    \<and> (\<forall>b \<in> {unat p ..< unat p + unat (20 :: u32)}. heap_byte h'' b = heap_byte h' b)
    \<and> bytes_kept heap_byte {(0x3004, 0), (0x3008, 12)} (heap_vh, vh) h''"
proof -
  obtain s t m m' where st: "malloc_step 20 (heap_vh, vh) = Some (0x3018, heap_vh, s)"
    "malloc_step 100 (heap_vh, s) = Some (0x3030, heap_vh, t)" by (rule vh_malloc)
  have g: "servable 20" "servable 100" by (simp_all add: servable_def)
  have "(0x3018 :: u32) \<noteq> 0" "(0x3030 :: u32) \<noteq> 0" by simp_all
  with st lxmalloc_twice_disjoint [OF vh_live g st(1) this(1) st(2) this(2)] show ?thesis by blast
qed

text \<open>C16: a successful \<^verbatim>\<open>lxmalloc\<close> followed by \<^verbatim>\<open>lxfree\<close> of its result succeeds, restores the
  set of blocks in use and leaves their bytes as they were.\<close>

theorem lxmalloc_lxfree_roundtrip:
  assumes "live_blocks h B" "servable sz" "malloc_step sz h = Some (r, h')" "r \<noteq> 0"
  shows "\<exists>h''. free_step r h' = Some h'' \<and> live_blocks h'' B \<and> bytes_kept heap_byte B h h''"
  by (rule kheap.alloc_then_release [OF assms])

lemma lxmalloc_lxfree_roundtrip_witness:
  "\<exists>r h' h''. malloc_step 20 (heap_vh, vh) = Some (r, h') \<and> r \<noteq> 0 \<and> free_step r h' = Some h''
    \<and> live_blocks h'' {(0x3004, 0), (0x3008, 12)} \<and> bytes_kept heap_byte {(0x3004, 0), (0x3008, 12)} (heap_vh, vh) h''"
proof -
  obtain s t m m' where st: "malloc_step 20 (heap_vh, vh) = Some (0x3018, heap_vh, s)" by (rule vh_malloc)
  have g: "servable 20" "(0x3018 :: u32) \<noteq> 0" by (simp_all add: servable_def)
  with st lxmalloc_lxfree_roundtrip [OF vh_live g(1) st g(2)] show ?thesis by blast
qed

text \<open>C24: \<^verbatim>\<open>lxcalloc\<close>, for a product that fits the address space, behaves as \<^verbatim>\<open>lxmalloc\<close> of the product and
  the block it returns is filled with zeros.\<close>

theorem lxcalloc_correct:
  assumes "heap_inv heap v n m cs s" "unat k * unat e \<noteq> 0" "unat k * unat e \<le> 0xFFFFFFF0"
  shows "\<exists>r heap' s' n' m' cs'. lxcalloc k e heap s = Some (r, heap', s') \<and> heap_inv heap' v n' m' cs' s'
    \<and> same_blocks (heap_blocks heap cs) m m'
    \<and> (if r = 0 then heap' = heap \<and> cs' = cs \<and> first_fit (block_size (k * e)) cs = None
       else (unat r, block_size (k * e) - 4) \<notin> heap_blocks heap cs
         \<and> heap_blocks heap' cs' = insert (unat r, block_size (k * e) - 4) (heap_blocks heap cs)
         \<and> (\<forall>b < unat k * unat e. m' (r + of_nat b) = 0))"
proof (cases rule: calloc_spec [OF assms, case_names oom block])
  case (oom s')
  then show ?thesis
    by (intro exI [of _ 0] exI [of _ heap] exI [of _ s'] exI [of _ n] exI [of _ m] exI [of _ cs]) simp
next
  case (block r heap' s' n' m' cs')
  have "unat (k * e) = unat k * unat e" using assms(3) by (intro unat_mult_u32) simp
  then show ?thesis using block
    by (intro exI [of _ r] exI [of _ heap'] exI [of _ s'] exI [of _ n'] exI [of _ m'] exI [of _ cs'])
      (simp add: granted_def)
qed

lemma lxcalloc_correct_witness:
  "\<exists>r heap' s' n' m' cs'. lxcalloc 3 8 heap_vh vh = Some (r, heap', s') \<and> heap_inv heap' 3 n' m' cs' s'
    \<and> same_blocks (heap_blocks heap_vh chunks_vh) mem_vh m'
    \<and> (if r = 0 then heap' = heap_vh \<and> cs' = chunks_vh \<and> first_fit (block_size (3 * 8)) chunks_vh = None
       else (unat r, block_size (3 * 8) - 4) \<notin> heap_blocks heap_vh chunks_vh
         \<and> heap_blocks heap' cs' = insert (unat r, block_size (3 * 8) - 4) (heap_blocks heap_vh chunks_vh)
         \<and> (\<forall>b < unat (3 :: u32) * unat (8 :: u32). m' (r + of_nat b) = 0))"
  by (rule lxcalloc_correct [OF vh_inv]) simp_all

text \<open>The overflow test of \<^verbatim>\<open>lxcalloc\<close> compares the wrapped product with the factors and misses
  products that wrap to something large enough: asking for \<open>0x20000\<close> elements of \<open>0x10001\<close> bytes
  (more than 8 GiB) is served as a request for \<open>0x20000\<close> bytes.\<close>

theorem lxcalloc_overflow_undetected:
  "unat (0x20000 :: u32) * unat (0x10001 :: u32) = 8590065664 \<and>
   lxcalloc 0x20000 0x10001 heap s = lxcalloc 0x20000 1 heap s"
proof -
  have eq: "(0x20000 :: u32) * 0x10001 = 0x20000" "(0x20000 :: u32) * 1 = 0x20000" by simp_all
  have "lxcalloc 0x20000 0x10001 heap s = lxcalloc 0x20000 1 heap s"
    unfolding lxcalloc_def eq by simp
  then show ?thesis by simp
qed

text \<open>A request of \<open>0xFFFFFFFC\<close> bytes does not fail when there is any free chunk: adding
  the header size wraps, the first free chunk is returned but stays free, and asking again returns
  the same address.\<close>

theorem lxmalloc_wraps_at_top:
  assumes "heap_inv heap v n m cs s" "first_fit 0 cs = Some (xs, c, ys)"
  shows "\<exists>s' s'' m' m'' p. p \<noteq> 0 \<and> lxmalloc 0xFFFFFFFC heap s = Some (p, heap, s') \<and> heap_inv heap v n m' cs s'
    \<and> lxmalloc 0xFFFFFFFC heap s' = Some (p, heap, s'') \<and> heap_inv heap v n m'' cs s''"
proof -
  let ?p = "unat (hp_start heap) + extent xs"
  have cs: "cs = xs @ (c, False) # ys" using first_fit_Some [OF assms(2)] by simp
  have z: "ROUNDUP (0xFFFFFFFC + WSIZE) BOUNDARY = 0" by (simp add: ROUNDUP_def WSIZE_def BOUNDARY_def)
  have step: "\<exists>s' m'. lxmalloc 0xFFFFFFFC heap t = Some (BPTR (of_nat ?p), heap, s') \<and> heap_inv heap v n m' cs s'"
    if t: "heap_inv heap v n mt cs t" for mt t
  proof -
    obtain s' m' where "place_chunk (of_nat ?p) 0 t = Some s'" "heap_inv heap v n m' cs s'"
      unfolding cs by (rule place_zero [OF t [unfolded cs] refl]) blast
    moreover have "lx_search (hp_brk heap) 0 (hp_start heap) t = Some (Some (of_nat ?p))"
      using first_fit_search [OF t, of 0] assms(2) by simp
    ultimately show ?thesis
      by (auto simp: lxmalloc_def lx_malloc_internal_def z Let_def simp del: of_nat_add)
  qed
  have "?p + 4 < 4294967296" using heap_invD(9) [OF assms(1)] cs by simp
  moreover from this have "unat (of_nat ?p :: u32) = ?p" by (intro unat_of_nat_u32) simp
  ultimately have "unat (BPTR (of_nat ?p)) = ?p + 4"
    unfolding BPTR_def WSIZE_def by (subst unat_add_u32) (simp_all del: of_nat_add)
  then have "BPTR (of_nat ?p) \<noteq> 0" by auto
  then show ?thesis using step [OF assms(1)] step by metis
qed

lemma lxmalloc_wraps_at_top_witness:
  "\<exists>s' s'' m' m'' p. p \<noteq> 0 \<and> lxmalloc 0xFFFFFFFC heap_vh vh = Some (p, heap_vh, s') \<and> heap_inv heap_vh 3 2 m' chunks_vh s'
    \<and> lxmalloc 0xFFFFFFFC heap_vh s' = Some (p, heap_vh, s'') \<and> heap_inv heap_vh 3 2 m'' chunks_vh s''"
  by (rule lxmalloc_wraps_at_top [OF vh_inv, of "[(4, True), (16, True)]" "0xFE8" "[]"])
    (simp add: chunks_vh_def)

text \<open>C26: when the break is the last word of a page and the next page is already mapped (what a growth
  that ends there leaves behind), the heap never grows again, however many frames are free: every
  request no free chunk can serve is refused.\<close>

theorem lxmalloc_stuck_at_page_end:
  assumes "heap_inv heap v n m cs s" "unat (hp_brk heap) mod 4096 = 4092" "vpn (hp_brk heap) + 1 < v + n"
    "sz \<noteq> 0" "unat sz \<le> 0xFFFFFFF0" "first_fit (block_size sz) cs = None"
  shows "\<exists>s'. lxmalloc sz heap s = Some (0, heap, s') \<and> heap_inv heap v n m cs s'"
proof -
  note z = block_size [OF assms(5)]
  have "4 \<le> block_size sz" using z(3) by simp
  from grow_stuck [OF assms(1) z(2) this z(4) assms(2,3)] obtain s' where
    "lx_grow_heap heap (of_nat (block_size sz)) s = Some (0, heap, s')" "heap_inv heap v n m cs s'" by blast
  moreover have "lx_search (hp_brk heap) (of_nat (block_size sz)) (hp_start heap) s = Some None"
    using first_fit_search [OF assms(1), of "block_size sz"] z(4) assms(6) by simp
  ultimately show ?thesis using assms(4) by (simp add: lxmalloc_def lx_malloc_internal_def Let_def z(1))
qed

lemma lxmalloc_stuck_at_page_end_witness:
  "\<exists>s'. lxmalloc 8000 heap_vh vh = Some (0, heap_vh, s') \<and> heap_inv heap_vh 3 2 mem_vh chunks_vh s'"
  by (rule lxmalloc_stuck_at_page_end [OF vh_inv])
    (simp_all add: heap_vh_def chunks_vh_def block_size_def vpn_def)

text \<open>C23: \<^verbatim>\<open>kalloc_init\<close>, on a page-aligned heap start whose page is not yet mapped, returns; when
  it answers success the heap is well-formed and consists of the prologue and one free
  chunk of 4096 bytes.\<close>

theorem kalloc_init_correct:
  assumes "vm_ok s" "page_aligned start" "start \<noteq> 0" "L1_INDEX start < 1023" "pagemap s (va_idx start) = None"
  shows "\<exists>b heap s'. kalloc_init start s = Some (b, heap, s')
    \<and> (b \<longrightarrow> hp_start heap = start \<and> (\<exists>n m. heap_inv heap (vpn start) n m [(4, True), (4096, False)] s'))"
  by (rule kalloc_init_spec [OF assms])

lemma kalloc_init_correct_witness:
  "\<exists>b heap s'. kalloc_init 0x6000 vm1 = Some (b, heap, s')
    \<and> (b \<longrightarrow> hp_start heap = 0x6000 \<and> (\<exists>n m. heap_inv heap (vpn 0x6000) n m [(4, True), (4096, False)] s'))"
  by (rule kalloc_init_correct [OF vm1_ok])
    (simp_all add: page_aligned_def PG_OFFSET_def L1_INDEX_def vm1_pagemap va_idx_def L2_INDEX_def drop_bit_eq_div)

end
