(* ===== verification/KString.thy ===== *)
theory KString
  imports Memory
begin

text \<open>
  The memory and string functions of the kernel's C library, \<^verbatim>\<open>libs/klibc/string\<close>, over
  byte-addressed memory. Pointers are 32-bit addresses; each loop is a recursion on what it
  still has to do, or a partial function where only the contents of memory end it.
\<close>

unbundle bit_operations_syntax

section \<open>mem.c\<close>

text \<open>The loops; the first argument counts the iterations left, \<open>i\<close> is the loop variable.\<close>

fun copy_up :: "nat \<Rightarrow> u32 \<Rightarrow> u32 \<Rightarrow> u32 \<Rightarrow> mem \<Rightarrow> mem" where
  "copy_up 0 i dest src m = m"
| "copy_up (Suc n) i dest src m = copy_up n (i + 1) dest src (m(dest + i := m (src + i)))"

fun copy_down :: "nat \<Rightarrow> u32 \<Rightarrow> u32 \<Rightarrow> mem \<Rightarrow> mem" where
  "copy_down 0 dest src m = m"
| "copy_down (Suc n) dest src m =
    (let i = of_nat (Suc n) in copy_down n dest src (m(dest + i - 1 := m (src + i - 1))))"

definition memcpy :: "u32 \<Rightarrow> u32 \<Rightarrow> u32 \<Rightarrow> mem \<Rightarrow> u32 \<times> mem" where
  "memcpy dest src num m = (dest, copy_up (unat num) 0 dest src m)"

definition memmove :: "u32 \<Rightarrow> u32 \<Rightarrow> u32 \<Rightarrow> mem \<Rightarrow> u32 \<times> mem" where
  "memmove dest src num m =
    (if dest < src then (dest, copy_up (unat num) 0 dest src m)
     else (dest, copy_down (unat num) dest src m))"

fun set_up :: "nat \<Rightarrow> u32 \<Rightarrow> u32 \<Rightarrow> u8 \<Rightarrow> mem \<Rightarrow> mem" where
  "set_up 0 i c_ptr value m = m"
| "set_up (Suc n) i c_ptr value m = set_up n (i + 1) c_ptr value (m(c_ptr + i := value))"

definition memset :: "u32 \<Rightarrow> u32 \<Rightarrow> u32 \<Rightarrow> mem \<Rightarrow> u32 \<times> mem" where
  "memset ptr value num m = (ptr, set_up (unat num) 0 ptr (ucast value) m)"

fun cmp_up :: "nat \<Rightarrow> u32 \<Rightarrow> u32 \<Rightarrow> u32 \<Rightarrow> mem \<Rightarrow> int" where
  "cmp_up 0 i p1 p2 m = 0"
| "cmp_up (Suc n) i p1 p2 m =
    (let diff = uint (m (p1 + i)) - uint (m (p2 + i)) in
     if diff \<noteq> 0 then diff else cmp_up n (i + 1) p1 p2 m)"

definition memcmp :: "u32 \<Rightarrow> u32 \<Rightarrow> u32 \<Rightarrow> mem \<Rightarrow> int" where
  "memcmp ptr1 ptr2 num m = cmp_up (unat num) 0 ptr1 ptr2 m"

section \<open>strlen.c, strchr.c, strcpy.c\<close>

partial_function (option) strlen_from :: "u32 \<Rightarrow> u32 \<Rightarrow> mem \<Rightarrow> u32 option" where
  "strlen_from len str m = (if m (str + len) \<noteq> 0 then strlen_from (len + 1) str m else Some len)"

definition strlen :: "u32 \<Rightarrow> mem \<Rightarrow> u32 option" where
  "strlen str m = strlen_from 0 str m"

partial_function (option) strnlen_from :: "u32 \<Rightarrow> u32 \<Rightarrow> u32 \<Rightarrow> mem \<Rightarrow> u32 option" where
  "strnlen_from len str max_len m =
    (if m (str + len) \<noteq> 0 \<and> len \<le> max_len then strnlen_from (len + 1) str max_len m else Some len)"

definition strnlen :: "u32 \<Rightarrow> u32 \<Rightarrow> mem \<Rightarrow> u32 option" where
  "strnlen str max_len m = strnlen_from 0 str max_len m"

partial_function (option) strchr_loop :: "u32 \<Rightarrow> u8 \<Rightarrow> mem \<Rightarrow> u32 option" where
  "strchr_loop str c m =
    (if m str \<noteq> 0 then if m str = c then Some str else strchr_loop (str + 1) c m
     else Some (if c = 0 then str else 0))"

definition strchr :: "u32 \<Rightarrow> u32 \<Rightarrow> mem \<Rightarrow> u32 option" where
  "strchr str character m = strchr_loop str (ucast character) m"

partial_function (option) strcpy_loop :: "u32 \<Rightarrow> u32 \<Rightarrow> u32 \<Rightarrow> mem \<Rightarrow> (u32 \<times> mem) option" where
  "strcpy_loop i dest src m =
    (let c = m (src + i) in
     if c \<noteq> 0 then strcpy_loop (i + 1) dest src (m(dest + i := c))
     else Some (dest, m(dest + i := 0)))"

definition strcpy :: "u32 \<Rightarrow> u32 \<Rightarrow> mem \<Rightarrow> (u32 \<times> mem) option" where
  "strcpy dest src m = strcpy_loop 0 dest src m"

text \<open>The two loops of \<^verbatim>\<open>strncpy\<close>; both are bounded by \<open>n\<close>.\<close>

function strncpy_copy :: "u32 \<Rightarrow> u32 \<Rightarrow> u32 \<Rightarrow> u32 \<Rightarrow> mem \<Rightarrow> u32 \<times> mem" where
  "strncpy_copy i dest src n m =
    (let c = m (src + i) in
     if c \<noteq> 0 \<and> i < n then strncpy_copy (i + 1) dest src n (m(dest + i := c)) else (i, m))"
  by auto

function strncpy_pad :: "u32 \<Rightarrow> u32 \<Rightarrow> u32 \<Rightarrow> mem \<Rightarrow> mem" where
  "strncpy_pad i dest n m = (if i < n then strncpy_pad (i + 1) dest n (m(dest + i := 0)) else m)"
  by auto

lemma counter_decreases: "i < (n :: u32) \<Longrightarrow> unat n - unat (i + 1) < unat n - unat i"
proof -
  assume "i < n"
  then have lt: "unat i < unat n" by (simp add: word_less_nat_alt)
  then have "unat i + 1 < 4294967296" using unat_lt32 [of n] by linarith
  then have "unat (i + 1) = unat i + 1" by (subst unat_add_u32) simp_all
  with lt show ?thesis by simp
qed

termination strncpy_copy
  by (relation "measure (\<lambda>(i, dest, src, n, m). unat n - unat i)") (auto intro: counter_decreases)

termination strncpy_pad
  by (relation "measure (\<lambda>(i, dest, n, m). unat n - unat i)") (auto intro: counter_decreases)

declare strncpy_copy.simps [simp del] strncpy_pad.simps [simp del]

definition strncpy :: "u32 \<Rightarrow> u32 \<Rightarrow> u32 \<Rightarrow> mem \<Rightarrow> u32 \<times> mem" where
  "strncpy dest src n m = (let (i, m) = strncpy_copy 0 dest src n m in (dest, strncpy_pad i dest n m))"

section \<open>Block operations\<close>

text \<open>The loops over natural number addresses. A copy is right when no source byte is overwritten
  before it is read.\<close>

lemma copy_up_spec:
  assumes "d + i + n \<le> 4294967296" "s + i + n \<le> 4294967296" "d \<le> s \<or> s + i + n \<le> d" "x < 4294967296"
  shows "copy_up n (of_nat i) (of_nat d) (of_nat s) m (of_nat x)
    = (if d + i \<le> x \<and> x < d + i + n then m (of_nat (s + (x - d))) else m (of_nat x))"
  using assms(1-3)
proof (induction n arbitrary: i m)
  case (Suc n)
  let ?m = "m(of_nat (d + i) := m (of_nat (s + i)))"
  have IH: "copy_up n (of_nat (i + 1)) (of_nat d) (of_nat s) ?m (of_nat x)
      = (if d + (i + 1) \<le> x \<and> x < d + (i + 1) + n then ?m (of_nat (s + (x - d))) else ?m (of_nat x))"
    using Suc.prems by (intro Suc.IH) auto
  have step: "copy_up (Suc n) (of_nat i) (of_nat d) (of_nat s) m
      = copy_up n (of_nat (i + 1)) (of_nat d) (of_nat s) ?m" by (simp add: add.commute)
  have eq: "(of_nat y :: u32) = of_nat (d + i) \<longleftrightarrow> y = d + i" if "y < 4294967296" for y
    using that Suc.prems by (intro of_nat_inject_u32) simp_all
  show ?case
  proof (cases "d + (i + 1) \<le> x \<and> x < d + (i + 1) + n")
    case True
    define z where "z = s + (x - d)"
    have "z < 4294967296" "z \<noteq> d + i" using Suc.prems True by (auto simp: z_def)
    then have "(of_nat z :: u32) \<noteq> of_nat (d + i)" using eq by blast
    then show ?thesis unfolding step IH z_def [symmetric] using True by (simp del: of_nat_add)
  next
    case False
    have "s + (d + i - d) = s + i" by simp
    with False show ?thesis unfolding step IH using eq [OF assms(4)] by (auto simp del: of_nat_add of_nat_diff)
  qed
qed auto

lemma copy_down_spec:
  assumes "d + n \<le> 4294967296" "s + n \<le> 4294967296" "s \<le> d \<or> d + n \<le> s" "x < 4294967296"
  shows "copy_down n (of_nat d) (of_nat s) m (of_nat x)
    = (if d \<le> x \<and> x < d + n then m (of_nat (s + (x - d))) else m (of_nat x))"
  using assms(1-3)
proof (induction n arbitrary: m)
  case (Suc n)
  let ?m = "m(of_nat (d + n) := m (of_nat (s + n)))"
  have IH: "copy_down n (of_nat d) (of_nat s) ?m (of_nat x)
      = (if d \<le> x \<and> x < d + n then ?m (of_nat (s + (x - d))) else ?m (of_nat x))"
    using Suc.prems by (intro Suc.IH) auto
  have step: "copy_down (Suc n) (of_nat d) (of_nat s) m = copy_down n (of_nat d) (of_nat s) ?m"
    by (simp add: Let_def)
  have eq: "(of_nat y :: u32) = of_nat (d + n) \<longleftrightarrow> y = d + n" if "y < 4294967296" for y
    using that Suc.prems by (intro of_nat_inject_u32) simp_all
  show ?case
  proof (cases "d \<le> x \<and> x < d + n")
    case True
    define z where "z = s + (x - d)"
    have "z < 4294967296" "z \<noteq> d + n" using Suc.prems True by (auto simp: z_def)
    then have "(of_nat z :: u32) \<noteq> of_nat (d + n)" using eq by blast
    then show ?thesis unfolding step IH z_def [symmetric] using True by (simp del: of_nat_add)
  next
    case False
    have "s + (d + n - d) = s + n" by simp
    with False show ?thesis unfolding step IH using eq [OF assms(4)] by (auto simp del: of_nat_add of_nat_diff)
  qed
qed auto

lemma set_up_spec:
  assumes "a + i + n \<le> 4294967296" "x < 4294967296"
  shows "set_up n (of_nat i) (of_nat a) c m (of_nat x) = (if a + i \<le> x \<and> x < a + i + n then c else m (of_nat x))"
  using assms(1)
proof (induction n arbitrary: i m)
  case (Suc n)
  have eq: "(of_nat x :: u32) = of_nat (a + i) \<longleftrightarrow> x = a + i"
    using assms(2) Suc.prems by (intro of_nat_inject_u32) simp_all
  have "set_up n (of_nat (i + 1)) (of_nat a) c (m(of_nat (a + i) := c)) (of_nat x)
      = (if a + (i + 1) \<le> x \<and> x < a + (i + 1) + n then c else (m(of_nat (a + i) := c)) (of_nat x))"
    using Suc.prems by (intro Suc.IH) auto
  moreover have "set_up (Suc n) (of_nat i) (of_nat a) c m
      = set_up n (of_nat (i + 1)) (of_nat a) c (m(of_nat (a + i) := c))" by (simp add: add.commute)
  ultimately show ?case using eq by (auto simp del: of_nat_add)
qed auto

lemma cmp_up_spec:
  "cmp_up n (of_nat i) p1 p2 m =
    (case find (\<lambda>k. m (p1 + of_nat k) \<noteq> m (p2 + of_nat k)) [i ..< i + n] of
       None \<Rightarrow> 0 | Some k \<Rightarrow> uint (m (p1 + of_nat k)) - uint (m (p2 + of_nat k)))"
proof (induction n arbitrary: i)
  case (Suc n)
  have up: "[i ..< i + Suc n] = i # [i + 1 ..< (i + 1) + n]" by (simp add: upt_rec)
  show ?case unfolding up using Suc.IH [of "i + 1"]
    by (auto simp: Let_def add.commute word_uint_eq_iff simp del: upt_Suc)
qed simp

section \<open>Strings\<close>

definition bytes_at :: "mem \<Rightarrow> u32 \<Rightarrow> u8 list \<Rightarrow> bool" where
  "bytes_at m a bs \<longleftrightarrow> (\<forall>k < length bs. m (a + of_nat k) = bs ! k)"

definition cstr :: "mem \<Rightarrow> u32 \<Rightarrow> u8 list \<Rightarrow> bool" where
  "cstr m a bs \<longleftrightarrow> bytes_at m a (bs @ [0]) \<and> 0 \<notin> set bs \<and> length bs < 4294967296"

lemma cstr_nth:
  assumes "cstr m a bs"
  shows "k < length bs \<Longrightarrow> m (a + of_nat k) = bs ! k" "k < length bs \<Longrightarrow> bs ! k \<noteq> 0" "m (a + of_nat (length bs)) = 0"
  using assms unfolding cstr_def bytes_at_def by (auto simp: nth_append dest: nth_mem)

lemma cstr_drop:
  assumes "cstr m a bs" "i \<le> length bs"
  shows "cstr m (a + of_nat i) (drop i bs)"
proof -
  have "m (a + of_nat i + of_nat k) = (drop i bs @ [0]) ! k" if "k < length (drop i bs @ [0])" for k
  proof -
    have "\<forall>j < length (bs @ [0]). m (a + of_nat j) = (bs @ [0]) ! j"
      using assms(1) unfolding cstr_def bytes_at_def by blast
    moreover have "i + k < length (bs @ [0])" using assms(2) that by simp
    ultimately have "m (a + of_nat (i + k)) = (bs @ [0]) ! (i + k)" by blast
    then show ?thesis using assms(2) by (auto simp: nth_append add.assoc add.commute [of k i])
  qed
  moreover have "0 \<notin> set (drop i bs)" using assms(1) set_drop_subset [of i bs] by (auto simp: cstr_def)
  moreover have "length (drop i bs) < 4294967296"
    using assms(1) by (auto simp: cstr_def intro: le_less_trans [OF diff_le_self])
  ultimately show ?thesis unfolding cstr_def bytes_at_def by blast
qed

lemma strlen_from_spec:
  assumes "cstr m a bs" "i \<le> length bs"
  shows "strlen_from (of_nat i) a m = Some (of_nat (length bs))"
  using assms(2)
proof (induction "length bs - i" arbitrary: i)
  case 0
  then have "i = length bs" by simp
  then show ?case using cstr_nth(3) [OF assms(1)] by (subst strlen_from.simps) simp
next
  case (Suc d)
  then have "i < length bs" by simp
  moreover have "strlen_from (of_nat (i + 1)) a m = Some (of_nat (length bs))"
    using Suc by (intro Suc(1)) simp_all
  ultimately show ?case
    using cstr_nth(1,2) [OF assms(1), of i] by (subst strlen_from.simps) (simp add: add.commute)
qed

lemma strnlen_from_spec:
  assumes "cstr m a bs" "i \<le> length bs" "i \<le> unat k + 1" "unat k < 4294967295"
  shows "strnlen_from (of_nat i) a k m = Some (of_nat (min (length bs) (unat k + 1)))"
  using assms(2,3)
proof (induction "length bs - i" arbitrary: i)
  case 0
  then have "i = length bs" by simp
  then show ?case using cstr_nth(3) [OF assms(1)] 0 by (subst strnlen_from.simps) simp
next
  case (Suc d)
  then have i: "i < length bs" by simp
  have len: "length bs < 4294967296" using assms(1) by (simp add: cstr_def)
  have le: "(of_nat i :: u32) \<le> k \<longleftrightarrow> i \<le> unat k" using i len by (simp add: word_le_nat_alt)
  show ?case
  proof (cases "i \<le> unat k")
    case True
    then have "strnlen_from (of_nat (i + 1)) a k m = Some (of_nat (min (length bs) (unat k + 1)))"
      using Suc by (intro Suc(1)) simp_all
    then show ?thesis
      using cstr_nth(1,2) [OF assms(1) i] True le by (subst strnlen_from.simps) (simp add: add.commute)
  next
    case False
    then have "i = unat k + 1" using Suc(4) by simp
    then show ?thesis using le False i by (subst strnlen_from.simps) simp
  qed
qed

lemma strchr_spec:
  assumes "cstr m a bs"
  shows "strchr a c m = Some (case find (\<lambda>k. (bs @ [0]) ! k = ucast c) [0 ..< length bs + 1] of
    None \<Rightarrow> 0 | Some k \<Rightarrow> a + of_nat k)"
proof -
  have "strchr_loop (a + of_nat i) (ucast c) m =
      Some (case find (\<lambda>k. (bs @ [0]) ! k = ucast c) [i ..< length bs + 1] of None \<Rightarrow> 0 | Some k \<Rightarrow> a + of_nat k)"
    if "i \<le> length bs" for i
    using that
  proof (induction "length bs - i" arbitrary: i)
    case 0
    then have i: "i = length bs" by simp
    then have up: "[i ..< length bs + 1] = [length bs]" by simp
    have "strchr_loop (a + of_nat i) (ucast c) m = Some (if (ucast c :: u8) = 0 then a + of_nat i else 0)"
      using cstr_nth(3) [OF assms] i by (subst strchr_loop.simps) simp
    then show ?case unfolding up using i by auto
  next
    case (Suc d)
    then have i: "i < length bs" by simp
    then have up: "[i ..< length bs + 1] = i # [i + 1 ..< length bs + 1]" by (simp add: upt_rec)
    have "strchr_loop (a + of_nat (i + 1)) (ucast c) m = Some (case find (\<lambda>k. (bs @ [0]) ! k = ucast c)
        [i + 1 ..< length bs + 1] of None \<Rightarrow> 0 | Some k \<Rightarrow> a + of_nat k)"
      using Suc by (intro Suc(1)) simp_all
    moreover have "a + of_nat (i + 1) = a + of_nat i + 1" by simp
    moreover have "strchr_loop (a + of_nat i) (ucast c) m
        = (if bs ! i = ucast c then Some (a + of_nat i) else strchr_loop (a + of_nat i + 1) (ucast c) m)"
      using cstr_nth(1,2) [OF assms i] by (subst strchr_loop.simps) simp
    moreover have "(bs @ [0]) ! i = bs ! i" using i by (simp add: nth_append)
    ultimately show ?case unfolding up
      by (cases "bs ! i = ucast c") (simp_all add: ac_simps del: upt_Suc)
  qed
  from this [of 0] show ?thesis by (simp add: strchr_def del: upt_Suc)
qed

text \<open>\<^verbatim>\<open>strcpy\<close> and \<^verbatim>\<open>strncpy\<close> to a destination that does not meet the source.\<close>

definition apart :: "u32 \<Rightarrow> nat \<Rightarrow> u32 \<Rightarrow> nat \<Rightarrow> bool" where
  "apart a n b k \<longleftrightarrow> (\<forall>i < n. \<forall>j < k. a + of_nat i \<noteq> b + of_nat j)"

lemma cstr_other:
  assumes "cstr m a bs" "\<And>k. k \<le> length bs \<Longrightarrow> m' (a + of_nat k) = m (a + of_nat k)"
  shows "cstr m' a bs"
  using assms unfolding cstr_def bytes_at_def by (simp add: less_Suc_eq_le)

lemma strcpy_loop_spec:
  assumes "cstr m src bs" "apart dest (length bs + 1) src (length bs + 1)" "i \<le> length bs"
    "bytes_at m dest (take i bs)"
  shows "\<exists>m'. strcpy_loop (of_nat i) dest src m = Some (dest, m') \<and> cstr m' dest bs
    \<and> (\<forall>x. (\<forall>k \<le> length bs. x \<noteq> dest + of_nat k) \<longrightarrow> m' x = m x)"
  using assms(1,3,4)
proof (induction "length bs - i" arbitrary: i m)
  case 0
  then have i: "i = length bs" by simp
  have len: "length bs < 4294967296" using assms(1) by (simp add: cstr_def)
  have "strcpy_loop (of_nat i) dest src m = Some (dest, m(dest + of_nat i := 0))"
    using cstr_nth(3) [OF 0(2)] i by (subst strcpy_loop.simps) simp
  moreover have "dest + of_nat k \<noteq> dest + of_nat i" if "k < length bs" for k
    using that i len of_nat_inject_u32 [of k "length bs"] by simp
  then have "cstr (m(dest + of_nat i := 0)) dest bs"
    using 0 i by (auto simp: cstr_def bytes_at_def nth_append less_Suc_eq)
  ultimately show ?case using i by auto
next
  case (Suc d)
  then have i: "i < length bs" by simp
  let ?m = "m(dest + of_nat i := bs ! i)"
  have len: "length bs < 4294967296" using assms(1) by (simp add: cstr_def)
  have c: "m (src + of_nat i) = bs ! i" "bs ! i \<noteq> 0" using cstr_nth(1,2) [OF Suc(3) i] by simp_all
  have "cstr ?m src bs"
  proof (rule cstr_other [OF Suc(3)])
    fix k
    assume "k \<le> length bs"
    then have "dest + of_nat i \<noteq> src + of_nat k" using assms(2) i by (simp add: apart_def)
    then show "?m (src + of_nat k) = m (src + of_nat k)" by simp
  qed
  moreover have "dest + of_nat k \<noteq> dest + of_nat i" if "k < i" for k
    using that i len of_nat_inject_u32 [of k i] by simp
  then have "bytes_at ?m dest (take (i + 1) bs)"
    using Suc(5) i by (auto simp: bytes_at_def less_Suc_eq)
  ultimately have "\<exists>m'. strcpy_loop (of_nat (i + 1)) dest src ?m = Some (dest, m') \<and> cstr m' dest bs
      \<and> (\<forall>x. (\<forall>k \<le> length bs. x \<noteq> dest + of_nat k) \<longrightarrow> m' x = ?m x)"
    using Suc(2) i by (intro Suc(1)) simp_all
  moreover have "strcpy_loop (of_nat i) dest src m = strcpy_loop (of_nat (i + 1)) dest src ?m"
    using c by (subst strcpy_loop.simps) (simp add: Let_def add.commute)
  ultimately show ?case using i by fastforce
qed

lemma strncpy_copy_spec:
  assumes "cstr m src bs" "apart dest (unat n) src (length bs + 1)" "i \<le> length bs" "i \<le> unat n"
    "bytes_at m dest (take i bs)"
  shows "\<exists>m'. strncpy_copy (of_nat i) dest src n m = (of_nat (min (length bs) (unat n)), m')
    \<and> bytes_at m' dest (take (unat n) bs) \<and> (\<forall>x. (\<forall>k < unat n. x \<noteq> dest + of_nat k) \<longrightarrow> m' x = m x)"
  using assms(1,3-5)
proof (induction "length bs - i" arbitrary: i m)
  case 0
  then have i: "i = length bs" by simp
  then have "strncpy_copy (of_nat i) dest src n m = (of_nat i, m)"
    using cstr_nth(3) [OF 0(2)] by (subst strncpy_copy.simps) simp
  then show ?case using 0 i by auto
next
  case (Suc d)
  then have i: "i < length bs" by simp
  have lt: "(of_nat i :: u32) < n \<longleftrightarrow> i < unat n"
    using Suc(5) unat_lt32 [of n] by (simp add: word_less_nat_alt le_less_trans)
  show ?case
  proof (cases "i < unat n")
    case False
    then have "i = unat n" "strncpy_copy (of_nat i) dest src n m = (of_nat i, m)"
      using Suc(5) lt by (simp, subst strncpy_copy.simps, simp)
    then show ?thesis using i Suc(6) by auto
  next
    case True
    let ?m = "m(dest + of_nat i := bs ! i)"
    have c: "m (src + of_nat i) = bs ! i" "bs ! i \<noteq> 0" using cstr_nth(1,2) [OF Suc(3) i] by simp_all
    have "cstr ?m src bs"
    proof (rule cstr_other [OF Suc(3)])
      fix k
      assume "k \<le> length bs"
      then have "dest + of_nat i \<noteq> src + of_nat k" using assms(2) True by (simp add: apart_def)
      then show "?m (src + of_nat k) = m (src + of_nat k)" by simp
    qed
    moreover have "dest + of_nat k \<noteq> dest + of_nat i" if "k < i" for k
      using that less_trans [OF True unat_lt32] of_nat_inject_u32 [of k i] by simp
    then have "bytes_at ?m dest (take (i + 1) bs)"
      using Suc(6) i by (auto simp: bytes_at_def less_Suc_eq)
    ultimately have "\<exists>m'. strncpy_copy (of_nat (i + 1)) dest src n ?m = (of_nat (min (length bs) (unat n)), m')
        \<and> bytes_at m' dest (take (unat n) bs) \<and> (\<forall>x. (\<forall>k < unat n. x \<noteq> dest + of_nat k) \<longrightarrow> m' x = ?m x)"
      using Suc(2) i True by (intro Suc(1)) simp_all
    moreover have "strncpy_copy (of_nat i) dest src n m = strncpy_copy (of_nat (i + 1)) dest src n ?m"
      using c lt True by (subst strncpy_copy.simps) (simp add: Let_def add.commute)
    ultimately show ?thesis using True by auto
  qed
qed

lemma strncpy_pad_spec:
  assumes "i \<le> unat n"
  shows "bytes_at (strncpy_pad (of_nat i) dest n m) (dest + of_nat i) (replicate (unat n - i) 0)
    \<and> (\<forall>x. (\<forall>k. i \<le> k \<longrightarrow> k < unat n \<longrightarrow> x \<noteq> dest + of_nat k) \<longrightarrow> strncpy_pad (of_nat i) dest n m x = m x)"
  using assms
proof (induction "unat n - i" arbitrary: i m)
  case 0
  then have "unat n = i" by simp
  then have "\<not> (of_nat i :: u32) < n" using unat_lt32 [of n] by (simp add: word_less_nat_alt)
  then have "strncpy_pad (of_nat i) dest n m = m" by (subst strncpy_pad.simps) simp
  then show ?case using \<open>unat n = i\<close> by (simp add: bytes_at_def)
next
  case (Suc d)
  then have i: "i < unat n" by simp
  moreover have "i < 4294967296" using less_trans [OF i unat_lt32] .
  ultimately have i: "i < unat n" "(of_nat i :: u32) < n" by (simp_all add: word_less_nat_alt)
  let ?m = "m(dest + of_nat i := 0)" and ?r = "strncpy_pad (of_nat (i + 1)) dest n (m(dest + of_nat i := 0))"
  have step: "strncpy_pad (of_nat i) dest n m = ?r"
    using i(2) by (subst strncpy_pad.simps) (simp add: add.commute)
  have IH: "bytes_at ?r (dest + of_nat (i + 1)) (replicate (unat n - (i + 1)) 0)"
    "\<forall>x. (\<forall>k. i + 1 \<le> k \<longrightarrow> k < unat n \<longrightarrow> x \<noteq> dest + of_nat k) \<longrightarrow> ?r x = ?m x"
    using Suc(1) [of "i + 1" ?m] Suc(2) i(1) by simp_all
  have "dest + of_nat i \<noteq> dest + of_nat k" if "i + 1 \<le> k" "k < unat n" for k
    using that less_trans [OF _ unat_lt32] of_nat_inject_u32 [of i k] by simp
  then have z: "?r (dest + of_nat i) = 0" using IH(2) by simp
  have "?r (dest + of_nat i + of_nat k) = 0" if "k < unat n - i" for k
  proof (cases k)
    case (Suc j)
    have "j < unat n - (i + 1)" using that Suc by simp
    then have "?r (dest + of_nat (i + 1) + of_nat j) = 0" using IH(1) by (simp add: bytes_at_def)
    then show ?thesis using Suc by (simp add: ac_simps)
  qed (use z in simp)
  moreover have "?r x = m x" if "\<forall>k. i \<le> k \<longrightarrow> k < unat n \<longrightarrow> x \<noteq> dest + of_nat k" for x
    using that IH(2) i(1) by simp
  ultimately show ?case unfolding step by (simp add: bytes_at_def)
qed

section \<open>Properties\<close>

text \<open>C36: \<^verbatim>\<open>memmove\<close> copies the block even when source and destination overlap in either direction,
  changes no byte outside the destination, and returns the destination.\<close>

theorem memmove_correct:
  assumes "unat dest + unat num \<le> 4294967296" "unat src + unat num \<le> 4294967296"
  shows "fst (memmove dest src num m) = dest \<and> (\<forall>x. snd (memmove dest src num m) x
      = (if unat dest \<le> unat x \<and> unat x < unat dest + unat num then m (src + (x - dest)) else m x))"
proof (intro conjI allI)
  show "fst (memmove dest src num m) = dest" by (simp add: memmove_def)
  fix x :: u32
  let ?d = "unat dest" and ?s = "unat src" and ?x = "unat x"
  have val: "(of_nat (?s + (?x - ?d)) :: u32) = src + (x - dest)" if "?d \<le> ?x" using that by simp
  show "snd (memmove dest src num m) x = (if ?d \<le> ?x \<and> ?x < ?d + unat num then m (src + (x - dest)) else m x)"
  proof (cases "dest < src")
    case True
    then have "copy_up (unat num) (of_nat 0) (of_nat ?d) (of_nat ?s) m (of_nat ?x)
        = (if ?d + 0 \<le> ?x \<and> ?x < ?d + 0 + unat num then m (of_nat (?s + (?x - ?d))) else m (of_nat ?x))"
      using assms by (intro copy_up_spec) (auto simp: word_less_nat_alt)
    then show ?thesis using True val by (auto simp: memmove_def add_diff_eq)
  next
    case False
    then have "copy_down (unat num) (of_nat ?d) (of_nat ?s) m (of_nat ?x)
        = (if ?d \<le> ?x \<and> ?x < ?d + unat num then m (of_nat (?s + (?x - ?d))) else m (of_nat ?x))"
      using assms by (intro copy_down_spec) (auto simp: word_less_nat_alt not_less)
    then show ?thesis using False val by (auto simp: memmove_def add_diff_eq)
  qed
qed

definition abc_mem :: mem where
  "abc_mem = (\<lambda>_. 0)(0x100 := 97, 0x101 := 98, 0x102 := 99)"

lemma memmove_correct_witness:
  "fst (memmove 0x1002 0x1000 5 abc_mem) = 0x1002 \<and> snd (memmove 0x1002 0x1000 5 abc_mem) 0x1004 = abc_mem 0x1002"
  using memmove_correct [of "0x1002" 5 "0x1000" abc_mem] by simp

text \<open>\<^verbatim>\<open>memcmp\<close> answers with the difference of the first pair of bytes that differ, and 0 exactly
  when the two blocks agree; it never fails to return.\<close>

theorem memcmp_first_difference:
  "(memcmp p q num m = 0 \<longleftrightarrow> (\<forall>k < unat num. m (p + of_nat k) = m (q + of_nat k)))
   \<and> (\<forall>k < unat num. m (p + of_nat k) \<noteq> m (q + of_nat k)
        \<longrightarrow> (\<forall>j < k. m (p + of_nat j) = m (q + of_nat j))
        \<longrightarrow> memcmp p q num m = uint (m (p + of_nat k)) - uint (m (q + of_nat k)))"
proof -
  let ?d = "\<lambda>k. m (p + of_nat k) \<noteq> m (q + of_nat k)"
  have run: "memcmp p q num m = (case find ?d [0 ..< unat num] of None \<Rightarrow> 0
      | Some k \<Rightarrow> uint (m (p + of_nat k)) - uint (m (q + of_nat k)))"
    using cmp_up_spec [of "unat num" 0 p q m] by (simp add: memcmp_def)
  have found: "find ?d [0 ..< unat num] = Some k" if "k < unat num" "?d k" "\<forall>j < k. \<not> ?d j" for k
    unfolding find_Some_iff using that by (intro exI [of _ k]) simp
  show ?thesis
  proof (cases "find ?d [0 ..< unat num]")
    case None
    then have "\<forall>k < unat num. \<not> ?d k" by (auto simp: find_None_iff)
    with None show ?thesis unfolding run by simp
  next
    case (Some k)
    then have "k < unat num" "?d k" by (auto simp: find_Some_iff)
    moreover from this have "uint (m (p + of_nat k)) \<noteq> uint (m (q + of_nat k))"
      by (simp add: word_uint_eq_iff [symmetric])
    ultimately have "memcmp p q num m \<noteq> 0" "\<exists>k < unat num. ?d k" using Some unfolding run by auto
    moreover have "memcmp p q num m = uint (m (p + of_nat j)) - uint (m (q + of_nat j))"
      if "j < unat num" "?d j" "\<forall>i < j. \<not> ?d i" for j
      unfolding run found [OF that] by simp
    ultimately show ?thesis by blast
  qed
qed

text \<open>\<^verbatim>\<open>strcpy\<close> of a terminated string to a destination that does not meet it returns, leaves the
  same terminated string at the destination and changes nothing else.\<close>

theorem strcpy_correct:
  assumes "cstr m src bs" "apart dest (length bs + 1) src (length bs + 1)"
  shows "\<exists>m'. strcpy dest src m = Some (dest, m') \<and> cstr m' dest bs \<and> strlen dest m' = Some (of_nat (length bs))
    \<and> (\<forall>x. (\<forall>k \<le> length bs. x \<noteq> dest + of_nat k) \<longrightarrow> m' x = m x)"
proof -
  have "bytes_at m dest (take 0 bs)" by (simp add: bytes_at_def)
  from strcpy_loop_spec [OF assms _ this] obtain m' where m': "strcpy dest src m = Some (dest, m')" "cstr m' dest bs"
    "\<forall>x. (\<forall>k \<le> length bs. x \<noteq> dest + of_nat k) \<longrightarrow> m' x = m x" by (auto simp: strcpy_def)
  have "strlen dest m' = Some (of_nat (length bs))"
    using strlen_from_spec [OF m'(2), of 0] by (simp add: strlen_def)
  with m' show ?thesis by blast
qed

lemma abc_cstr: "cstr abc_mem 0x100 [97, 98, 99]"
  by (auto simp: cstr_def bytes_at_def abc_mem_def less_Suc_eq)

lemma abc_apart: "n \<le> 8 \<Longrightarrow> k \<le> 8 \<Longrightarrow> apart 0x200 n 0x100 k"
  unfolding apart_def
proof (intro allI impI)
  fix i j
  assume "n \<le> 8" "k \<le> 8" "i < n" "j < k"
  then have "unat (0x200 + of_nat i :: u32) = 0x200 + i" "unat (0x100 + of_nat j :: u32) = 0x100 + j"
    by (subst unat_add_u32; simp)+
  moreover have "0x200 + i \<noteq> 0x100 + j" using \<open>k \<le> 8\<close> \<open>j < k\<close> by linarith
  ultimately show "(0x200 + of_nat i :: u32) \<noteq> 0x100 + of_nat j" by metis
qed

lemma strcpy_correct_witness:
  "\<exists>m'. strcpy 0x200 0x100 abc_mem = Some (0x200, m') \<and> cstr m' 0x200 [97, 98, 99] \<and> strlen 0x200 m' = Some 3"
proof -
  have "apart 0x200 (length [97, 98, 99 :: u8] + 1) 0x100 (length [97, 98, 99 :: u8] + 1)" by (rule abc_apart) simp_all
  from strcpy_correct [OF abc_cstr this] show ?thesis by auto
qed

text \<open>C39: \<^verbatim>\<open>strncpy\<close> of a terminated string to a destination that does not meet it writes exactly the
  \<open>n\<close> bytes of the destination: the first \<open>n\<close> bytes of the string, padded with zeros.\<close>

theorem strncpy_correct:
  assumes "cstr m src bs" "apart dest (unat n) src (length bs + 1)"
  shows "fst (strncpy dest src n m) = dest
    \<and> bytes_at (snd (strncpy dest src n m)) dest (take (unat n) bs @ replicate (unat n - length bs) 0)
    \<and> (\<forall>x. (\<forall>k < unat n. x \<noteq> dest + of_nat k) \<longrightarrow> snd (strncpy dest src n m) x = m x)"
proof -
  let ?i = "min (length bs) (unat n)"
  have "bytes_at m dest (take 0 bs)" by (simp add: bytes_at_def)
  from strncpy_copy_spec [OF assms _ _ this] obtain m1 where
    1: "strncpy_copy 0 dest src n m = (of_nat ?i, m1)" "bytes_at m1 dest (take (unat n) bs)"
      "\<forall>x. (\<forall>k < unat n. x \<noteq> dest + of_nat k) \<longrightarrow> m1 x = m x" by auto
  define m2 where "m2 = strncpy_pad (of_nat ?i) dest n m1"
  have run: "strncpy dest src n m = (dest, m2)" using 1(1) by (simp add: strncpy_def m2_def)
  have 2: "bytes_at m2 (dest + of_nat ?i) (replicate (unat n - ?i) 0)"
    "\<forall>x. (\<forall>k. ?i \<le> k \<longrightarrow> k < unat n \<longrightarrow> x \<noteq> dest + of_nat k) \<longrightarrow> m2 x = m1 x"
    using strncpy_pad_spec [of ?i n dest m1] by (simp_all add: m2_def)
  have ne: "dest + of_nat k \<noteq> dest + of_nat j" if "k < j" "j < unat n" for k j
    using that less_trans [OF that(2) unat_lt32] of_nat_inject_u32 [of k j] by simp
  have "m2 (dest + of_nat k) = (take (unat n) bs @ replicate (unat n - length bs) 0) ! k"
    if k: "k < unat n" for k
  proof (cases "k < length bs")
    case True
    then have "m2 (dest + of_nat k) = m1 (dest + of_nat k)" using 2(2) ne [of k] k by auto
    then show ?thesis using 1(2) True k by (simp add: bytes_at_def nth_append)
  next
    case False
    then have i: "?i = length bs" "k - length bs < unat n - ?i" using k by simp_all
    have "m2 (dest + of_nat ?i + of_nat (k - length bs)) = 0" using 2(1) i(2) by (simp add: bytes_at_def)
    moreover have "dest + of_nat ?i + of_nat (k - length bs) = dest + of_nat k"
      using False i(1) by (simp add: of_nat_diff)
    ultimately show ?thesis using False k by (simp add: nth_append)
  qed
  moreover have "length (take (unat n) bs @ replicate (unat n - length bs) (0 :: u8)) = unat n" by simp
  moreover have "m2 x = m x" if "\<forall>k < unat n. x \<noteq> dest + of_nat k" for x using that 1(3) 2(2) by auto
  ultimately show ?thesis unfolding run bytes_at_def by simp
qed

lemma strncpy_correct_witness:
  "fst (strncpy 0x200 0x100 5 abc_mem) = 0x200
    \<and> bytes_at (snd (strncpy 0x200 0x100 5 abc_mem)) 0x200 [97, 98, 99, 0, 0]"
proof -
  have five: "unat (5 :: u32) = 5" by simp
  have pad: "take 5 [97, 98, 99] @ replicate (5 - length [97, 98, 99 :: u8]) 0 = [97, 98, 99, 0, 0 :: u8]"
    by (simp add: numeral_2_eq_2)
  have "apart 0x200 5 0x100 (length [97, 98, 99 :: u8] + 1)" by (rule abc_apart) simp_all
  from strncpy_correct [OF abc_cstr, of "0x200" 5, unfolded five pad, OF this] show ?thesis by blast
qed

text \<open>\<^verbatim>\<open>strnlen\<close> returns, but its bound is off by one: for a string longer than \<open>max_len\<close> it
  answers \<open>max_len + 1\<close>.\<close>

theorem strnlen_overcounts:
  assumes "cstr m a bs" "unat k < length bs" "unat k < 4294967295"
  shows "strnlen a k m = Some (k + 1)"
proof -
  have "strnlen a k m = Some (of_nat (min (length bs) (unat k + 1)))"
    using strnlen_from_spec [OF assms(1) _ _ assms(3), of 0] by (simp add: strnlen_def)
  moreover have "min (length bs) (unat k + 1) = unat k + 1" using assms(2) by simp
  ultimately show ?thesis by simp
qed

lemma strnlen_overcounts_witness: "strnlen 0x100 2 abc_mem = Some (2 + 1)"
  by (rule strnlen_overcounts [OF abc_cstr]) simp_all

end
