(* ===== verification/Itoa.thy ===== *)
theory Itoa
  imports KString
begin

text \<open>
  Numbers to text, \<^verbatim>\<open>libs/klibc/stdlib/itoa.c\<close>: the digit loop, the in-place reversal and the
  sign. An index outside \<^verbatim>\<open>base_char\<close> and a division by zero are \<open>None\<close>; the digit loop is a
  partial function, because it does not end for base 1.
\<close>

unbundle bit_operations_syntax

section \<open>Operations\<close>

definition base_char :: "u8 list" where
  "base_char = map of_char ''0123456789abcdefghijklmnopqrstuvwxyz'' @ [0]"

partial_function (option) uitoa_digits :: "u32 \<Rightarrow> u32 \<Rightarrow> u32 \<Rightarrow> u32 \<Rightarrow> mem \<Rightarrow> (u32 \<times> mem) option" where
  "uitoa_digits v str base ptr m =
    (if base = 0 \<or> unat (v mod base) \<ge> length base_char then None
     else let m' = m(str + ptr := base_char ! unat (v mod base)) in
       if v div base \<noteq> 0 then uitoa_digits (v div base) str base (ptr + 1) m' else Some (ptr + 1, m'))"

text \<open>The reversal loop; the first argument counts the iterations left.\<close>

fun uitoa_reverse :: "nat \<Rightarrow> u32 \<Rightarrow> u32 \<Rightarrow> u32 \<Rightarrow> mem \<Rightarrow> mem" where
  "uitoa_reverse 0 i str ptr m = m"
| "uitoa_reverse (Suc n) i str ptr m =
    (let c = m (str + i); m1 = m(str + i := m (str + ptr - i - 1)); m2 = m1(str + ptr - i - 1 := c) in
     uitoa_reverse n (i + 1) str ptr m2)"

definition uitoa_internal :: "u32 \<Rightarrow> u32 \<Rightarrow> u32 \<Rightarrow> mem \<Rightarrow> (u32 \<times> mem) option" where
  "uitoa_internal v str base m = do {
     (ptr, m) \<leftarrow> uitoa_digits v str base 0 m;
     let m = uitoa_reverse (unat (drop_bit 1 ptr)) 0 str ptr m;
     Some (ptr, m(str + ptr := 0))
   }"

text \<open>Both versions answer the number of digits, what the code stores in \<^verbatim>\<open>*size\<close>. Negating the
  smallest integer wraps, as on the machine.\<close>

definition itoa_internal :: "u32 \<Rightarrow> u32 \<Rightarrow> u32 \<Rightarrow> mem \<Rightarrow> (u32 \<times> mem) option" where
  "itoa_internal v str base m =
    (if sint v < 0 \<and> base = 10 then uitoa_internal (- v) (str + 1) base (m(str := 45))
     else uitoa_internal v str base m)"

definition itoa :: "u32 \<Rightarrow> u32 \<Rightarrow> u32 \<Rightarrow> mem \<Rightarrow> (u32 \<times> mem) option" where
  "itoa v str base m = do { (sz, m) \<leftarrow> itoa_internal v str base m; Some (str, m) }"

section \<open>Digits\<close>

text \<open>The digits of a number, least significant first, and their value.\<close>

function digits :: "nat \<Rightarrow> nat \<Rightarrow> nat list" where
  "digits b n = (if b < 2 then [] else n mod b # (if n div b = 0 then [] else digits b (n div b)))"
  by auto

termination digits
proof (relation "measure snd")
  fix b n :: nat
  assume "\<not> b < 2" "n div b \<noteq> 0"
  then have "n div b < n" by (intro div_less_dividend) (auto intro: gr0I)
  then show "((b, n div b), (b, n)) \<in> measure snd" by simp
qed simp

declare digits.simps [simp del]

definition digits_value :: "nat \<Rightarrow> nat list \<Rightarrow> nat" where
  "digits_value b ds = foldr (\<lambda>d v. d + b * v) ds 0"

lemma digits_spec:
  assumes "2 \<le> b"
  shows "digits_value b (digits b n) = n" "\<forall>d \<in> set (digits b n). d < b" "digits b n \<noteq> []"
    "last (digits b n) = 0 \<longrightarrow> n = 0"
proof -
  have "digits_value b (digits b n) = n \<and> (\<forall>d \<in> set (digits b n). d < b) \<and> digits b n \<noteq> []
      \<and> (last (digits b n) = 0 \<longrightarrow> n = 0)"
    using assms
  proof (induction b n rule: digits.induct)
    case (1 b n)
    show ?case
    proof (cases "n div b = 0")
      case True
      then have "n < b" using 1(2) by (simp add: div_eq_0_iff)
      moreover have "digits b n = [n mod b]" using 1(2) True by (subst digits.simps) simp
      ultimately show ?thesis using 1(2) by (simp add: digits_value_def)
    next
      case False
      have nb: "\<not> b < 2" using 1(2) by simp
      from 1(1) [OF nb False 1(2)]
      have IH: "digits_value b (digits b (n div b)) = n div b" "\<forall>d \<in> set (digits b (n div b)). d < b"
        "digits b (n div b) \<noteq> []" "last (digits b (n div b)) = 0 \<longrightarrow> n div b = 0"
        by blast+
      have "digits b n = n mod b # digits b (n div b)" using 1(2) False by (subst digits.simps) simp
      then show ?thesis using IH 1(2) False by (simp add: digits_value_def)
    qed
  qed
  then show "digits_value b (digits b n) = n" "\<forall>d \<in> set (digits b n). d < b" "digits b n \<noteq> []"
    "last (digits b n) = 0 \<longrightarrow> n = 0" by blast+
qed

lemma digits_length: "2 \<le> b \<Longrightarrow> n < b ^ Suc k \<Longrightarrow> length (digits b n) \<le> Suc k"
proof (induction k arbitrary: n)
  case 0
  then show ?case by (subst digits.simps) (simp add: div_eq_0_iff)
next
  case (Suc k)
  have "n div b < b ^ Suc k" using Suc.prems by (intro less_mult_imp_div_less) (simp add: mult.commute)
  then have "length (digits b (n div b)) \<le> Suc k" using Suc by blast
  then show ?case using Suc.prems(1) by (subst digits.simps) simp
qed

definition digit_char :: "nat \<Rightarrow> u8" where
  "digit_char d = base_char ! d"

lemma base_char_codes:
  "base_char = [48, 49, 50, 51, 52, 53, 54, 55, 56, 57,
    97, 98, 99, 100, 101, 102, 103, 104, 105, 106, 107, 108, 109, 110, 111, 112, 113, 114, 115, 116, 117, 118, 119, 120, 121, 122, 0]"
  by (simp add: base_char_def)

definition char_value :: "u8 \<Rightarrow> nat" where
  "char_value c = (if c \<le> 57 then unat c - 48 else unat c - 87)"

lemma base_char_map: "base_char = map (\<lambda>d. of_nat (if d < 10 then 48 + d else 87 + d)) [0 ..< 36] @ [0]"
  by (simp add: base_char_codes upt_rec)

lemma digit_char:
  assumes "d < 36"
  shows "char_value (digit_char d) = d" "digit_char d \<noteq> 0" "digit_char d \<noteq> 45"
proof -
  let ?c = "if d < 10 then 48 + d else 87 + d"
  have "digit_char d = of_nat ?c"
    unfolding digit_char_def base_char_map using assms by (subst nth_append) simp
  moreover have "unat (of_nat ?c :: u8) = ?c" using assms by (simp add: unat_of_nat take_bit_nat_eq_self)
  ultimately have u: "unat (digit_char d) = ?c" by simp
  then show "char_value (digit_char d) = d" by (simp add: char_value_def word_le_nat_alt)
  show "digit_char d \<noteq> 0" "digit_char d \<noteq> 45" using u by (auto split: if_splits)
qed

text \<open>Reading a number back: most significant digit first, an optional sign in front.\<close>

definition read_nat :: "nat \<Rightarrow> u8 list \<Rightarrow> nat" where
  "read_nat b s = foldl (\<lambda>v c. v * b + char_value c) 0 s"

fun read_int :: "nat \<Rightarrow> u8 list \<Rightarrow> int" where
  "read_int b [] = 0"
| "read_int b (c # s) = (if c = 45 then - int (read_nat b s) else int (read_nat b (c # s)))"

definition numeral_text :: "nat \<Rightarrow> nat \<Rightarrow> u8 list" where
  "numeral_text b n = map digit_char (rev (digits b n))"

lemma read_nat_numeral:
  assumes "2 \<le> b" "b \<le> 36"
  shows "read_nat b (numeral_text b n) = n"
proof -
  have *: "foldl (\<lambda>v c. v * b + char_value c) 0 (map digit_char (rev ds)) = digits_value b ds"
    if "\<forall>d \<in> set ds. d < b" for ds
    using that
  proof (induction ds)
    case (Cons d ds)
    then show ?case using digit_char(1) [of d] assms(2) by (simp add: digits_value_def mult.commute)
  qed (simp add: digits_value_def)
  show ?thesis
    using * [OF digits_spec(2) [OF assms(1), of n]] digits_spec(1) [OF assms(1), of n]
    by (simp add: read_nat_def numeral_text_def)
qed

lemma numeral_text_chars:
  assumes "2 \<le> b" "b \<le> 36"
  shows "0 \<notin> set (numeral_text b n)" "45 \<notin> set (numeral_text b n)" "numeral_text b n \<noteq> []"
proof -
  have "d < 36" if "d \<in> set (digits b n)" for d using digits_spec(2) [OF assms(1), of n] that assms(2) by auto
  then show "0 \<notin> set (numeral_text b n)" "45 \<notin> set (numeral_text b n)"
    using digit_char(2,3) by (force simp: numeral_text_def)+
  show "numeral_text b n \<noteq> []" using digits_spec(3) [OF assms(1)] by (simp add: numeral_text_def)
qed

lemma read_int_numeral:
  assumes "2 \<le> b" "b \<le> 36"
  shows "read_int b (numeral_text b n) = int n" "read_int b (45 # numeral_text b n) = - int n"
proof -
  show "read_int b (45 # numeral_text b n) = - int n" using read_nat_numeral [OF assms] by simp
  obtain c s where c: "numeral_text b n = c # s" using numeral_text_chars(3) [OF assms] by (cases "numeral_text b n") auto
  moreover from this have "c \<noteq> 45" using numeral_text_chars(2) [OF assms, of n] by auto
  ultimately show "read_int b (numeral_text b n) = int n" using read_nat_numeral [OF assms, of n] by simp
qed

section \<open>The digit loop and the reversal\<close>

lemma bytes_at_append:
  "bytes_at m a (xs @ ys) \<longleftrightarrow> bytes_at m a xs \<and> bytes_at m (a + of_nat (length xs)) ys"
proof -
  have split: "(\<forall>k < p + q. P k) \<longleftrightarrow> (\<forall>k < p. P k) \<and> (\<forall>k < q. P (p + k))" for p q :: nat and P
    by (metis add_diff_inverse_nat add_less_cancel_left not_less trans_less_add1)
  show ?thesis unfolding bytes_at_def length_append split
    by (auto simp: nth_append add.assoc)
qed

lemma addr_neq:
  assumes "i \<noteq> j" "i < 4294967296" "j < 4294967296"
  shows "(a :: u32) + of_nat i \<noteq> a + of_nat j"
  using of_nat_inject_u32 [OF assms(2,3)] assms(1) by simp

lemma uitoa_digits_spec:
  assumes "2 \<le> b" "b \<le> 36" "i + length (digits b n) < 4294967296" "n < 4294967296"
  shows "\<exists>m'. uitoa_digits (of_nat n) str (of_nat b) (of_nat i) m = Some (of_nat (i + length (digits b n)), m')
    \<and> bytes_at m' (str + of_nat i) (map digit_char (digits b n))
    \<and> (\<forall>x. (\<forall>k. i \<le> k \<longrightarrow> k < i + length (digits b n) \<longrightarrow> x \<noteq> str + of_nat k) \<longrightarrow> m' x = m x)"
  using assms(3,4)
proof (induction n arbitrary: i m rule: less_induct)
  case (less n)
  have b: "unat (of_nat b :: u32) = b" "b \<noteq> 0" "(of_nat b :: u32) \<noteq> 0" "unat (of_nat n :: u32) = n"
    using assms(1,2) less(3) of_nat_inject_u32 [of b 0] by simp_all
  have d: "unat ((of_nat n :: u32) mod of_nat b) = n mod b" "(of_nat n :: u32) div of_nat b = of_nat (n div b)"
    using b by (simp_all add: unat_mod word_arith_nat_div)
  have "n mod b < b" "length base_char = 37" using b(2) by (simp_all add: base_char_def)
  then have lt: "n mod b < length base_char" using assms(2) by linarith
  let ?m = "m(str + of_nat i := digit_char (n mod b))"
  have q: "n div b < 4294967296" using less(3) div_le_dividend [of n b] by linarith
  have zero: "(of_nat (n div b) :: u32) \<noteq> 0 \<longleftrightarrow> n div b \<noteq> 0"
    using of_nat_inject_u32 [OF q, of 0] by simp
  have step: "uitoa_digits (of_nat n) str (of_nat b) (of_nat i) m
      = (if n div b \<noteq> 0 then uitoa_digits (of_nat (n div b)) str (of_nat b) (of_nat (i + 1)) ?m
         else Some (of_nat (i + 1), ?m))"
    using lt b(3) zero by (subst uitoa_digits.simps) (simp add: d Let_def digit_char_def add.commute)
  show ?case
  proof (cases "n div b = 0")
    case True
    then have ds: "digits b n = [n mod b]" using assms(1) by (subst digits.simps) simp
    show ?thesis unfolding step ds using True by (simp add: bytes_at_def)
  next
    case False
    then have n: "n div b < n" using assms(1) by (intro div_less_dividend) (auto intro: gr0I)
    have ds: "digits b n = n mod b # digits b (n div b)" using False assms(1) by (subst digits.simps) simp
    let ?l = "length (digits b (n div b))"
    obtain m' where m': "uitoa_digits (of_nat (n div b)) str (of_nat b) (of_nat (i + 1)) ?m = Some (of_nat (i + 1 + ?l), m')"
      "bytes_at m' (str + of_nat (i + 1)) (map digit_char (digits b (n div b)))"
      "\<forall>x. (\<forall>k. i + 1 \<le> k \<longrightarrow> k < i + 1 + ?l \<longrightarrow> x \<noteq> str + of_nat k) \<longrightarrow> m' x = ?m x"
    proof -
      have "i + 1 + ?l < 4294967296" using less(2) by (simp add: ds)
      from less(1) [OF n this q, of ?m] show ?thesis using that by blast
    qed
    have "str + of_nat i \<noteq> str + of_nat k" if "i + 1 \<le> k" "k < i + 1 + ?l" for k
      using that less(2) by (intro addr_neq) (simp_all add: ds)
    then have "m' (str + of_nat i) = digit_char (n mod b)" using m'(3) by simp
    then have "bytes_at m' (str + of_nat i) [digit_char (n mod b)]" by (simp add: bytes_at_def)
    moreover have "str + of_nat i + of_nat (length [digit_char (n mod b)]) = str + of_nat (i + 1)" by simp
    ultimately have "bytes_at m' (str + of_nat i) ([digit_char (n mod b)] @ map digit_char (digits b (n div b)))"
      unfolding bytes_at_append using m'(2) by (simp add: ac_simps)
    moreover have "m' x = m x" if "\<forall>k. i \<le> k \<longrightarrow> k < i + length (digits b n) \<longrightarrow> x \<noteq> str + of_nat k" for x
      using that m'(3) by (simp add: ds)
    ultimately show ?thesis unfolding step using False m'(1) by (simp add: ds add.assoc)
  qed
qed

lemma reverse_spec:
  assumes "bytes_at m str (as @ xs @ bs)" "i = length as" "length bs = i" "n = length xs div 2"
    "L = i + length xs + i" "L < 4294967296"
  shows "bytes_at (uitoa_reverse n (of_nat i) str (of_nat L) m) str (as @ rev xs @ bs)
    \<and> (\<forall>x. (\<forall>k < L. x \<noteq> str + of_nat k) \<longrightarrow> uitoa_reverse n (of_nat i) str (of_nat L) m x = m x)"
  using assms(1-5)
proof (induction n arbitrary: m as xs bs i)
  case 0
  then have "length xs \<le> 1" by (simp add: div_eq_0_iff)
  then have "rev xs = xs" by (cases xs) auto
  then show ?case using 0 by simp
next
  case (Suc n)
  then have len: "2 \<le> length xs" by simp
  then obtain x zs where xz: "xs = x # zs" "zs \<noteq> []" by (cases xs; cases "tl xs") auto
  then obtain ys y where xs: "xs = x # ys @ [y]" by (cases zs rule: rev_cases) auto
  let ?j = "i + 1 + length ys"
  have L: "L = ?j + 1 + i" using Suc.prems(5) xs by simp
  have parts: "bytes_at m str as" "m (str + of_nat i) = x" "bytes_at m (str + of_nat (i + 1)) ys"
    "m (str + of_nat ?j) = y" "bytes_at m (str + of_nat (?j + 1)) bs"
  proof -
    have "bytes_at m str (as @ [x] @ ys @ [y] @ bs)" using Suc.prems(1) xs by simp
    then show "bytes_at m str as" "m (str + of_nat i) = x" "bytes_at m (str + of_nat (i + 1)) ys"
      "m (str + of_nat ?j) = y" "bytes_at m (str + of_nat (?j + 1)) bs"
      unfolding bytes_at_append using Suc.prems(2) by (simp_all add: bytes_at_def ac_simps)
  qed
  have last: "str + of_nat L - of_nat i - 1 = str + of_nat ?j" unfolding L by simp
  let ?m = "m(str + of_nat i := y, str + of_nat ?j := x)"
  have step: "uitoa_reverse (Suc n) (of_nat i) str (of_nat L) m = uitoa_reverse n (of_nat (i + 1)) str (of_nat L) ?m"
    by (simp only: uitoa_reverse.simps Let_def last parts(2,4)) (simp add: add.commute)
  have ne: "str + of_nat p \<noteq> str + of_nat q" if "p \<noteq> q" "p < L" "q < L" for p q
    using that assms(6) by (intro addr_neq) simp_all
  define m2 where "m2 = ?m"
  have nth: "m2 (str + of_nat k) = (if k = ?j then x else if k = i then y else m (str + of_nat k))" if "k < L" for k
    using that ne [of k i] ne [of k ?j] L by (auto simp: m2_def)
  have "bytes_at m2 str ((as @ [y]) @ ys @ x # bs)"
    unfolding bytes_at_def
  proof (intro allI impI)
    fix k
    assume "k < length ((as @ [y]) @ ys @ x # bs)"
    then have k: "k < L" using Suc.prems(2,3) L by simp
    have "bytes_at m str (as @ [x] @ ys @ [y] @ bs)" using Suc.prems(1) xs by simp
    then have old: "m (str + of_nat k) = (as @ [x] @ ys @ [y] @ bs) ! k"
      using k Suc.prems(2,3) L by (simp add: bytes_at_def)
    show "m2 (str + of_nat k) = ((as @ [y]) @ ys @ x # bs) ! k"
    proof (cases "k = i \<or> k = ?j")
      case True
      then show ?thesis unfolding nth [OF k] using Suc.prems(2) by (auto simp: nth_append)
    next
      case False
      then show ?thesis unfolding nth [OF k] old using Suc.prems(2)
        by (auto simp: nth_append nth_Cons' split: if_splits)
    qed
  qed
  from Suc.IH [OF this, of "i + 1"] have "bytes_at (uitoa_reverse n (of_nat (i + 1)) str (of_nat L) m2) str ((as @ [y]) @ rev ys @ x # bs)
      \<and> (\<forall>z. (\<forall>k < L. z \<noteq> str + of_nat k) \<longrightarrow> uitoa_reverse n (of_nat (i + 1)) str (of_nat L) m2 z = m2 z)"
    using Suc.prems(2-5) xs by simp
  moreover have "m2 z = m z" if "\<forall>k < L. z \<noteq> str + of_nat k" for z
    using that [rule_format, of i] that [rule_format, of ?j] L by (simp add: m2_def)
  moreover have "rev xs = y # rev ys @ [x]" using xs by simp
  ultimately show ?case unfolding step m2_def [symmetric] by simp
qed

lemma digits_u32:
  assumes "2 \<le> b"
  shows "length (digits b (unat (v :: u32))) \<le> 32"
proof -
  have "(2 :: nat) ^ 32 \<le> b ^ 32" using assms by (intro power_mono) simp_all
  then have "4294967296 \<le> b ^ Suc 31" by simp
  then have "unat v < b ^ Suc 31" by (rule less_le_trans [OF unat_lt32])
  from digits_length [OF assms this] show ?thesis by simp
qed

lemma uitoa_spec:
  assumes "2 \<le> b" "b \<le> 36"
  shows "\<exists>m' sz. uitoa_internal v str (of_nat b) m = Some (sz, m') \<and> cstr m' str (numeral_text b (unat v))
    \<and> (\<forall>x. (\<forall>k \<le> length (numeral_text b (unat v)). x \<noteq> str + of_nat k) \<longrightarrow> m' x = m x)"
proof -
  let ?ds = "digits b (unat v)" and ?s = "numeral_text b (unat v)"
  let ?L = "length (digits b (unat v))"
  have L: "?L \<le> 32" by (rule digits_u32 [OF assms(1)])
  then have "0 + ?L < 4294967296" by simp
  from uitoa_digits_spec [OF assms this unat_lt32, of str m] obtain m1 where
    m1: "uitoa_digits v str (of_nat b) 0 m = Some (of_nat ?L, m1)" "bytes_at m1 str (map digit_char ?ds)"
      "\<forall>x. (\<forall>k < ?L. x \<noteq> str + of_nat k) \<longrightarrow> m1 x = m x" by auto
  let ?m2 = "uitoa_reverse (?L div 2) (of_nat 0) str (of_nat ?L) m1"
  have m2: "bytes_at ?m2 str ([] @ rev (map digit_char ?ds) @ [])
      \<and> (\<forall>x. (\<forall>k < ?L. x \<noteq> str + of_nat k) \<longrightarrow> ?m2 x = m1 x)"
    by (rule reverse_spec) (use m1(2) L in simp_all)
  have half: "unat (drop_bit 1 (of_nat ?L :: u32)) = ?L div 2"
    using L by (simp add: unat_drop_bit_u32)
  let ?m3 = "?m2(str + of_nat ?L := 0)"
  have "str + of_nat k \<noteq> str + of_nat ?L" if "k < ?L" for k
    using that L by (intro addr_neq) simp_all
  then have "bytes_at ?m3 str (rev (map digit_char ?ds))" using m2 by (simp add: bytes_at_def)
  then have "cstr ?m3 str ?s"
    using numeral_text_chars(1) [OF assms, of "unat v"] L
    by (simp add: cstr_def bytes_at_append numeral_text_def rev_map) (simp add: bytes_at_def)
  moreover have "uitoa_internal v str (of_nat b) m = Some (of_nat ?L, ?m3)"
    using m1(1) half by (simp add: uitoa_internal_def Let_def)
  moreover have "?m3 x = m x" if "\<forall>k \<le> length ?s. x \<noteq> str + of_nat k" for x
    using that m1(3) m2 by (simp add: numeral_text_def)
  ultimately show ?thesis by blast
qed

definition int_text :: "nat \<Rightarrow> u32 \<Rightarrow> u8 list" where
  "int_text b v = (if sint v < 0 \<and> b = 10 then 45 # numeral_text b (unat (- v)) else numeral_text b (unat v))"

lemma itoa_spec:
  assumes "2 \<le> b" "b \<le> 36"
  shows "\<exists>m'. itoa v str (of_nat b) m = Some (str, m') \<and> cstr m' str (int_text b v)
    \<and> (\<forall>x. (\<forall>k \<le> length (int_text b v). x \<noteq> str + of_nat k) \<longrightarrow> m' x = m x)"
proof -
  have b10: "(of_nat b :: u32) = 10 \<longleftrightarrow> b = 10" using assms(2) of_nat_inject_u32 [of b 10] by simp
  show ?thesis
  proof (cases "sint v < 0 \<and> b = 10")
    case False
    then have cond: "\<not> (sint v < 0 \<and> (of_nat b :: u32) = 10)" using b10 by blast
    obtain m' sz where m': "uitoa_internal v str (of_nat b) m = Some (sz, m')" "cstr m' str (numeral_text b (unat v))"
      "\<forall>x. (\<forall>k \<le> length (numeral_text b (unat v)). x \<noteq> str + of_nat k) \<longrightarrow> m' x = m x"
      using uitoa_spec [OF assms, of v str m] by blast
    have "itoa v str (of_nat b) m = Some (str, m')"
      unfolding itoa_def itoa_internal_def if_not_P [OF cond] m'(1) by simp
    moreover have "int_text b v = numeral_text b (unat v)" unfolding int_text_def if_not_P [OF False] ..
    ultimately show ?thesis using m'(2,3) by simp
  next
    case True
    let ?s = "numeral_text b (unat (- v))"
    obtain m' sz where m': "uitoa_internal (- v) (str + 1) (of_nat b) (m(str := 45)) = Some (sz, m')"
      "cstr m' (str + 1) ?s" "\<forall>x. (\<forall>k \<le> length ?s. x \<noteq> str + 1 + of_nat k) \<longrightarrow> m' x = (m(str := 45)) x"
      using uitoa_spec [OF assms, of "- v" "str + 1" "m(str := 45)"] by blast
    have len: "length ?s < 4294967295"
      using digits_u32 [OF assms(1), of "- v"] by (simp add: numeral_text_def)
    have "str \<noteq> str + 1 + of_nat k" if "k \<le> length ?s" for k
      using addr_neq [of 0 "k + 1" str] that len by (simp add: add.assoc)
    then have "m' str = 45" using m'(3) by simp
    then have "bytes_at m' str [45]" by (simp add: bytes_at_def)
    moreover have "bytes_at m' (str + of_nat (length [45 :: u8])) (?s @ [0])" using m'(2) by (simp add: cstr_def)
    ultimately have "bytes_at m' str ([45] @ (?s @ [0]))" unfolding bytes_at_append by blast
    then have "cstr m' str (45 # ?s)" using m'(2) len by (simp add: cstr_def)
    moreover have "m' x = m x" if x: "\<forall>k \<le> length (45 # ?s). x \<noteq> str + of_nat k" for x
    proof -
      have "x \<noteq> str + 1 + of_nat k" if "k \<le> length ?s" for k
        using x [rule_format, of "k + 1"] that by (simp add: add.assoc)
      moreover have "x \<noteq> str" using x [rule_format, of 0] by simp
      ultimately show ?thesis using m'(3) by simp
    qed
    moreover have cond: "sint v < 0 \<and> (of_nat b :: u32) = 10" using b10 True by blast
    have "itoa v str (of_nat b) m = Some (str, m')"
      unfolding itoa_def itoa_internal_def if_P [OF cond] m'(1) by simp
    moreover have "int_text b v = 45 # ?s" unfolding int_text_def if_P [OF True] ..
    ultimately show ?thesis by simp
  qed
qed

lemma sint_uint_u32: "sint (v :: u32) = (if uint v < 2147483648 then uint v else uint v - 4294967296)"
proof -
  have m: "(x + 2147483648) mod 4294967296 = (if x < 2147483648 then x + 2147483648 else x - 2147483648)"
    if "0 \<le> x" "x < 4294967296" for x :: int
  proof (cases "x < 2147483648")
    case False
    have "(x + 2147483648) mod 4294967296 = (x - 2147483648 + 4294967296) mod 4294967296"
      by (simp add: add.commute)
    also have "\<dots> = (x - 2147483648) mod 4294967296" by (rule mod_add_self2)
    also have "\<dots> = x - 2147483648" using that False by (intro mod_pos_pos_trivial) simp_all
    finally show ?thesis using False by simp
  qed (use that in \<open>simp add: mod_pos_pos_trivial\<close>)
  have "sint v = (uint v + 2147483648) mod 4294967296 - 2147483648"
    by (simp add: sint_uint signed_take_bit_eq_take_bit_shift take_bit_eq_mod)
  then show ?thesis using m [of "uint v"] uint_bounded [of v] by simp
qed

lemma neg_u32: "sint v < 0 \<Longrightarrow> int (unat (- v :: u32)) = - sint v"
proof -
  assume "sint v < 0"
  then have "\<not> uint v < 2147483648" using uint_bounded [of v] by (simp add: sint_uint_u32 split: if_splits)
  moreover from this have "v \<noteq> 0" by auto
  ultimately have s: "sint v = uint v - 4294967296" "unat v \<noteq> 0"
    by (simp_all only: sint_uint_u32 if_False unat_eq_zero not_False_eq_True)
  have "(of_nat (4294967296 - unat v) :: u32) + of_nat (unat v) = of_nat (4294967296 - unat v + unat v)"
    by (simp only: of_nat_add)
  also have "4294967296 - unat v + unat v = 4294967296" using unat_lt32 [of v] by linarith
  also have "(of_nat 4294967296 :: u32) = 0" by simp
  finally have "of_nat (4294967296 - unat v) = - v" by (simp only: eq_neg_iff_add_eq_0 of_nat_unat word_of_nat_eq_iff) simp
  moreover have "unat (of_nat (4294967296 - unat v) :: u32) = 4294967296 - unat v"
    using s(2) by (intro unat_of_nat_u32) simp
  ultimately have "unat (- v) = 4294967296 - unat v" by simp
  moreover have "int (4294967296 - unat v) = 4294967296 - int (unat v)"
    using less_imp_le [OF unat_lt32 [of v]] by (subst of_nat_diff) simp_all
  ultimately show ?thesis using s(1) by simp
qed

lemma read_int_text:
  assumes "2 \<le> b" "b \<le> 36"
  shows "read_int b (int_text b v) = (if b = 10 then sint v else uint v)"
proof (cases "sint v < 0 \<and> b = 10")
  case True
  then show ?thesis using read_int_numeral(2) [OF assms] neg_u32 [of v] unfolding int_text_def by simp
next
  case False
  then have "read_int b (int_text b v) = int (unat v)"
    using read_int_numeral(1) [OF assms] unfolding int_text_def if_not_P [OF False] by simp
  moreover have "sint v = int (unat v)" if "b = 10"
  proof -
    have "\<not> sint v < 0" using False that by blast
    then show ?thesis using sint_uint_u32 [of v] uint_bounded [of v] by (simp split: if_splits)
  qed
  ultimately show ?thesis by simp
qed

lemma int_text_length:
  assumes "10 \<le> b"
  shows "length (int_text b v) \<le> 11"
proof -
  have "length (numeral_text b (unat w)) \<le> 10" for w :: u32
  proof -
    have "(10 :: nat) ^ 10 \<le> b ^ 10" using assms by (intro power_mono) simp_all
    then have "4294967296 \<le> b ^ Suc 9" by simp
    then have "unat w < b ^ Suc 9" by (rule less_le_trans [OF unat_lt32])
    from digits_length [OF _ this] show ?thesis using assms by (simp add: numeral_text_def)
  qed
  from this [of v] this [of "- v"] show ?thesis by (auto simp: int_text_def)
qed

section \<open>Properties\<close>

text \<open>C34: for every base from 2 to 36 \<^verbatim>\<open>itoa\<close> returns; it leaves a terminated string which reads back as
  the value (signed in base 10, unsigned otherwise) and which, for the bases the kernel prints
  in, has at most 11 characters; no byte outside the string changes.\<close>

theorem itoa_roundtrip:
  assumes "2 \<le> b" "b \<le> 36"
  shows "\<exists>m' s. itoa v str (of_nat b) m = Some (str, m') \<and> cstr m' str s
    \<and> read_int b s = (if b = 10 then sint v else uint v) \<and> (10 \<le> b \<longrightarrow> length s \<le> 11)
    \<and> (\<forall>x. (\<forall>k \<le> length s. x \<noteq> str + of_nat k) \<longrightarrow> m' x = m x)"
  using itoa_spec [OF assms, of v str m] read_int_text [OF assms, of v] int_text_length [of b v] by blast

lemma itoa_roundtrip_witness:
  "\<exists>m' s. itoa 0xFFFFFF85 0x100 10 (\<lambda>_. 0) = Some (0x100, m') \<and> cstr m' 0x100 s \<and> read_int 10 s = -123 \<and> length s \<le> 11"
  using itoa_roundtrip [of 10 "0xFFFFFF85" "0x100" "\<lambda>_. 0"] by auto

end
