(* ===== verification/Sprintf.thy ===== *)
theory Sprintf
  imports Itoa
begin

text \<open>
  Formatted output, \<^verbatim>\<open>libs/klibc/stdio/sprintf.c\<close>. The format is the list of its bytes before the
  terminator (the byte read at the end of the list is the terminator), the variable arguments
  are a list, and the result is the list of bytes written to the buffer, the terminator included.
  A missing argument, or one of the wrong kind, is \<open>None\<close>. Widths, precisions and lengths are
  \<^verbatim>\<open>int\<close>s; \<open>s32\<close> wraps them.
\<close>

unbundle bit_operations_syntax

section \<open>State\<close>

datatype varg = Int_arg u32 | Str_arg "u8 list"

fun va_int :: "varg list \<Rightarrow> (u32 \<times> varg list) option" where
  "va_int (Int_arg v # args) = Some (v, args)"
| "va_int _ = None"

fun va_str :: "varg list \<Rightarrow> (u8 list \<times> varg list) option" where
  "va_str (Str_arg s # args) = Some (s, args)"
| "va_str _ = None"

definition s32 :: "int \<Rightarrow> int" where
  "s32 x = sint (word_of_int x :: u32)"

definition at_char :: "u8 list \<Rightarrow> u8" where
  "at_char fmt = (case fmt of [] \<Rightarrow> 0 | c # _ \<Rightarrow> c)"

definition FLAG_ALT :: u32 where "FLAG_ALT = push_bit 0 1"
definition FLAG_ZERO :: u32 where "FLAG_ZERO = push_bit 1 1"
definition FLAG_LEFTJUSTIFY :: u32 where "FLAG_LEFTJUSTIFY = push_bit 2 1"
definition FLAG_SPACEPOSITIVE :: u32 where "FLAG_SPACEPOSITIVE = push_bit 3 1"
definition FLAG_PLUSPOSITIVE :: u32 where "FLAG_PLUSPOSITIVE = push_bit 4 1"
definition FLAG_NUMERIC :: u32 where "FLAG_NUMERIC = push_bit 5 1"
definition FLAG_SIGNED :: u32 where "FLAG_SIGNED = push_bit 6 1"
definition FLAG_NEGATIVE :: u32 where "FLAG_NEGATIVE = push_bit 7 1"
definition FLAG_ALT2 :: u32 where "FLAG_ALT2 = push_bit 8 1"
definition FLAG_CAPS :: u32 where "FLAG_CAPS = push_bit 9 1"

text \<open>A string in memory of its own, at address 0; \<^verbatim>\<open>strlen\<close> and \<^verbatim>\<open>strnlen\<close> are called on it.\<close>

definition cstr_mem :: "u8 list \<Rightarrow> mem" where
  "cstr_mem bs a = (if unat a < length bs then bs ! unat a else 0)"

definition flag_chars :: "u8 list" where
  "flag_chars = [35, 48, 45, 32, 43]"

section \<open>The parts of a directive\<close>

text \<open>Flags: \<open>strchr (flag_chars, *fmt)\<close>, the distance of the result is the bit to set.\<close>

fun scan_flags :: "u32 \<Rightarrow> u8 list \<Rightarrow> u32 \<times> u8 list" where
  "scan_flags flags [] = (flags, [])"
| "scan_flags flags (c # fmt) =
    (case find (\<lambda>k. flag_chars ! k = c) [0 ..< length flag_chars] of
       Some k \<Rightarrow> scan_flags (flags OR push_bit k 1) fmt
     | None \<Rightarrow> (flags, c # fmt))"

fun scan_digits :: "int \<Rightarrow> u8 list \<Rightarrow> int \<times> u8 list" where
  "scan_digits n [] = (n, [])"
| "scan_digits n (c # fmt) =
    (if 48 \<le> c \<and> c \<le> 57 then scan_digits (s32 (10 * n + uint c - 48)) fmt else (n, c # fmt))"

definition scan_width :: "u8 list \<Rightarrow> varg list \<Rightarrow> (int \<times> u8 list \<times> varg list) option" where
  "scan_width fmt args =
    (if 49 \<le> at_char fmt \<and> at_char fmt \<le> 57 then let (width, fmt) = scan_digits 0 fmt in Some (width, fmt, args)
     else if at_char fmt = 42 then do { (v, args) \<leftarrow> va_int args; Some (sint v, tl fmt, args) }
     else Some (- 1, fmt, args))"

definition scan_precision :: "u8 list \<Rightarrow> varg list \<Rightarrow> (int \<times> u8 list \<times> varg list) option" where
  "scan_precision fmt args =
    (if at_char fmt = 46 then do {
       let fmt = tl fmt;
       (precision, fmt, args) \<leftarrow>
         (if 48 \<le> at_char fmt \<and> at_char fmt \<le> 57 then let (p, fmt) = scan_digits 0 fmt in Some (p, fmt, args)
          else if at_char fmt = 42 then do { (v, args) \<leftarrow> va_int args; Some (sint v, tl fmt, args) }
          else Some (- 1, fmt, args));
       Some (if precision < 0 then 0 else precision, fmt, args)
     } else Some (- 1, fmt, args))"

text \<open>The conversion character: what \<^verbatim>\<open>switch (*fmt)\<close> leaves in \<open>flags\<close>, \<open>base\<close>, \<open>num\<close> and \<open>data\<close>. A
  character argument is the string of that character, empty when it is 0. The \<^verbatim>\<open>fmt--\<close> at the end of
  the format is undone by the \<^verbatim>\<open>++fmt\<close> of the loop.\<close>

record conversion =
  cv_flags :: u32
  cv_base :: u32
  cv_num :: u32
  cv_data :: "u8 list"

definition one_char :: "u8 \<Rightarrow> u8 list" where
  "one_char c = (if c = 0 then [] else [c])"

fun convert :: "u32 \<Rightarrow> u8 list \<Rightarrow> varg list \<Rightarrow> (conversion \<times> u8 list \<times> varg list) option" where
  "convert flags [] args =
    Some (\<lparr>cv_flags = flags, cv_base = 10, cv_num = 0, cv_data = [37]\<rparr>, [], args)"
| "convert flags (c # fmt) args =
    (if c = 108 \<or> c = 122 then convert flags fmt args
     else if c = 100 \<or> c = 105 then do {
       (x, args) \<leftarrow> va_int args;
       let negative = (if sint x < 0 then FLAG_NEGATIVE else 0);
       Some (\<lparr>cv_flags = flags OR (FLAG_NUMERIC OR FLAG_SIGNED OR negative), cv_base = 10,
         cv_num = (if sint x < 0 then - x else x), cv_data = []\<rparr>, c # fmt, args)
     } else if c = 117 \<or> c = 120 \<or> c = 88 then do {
       (x, args) \<leftarrow> va_int args;
       Some (\<lparr>cv_flags = (if c = 88 then flags OR FLAG_CAPS else flags) OR FLAG_NUMERIC,
         cv_base = (if c = 117 then 10 else 16), cv_num = x, cv_data = []\<rparr>, c # fmt, args)
     } else if c = 112 then do {
       (x, args) \<leftarrow> va_int args;
       Some (\<lparr>cv_flags = flags OR (FLAG_ALT OR FLAG_ALT2 OR FLAG_NUMERIC), cv_base = 16, cv_num = x,
         cv_data = []\<rparr>, c # fmt, args)
     } else if c = 115 then do {
       (s, args) \<leftarrow> va_str args;
       Some (\<lparr>cv_flags = flags, cv_base = 10, cv_num = 0, cv_data = s\<rparr>, c # fmt, args)
     } else if c = 99 then do {
       (x, args) \<leftarrow> va_int args;
       Some (\<lparr>cv_flags = flags, cv_base = 10, cv_num = 0, cv_data = one_char (ucast x)\<rparr>, c # fmt, args)
     } else Some (\<lparr>cv_flags = flags, cv_base = 10, cv_num = 0, cv_data = [c]\<rparr>, c # fmt, args))"

text \<open>Numbers are printed into \<^verbatim>\<open>numbuf\<close>, a local buffer, by \<^verbatim>\<open>itoa\<close>; \<^verbatim>\<open>%X\<close> then raises the letters.\<close>

definition number_data :: "conversion \<Rightarrow> u8 list option" where
  "number_data cv = do {
     (numbuf, m) \<leftarrow> itoa (cv_num cv) 0 (cv_base cv) (\<lambda>_. 0);
     len \<leftarrow> strlen numbuf m;
     let data = map (\<lambda>i. m (numbuf + of_nat i)) [0 ..< unat len];
     Some (if cv_flags cv AND FLAG_CAPS \<noteq> 0 then map (\<lambda>c. c AND NOT (drop_bit 1 (c AND 0x40))) data else data)
   }"

definition number_prefix :: "conversion \<Rightarrow> u8 list" where
  "number_prefix cv =
    (let flags = cv_flags cv in
     if flags AND FLAG_NUMERIC \<noteq> 0 \<and> flags AND FLAG_SIGNED \<noteq> 0 then
       if flags AND FLAG_NEGATIVE \<noteq> 0 then [45]
       else if flags AND FLAG_PLUSPOSITIVE \<noteq> 0 then [43]
       else if flags AND FLAG_SPACEPOSITIVE \<noteq> 0 then [32] else []
     else if flags AND FLAG_NUMERIC \<noteq> 0 \<and> flags AND FLAG_ALT \<noteq> 0 \<and> cv_base cv = 16
       \<and> (cv_num cv \<noteq> 0 \<or> flags AND FLAG_ALT2 \<noteq> 0) then [48, 120] else [])"

text \<open>Length, zeros and padding: the bytes one directive writes.\<close>

definition format_field :: "conversion \<Rightarrow> int \<Rightarrow> int \<Rightarrow> u8 list option" where
  "format_field cv width precision = do {
     let flags = cv_flags cv;
     let numeric = (flags AND FLAG_NUMERIC \<noteq> 0);
     let left = (flags AND FLAG_LEFTJUSTIFY \<noteq> 0);
     data \<leftarrow> (if numeric then number_data cv else Some (cv_data cv));
     let prefix = number_prefix cv;
     l \<leftarrow> (if 0 \<le> precision \<and> \<not> numeric then strnlen 0 (word_of_int precision) (cstr_mem data)
          else strlen 0 (cstr_mem data));
     let len = sint l;
     let plen = int (length prefix);
     let zeros =
       (if numeric \<and> 0 \<le> precision then if len < precision then precision - len else 0
        else if numeric \<and> flags AND FLAG_ZERO \<noteq> 0 \<and> \<not> left \<and> s32 (len + plen) < width
        then s32 (width - len - plen) else 0);
     let width = s32 (width - s32 (len + zeros + plen));
     Some ((if left then [] else replicate (nat width) 32) @ prefix @ replicate (nat zeros) 48
       @ take (nat len) data @ (if left then replicate (nat width) 32 else []))
   }"

text \<open>One directive, after its \<^verbatim>\<open>%\<close>: the bytes it writes, the rest of the format, the arguments left.\<close>

definition directive :: "u8 list \<Rightarrow> varg list \<Rightarrow> (u8 list \<times> u8 list \<times> varg list) option" where
  "directive fmt args = do {
     let (flags, fmt) = scan_flags 0 fmt;
     (width, fmt, args) \<leftarrow> scan_width fmt args;
     (precision, fmt, args) \<leftarrow> scan_precision fmt args;
     (cv, fmt, args) \<leftarrow> convert flags fmt args;
     out \<leftarrow> format_field cv width precision;
     Some (out, tl fmt, args)
   }"

section \<open>The main loop\<close>

partial_function (option) sprintf_loop :: "u32 \<Rightarrow> u8 list \<Rightarrow> varg list \<Rightarrow> u8 list \<Rightarrow> u8 list option" where
  "sprintf_loop max_len fmt args buffer =
    (case fmt of
       [] \<Rightarrow> Some buffer
     | c # cs \<Rightarrow>
         if max_len \<noteq> 0 \<and> unat (max_len - 1) \<le> length buffer then Some buffer
         else if c \<noteq> 37 then sprintf_loop max_len cs args (buffer @ [c])
         else do {
           (out, rest, args) \<leftarrow> directive cs args;
           sprintf_loop max_len rest args (buffer @ out)
         })"

definition sprintf_internal :: "u8 list \<Rightarrow> u32 \<Rightarrow> varg list \<Rightarrow> u8 list option" where
  "sprintf_internal fmt max_len vargs = do {
     buffer \<leftarrow> sprintf_loop max_len fmt vargs [];
     Some (buffer @ [0])
   }"

definition sprintf :: "u8 list \<Rightarrow> varg list \<Rightarrow> u8 list option" where
  "sprintf fmt args = sprintf_internal fmt 0 args"

definition snprintf :: "u32 \<Rightarrow> u8 list \<Rightarrow> varg list \<Rightarrow> u8 list option" where
  "snprintf n fmt args = sprintf_internal fmt n args"

section \<open>Strings and numbers\<close>

lemma cstr_cstr_mem:
  assumes "0 \<notin> set bs" "length bs < 4294967296"
  shows "cstr (cstr_mem bs) 0 bs"
proof -
  have "cstr_mem bs (0 + of_nat k) = (bs @ [0]) ! k" if "k < length (bs @ [0])" for k
  proof -
    have "unat (of_nat k :: u32) = k" using that assms(2) by simp
    then show ?thesis using that by (auto simp: cstr_mem_def nth_append)
  qed
  then show ?thesis using assms unfolding cstr_def bytes_at_def by blast
qed

lemma strlen_cstr: "cstr m a bs \<Longrightarrow> strlen a m = Some (of_nat (length bs))"
  using strlen_from_spec [of m a bs 0] by (simp add: strlen_def)

lemma strnlen_cstr:
  "cstr m a bs \<Longrightarrow> unat k < 4294967295 \<Longrightarrow> strnlen a k m = Some (of_nat (min (length bs) (unat k + 1)))"
  using strnlen_from_spec [of m a bs 0 k] by (simp add: strnlen_def)

lemma int_text_chars:
  assumes "10 \<le> b" "b \<le> 36"
  shows "0 \<notin> set (int_text b v)" "length (int_text b v) \<le> 11"
  using numeral_text_chars(1) [of b] int_text_length [OF assms(1), of v] assms by (auto simp: int_text_def)

lemma number_data_text:
  assumes "cv_base cv = of_nat b" "10 \<le> b" "b \<le> 36" "cv_flags cv AND FLAG_CAPS = 0"
  shows "number_data cv = Some (int_text b (cv_num cv))"
proof -
  let ?s = "int_text b (cv_num cv)"
  have "2 \<le> b" using assms(2) by simp
  from itoa_spec [OF this assms(3), of "cv_num cv" 0 "\<lambda>_. 0"] obtain m where
    m: "itoa (cv_num cv) 0 (of_nat b) (\<lambda>_. 0) = Some (0, m)" "cstr m 0 ?s" by blast
  have len: "unat (of_nat (length ?s) :: u32) = length ?s" using int_text_chars(2) [OF assms(2,3), of "cv_num cv"] by simp
  have "map (\<lambda>i. m (0 + of_nat i)) [0 ..< length ?s] = ?s"
    using cstr_nth(1) [OF m(2)] by (intro nth_equalityI) simp_all
  then show ?thesis
    using m(1) strlen_cstr [OF m(2)] len assms(1,4) by (simp add: number_data_def)
qed

lemma s32_small: "- 2147483648 \<le> x \<Longrightarrow> x < 2147483648 \<Longrightarrow> s32 x = x"
  unfolding s32_def sint_sbintrunc' by (subst signed_take_bit_int_eq_self) simp_all

lemma sint_of_nat: "n < 2147483648 \<Longrightarrow> sint (of_nat n :: u32) = int n"
  using s32_small [of "int n"] by (simp add: s32_def)

lemmas flag_defs = FLAG_ALT_def FLAG_ZERO_def FLAG_LEFTJUSTIFY_def FLAG_SPACEPOSITIVE_def FLAG_PLUSPOSITIVE_def
  FLAG_NUMERIC_def FLAG_SIGNED_def FLAG_NEGATIVE_def FLAG_ALT2_def FLAG_CAPS_def

text \<open>A field with no width: prefix and data.\<close>

lemma field_plain:
  assumes "(if cv_flags cv AND FLAG_NUMERIC \<noteq> 0 then number_data cv else Some (cv_data cv)) = Some data"
    "0 \<notin> set data" "length data < 2147483600"
  shows "format_field cv (- 1) (- 1) = Some (number_prefix cv @ data)"
proof -
  have l: "strlen 0 (cstr_mem data) = Some (of_nat (length data))"
    using assms(2,3) by (intro strlen_cstr cstr_cstr_mem) simp_all
  have len: "sint (of_nat (length data) :: u32) = int (length data)" using assms(3) by (intro sint_of_nat) simp
  have p: "length (number_prefix cv) \<le> 2" by (simp add: number_prefix_def Let_def)
  have w: "s32 (- 1 - s32 (int (length data) + 0 + int (length (number_prefix cv)))) < 0"
    using p assms(3) by (simp add: s32_small)
  have z: "\<not> s32 (int (length data) + int (length (number_prefix cv))) < - 1"
    using p assms(3) by (simp add: s32_small)
  show ?thesis
    unfolding format_field_def Let_def assms(1)
    using l len w z by (simp add: replicate_empty)
qed

lemma plain_directive:
  assumes "c \<notin> set flag_chars" "c \<noteq> 42" "c \<noteq> 46" "\<not> (49 \<le> c \<and> c \<le> 57)"
    "convert 0 (c # fmt) args = Some (cv, c # fmt, args')"
    "format_field cv (- 1) (- 1) = Some out"
  shows "directive (c # fmt) args = Some (out, fmt, args')"
proof -
  have "find (\<lambda>k. flag_chars ! k = c) [0 ..< length flag_chars] = None"
    using assms(1) by (auto simp: find_None_iff in_set_conv_nth)
  then have "scan_flags 0 (c # fmt) = (0, c # fmt)" by simp
  moreover have "scan_width (c # fmt) args = Some (- 1, c # fmt, args)"
    unfolding scan_width_def at_char_def list.case if_not_P [OF assms(4)] using assms(2) by simp
  moreover have "scan_precision (c # fmt) args = Some (- 1, c # fmt, args)"
    using assms(3) by (simp add: scan_precision_def at_char_def)
  ultimately show ?thesis
    using assms(5,6) by (simp add: directive_def del: convert.simps scan_flags.simps)
qed

lemma sprintf_one:
  assumes "directive (c # []) args = Some (out, [], args')" "max_len \<noteq> 1"
  shows "sprintf_internal [37, c] max_len args = Some (out @ [0])"
proof -
  have "max_len \<noteq> 0 \<Longrightarrow> unat (max_len - 1) \<noteq> 0" using assms(2) by (simp add: unat_eq_zero)
  then have "sprintf_loop max_len [37, c] args [] = sprintf_loop max_len [] args' ([] @ out)"
    using assms(1) by (subst sprintf_loop.simps) auto
  also have "\<dots> = Some out" by (subst sprintf_loop.simps) simp
  finally show ?thesis by (simp add: sprintf_internal_def)
qed

lemma sprintf_numbers:
  assumes "m \<noteq> 1"
  shows "sprintf_internal [37, 100] m [Int_arg v] =
      Some ((if sint v < 0 then 45 # int_text 10 (- v) else int_text 10 v) @ [0])"
    and "sprintf_internal [37, 117] m [Int_arg v] = Some (int_text 10 v @ [0])"
    and "sprintf_internal [37, 120] m [Int_arg v] = Some (int_text 16 v @ [0])"
proof -
  have ok: "0 \<notin> set (int_text 10 w)" "length (int_text 10 w) < 2147483600"
    "0 \<notin> set (int_text 16 w)" "length (int_text 16 w) < 2147483600" for w
    using int_text_chars [of 10 w] int_text_chars [of 16 w] by simp_all
  let ?cv = "\<lambda>b f w. \<lparr>cv_flags = f, cv_base = b, cv_num = w, cv_data = []\<rparr>"
  have nd: "number_data (?cv 10 f w) = Some (int_text 10 w)" "number_data (?cv 16 f w) = Some (int_text 16 w)"
    if "f AND FLAG_CAPS = 0" for f w
    using number_data_text [of "?cv 10 f w" 10] number_data_text [of "?cv 16 f w" 16] that by simp_all
  have "directive [117] [Int_arg v] = Some (int_text 10 v, [], [])"
  proof (rule plain_directive)
    show "convert 0 [117] [Int_arg v] = Some (?cv 10 FLAG_NUMERIC v, [117], [])" by simp
    show "format_field (?cv 10 FLAG_NUMERIC v) (- 1) (- 1) = Some (int_text 10 v)"
      using field_plain [of "?cv 10 FLAG_NUMERIC v", OF _ ok(1,2)] nd(1) [of FLAG_NUMERIC v]
      by (simp add: flag_defs number_prefix_def Let_def)
  qed (simp_all add: flag_chars_def)
  then show "sprintf_internal [37, 117] m [Int_arg v] = Some (int_text 10 v @ [0])"
    by (rule sprintf_one) (rule assms)
  have "directive [120] [Int_arg v] = Some (int_text 16 v, [], [])"
  proof (rule plain_directive)
    show "convert 0 [120] [Int_arg v] = Some (?cv 16 FLAG_NUMERIC v, [120], [])" by simp
    show "format_field (?cv 16 FLAG_NUMERIC v) (- 1) (- 1) = Some (int_text 16 v)"
      using field_plain [of "?cv 16 FLAG_NUMERIC v", OF _ ok(3,4)] nd(2) [of FLAG_NUMERIC v]
      by (simp add: flag_defs number_prefix_def Let_def)
  qed (simp_all add: flag_chars_def)
  then show "sprintf_internal [37, 120] m [Int_arg v] = Some (int_text 16 v @ [0])"
    by (rule sprintf_one) (rule assms)
  let ?f = "FLAG_NUMERIC OR FLAG_SIGNED OR (if sint v < 0 then FLAG_NEGATIVE else 0)"
  let ?w = "if sint v < 0 then - v else v"
  have "directive [100] [Int_arg v] = Some ((if sint v < 0 then 45 # int_text 10 (- v) else int_text 10 v), [], [])"
  proof (rule plain_directive)
    show "convert 0 [100] [Int_arg v] = Some (?cv 10 ?f ?w, [100], [])" by (simp add: Let_def)
    show "format_field (?cv 10 ?f ?w) (- 1) (- 1)
        = Some (if sint v < 0 then 45 # int_text 10 (- v) else int_text 10 v)"
      using field_plain [of "?cv 10 ?f ?w", OF _ ok(1,2)] nd(1) [of ?f ?w]
      by (simp add: flag_defs number_prefix_def Let_def)
  qed (simp_all add: flag_chars_def)
  then show "sprintf_internal [37, 100] m [Int_arg v]
      = Some ((if sint v < 0 then 45 # int_text 10 (- v) else int_text 10 v) @ [0])"
    by (rule sprintf_one) (rule assms)
qed

lemma sprintf_text_loop:
  assumes "37 \<notin> set fmt" "length buf \<le> unat (n - 1)" "n \<noteq> 0"
  shows "sprintf_loop n fmt args buf = Some (take (unat (n - 1)) (buf @ fmt))"
  using assms
proof (induction fmt arbitrary: buf)
  case Nil
  then show ?case by (subst sprintf_loop.simps) simp
next
  case (Cons c fmt)
  show ?case
  proof (cases "unat (n - 1) \<le> length buf")
    case True
    then have "length buf = unat (n - 1)" using Cons.prems(2) by simp
    then show ?thesis using Cons.prems by (subst sprintf_loop.simps) simp
  next
    case False
    then have "sprintf_loop n fmt args (buf @ [c]) = Some (take (unat (n - 1)) ((buf @ [c]) @ fmt))"
      using Cons.prems by (intro Cons.IH) simp_all
    then show ?thesis using Cons.prems False by (subst sprintf_loop.simps) simp
  qed
qed

lemma sprintf_string:
  assumes "m \<noteq> 1" "0 \<notin> set s" "length s < 2147483600"
  shows "sprintf_internal [37, 115] m [Str_arg s] = Some (s @ [0])"
proof -
  let ?cv = "\<lparr>cv_flags = 0, cv_base = 10, cv_num = 0, cv_data = s\<rparr>"
  have "directive [115] [Str_arg s] = Some (s, [], [])"
  proof (rule plain_directive)
    show "convert 0 [115] [Str_arg s] = Some (?cv, [115], [])" by simp
    show "format_field ?cv (- 1) (- 1) = Some s"
      using field_plain [of ?cv s] assms(2,3) by (simp add: number_prefix_def Let_def)
  qed (simp_all add: flag_chars_def)
  then show ?thesis by (rule sprintf_one) (rule assms(1))
qed

lemma sprintf_precision:
  assumes "m \<noteq> 1" "0 \<notin> set s" "length s < 2147483600" "k < 2147483600"
  shows "sprintf_internal [37, 46, 42, 115] m [Int_arg (of_nat k), Str_arg s] = Some (take (k + 1) s @ [0])"
proof -
  let ?cv = "\<lparr>cv_flags = 0, cv_base = 10, cv_num = 0, cv_data = s\<rparr>"
  let ?l = "min (length s) (k + 1)"
  have k: "sint (of_nat k :: u32) = int k" using assms(4) by (intro sint_of_nat) simp
  have l: "strnlen 0 (of_nat k) (cstr_mem s) = Some (of_nat ?l)"
    using strnlen_cstr [OF cstr_cstr_mem [OF assms(2)], of "of_nat k"] assms(3,4) by simp
  have len: "sint (of_nat ?l :: u32) = int ?l" using assms(3,4) by (intro sint_of_nat) simp
  have w: "s32 (- 1 - s32 (int ?l)) < 0" using assms(3,4) by (simp add: s32_small)
  have np: "number_prefix ?cv = []" by (simp add: number_prefix_def)
  have word: "(word_of_int (int k) :: u32) = of_nat k" by simp
  have field: "format_field ?cv (- 1) (int k) = Some (take ?l s)"
    unfolding format_field_def Let_def np using l len w word by (simp del: of_nat_min)
  have fl: "scan_flags 0 (46 # fmt) = (0, 46 # fmt)" for fmt
    by (simp add: flag_chars_def)
  have "scan_width [46, 42, 115] args = Some (- 1, [46, 42, 115], args)" for args
    by (simp add: scan_width_def at_char_def)
  moreover have "scan_precision [46, 42, 115] [Int_arg (of_nat k), Str_arg s] = Some (int k, [115], [Str_arg s])"
    using k by (simp add: scan_precision_def at_char_def)
  ultimately have dir: "directive [46, 42, 115] [Int_arg (of_nat k), Str_arg s] = Some (take ?l s, [], [])"
    using field fl by (simp add: directive_def del: scan_flags.simps)
  have "m \<noteq> 0 \<Longrightarrow> unat (m - 1) \<noteq> 0" using assms(1) by (simp add: unat_eq_zero)
  then have "sprintf_loop m [37, 46, 42, 115] [Int_arg (of_nat k), Str_arg s] [] = sprintf_loop m [] [] (take ?l s)"
    using dir by (subst sprintf_loop.simps) auto
  also have "\<dots> = Some (take ?l s)" by (subst sprintf_loop.simps) simp
  also have "take ?l s = take (k + 1) s" by (simp add: min_def)
  finally show ?thesis by (simp add: sprintf_internal_def)
qed

section \<open>Properties\<close>

text \<open>\<^verbatim>\<open>%d\<close> prints every \<^verbatim>\<open>int\<close> but the smallest, and \<^verbatim>\<open>%x\<close> every \<^verbatim>\<open>unsigned\<close>, as a numeral that reads
  back as the argument.\<close>

theorem sprintf_numbers_roundtrip:
  assumes "m \<noteq> 1" "v \<noteq> 0x80000000"
  shows "(\<exists>s. sprintf_internal [37, 100] m [Int_arg v] = Some (s @ [0]) \<and> read_int 10 s = sint v)
    \<and> (\<exists>s. sprintf_internal [37, 120] m [Int_arg v] = Some (s @ [0]) \<and> read_int 16 s = uint v)"
proof
  show "\<exists>s. sprintf_internal [37, 120] m [Int_arg v] = Some (s @ [0]) \<and> read_int 16 s = uint v"
    using sprintf_numbers(3) [OF assms(1), of v] read_int_text [of 16 v] by simp
  show "\<exists>s. sprintf_internal [37, 100] m [Int_arg v] = Some (s @ [0]) \<and> read_int 10 s = sint v"
  proof (cases "sint v < 0")
    case False
    then show ?thesis using sprintf_numbers(1) [OF assms(1), of v] read_int_text [of 10 v] by simp
  next
    case True
    have "\<not> sint (- v) < 0"
    proof
      assume n: "sint (- v) < 0"
      have "int (unat (- v)) = - sint v" "int (unat v) = - sint (- v)"
        using neg_u32 [OF True] neg_u32 [OF n] by simp_all
      moreover have "sint v = uint v - 4294967296" "sint (- v) = uint (- v) - 4294967296"
        using True n uint_bounded [of v] uint_bounded [of "- v"] by (simp_all add: sint_uint_u32 split: if_splits)
      moreover have "\<not> uint v < 2147483648" "\<not> uint (- v) < 2147483648"
        using True n uint_bounded [of v] uint_bounded [of "- v"] by (auto simp: sint_uint_u32 split: if_splits)
      ultimately have "uint v = 2147483648" by simp
      then have "v = 0x80000000" by (simp add: word_uint_eq_iff)
      with assms(2) show False by simp
    qed
    then have "int_text 10 (- v) = numeral_text 10 (unat (- v))" by (simp add: int_text_def)
    then have "read_int 10 (45 # int_text 10 (- v)) = sint v"
      using read_int_numeral(2) [of 10 "unat (- v)"] neg_u32 [OF True] by simp
    then show ?thesis
      using sprintf_numbers(1) [OF assms(1), of v] True by (intro exI [of _ "45 # int_text 10 (- v)"]) simp
  qed
qed

lemma sprintf_numbers_roundtrip_witness:
  "(\<exists>s. sprintf_internal [37, 100] 0 [Int_arg 0xFFFFFF85] = Some (s @ [0]) \<and> read_int 10 s = sint (0xFFFFFF85 :: u32))
    \<and> (\<exists>s. sprintf_internal [37, 120] 0 [Int_arg 0xFFFFFF85] = Some (s @ [0]) \<and> read_int 16 s = uint (0xFFFFFF85 :: u32))"
  by (rule sprintf_numbers_roundtrip) simp_all

text \<open>\<^verbatim>\<open>%u\<close> prints every value from \<open>2 ^ 31\<close> on as a negative number, and \<^verbatim>\<open>%d\<close> puts two signs in
  front of the smallest \<^verbatim>\<open>int\<close>: both hand the number to the signed \<^verbatim>\<open>itoa\<close>.\<close>

theorem sprintf_large_numbers_wrong:
  assumes "2147483648 \<le> uint v"
  shows "(\<exists>s. sprintf [37, 117] [Int_arg v] = Some (s @ [0]) \<and> read_int 10 s = uint v - 4294967296)
    \<and> (\<exists>s. sprintf [37, 100] [Int_arg 0x80000000] = Some (45 # 45 # s @ [0]) \<and> read_int 10 s = 2147483648)"
proof
  have "sint v = uint v - 4294967296" using assms by (simp add: sint_uint_u32)
  then show "\<exists>s. sprintf [37, 117] [Int_arg v] = Some (s @ [0]) \<and> read_int 10 s = uint v - 4294967296"
    using sprintf_numbers(2) [of 0 v] read_int_text [of 10 v] by (simp add: sprintf_def)
  have "sint (0x80000000 :: u32) < 0" "- (0x80000000 :: u32) = 0x80000000" by simp_all
  then have "sprintf [37, 100] [Int_arg 0x80000000] = Some (45 # (45 # numeral_text 10 2147483648) @ [0])"
    using sprintf_numbers(1) [of 0 "0x80000000"] by (simp add: sprintf_def int_text_def)
  then show "\<exists>s. sprintf [37, 100] [Int_arg 0x80000000] = Some (45 # 45 # s @ [0]) \<and> read_int 10 s = 2147483648"
    using read_int_numeral(1) [of 10 2147483648] by simp
qed

lemma sprintf_large_numbers_wrong_witness:
  "(\<exists>s. sprintf [37, 117] [Int_arg 3000000000] = Some (s @ [0])
      \<and> read_int 10 s = uint (3000000000 :: u32) - 4294967296)
    \<and> (\<exists>s. sprintf [37, 100] [Int_arg 0x80000000] = Some (45 # 45 # s @ [0]) \<and> read_int 10 s = 2147483648)"
  by (rule sprintf_large_numbers_wrong) simp

text \<open>A precision cuts a string one character late: \<^verbatim>\<open>%.*s\<close> with precision \<open>k\<close> prints \<open>k + 1\<close> characters
  of a longer string, because of the bound of \<^verbatim>\<open>strnlen\<close>.\<close>

theorem sprintf_precision_off_by_one:
  assumes "0 \<notin> set s" "length s < 2147483600" "k < length s"
  shows "\<exists>out. sprintf [37, 46, 42, 115] [Int_arg (of_nat k), Str_arg s] = Some (out @ [0]) \<and> length out = k + 1"
  using sprintf_precision [of 0 s k] assms by (simp add: sprintf_def)

lemma sprintf_precision_off_by_one_witness:
  "\<exists>out. sprintf [37, 46, 42, 115] [Int_arg (of_nat 2), Str_arg [97, 98, 99, 100]] = Some (out @ [0]) \<and> length out = 2 + 1"
  by (rule sprintf_precision_off_by_one) simp_all

text \<open>For a format without directives \<^verbatim>\<open>snprintf\<close> writes at most \<open>n\<close> bytes: the first \<open>n - 1\<close>
  characters and the terminator.\<close>

theorem snprintf_text_bounded:
  assumes "n \<noteq> 0" "37 \<notin> set fmt"
  shows "snprintf n fmt args = Some (take (unat n - 1) fmt @ [0])"
proof -
  have "unat (n - 1) = unat n - 1" using assms(1) by (subst unat_sub_u32) (simp_all add: unat_gt_0 Suc_le_eq)
  then show ?thesis
    using sprintf_text_loop [OF assms(2), of "[]" n args] assms(1) by (simp add: snprintf_def sprintf_internal_def)
qed

lemma snprintf_text_bounded_witness: "snprintf 3 [97, 98, 99] [] = Some (take (unat (3 :: u32) - 1) [97, 98, 99] @ [0])"
  by (rule snprintf_text_bounded) simp_all

text \<open>\<^verbatim>\<open>snprintf\<close> does not keep its bound once a directive starts: \<^verbatim>\<open>%s\<close> with any \<open>n\<close> above 1 writes
  the whole argument and its terminator.\<close>

theorem snprintf_overruns:
  assumes "1 < n" "0 \<notin> set s" "unat n \<le> length s" "length s < 2147483600"
  shows "\<exists>out. snprintf n [37, 115] [Str_arg s] = Some out \<and> unat n < length out"
proof -
  have "n \<noteq> 1" using assms(1) by auto
  then show ?thesis using sprintf_string [OF _ assms(2,4), of n] assms(3) by (simp add: snprintf_def)
qed

lemma snprintf_overruns_witness:
  "\<exists>out. snprintf 2 [37, 115] [Str_arg [97, 98, 99, 100]] = Some out \<and> unat (2 :: u32) < length out"
  by (rule snprintf_overruns) (simp_all add: word_less_nat_alt)

end
