(* ===== verification/Tty.thy ===== *)
theory Tty
  imports KString
begin

text \<open>
  The text console, \<^verbatim>\<open>kernel/tty/tty.c\<close>. The four static variables are the fields of a record,
  with the memory the VGA buffer is in; the operations store 16-bit cells relative to the buffer
  pointer. The abstract console is a list of 2000 cells with a cursor, and every operation is
  shown to be the operation on that list and to keep its stores inside the buffer.
\<close>

unbundle bit_operations_syntax

section \<open>State and operations\<close>

definition TTY_WIDTH :: u32 where "TTY_WIDTH = 80"
definition TTY_HEIGHT :: u32 where "TTY_HEIGHT = 25"

definition VGA_COLOR_BLACK :: u16 where "VGA_COLOR_BLACK = 0"
definition VGA_COLOR_RED :: u16 where "VGA_COLOR_RED = 4"
definition VGA_COLOR_BROWN :: u16 where "VGA_COLOR_BROWN = 6"
definition VGA_COLOR_LIGHT_RED :: u16 where "VGA_COLOR_LIGHT_RED = 12"
definition VGA_COLOR_WHITE :: u16 where "VGA_COLOR_WHITE = 15"

definition VGA_BUFFER_PADDR :: u32 where "VGA_BUFFER_PADDR = 0xB8000"

record tty =
  tty_vga_buffer :: u32
  tty_theme_color :: u16
  tty_x :: u32
  tty_y :: u16
  tty_mem :: mem

definition tty_boot :: "mem \<Rightarrow> tty" where
  "tty_boot m = \<lparr>tty_vga_buffer = VGA_BUFFER_PADDR, tty_theme_color = VGA_COLOR_BLACK, tty_x = 0, tty_y = 0, tty_mem = m\<rparr>"

text \<open>\<^verbatim>\<open>*(tty_vga_buffer + k) = v\<close>: cells are two bytes wide.\<close>

definition put_cell :: "u32 \<Rightarrow> u16 \<Rightarrow> tty \<Rightarrow> tty" where
  "put_cell k v t = t\<lparr>tty_mem := store16 (tty_mem t) (tty_vga_buffer t + 2 * k) v\<rparr>"

text \<open>The loops that fill cells with the theme; the first argument counts the iterations left.\<close>

fun blank_cells :: "nat \<Rightarrow> u32 \<Rightarrow> u32 \<Rightarrow> tty \<Rightarrow> tty" where
  "blank_cells 0 i base t = t"
| "blank_cells (Suc n) i base t = blank_cells n (i + 1) base (put_cell (i + base) (tty_theme_color t) t)"

definition tty_clear :: "tty \<Rightarrow> tty" where
  "tty_clear t = (blank_cells (unat (TTY_WIDTH * TTY_HEIGHT)) 0 0 t)\<lparr>tty_x := 0, tty_y := 0\<rparr>"

definition tty_init :: "u32 \<Rightarrow> tty \<Rightarrow> tty" where
  "tty_init vga_buf t = tty_clear (t\<lparr>tty_vga_buffer := vga_buf\<rparr>)"

definition tty_set_buffer :: "u32 \<Rightarrow> tty \<Rightarrow> tty" where
  "tty_set_buffer vga_buf t = t\<lparr>tty_vga_buffer := vga_buf\<rparr>"

definition tty_set_theme :: "u16 \<Rightarrow> u16 \<Rightarrow> tty \<Rightarrow> tty" where
  "tty_set_theme fg bg t = t\<lparr>tty_theme_color := push_bit 8 (push_bit 4 bg OR fg)\<rparr>"

definition tty_scroll_up :: "tty \<Rightarrow> tty" where
  "tty_scroll_up t =
    (let last_line = TTY_WIDTH * (TTY_HEIGHT - 1);
         (_, m) = memcpy (tty_vga_buffer t) (tty_vga_buffer t + 2 * TTY_WIDTH) (last_line * 2) (tty_mem t);
         t = blank_cells (unat TTY_WIDTH) 0 last_line (t\<lparr>tty_mem := m\<rparr>)
     in t\<lparr>tty_y := (if tty_y t = 0 then 0 else ucast (TTY_HEIGHT - 1))\<rparr>)"

text \<open>\<^verbatim>\<open>chr\<close> is a signed char: in \<^verbatim>\<open>tty_theme_color | chr\<close> it is extended with its sign.\<close>

definition tty_put_char :: "u8 \<Rightarrow> tty \<Rightarrow> tty" where
  "tty_put_char chr t =
    (let t = (if chr = 9 then t\<lparr>tty_x := tty_x t + 4\<rparr>
              else if chr = 10 then t\<lparr>tty_y := tty_y t + 1, tty_x := 0\<rparr>
              else if chr = 13 then t\<lparr>tty_x := 0\<rparr>
              else let t = put_cell (tty_x t + ucast (tty_y t) * TTY_WIDTH) (tty_theme_color t OR scast chr) t
                   in t\<lparr>tty_x := tty_x t + 1\<rparr>);
         t = (if TTY_WIDTH \<le> tty_x t then t\<lparr>tty_x := 0, tty_y := tty_y t + 1\<rparr> else t)
     in if TTY_HEIGHT \<le> ucast (tty_y t) then tty_scroll_up t else t)"

text \<open>The string is the list of its bytes before the terminator.\<close>

fun tty_put_str :: "u8 list \<Rightarrow> tty \<Rightarrow> tty" where
  "tty_put_str [] t = t"
| "tty_put_str (c # str) t = tty_put_str str (tty_put_char c t)"

definition tty_clear_line :: "u32 \<Rightarrow> tty \<Rightarrow> tty" where
  "tty_clear_line y t = blank_cells (unat TTY_WIDTH) 0 (y * TTY_WIDTH) t"

definition tty_set_cpos :: "u32 \<Rightarrow> u32 \<Rightarrow> tty \<Rightarrow> tty" where
  "tty_set_cpos x y t = t\<lparr>tty_x := x mod TTY_WIDTH, tty_y := ucast (y mod TTY_HEIGHT)\<rparr>"

definition tty_get_cpos :: "tty \<Rightarrow> u32 \<times> u32" where
  "tty_get_cpos t = (tty_x t, ucast (tty_y t))"

definition tty_get_theme :: "tty \<Rightarrow> u16" where
  "tty_get_theme t = tty_theme_color t"

section \<open>The abstract console\<close>

record screen =
  cells :: "u16 list"
  cx :: nat
  cy :: nat
  colour :: u16

definition scr_scroll :: "screen \<Rightarrow> screen" where
  "scr_scroll s = (if cy s < 25 then s else s\<lparr>cells := drop 80 (cells s) @ replicate 80 (colour s), cy := 24\<rparr>)"

definition scr_wrap :: "screen \<Rightarrow> screen" where
  "scr_wrap s = (if cx s < 80 then s else s\<lparr>cx := 0, cy := cy s + 1\<rparr>)"

definition scr_put :: "u8 \<Rightarrow> screen \<Rightarrow> screen" where
  "scr_put c s = scr_scroll (scr_wrap
    (if c = 9 then s\<lparr>cx := cx s + 4\<rparr>
     else if c = 10 then s\<lparr>cy := cy s + 1, cx := 0\<rparr>
     else if c = 13 then s\<lparr>cx := 0\<rparr>
     else s\<lparr>cells := (cells s)[cx s + cy s * 80 := colour s OR scast c], cx := cx s + 1\<rparr>))"

fun scr_text :: "u8 list \<Rightarrow> screen \<Rightarrow> screen" where
  "scr_text [] s = s"
| "scr_text (c # cs) s = scr_text cs (scr_put c s)"

definition cell :: "tty \<Rightarrow> nat \<Rightarrow> u16" where
  "cell t k = load16 (tty_mem t) (of_nat (unat (tty_vga_buffer t) + 2 * k))"

definition screen_of :: "tty \<Rightarrow> screen" where
  "screen_of t = \<lparr>cells = map (cell t) [0 ..< 2000], cx = unat (tty_x t), cy = unat (tty_y t), colour = tty_theme_color t\<rparr>"

text \<open>The buffer does not wrap around the address space; the cursor is on the screen.\<close>

definition buffer_ok :: "tty \<Rightarrow> bool" where
  "buffer_ok t \<longleftrightarrow> unat (tty_vga_buffer t) + 4000 \<le> 4294967296"

definition tty_ok :: "tty \<Rightarrow> bool" where
  "tty_ok t \<longleftrightarrow> buffer_ok t \<and> unat (tty_x t) < 80 \<and> unat (tty_y t) < 25"

definition same_outside :: "tty \<Rightarrow> tty \<Rightarrow> bool" where
  "same_outside t t' \<longleftrightarrow> tty_vga_buffer t' = tty_vga_buffer t \<and>
    (\<forall>x < 4294967296. x < unat (tty_vga_buffer t) \<or> unat (tty_vga_buffer t) + 4000 \<le> x
      \<longrightarrow> tty_mem t' (of_nat x) = tty_mem t (of_nat x))"

lemma same_outside_trans [trans]: "same_outside s t \<Longrightarrow> same_outside t u \<Longrightarrow> same_outside s u"
  by (simp add: same_outside_def)

lemma same_outside_fields [simp]:
  "same_outside s (t\<lparr>tty_x := x\<rparr>) = same_outside s t" "same_outside s (t\<lparr>tty_y := y\<rparr>) = same_outside s t"
  "same_outside s (t\<lparr>tty_theme_color := v\<rparr>) = same_outside s t" "same_outside t t"
  by (simp_all add: same_outside_def)

lemma cell_fields [simp]: "cell (t\<lparr>tty_x := x\<rparr>) = cell t" "cell (t\<lparr>tty_y := y\<rparr>) = cell t" "cell (t\<lparr>tty_theme_color := v\<rparr>) = cell t"
  by (simp_all add: cell_def fun_eq_iff)

section \<open>Cells\<close>

lemma load16_store16_nat:
  assumes "a + 1 < 4294967296" "b + 1 < 4294967296" "a + 1 < b \<or> b + 1 < a"
  shows "load16 (store16 m (of_nat a) v) (of_nat b) = load16 m (of_nat b)"
proof -
  have "of_nat (b + i) \<noteq> (of_nat (a + j) :: u32)" if "i \<le> 1" "j \<le> 1" for i j
    using assms that by (subst of_nat_inject_u32) auto
  from this [of 0 0] this [of 0 1] this [of 1 0] this [of 1 1] show ?thesis
    by (simp add: load16_def store16_def add.commute)
qed

lemma store16_byte:
  assumes "a + 1 < 4294967296" "x < 4294967296" "x \<noteq> a" "x \<noteq> a + 1"
  shows "store16 m (of_nat a) v (of_nat x) = m (of_nat x)"
proof -
  have "of_nat x \<noteq> (of_nat (a + j) :: u32)" if "j \<le> 1" for j
    using assms that by (subst of_nat_inject_u32) auto
  from this [of 0] this [of 1] show ?thesis by (simp add: store16_def add.commute)
qed

lemma put_cell:
  assumes "buffer_ok t" "j < 2000"
  shows "k < 2000 \<Longrightarrow> cell (put_cell (of_nat j) v t) k = (if k = j then v else cell t k)"
    "same_outside t (put_cell (of_nat j) v t)"
    "put_cell (of_nat j) v t = t\<lparr>tty_mem := tty_mem (put_cell (of_nat j) v t)\<rparr>"
proof -
  let ?b = "unat (tty_vga_buffer t)"
  have b: "?b + 4000 \<le> 4294967296" using assms(1) by (simp add: buffer_ok_def)
  have put: "put_cell (of_nat j) v t = t\<lparr>tty_mem := store16 (tty_mem t) (of_nat (?b + 2 * j)) v\<rparr>"
    by (simp add: put_cell_def)
  show "put_cell (of_nat j) v t = t\<lparr>tty_mem := tty_mem (put_cell (of_nat j) v t)\<rparr>" by (simp add: put_cell_def)
  show "same_outside t (put_cell (of_nat j) v t)"
    using b assms(2) by (auto simp: put same_outside_def store16_byte simp del: of_nat_add)
  show "cell (put_cell (of_nat j) v t) k = (if k = j then v else cell t k)" if k: "k < 2000"
  proof (cases "k = j")
    case False
    then have "load16 (store16 (tty_mem t) (of_nat (?b + 2 * j)) v) (of_nat (?b + 2 * k))
        = load16 (tty_mem t) (of_nat (?b + 2 * k))"
      using b assms(2) k by (intro load16_store16_nat) auto
    with False show ?thesis by (simp add: put cell_def del: of_nat_add)
  qed (simp add: put cell_def del: of_nat_add)
qed

lemma buffer_ok_put [simp]: "buffer_ok (put_cell k v t) = buffer_ok t"
  by (simp add: buffer_ok_def put_cell_def)

lemma blank_cells:
  assumes "buffer_ok t" "base + i + n \<le> 2000"
  defines "t' \<equiv> blank_cells n (of_nat i) (of_nat base) t"
  shows "(\<forall>k < 2000. cell t' k = (if base + i \<le> k \<and> k < base + i + n then tty_theme_color t else cell t k))
    \<and> same_outside t t' \<and> t' = t\<lparr>tty_mem := tty_mem t'\<rparr>"
  unfolding t'_def using assms(1,2)
proof (induction n arbitrary: i t)
  case (Suc n)
  let ?t = "put_cell (of_nat (i + base)) (tty_theme_color t) t"
  have j: "i + base < 2000" using Suc.prems by simp
  note put = put_cell [OF Suc.prems(1) j, where v = "tty_theme_color t"]
  have th: "tty_theme_color ?t = tty_theme_color t" by (simp add: put_cell_def)
  have step: "blank_cells (Suc n) (of_nat i) (of_nat base) t = blank_cells n (of_nat (i + 1)) (of_nat base) ?t"
    by (simp add: add.commute)
  have "buffer_ok ?t" "base + (i + 1) + n \<le> 2000" using Suc.prems by simp_all
  note IH = Suc.IH [OF this]
  from IH have "blank_cells n (of_nat (i + 1)) (of_nat base) ?t
      = ?t\<lparr>tty_mem := tty_mem (blank_cells n (of_nat (i + 1)) (of_nat base) ?t)\<rparr>" by blast
  also have "\<dots> = t\<lparr>tty_mem := tty_mem (blank_cells n (of_nat (i + 1)) (of_nat base) ?t)\<rparr>"
    by (subst put(3)) simp
  finally show ?case
    unfolding step using IH put(1,2) th by (auto intro: same_outside_trans)
qed auto

lemma blank_cells_screen:
  assumes "buffer_ok t" "base + n \<le> 2000"
  defines "t' \<equiv> blank_cells n 0 (of_nat base) t"
  shows "map (cell t') [0 ..< 2000] = take base (map (cell t) [0 ..< 2000]) @ replicate n (tty_theme_color t)
      @ drop (base + n) (map (cell t) [0 ..< 2000])"
    "same_outside t t'" "t' = t\<lparr>tty_mem := tty_mem t'\<rparr>"
proof -
  note * = blank_cells [of t base 0 n, folded t'_def, simplified, OF assms(1,2), folded t'_def]
  then show "same_outside t t'" "t' = t\<lparr>tty_mem := tty_mem t'\<rparr>" by blast+
  show "map (cell t') [0 ..< 2000] = take base (map (cell t) [0 ..< 2000]) @ replicate n (tty_theme_color t)
      @ drop (base + n) (map (cell t) [0 ..< 2000])"
    using * assms(2) by (intro nth_equalityI) (auto simp: nth_append)
qed

lemma scroll_copy:
  assumes "buffer_ok t"
  defines "t' \<equiv> t\<lparr>tty_mem := snd (memcpy (tty_vga_buffer t) (tty_vga_buffer t + 160) 3840 (tty_mem t))\<rparr>"
  shows "k < 1920 \<Longrightarrow> cell t' k = cell t (k + 80)" "same_outside t t'"
proof -
  let ?b = "unat (tty_vga_buffer t)"
  have b: "?b + 4000 \<le> 4294967296" using assms(1) by (simp add: buffer_ok_def)
  have byte: "tty_mem t' (of_nat x) = (if ?b \<le> x \<and> x < ?b + 3840 then tty_mem t (of_nat (?b + 160 + (x - ?b))) else tty_mem t (of_nat x))"
    if "x < 4294967296" for x
    using copy_up_spec [of ?b 0 3840 "?b + 160" x "tty_mem t"] b that by (simp add: t'_def memcpy_def)
  have nxt: "(of_nat x + 1 :: u32) = of_nat (x + 1)" for x by simp
  show "cell t' k = cell t (k + 80)" if "k < 1920"
  proof -
    have "tty_mem t' (of_nat (?b + 2 * k + i)) = tty_mem t (of_nat (?b + 2 * (k + 80) + i))" if "i \<le> 1" for i
      using byte [of "?b + 2 * k + i"] b that \<open>k < 1920\<close> by (simp add: algebra_simps)
    from this [of 0] this [of 1] show ?thesis
      unfolding cell_def load16_def nxt by (simp add: t'_def add.assoc)
  qed
  show "same_outside t t'" using byte by (simp add: same_outside_def t'_def)
qed

section \<open>Operations on the abstract console\<close>

lemma tty_scroll_up_spec:
  assumes "buffer_ok t" "tty_y t \<noteq> 0"
  shows "screen_of (tty_scroll_up t) = (screen_of t)\<lparr>cells := drop 80 (cells (screen_of t)) @ replicate 80 (tty_theme_color t), cy := 24\<rparr>"
    "same_outside t (tty_scroll_up t)"
proof -
  define t1 where "t1 = t\<lparr>tty_mem := snd (memcpy (tty_vga_buffer t) (tty_vga_buffer t + 160) 3840 (tty_mem t))\<rparr>"
  define t2 where "t2 = blank_cells 80 0 (of_nat 1920) t1"
  note copy = scroll_copy [OF assms(1), folded t1_def]
  have "buffer_ok t1" using assms(1) by (simp add: buffer_ok_def t1_def)
  from blank_cells_screen [OF this, of 1920 80, folded t2_def]
  have 2: "map (cell t2) [0 ..< 2000] = take 1920 (map (cell t1) [0 ..< 2000]) @ replicate 80 (tty_theme_color t1)"
    "same_outside t1 t2" "t2 = t1\<lparr>tty_mem := tty_mem t2\<rparr>" by simp_all
  have up: "tty_scroll_up t = t2\<lparr>tty_y := 24\<rparr>"
    using assms(2) by (simp add: tty_scroll_up_def TTY_WIDTH_def TTY_HEIGHT_def t1_def t2_def memcpy_def
      arg_cong [OF 2(3), of tty_y, unfolded t1_def t2_def memcpy_def, simplified])
  have "take 1920 (map (cell t1) [0 ..< 2000]) = drop 80 (map (cell t) [0 ..< 2000])"
    using copy(1) by (intro nth_equalityI) (auto simp: add.commute)
  then have c: "map (cell t2) [0 ..< 2000] = drop 80 (map (cell t) [0 ..< 2000]) @ replicate 80 (tty_theme_color t)"
    using 2(1) by (simp add: t1_def)
  have f: "tty_x t2 = tty_x t" "tty_theme_color t2 = tty_theme_color t" by (subst 2(3), simp add: t1_def)+
  show "screen_of (tty_scroll_up t) = (screen_of t)\<lparr>cells := drop 80 (cells (screen_of t)) @ replicate 80 (tty_theme_color t), cy := 24\<rparr>"
    using c f by (simp add: up screen_of_def)
  show "same_outside t (tty_scroll_up t)" using copy(2) 2(2) by (auto simp: up intro: same_outside_trans)
qed

lemma unat_ucast_y [simp]: "unat (ucast (y :: u16) :: u32) = unat y"
  using unsigned_less [of y, where 'a = nat] by (simp add: unsigned_ucast_eq take_bit_nat_eq_self)

lemma unat_incr_y: "unat (y :: u16) < 100 \<Longrightarrow> unat (y + 1) = unat y + 1"
  by (subst unat_add_lem [THEN iffD1]) simp_all

lemma unat_incr_x: "unat (x :: u32) < 100 \<Longrightarrow> unat (x + 1) = unat x + 1" "unat x < 100 \<Longrightarrow> unat (x + 4) = unat x + 4"
  by (subst unat_add_u32; simp)+

lemma cursor_cell: "(x :: u32) + ucast (y :: u16) * TTY_WIDTH = of_nat (unat x + unat y * 80)"
  by (simp add: TTY_WIDTH_def)

lemma put_cell_screen:
  assumes "buffer_ok t" "j < 2000"
  shows "screen_of (put_cell (of_nat j) v t) = (screen_of t)\<lparr>cells := (cells (screen_of t))[j := v]\<rparr>"
proof -
  have "map (cell (put_cell (of_nat j) v t)) [0 ..< 2000] = (map (cell t) [0 ..< 2000])[j := v]"
    using put_cell(1) [OF assms] by (intro nth_equalityI) (auto simp: nth_list_update)
  then show ?thesis by (simp add: screen_of_def put_cell_def)
qed

lemma screen_of_fields [simp]:
  "screen_of (t\<lparr>tty_x := x\<rparr>) = (screen_of t)\<lparr>cx := unat x\<rparr>"
  "screen_of (t\<lparr>tty_y := y\<rparr>) = (screen_of t)\<lparr>cy := unat y\<rparr>"
  "cx (screen_of t) = unat (tty_x t)" "cy (screen_of t) = unat (tty_y t)" "colour (screen_of t) = tty_theme_color t"
  by (simp_all add: screen_of_def)

lemma put_cell_fields [simp]:
  "tty_x (put_cell k v t) = tty_x t" "tty_y (put_cell k v t) = tty_y t" "tty_theme_color (put_cell k v t) = tty_theme_color t"
  "tty_vga_buffer (put_cell k v t) = tty_vga_buffer t"
  by (simp_all add: put_cell_def)

lemma buffer_ok_fields [simp]: "buffer_ok (t\<lparr>tty_x := x\<rparr>) = buffer_ok t" "buffer_ok (t\<lparr>tty_y := y\<rparr>) = buffer_ok t"
  by (simp_all add: buffer_ok_def)

lemma same_outside_ok: "same_outside t t' \<Longrightarrow> buffer_ok t' = buffer_ok t"
  by (simp add: same_outside_def buffer_ok_def)

text \<open>The end of \<^verbatim>\<open>tty_put_char\<close>: wrapping and scrolling.\<close>

definition settle :: "tty \<Rightarrow> tty" where
  "settle t = (let t = (if TTY_WIDTH \<le> tty_x t then t\<lparr>tty_x := 0, tty_y := tty_y t + 1\<rparr> else t)
     in if TTY_HEIGHT \<le> ucast (tty_y t) then tty_scroll_up t else t)"

lemma settle_refines:
  assumes "buffer_ok t" "unat (tty_x t) < 90" "unat (tty_y t) < 25 \<or> unat (tty_y t) = 25 \<and> tty_x t = 0"
  shows "screen_of (settle t) = scr_scroll (scr_wrap (screen_of t)) \<and> tty_ok (settle t) \<and> same_outside t (settle t)"
proof -
  define u where "u = (if TTY_WIDTH \<le> tty_x t then t\<lparr>tty_x := 0, tty_y := tty_y t + 1\<rparr> else t)"
  have le: "TTY_WIDTH \<le> tty_x t \<longleftrightarrow> 80 \<le> unat (tty_x t)" "TTY_HEIGHT \<le> ucast (tty_y u) \<longleftrightarrow> 25 \<le> unat (tty_y u)"
    by (simp_all add: word_le_nat_alt TTY_WIDTH_def TTY_HEIGHT_def)
  have wrap: "screen_of u = scr_wrap (screen_of t)"
    using assms(2,3) le(1) by (auto simp: u_def scr_wrap_def unat_incr_y)
  have ok: "buffer_ok u" "same_outside t u" using assms(1) by (simp_all add: u_def)
  have x: "unat (tty_x u) < 80" "unat (tty_y u) \<le> 25"
    using assms(2,3) le(1) by (auto simp: u_def unat_incr_y not_le)
  have st: "settle t = (if 25 \<le> unat (tty_y u) then tty_scroll_up u else u)"
    using le(2) by (simp add: settle_def u_def [symmetric])
  show ?thesis
  proof (cases "25 \<le> unat (tty_y u)")
    case True
    then have "tty_y u \<noteq> 0" by auto
    note up = tty_scroll_up_spec [OF ok(1) this]
    have scr: "screen_of (settle t) = scr_scroll (scr_wrap (screen_of t))"
      unfolding wrap [symmetric] using True up(1) by (simp add: st scr_scroll_def)
    moreover have "tty_ok (settle t)"
      using arg_cong [OF up(1), of cx] arg_cong [OF up(1), of cy] True x(1) ok(1) same_outside_ok [OF up(2)]
      by (simp add: st tty_ok_def)
    ultimately show ?thesis using up(2) ok(2) True same_outside_trans by (auto simp: st)
  next
    case False
    then show ?thesis unfolding wrap [symmetric] using ok x by (simp add: st scr_scroll_def tty_ok_def)
  qed
qed

lemma tty_put_char_settle:
  "tty_put_char chr t = settle (if chr = 9 then t\<lparr>tty_x := tty_x t + 4\<rparr>
     else if chr = 10 then t\<lparr>tty_y := tty_y t + 1, tty_x := 0\<rparr>
     else if chr = 13 then t\<lparr>tty_x := 0\<rparr>
     else (put_cell (tty_x t + ucast (tty_y t) * TTY_WIDTH) (tty_theme_color t OR scast chr) t)\<lparr>tty_x := tty_x t + 1\<rparr>)"
  by (simp add: tty_put_char_def settle_def Let_def)

lemma put_char_refines:
  assumes "tty_ok t"
  shows "screen_of (tty_put_char c t) = scr_put c (screen_of t) \<and> tty_ok (tty_put_char c t) \<and> same_outside t (tty_put_char c t)"
proof -
  have ok: "buffer_ok t" "unat (tty_x t) < 80" "unat (tty_y t) < 25" using assms by (simp_all add: tty_ok_def)
  consider "c = 9" | "c = 10" | "c = 13" | "c \<noteq> 9" "c \<noteq> 10" "c \<noteq> 13" by blast
  then show ?thesis
  proof cases
    case 1
    then show ?thesis using settle_refines [of "t\<lparr>tty_x := tty_x t + 4\<rparr>"] ok
      by (simp add: tty_put_char_settle scr_put_def unat_incr_x same_outside_def)
  next
    case 2
    have "unat (tty_y t) < 24 \<or> unat (tty_y t) = 24" using ok(3) by linarith
    with 2 show ?thesis using settle_refines [of "t\<lparr>tty_y := tty_y t + 1, tty_x := 0\<rparr>"] ok
      by (simp add: tty_put_char_settle scr_put_def unat_incr_y same_outside_def)
  next
    case 3
    then show ?thesis using settle_refines [of "t\<lparr>tty_x := 0\<rparr>"] ok
      by (simp add: tty_put_char_settle scr_put_def same_outside_def)
  next
    case 4
    let ?j = "unat (tty_x t) + unat (tty_y t) * 80"
    let ?u = "put_cell (of_nat ?j) (tty_theme_color t OR scast c) t"
    have j: "?j < 2000" using ok by simp
    note put = put_cell_screen [OF ok(1) j, where v = "tty_theme_color t OR scast c"]
    have "screen_of (settle (?u\<lparr>tty_x := tty_x t + 1\<rparr>)) = scr_scroll (scr_wrap (screen_of (?u\<lparr>tty_x := tty_x t + 1\<rparr>)))
        \<and> tty_ok (settle (?u\<lparr>tty_x := tty_x t + 1\<rparr>)) \<and> same_outside (?u\<lparr>tty_x := tty_x t + 1\<rparr>) (settle (?u\<lparr>tty_x := tty_x t + 1\<rparr>))"
      using ok by (intro settle_refines) (simp_all add: unat_incr_x del: of_nat_add of_nat_mult)
    moreover have "screen_of (?u\<lparr>tty_x := tty_x t + 1\<rparr>) = (screen_of t)\<lparr>cells := (cells (screen_of t))[?j := tty_theme_color t OR scast c], cx := unat (tty_x t) + 1\<rparr>"
      using put ok by (simp add: unat_incr_x del: of_nat_add of_nat_mult)
    moreover have "same_outside t (settle (?u\<lparr>tty_x := tty_x t + 1\<rparr>))"
      by (rule same_outside_trans [where t = "?u\<lparr>tty_x := tty_x t + 1\<rparr>"])
        (use calculation put_cell(2) [OF ok(1) j] in simp_all)
    ultimately show ?thesis using 4
      by (simp add: tty_put_char_settle scr_put_def cursor_cell del: of_nat_add of_nat_mult)
  qed
qed

lemma put_str_refines:
  assumes "tty_ok t"
  shows "screen_of (tty_put_str str t) = scr_text str (screen_of t) \<and> tty_ok (tty_put_str str t) \<and> same_outside t (tty_put_str str t)"
  using assms
proof (induction str arbitrary: t)
  case (Cons c str)
  note 1 = put_char_refines [OF Cons.prems, of c]
  then have "tty_ok (tty_put_char c t)" by blast
  note 2 = Cons.IH [OF this]
  have "same_outside t (tty_put_str str (tty_put_char c t))"
    by (rule same_outside_trans [where t = "tty_put_char c t"]) (use 1 2 in auto)
  with 1 2 show ?case by simp
qed simp

lemma tty_clear_spec:
  assumes "buffer_ok t"
  shows "screen_of (tty_clear t) = \<lparr>cells = replicate 2000 (tty_theme_color t), cx = 0, cy = 0, colour = tty_theme_color t\<rparr>
    \<and> tty_ok (tty_clear t) \<and> same_outside t (tty_clear t)"
proof -
  define u where "u = blank_cells 2000 0 (of_nat 0) t"
  note * = blank_cells_screen [OF assms, of 0 2000, folded u_def]
  have "tty_clear t = u\<lparr>tty_x := 0, tty_y := 0\<rparr>" by (simp add: tty_clear_def TTY_WIDTH_def TTY_HEIGHT_def u_def)
  moreover have "tty_theme_color u = tty_theme_color t" using arg_cong [OF *(3), of tty_theme_color] by simp
  ultimately show ?thesis using * assms same_outside_ok [of t u] by (simp add: screen_of_def tty_ok_def)
qed

lemma tty_clear_line_spec:
  assumes "buffer_ok t" "unat y < 25"
  shows "screen_of (tty_clear_line y t) = (screen_of t)\<lparr>cells := take (unat y * 80) (cells (screen_of t))
      @ replicate 80 (tty_theme_color t) @ drop (unat y * 80 + 80) (cells (screen_of t))\<rparr>"
    "same_outside t (tty_clear_line y t)"
proof -
  define u where "u = blank_cells 80 0 (of_nat (unat y * 80)) t"
  have "unat y * 80 + 80 \<le> 2000" using assms(2) by simp
  note * = blank_cells_screen [OF assms(1) this, folded u_def]
  have eq: "tty_clear_line y t = u" by (simp add: tty_clear_line_def TTY_WIDTH_def u_def)
  have f: "tty_theme_color u = tty_theme_color t" "tty_x u = tty_x t" "tty_y u = tty_y t" by (subst *(3), simp)+
  show "screen_of (tty_clear_line y t) = (screen_of t)\<lparr>cells := take (unat y * 80) (cells (screen_of t))
      @ replicate 80 (tty_theme_color t) @ drop (unat y * 80 + 80) (cells (screen_of t))\<rparr>"
    using *(1) f by (simp add: eq screen_of_def)
  show "same_outside t (tty_clear_line y t)" using *(2) by (simp add: eq)
qed

lemma tty_set_cpos_ok: "buffer_ok t \<Longrightarrow> tty_ok (tty_set_cpos x y t)"
proof -
  assume t: "buffer_ok t"
  have y: "unat (y mod TTY_HEIGHT) < 25" "unat (x mod TTY_WIDTH) < 80"
    by (simp_all add: unat_mod TTY_HEIGHT_def TTY_WIDTH_def)
  have "unat (ucast (y mod TTY_HEIGHT) :: u16) \<le> unat (y mod TTY_HEIGHT)"
    by (simp add: unsigned_ucast_eq take_bit_nat_less_eq_self)
  with y t show ?thesis by (simp add: tty_set_cpos_def tty_ok_def)
qed

lemma high_char_bits:
  assumes "128 \<le> (c :: u8)"
  shows "drop_bit 8 (v OR scast c :: u16) = 255"
proof -
  have "unat c < 256" using unsigned_less [of c, where 'a = nat] by simp
  moreover have "128 \<le> unat c" using assms by (simp add: word_le_nat_alt)
  ultimately have "unat c div 128 = 1" by simp
  then have "bit (unat c) 7" by (simp add: bit_iff_odd)
  then have "bit c 7" by (simp add: bit_unsigned_iff)
  then have "drop_bit 8 (v OR scast c :: u16) = mask 8"
    by (intro bit_word_eqI) (auto simp: bit_simps min_def dest: bit_imp_le_length)
  then show ?thesis by (simp add: mask_eq_exp_minus_1)
qed

section \<open>Properties\<close>

text \<open>C29: printing a string is printing it on the abstract console (tabs, line ends, wrapping and
  scrolling included); the cursor stays on the screen and no byte outside the 4000 bytes of the
  buffer is written.\<close>

theorem tty_put_str_refines:
  assumes "tty_ok t"
  shows "screen_of (tty_put_str str t) = scr_text str (screen_of t) \<and> tty_ok (tty_put_str str t)
    \<and> (\<forall>x < 4294967296. x < unat (tty_vga_buffer t) \<or> unat (tty_vga_buffer t) + 4000 \<le> x
      \<longrightarrow> tty_mem (tty_put_str str t) (of_nat x) = tty_mem t (of_nat x))"
  using put_str_refines [OF assms, of str] by (simp add: same_outside_def)

lemma tty_boot_ok: "tty_ok (tty_boot m)"
  by (simp add: tty_ok_def buffer_ok_def tty_boot_def VGA_BUFFER_PADDR_def)

lemma tty_put_str_refines_witness:
  "screen_of (tty_put_str [97, 10, 9] (tty_boot (\<lambda>_. 0))) = scr_text [97, 10, 9] (screen_of (tty_boot (\<lambda>_. 0)))
    \<and> tty_ok (tty_put_str [97, 10, 9] (tty_boot (\<lambda>_. 0)))
    \<and> tty_mem (tty_put_str [97, 10, 9] (tty_boot (\<lambda>_. 0))) 0x100 = 0"
proof -
  let ?t = "tty_boot (\<lambda>_. 0)"
  note p = tty_put_str_refines [OF tty_boot_ok, of "[97, 10, 9]" "\<lambda>_. 0"]
  have "tty_mem ?t (of_nat 0x100) = 0" "(0x100 :: nat) < unat (tty_vga_buffer ?t)" "(0x100 :: nat) < 4294967296"
    by (simp_all add: tty_boot_def VGA_BUFFER_PADDR_def)
  with p have "tty_mem (tty_put_str [97, 10, 9] ?t) (of_nat 0x100) = 0" by metis
  with p show ?thesis by simp
qed

text \<open>A character from 128 on is drawn with attribute 255 whatever the theme is: \<^verbatim>\<open>char\<close> is signed
  and its sign bits cover the colours.\<close>

theorem tty_high_char_loses_theme:
  assumes "tty_ok t" "128 \<le> chr" "unat (tty_x t) + unat (tty_y t) * 80 < 1999"
  shows "drop_bit 8 (cells (screen_of (tty_put_char chr t)) ! (unat (tty_x t) + unat (tty_y t) * 80)) = 255"
proof -
  let ?j = "unat (tty_x t) + unat (tty_y t) * 80"
  have c: "chr \<noteq> 9" "chr \<noteq> 10" "chr \<noteq> 13" using assms(2) by auto
  have y: "unat (tty_x t) < 80" "unat (tty_y t) < 25" using assms(1) by (simp_all add: tty_ok_def)
  then have "80 \<le> unat (tty_x t) + 1 \<Longrightarrow> unat (tty_y t) + 1 < 25" using assms(3) by linarith
  then have "cells (scr_put chr (screen_of t)) = (cells (screen_of t))[?j := tty_theme_color t OR scast chr]"
    using c y by (auto simp: scr_put_def scr_wrap_def scr_scroll_def)
  moreover have "length (cells (screen_of t)) = 2000" by (simp add: screen_of_def)
  ultimately have "cells (screen_of (tty_put_char chr t)) ! ?j = tty_theme_color t OR scast chr"
    using put_char_refines [OF assms(1), of chr] assms(3) by simp
  then show ?thesis using high_char_bits [OF assms(2)] by simp
qed

lemma tty_high_char_loses_theme_witness:
  "drop_bit 8 (cells (screen_of (tty_put_char 200 (tty_boot m))) ! (unat (tty_x (tty_boot m)) + unat (tty_y (tty_boot m)) * 80)) = 255"
  by (rule tty_high_char_loses_theme [OF tty_boot_ok]) (simp_all add: tty_boot_def)

end
