(* ===== verification/Kprintf.thy ===== *)
theory Kprintf
  imports Sprintf Tty
begin

text \<open>
  Kernel messages, \<^verbatim>\<open>kernel/kprintf.c\<close>: the message is formatted into buffers of 1024 bytes and
  printed on the console of theory Tty. A formatting step that writes more bytes than its buffer
  has destroys the memory behind it; from there the result is \<open>None\<close>.
\<close>

unbundle bit_operations_syntax

section \<open>Operations\<close>

definition MAX_KPRINTF_BUF_SIZE :: nat where "MAX_KPRINTF_BUF_SIZE = 1024"
definition MAX_XFMT_SIZE :: nat where "MAX_XFMT_SIZE = 1024"

definition bytes :: "string \<Rightarrow> u8 list" where
  "bytes s = map of_char s"

text \<open>The string in a buffer of \<open>n\<close> bytes after a formatting step.\<close>

definition in_buffer :: "nat \<Rightarrow> u8 list option \<Rightarrow> u8 list option" where
  "in_buffer n out = do {
     bs \<leftarrow> out;
     if length bs \<le> n then Some (takeWhile (\<lambda>c. c \<noteq> 0) bs) else None
   }"

definition expand_fmt :: "string \<Rightarrow> u8 list \<Rightarrow> u8 list \<Rightarrow> u8 list option" where
  "expand_fmt level component fmt =
    in_buffer MAX_XFMT_SIZE (snprintf (of_nat MAX_XFMT_SIZE) (bytes ''[%s] (%s) %s'')
      [Str_arg (bytes level), Str_arg component, Str_arg fmt])"

text \<open>The level: the character after an escape, \<^verbatim>\<open>'0'\<close> otherwise; and the rest of the format. An
  escape at the very end of the format sends \<open>fmt\<close> behind its terminator.\<close>

definition log_level :: "u8 list \<Rightarrow> (u8 \<times> u8 list) option" where
  "log_level fmt =
    (case fmt of
       [] \<Rightarrow> Some (48, [])
     | c # cs \<Rightarrow> if c \<noteq> 0x1b then Some (48, c # cs)
                else case cs of [] \<Rightarrow> None | l # rest \<Rightarrow> Some (l, rest))"

definition kprintf_internal :: "u8 list \<Rightarrow> u8 list option \<Rightarrow> varg list \<Rightarrow> tty \<Rightarrow> tty option" where
  "kprintf_internal component fmt args t =
    (case fmt of
       None \<Rightarrow> Some t
     | Some fmt \<Rightarrow> do {
         let current_theme = tty_get_theme t;
         (level, fmt) \<leftarrow> log_level fmt;
         (name, t) \<leftarrow> Some
           (if level = 48 then (''INFO'', t)
            else if level = 49 then (''WARN'', tty_set_theme VGA_COLOR_BROWN (drop_bit 12 current_theme) t)
            else if level = 50 then (''EROR'', tty_set_theme VGA_COLOR_LIGHT_RED (drop_bit 12 current_theme) t)
            else (''LOG'', t));
         expanded_fmt \<leftarrow> expand_fmt name component fmt;
         buf \<leftarrow> in_buffer MAX_KPRINTF_BUF_SIZE (sprintf_internal expanded_fmt (of_nat MAX_KPRINTF_BUF_SIZE) args);
         let t = tty_put_str buf t;
         Some (tty_set_theme (drop_bit 8 current_theme) (drop_bit 12 current_theme) t)
       })"

definition kprint_panic :: "u8 list \<Rightarrow> varg list \<Rightarrow> tty \<Rightarrow> tty option" where
  "kprint_panic fmt args t = do {
     let t = tty_set_theme VGA_COLOR_WHITE VGA_COLOR_RED t;
     let t = tty_clear_line 10 t;
     let t = tty_clear_line 11 t;
     let t = tty_clear_line 12 t;
     let t = tty_set_cpos 0 11 t;
     buf \<leftarrow> in_buffer MAX_KPRINTF_BUF_SIZE (sprintf_internal fmt (of_nat MAX_KPRINTF_BUF_SIZE) args);
     Some (tty_put_str buf t)
   }"

section \<open>Formatting step by step\<close>

definition room :: "u32 \<Rightarrow> nat \<Rightarrow> bool" where
  "room n k \<longleftrightarrow> n = 0 \<or> k < unat (n - 1)"

lemma loop_end: "sprintf_loop n [] args buf = Some buf"
  by (subst sprintf_loop.simps) simp

lemma loop_char: "c \<noteq> 37 \<Longrightarrow> room n (length buf) \<Longrightarrow> sprintf_loop n (c # fmt) args buf = sprintf_loop n fmt args (buf @ [c])"
  by (subst sprintf_loop.simps) (auto simp: room_def)

lemma loop_text:
  "37 \<notin> set ts \<Longrightarrow> room n (length buf + length ts) \<Longrightarrow> sprintf_loop n (ts @ fmt) args buf = sprintf_loop n fmt args (buf @ ts)"
proof (induction ts arbitrary: buf)
  case (Cons c ts)
  have "room n (length buf)" "room n (length (buf @ [c]) + length ts)" using Cons.prems(2) by (auto simp: room_def)
  with Cons show ?case by (simp add: loop_char)
qed simp

lemma loop_string:
  assumes "0 \<notin> set s" "length s < 2147483600" "room n (length buf)"
  shows "sprintf_loop n (37 # 115 # fmt) (Str_arg s # args) buf = sprintf_loop n fmt args (buf @ s)"
proof -
  let ?cv = "\<lparr>cv_flags = 0, cv_base = 10, cv_num = 0, cv_data = s\<rparr>"
  have "directive (115 # fmt) (Str_arg s # args) = Some (s, fmt, args)"
  proof (rule plain_directive)
    show "convert 0 (115 # fmt) (Str_arg s # args) = Some (?cv, 115 # fmt, args)" by simp
    show "format_field ?cv (- 1) (- 1) = Some s"
      using field_plain [of ?cv s] assms(1,2) by (simp add: number_prefix_def Let_def)
  qed (simp_all add: flag_chars_def)
  then show ?thesis using assms(3) by (subst sprintf_loop.simps) (auto simp: room_def)
qed

lemma in_buffer_text: "0 \<notin> set s \<Longrightarrow> length s < n \<Longrightarrow> in_buffer n (Some (s @ [0])) = Some s"
  by (auto simp: in_buffer_def takeWhile_eq_all_conv takeWhile_append)

lemma text_in_buffer:
  assumes "37 \<notin> set s" "0 \<notin> set s" "length s < 1023"
  shows "in_buffer 1024 (sprintf_internal s 1024 args) = Some s"
  using loop_text [of s 1024 "[]" "[]" args] assms by (simp add: room_def loop_end sprintf_internal_def in_buffer_text)

lemma bytes_literals:
  "bytes ''[%s] (%s) %s'' = [91, 37, 115, 93, 32, 40, 37, 115, 41, 32, 37, 115]"
  "bytes ''['' = [91]" "bytes ''] ('' = [93, 32, 40]" "bytes '') '' = [41, 32]"
  by (simp_all add: bytes_def)

definition message :: "string \<Rightarrow> u8 list \<Rightarrow> u8 list \<Rightarrow> u8 list" where
  "message level component text = bytes ''['' @ bytes level @ bytes ''] ('' @ component @ bytes '') '' @ text"

lemma expand_run:
  assumes "0 \<notin> set (bytes level)" "length (bytes level) \<le> 4" "0 \<notin> set component" "length component \<le> 900"
    "0 \<notin> set text" "length text < 2147483600"
  shows "snprintf 1024 (bytes ''[%s] (%s) %s'') [Str_arg (bytes level), Str_arg component, Str_arg text]
    = Some (message level component text @ [0])"
proof -
  have n: "room 1024 k" if "k < 1023" for k using that by (simp add: room_def)
  show ?thesis
    unfolding snprintf_def sprintf_internal_def
    using assms by (simp add: loop_char loop_string loop_end n message_def bytes_literals)
qed

lemma expand_fmt_text:
  assumes "0 \<notin> set (bytes level)" "length (bytes level) \<le> 4" "0 \<notin> set component" "0 \<notin> set text"
    "length component + length text \<le> 1000" "length component \<le> 900"
  shows "expand_fmt level component text = Some (message level component text)"
proof -
  have "snprintf 1024 (bytes ''[%s] (%s) %s'') [Str_arg (bytes level), Str_arg component, Str_arg text]
      = Some (message level component text @ [0])" using assms by (intro expand_run) simp_all
  moreover have "0 \<notin> set (message level component text)" "length (message level component text) < 1024"
    using assms by (auto simp: message_def bytes_literals)
  ultimately show ?thesis by (simp add: expand_fmt_def MAX_XFMT_SIZE_def in_buffer_text)
qed

section \<open>Themes\<close>

definition clean_theme :: "u16 \<Rightarrow> bool" where
  "clean_theme c \<longleftrightarrow> c AND 255 = 0"

lemma theme_restored:
  assumes "clean_theme c"
  shows "push_bit 8 (push_bit 4 (drop_bit 12 c) OR drop_bit 8 c) = c"
proof -
  have "c AND mask 8 = 0" using assms by (simp add: clean_theme_def mask_eq_exp_minus_1)
  then have low: "\<not> bit c n" if "n < 8" for n
  proof -
    have "bit (c AND mask 8) n \<longleftrightarrow> bit c n" using that by (simp add: bit_simps)
    then show ?thesis using \<open>c AND mask 8 = 0\<close> by simp
  qed
  show ?thesis
  proof (rule bit_word_eqI)
    fix n :: nat
    assume "n < LENGTH(16)"
    then show "bit (push_bit 8 (push_bit 4 (drop_bit 12 c) OR drop_bit 8 c)) n = bit c n"
      using low [of n] by (cases "n < 8"; cases "n < 12") (simp_all add: bit_simps)
  qed
qed

lemma screen_of_theme [simp]: "screen_of (t\<lparr>tty_theme_color := v\<rparr>) = (screen_of t)\<lparr>colour := v\<rparr>"
  by (simp add: screen_of_def)

lemma tty_ok_theme [simp]: "tty_ok (t\<lparr>tty_theme_color := v\<rparr>) = tty_ok t"
  by (simp add: tty_ok_def buffer_ok_def)

definition level_name :: "u8 \<Rightarrow> string" where
  "level_name l = (if l = 48 then ''INFO'' else if l = 49 then ''WARN'' else if l = 50 then ''EROR'' else ''LOG'')"

definition level_colour :: "u8 \<Rightarrow> u16 \<Rightarrow> u16" where
  "level_colour l c = (if l = 49 then push_bit 8 (push_bit 4 (drop_bit 12 c) OR 6)
     else if l = 50 then push_bit 8 (push_bit 4 (drop_bit 12 c) OR 12) else c)"

lemma level_name_bytes: "0 \<notin> set (bytes (level_name l))" "37 \<notin> set (bytes (level_name l))" "length (bytes (level_name l)) \<le> 4"
  by (simp_all add: level_name_def bytes_def)

definition printable :: "u8 list \<Rightarrow> bool" where
  "printable s \<longleftrightarrow> 0 \<notin> set s \<and> 37 \<notin> set s"

text \<open>A panic message is printed in white on red from the start of row 11, between two blank red rows.\<close>

definition panic_screen :: "screen \<Rightarrow> screen" where
  "panic_screen s = \<lparr>cells = take 800 (cells s) @ replicate 240 0x4F00 @ drop 1040 (cells s), cx = 0, cy = 11, colour = 0x4F00\<rparr>"

lemma kprint_panic_run:
  assumes "tty_ok t" "in_buffer 1024 (sprintf_internal fmt 1024 args) = Some out"
  shows "\<exists>t'. kprint_panic fmt args t = Some t' \<and> tty_ok t' \<and> screen_of t' = scr_text out (panic_screen (screen_of t))"
proof -
  define t0 where "t0 = t\<lparr>tty_theme_color := 0x4F00\<rparr>"
  define t1 where "t1 = tty_clear_line 10 t0"
  define t2 where "t2 = tty_clear_line 11 t1"
  define t3 where "t3 = tty_clear_line 12 t2"
  define t4 where "t4 = tty_set_cpos 0 11 t3"
  have ok0: "buffer_ok t0" using assms(1) by (simp add: t0_def tty_ok_def buffer_ok_def)
  note 1 = tty_clear_line_spec [OF ok0, of 10, folded t1_def]
  have ok1: "buffer_ok t1" using 1(2) ok0 same_outside_ok by simp
  note 2 = tty_clear_line_spec [OF ok1, of 11, folded t2_def]
  have ok2: "buffer_ok t2" using 2(2) ok1 same_outside_ok by simp
  note 3 = tty_clear_line_spec [OF ok2, of 12, folded t3_def]
  have ok3: "buffer_ok t3" using 3(2) ok2 same_outside_ok by simp
  have th: "tty_theme_color t1 = 0x4F00" "tty_theme_color t2 = 0x4F00"
    using arg_cong [OF 1(1), of colour] arg_cong [OF 2(1), of colour] by (simp_all add: t0_def)
  have len: "length (cells (screen_of t)) = 2000" by (simp add: screen_of_def)
  have "cells (screen_of t3) = take 800 (cells (screen_of t)) @ replicate 240 0x4F00 @ drop 1040 (cells (screen_of t))"
    using 1(1) 2(1) 3(1) th len by (intro nth_equalityI) (auto simp: t0_def nth_append)
  moreover have "colour (screen_of t3) = 0x4F00" using 3(1) 2(1) th by simp
  ultimately have "screen_of t4 = panic_screen (screen_of t)"
    by (simp add: t4_def tty_set_cpos_def TTY_HEIGHT_def panic_screen_def)
  moreover have "kprint_panic fmt args t = Some (tty_put_str out t4)"
    using assms(2) by (simp add: kprint_panic_def MAX_KPRINTF_BUF_SIZE_def tty_set_theme_def VGA_COLOR_WHITE_def VGA_COLOR_RED_def
      t0_def t1_def t2_def t3_def t4_def)
  moreover have "tty_ok t4" unfolding t4_def using ok3 by (rule tty_set_cpos_ok)
  ultimately show ?thesis using put_str_refines by simp
qed

section \<open>Properties\<close>

text \<open>A message without directives, of a size that fits, is printed as \<open>[LEVEL] (component) text\<close> in
  the colour of its level on the background of the theme, and the theme is put back.\<close>

theorem kprintf_prints:
  assumes "tty_ok t" "clean_theme (tty_theme_color t)" "printable component" "printable text"
    "length component \<le> 900" "length component + length text \<le> 1000"
  shows "\<exists>t'. kprintf_internal component (Some (0x1B # l # text)) args t = Some t' \<and> tty_ok t'
    \<and> screen_of t' = (scr_text (message (level_name l) component text)
        ((screen_of t)\<lparr>colour := level_colour l (tty_theme_color t)\<rparr>))\<lparr>colour := tty_theme_color t\<rparr>"
proof -
  let ?m = "message (level_name l) component text"
  let ?u = "t\<lparr>tty_theme_color := level_colour l (tty_theme_color t)\<rparr>"
  let ?t' = "(tty_put_str ?m ?u)\<lparr>tty_theme_color := tty_theme_color t\<rparr>"
  have x: "expand_fmt (level_name l) component text = Some ?m"
    using assms by (intro expand_fmt_text level_name_bytes) (simp_all add: printable_def)
  have "37 \<notin> set ?m" "0 \<notin> set ?m" "length ?m < 1023"
    using level_name_bytes [of l] assms by (auto simp: message_def printable_def bytes_literals)
  then have b: "in_buffer 1024 (sprintf_internal ?m 1024 args) = Some ?m" by (rule text_in_buffer)
  have "kprintf_internal component (Some (0x1B # l # text)) args t = Some ?t'"
    using x b theme_restored [OF assms(2)]
    by (simp add: kprintf_internal_def log_level_def tty_get_theme_def tty_set_theme_def Let_def level_name_def level_colour_def
      MAX_KPRINTF_BUF_SIZE_def VGA_COLOR_BROWN_def VGA_COLOR_LIGHT_RED_def split: if_splits)
  moreover have "tty_ok ?u" using assms(1) by simp
  ultimately show ?thesis using put_str_refines [of ?u ?m] by simp
qed

lemma kprintf_prints_witness:
  "\<exists>t'. kprintf_internal (bytes ''MM'') (Some (0x1B # 49 # bytes ''ok'')) [] (tty_boot m) = Some t' \<and> tty_ok t'
    \<and> screen_of t' = (scr_text (message (level_name 49) (bytes ''MM'') (bytes ''ok''))
        ((screen_of (tty_boot m))\<lparr>colour := level_colour 49 (tty_theme_color (tty_boot m))\<rparr>))\<lparr>colour := tty_theme_color (tty_boot m)\<rparr>"
  by (rule kprintf_prints [OF tty_boot_ok])
    (simp_all add: clean_theme_def tty_boot_def VGA_COLOR_BLACK_def printable_def bytes_def)

text \<open>The bound given to \<^verbatim>\<open>snprintf\<close> does not protect the format buffer: a message of 1024 or more
  characters is written past its end.\<close>

theorem kprintf_overruns:
  assumes "0 \<notin> set component" "length component \<le> 900" "0 \<notin> set text" "1024 \<le> length text" "length text < 2147483600"
  shows "kprintf_internal component (Some (0x1B # l # text)) args t = None"
proof -
  have "snprintf 1024 (bytes ''[%s] (%s) %s'') [Str_arg (bytes (level_name l)), Str_arg component, Str_arg text]
      = Some (message (level_name l) component text @ [0])"
    using assms by (intro expand_run level_name_bytes) simp_all
  then have "expand_fmt (level_name l) component text = None"
    using assms(4) by (simp add: expand_fmt_def MAX_XFMT_SIZE_def in_buffer_def message_def)
  then show ?thesis
    by (simp add: kprintf_internal_def log_level_def level_name_def tty_get_theme_def split: if_splits)
qed

lemma kprintf_overruns_witness:
  "kprintf_internal (bytes ''MM'') (Some (0x1B # 48 # replicate 1024 65)) [] (tty_boot m) = None"
  by (rule kprintf_overruns) (simp_all add: bytes_def)

end
