(* ===== verification/Render.thy ===== *)
theory Render
  imports Kprintf
begin

text \<open>
  A reference for formatted output: formats whose directives are plain conversions, without flags,
  width or precision, as the kernel's messages are. \<open>render_with f\<close> puts a format together when \<open>f\<close> says what
  stands for one directive. The text a format means is \<open>render_with meant\<close>: \<^verbatim>\<open>%d\<close> and \<^verbatim>\<open>%i\<close> stand for the signed
  number, \<^verbatim>\<open>%u\<close>, \<^verbatim>\<open>%x\<close> and \<^verbatim>\<open>%p\<close> for the unsigned one. The text \<^verbatim>\<open>__sprintf_internal\<close> writes is \<open>render\<close>, in which
  a directive is what the signed \<^verbatim>\<open>itoa\<close> makes of it; both agree on the numbers that are \<open>in_print_range\<close>.
\<close>

unbundle bit_operations_syntax

section \<open>The reference\<close>

fun render_with :: "(u8 \<Rightarrow> varg \<Rightarrow> u8 list option) \<Rightarrow> u8 list \<Rightarrow> varg list \<Rightarrow> u8 list option" where
  "render_with f [] args = Some []"
| "render_with f (c # fmt) args =
    (if c \<noteq> 37 then map_option (Cons c) (render_with f fmt args)
     else case fmt of
       [] \<Rightarrow> None
     | d # fmt' \<Rightarrow>
         (case args of
            [] \<Rightarrow> None
          | a # args' \<Rightarrow>
              (case f d a of
                 None \<Rightarrow> None
               | Some s \<Rightarrow> map_option ((@) s) (render_with f fmt' args'))))"

text \<open>The meaning of a directive.\<close>

fun meant :: "u8 \<Rightarrow> varg \<Rightarrow> u8 list option" where
  "meant d (Int_arg v) =
    (if d = 100 \<or> d = 105 then Some (if sint v < 0 then 45 # numeral_text 10 (nat (- sint v)) else numeral_text 10 (nat (sint v)))
     else if d = 117 then Some (numeral_text 10 (unat v))
     else if d = 120 then Some (numeral_text 16 (unat v))
     else if d = 112 then Some (48 # 120 # numeral_text 16 (unat v)) else None)"
| "meant d (Str_arg s) = (if d = 115 \<and> 0 \<notin> set s \<and> length s < 2147483600 then Some s else None)"

text \<open>The numbers \<^verbatim>\<open>sprintf\<close> prints as they are meant: the unsigned decimal conversion goes through a signed number, and
  the smallest signed number has no negation.\<close>

fun in_print_range :: "u8 \<Rightarrow> varg \<Rightarrow> bool" where
  "in_print_range d (Int_arg v) \<longleftrightarrow> (d = 117 \<longrightarrow> v < 0x80000000) \<and> (d = 100 \<or> d = 105 \<longrightarrow> v \<noteq> 0x80000000)"
| "in_print_range d (Str_arg s) \<longleftrightarrow> True"

fun conversions :: "u8 list \<Rightarrow> u8 list" where
  "conversions [] = []"
| "conversions (c # fmt) = (if c \<noteq> 37 then conversions fmt else case fmt of [] \<Rightarrow> [] | d # fmt' \<Rightarrow> d # conversions fmt')"

text \<open>What the code writes for a directive.\<close>

fun shown :: "u8 \<Rightarrow> varg \<Rightarrow> u8 list option" where
  "shown d (Int_arg v) =
    (if d = 100 \<or> d = 105 then Some (if sint v < 0 then 45 # int_text 10 (- v) else int_text 10 v)
     else if d = 117 then Some (int_text 10 v)
     else if d = 120 then Some (int_text 16 v)
     else if d = 112 then Some (48 # 120 # int_text 16 v) else None)"
| "shown d (Str_arg s) = (if d = 115 \<and> 0 \<notin> set s \<and> length s < 2147483600 then Some s else None)"

abbreviation render :: "u8 list \<Rightarrow> varg list \<Rightarrow> u8 list option" where
  "render \<equiv> render_with shown"

lemma signed_u32:
  "v < 0x80000000 \<Longrightarrow> \<not> sint (v :: u32) < 0" "\<not> sint v < 0 \<Longrightarrow> nat (sint v) = unat v"
  "sint v < 0 \<Longrightarrow> v \<noteq> 0x80000000 \<Longrightarrow> \<not> sint (- v) < 0" "sint v < 0 \<Longrightarrow> nat (- sint v) = unat (- v)"
proof -
  have b: "uint v < 4294967296" "0 \<le> uint v" using uint_bounded [of v] by simp_all
  show "\<not> sint v < 0" if "v < 0x80000000" using that b by (simp add: sint_uint_u32 word_less_def)
  show "nat (sint v) = unat v" if "\<not> sint v < 0" using that b by (simp add: sint_uint_u32 split: if_splits)
  show "nat (- sint v) = unat (- v)" if "sint v < 0" using neg_u32 [OF that] by (metis nat_int)
  show "\<not> sint (- v) < 0" if n: "sint v < 0" "v \<noteq> 0x80000000"
  proof -
    have "uint (- v) = - sint v" using neg_u32 [OF n(1)] by simp
    moreover have "sint v = uint v - 4294967296" "2147483648 \<le> uint v" using n(1) b by (simp_all add: sint_uint_u32 split: if_splits)
    moreover have "uint v \<noteq> 2147483648" using n(2) by (metis uint_word_of_int_eq word_of_int_numeral word_of_int_uint)
    ultimately have "uint (- v) < 2147483648" by linarith
    then show ?thesis by (simp add: sint_uint_u32)
  qed
qed

lemma shown_meant:
  assumes "in_print_range d a"
  shows "shown d a = meant d a"
proof (cases a)
  case (Int_arg v)
  have "int_text 16 v = numeral_text 16 (unat v)" by (simp add: int_text_def)
  moreover have "int_text 10 w = numeral_text 10 (unat w)" if "\<not> sint w < 0" for w using that by (simp add: int_text_def)
  ultimately show ?thesis using assms Int_arg signed_u32 [of v] by auto
qed simp

lemma format_induct [case_names empty char]:
  assumes "\<And>args. P [] args"
    and "\<And>c fmt args. (c \<noteq> 37 \<Longrightarrow> P fmt args) \<Longrightarrow> (\<And>d fmt' a args'. c = 37 \<Longrightarrow> fmt = d # fmt' \<Longrightarrow> args = a # args' \<Longrightarrow> P fmt' args')
      \<Longrightarrow> P (c # fmt) args"
  shows "P fmt (args :: varg list)"
proof (induction "length fmt" arbitrary: fmt args rule: less_induct)
  case (less fmt args)
  show ?case
  proof (cases fmt)
    case (Cons c fmt')
    show ?thesis unfolding Cons by (rule assms(2)) (simp_all add: less Cons)
  qed (simp add: assms(1))
qed

lemma render_meant:
  "\<forall>(d, a) \<in> set (zip (conversions fmt) args). in_print_range d a \<Longrightarrow> render fmt args = render_with meant fmt args"
proof (induction fmt args rule: format_induct)
  case (char c fmt args)
  show ?case
  proof (cases "c = 37")
    case True
    then show ?thesis using char(2,3) by (cases fmt; cases args) (auto simp: shown_meant split: option.splits)
  next
    case False
    then show ?thesis using char(1,3) by simp
  qed
qed simp

lemma render_append: "37 \<notin> set ts \<Longrightarrow> render (ts @ fmt) args = map_option ((@) ts) (render fmt args)"
  by (cases "render fmt args"; induction ts) simp_all

section \<open>One directive\<close>

lemma shown_directive:
  assumes "shown d a = Some out"
  shows "directive (d # fmt) (a # args) = Some (out, fmt, args)"
proof (cases a)
  case (Str_arg s)
  then have s: "d = 115" "out = s" "0 \<notin> set s" "length s < 2147483600" using assms by (auto split: if_splits)
  let ?cv = "\<lparr>cv_flags = 0, cv_base = 10, cv_num = 0, cv_data = s\<rparr>"
  show ?thesis unfolding s(1,2) Str_arg
  proof (rule plain_directive)
    show "convert 0 (115 # fmt) (Str_arg s # args) = Some (?cv, 115 # fmt, args)" by simp
    show "format_field ?cv (- 1) (- 1) = Some s"
      using field_plain [of ?cv s] s(3,4) by (simp add: number_prefix_def Let_def)
  qed (simp_all add: flag_chars_def)
next
  case (Int_arg v)
  have ok: "0 \<notin> set (int_text 10 w)" "length (int_text 10 w) < 2147483600"
    "0 \<notin> set (int_text 16 w)" "length (int_text 16 w) < 2147483600" for w
    using int_text_chars [of 10 w] int_text_chars [of 16 w] by simp_all
  let ?cv = "\<lambda>b f w. \<lparr>cv_flags = f, cv_base = b, cv_num = w, cv_data = []\<rparr>"
  have nd: "number_data (?cv 10 f w) = Some (int_text 10 w)" "number_data (?cv 16 f w) = Some (int_text 16 w)"
    if "f AND FLAG_CAPS = 0" for f w
    using number_data_text [of "?cv 10 f w" 10] number_data_text [of "?cv 16 f w" 16] that by simp_all
  have d: "d = 100 \<or> d = 105 \<or> d = 117 \<or> d = 120 \<or> d = 112" using assms Int_arg by (auto split: if_splits)
  have out: "d = 100 \<or> d = 105 \<Longrightarrow> out = (if sint v < 0 then 45 # int_text 10 (- v) else int_text 10 v)"
    "d = 117 \<Longrightarrow> out = int_text 10 v" "d = 120 \<Longrightarrow> out = int_text 16 v" "d = 112 \<Longrightarrow> out = 48 # 120 # int_text 16 v"
    using assms Int_arg by auto
  from d have plain: "d \<notin> set flag_chars" "d \<noteq> 42" "d \<noteq> 46" "\<not> (49 \<le> d \<and> d \<le> 57)" by (auto simp: flag_chars_def)
  note run = plain_directive [OF plain]
  consider "d = 100 \<or> d = 105" | "d = 117" | "d = 120" | "d = 112" using d by blast
  then show ?thesis
  proof cases
    case 1
    let ?f = "FLAG_NUMERIC OR FLAG_SIGNED OR (if sint v < 0 then FLAG_NEGATIVE else 0)"
    let ?w = "if sint v < 0 then - v else v"
    have "convert 0 (d # fmt) (Int_arg v # args) = Some (?cv 10 ?f ?w, d # fmt, args)" using 1 by (auto simp: Let_def)
    moreover have "format_field (?cv 10 ?f ?w) (- 1) (- 1) = Some out"
      using field_plain [of "?cv 10 ?f ?w", OF _ ok(1,2)] nd(1) [of ?f ?w] out(1) [OF 1]
      by (simp add: flag_defs number_prefix_def Let_def)
    ultimately show ?thesis unfolding Int_arg by (rule run)
  next
    case 2
    have "convert 0 (d # fmt) (Int_arg v # args) = Some (?cv 10 FLAG_NUMERIC v, d # fmt, args)" using 2 by simp
    moreover have "format_field (?cv 10 FLAG_NUMERIC v) (- 1) (- 1) = Some out"
      using field_plain [of "?cv 10 FLAG_NUMERIC v", OF _ ok(1,2)] nd(1) [of FLAG_NUMERIC v] out(2) [OF 2]
      by (simp add: flag_defs number_prefix_def Let_def)
    ultimately show ?thesis unfolding Int_arg by (rule run)
  next
    case 3
    have "convert 0 (d # fmt) (Int_arg v # args) = Some (?cv 16 FLAG_NUMERIC v, d # fmt, args)" using 3 by simp
    moreover have "format_field (?cv 16 FLAG_NUMERIC v) (- 1) (- 1) = Some out"
      using field_plain [of "?cv 16 FLAG_NUMERIC v", OF _ ok(3,4)] nd(2) [of FLAG_NUMERIC v] out(3) [OF 3]
      by (simp add: flag_defs number_prefix_def Let_def)
    ultimately show ?thesis unfolding Int_arg by (rule run)
  next
    case 4
    let ?f = "FLAG_ALT OR FLAG_ALT2 OR FLAG_NUMERIC"
    have "convert 0 (d # fmt) (Int_arg v # args) = Some (?cv 16 ?f v, d # fmt, args)" using 4 by simp
    moreover have "format_field (?cv 16 ?f v) (- 1) (- 1) = Some out"
      using field_plain [of "?cv 16 ?f v", OF _ ok(3,4)] nd(2) [of ?f v] out(4) [OF 4]
      by (simp add: flag_defs number_prefix_def Let_def)
    ultimately show ?thesis unfolding Int_arg by (rule run)
  qed
qed

lemma shown_chars:
  assumes "shown d a = Some s"
  shows "0 \<notin> set s" "a = Int_arg v \<Longrightarrow> length s \<le> 13"
proof -
  have c: "0 \<notin> set (int_text 10 w)" "0 \<notin> set (int_text 16 w)" for w
    using int_text_chars(1) [of 10 w] int_text_chars(1) [of 16 w] by simp_all
  have l: "length (int_text 10 w) \<le> 11" "length (int_text 16 w) \<le> 11" for w
    using int_text_chars(2) [of 10 w] int_text_chars(2) [of 16 w] by simp_all
  have l': "length (int_text 10 w) \<le> 13" "length (int_text 16 w) \<le> 13" "length (int_text 10 w) \<le> 12" for w
    using l [of w] by simp_all
  show "0 \<notin> set s" using assms c by (cases a) (auto split: if_splits)
  show "a = Int_arg v \<Longrightarrow> length s \<le> 13" using assms l l' by (auto split: if_splits)
qed

section \<open>The whole format\<close>

lemma sprintf_loop_render:
  assumes "render fmt args = Some out" "room n (length buf + length out)"
  shows "sprintf_loop n fmt args buf = Some (buf @ out)"
  using assms
proof (induction fmt args arbitrary: buf out rule: format_induct)
  case (empty args)
  then show ?case by (simp add: loop_end)
next
  case (char c fmt args)
  have room: "room n (length buf)" using char(4) by (auto simp: room_def)
  show ?case
  proof (cases "c = 37")
    case False
    then obtain o' where o': "render fmt args = Some o'" "out = c # o'" using char(3) by auto
    then have "sprintf_loop n fmt args (buf @ [c]) = Some ((buf @ [c]) @ o')"
      using char(1) [OF False, of o' "buf @ [c]"] char(4) by (simp add: room_def)
    then show ?thesis using False room o'(2) by (simp add: loop_char)
  next
    case True
    then obtain d fmt' a args' s o' where *: "fmt = d # fmt'" "args = a # args'" "shown d a = Some s"
      "render fmt' args' = Some o'" "out = s @ o'" using char(3) by (auto split: list.splits option.splits)
    have "sprintf_loop n (c # fmt) args buf = sprintf_loop n fmt' args' (buf @ s)"
      using shown_directive [OF *(3), of fmt' args'] room True *(1,2)
      by (subst sprintf_loop.simps) (auto simp: room_def)
    also have "\<dots> = Some ((buf @ s) @ o')"
      using char(2) [OF True *(1,2), of o' "buf @ s"] *(4,5) char(4) by (simp add: room_def add.assoc)
    finally show ?thesis using *(5) by simp
  qed
qed

lemma render_chars:
  assumes "render fmt args = Some out" "0 \<notin> set fmt"
  shows "0 \<notin> set out \<and> ((\<forall>a \<in> set args. \<exists>v. a = Int_arg v) \<longrightarrow> length out \<le> 13 * length fmt)"
  using assms
proof (induction fmt args arbitrary: out rule: format_induct)
  case (char c fmt args)
  show ?case
  proof (cases "c = 37")
    case False
    then show ?thesis using char(1) [OF False] char(3,4) by fastforce
  next
    case True
    then obtain d fmt' a args' s o' where *: "fmt = d # fmt'" "args = a # args'" "shown d a = Some s"
      "render fmt' args' = Some o'" "out = s @ o'" using char(3) by (auto split: list.splits option.splits)
    have "0 \<notin> set fmt'" using char(4) *(1) by simp
    with True have IH: "0 \<notin> set o'" "(\<forall>a \<in> set args'. \<exists>v. a = Int_arg v) \<Longrightarrow> length o' \<le> 13 * length fmt'"
      using char(2) [OF True *(1,2,4)] by simp_all
    show ?thesis using IH shown_chars [OF *(3)] *(1,2,5) by fastforce
  qed
qed simp

section \<open>Properties\<close>

text \<open>C30: for every format of plain conversions, \<^verbatim>\<open>snprintf\<close> writes exactly the text the format means, and its
  terminator, as long as the bound is not reached and the numbers are in range: a \<^verbatim>\<open>%u\<close> below \<open>2 ^ 31\<close>, a \<^verbatim>\<open>%d\<close> that is
  not \<open>- 2 ^ 31\<close>.\<close>

theorem snprintf_is_render:
  assumes "render_with meant fmt args = Some out" "\<forall>(d, a) \<in> set (zip (conversions fmt) args). in_print_range d a"
    "length out + 1 < unat n"
  shows "snprintf n fmt args = Some (out @ [0])"
proof -
  have "n \<noteq> 0" using assms(3) by auto
  then have "unat (n - 1) = unat n - 1" by (subst unat_sub_u32) (simp_all add: unat_gt_0 Suc_le_eq)
  then have "room n (length ([] :: u8 list) + length out)" using assms(3) by (simp add: room_def less_diff_conv)
  moreover have "render fmt args = Some out" using render_meant [OF assms(2)] assms(1) by simp
  ultimately show ?thesis using sprintf_loop_render by (fastforce simp: snprintf_def sprintf_internal_def)
qed

lemma snprintf_is_render_witness:
  "snprintf 64 (bytes ''%d: %u of 0x%x'') [Int_arg (- 7), Int_arg 12, Int_arg 0xFFFFFFFF]
    = Some (bytes ''-7: 12 of 0xffffffff'' @ [0])"
proof (rule snprintf_is_render)
  have n: "numeral_text 10 7 = [55]" "numeral_text 10 12 = [49, 50]" "numeral_text 16 4294967295 = [102, 102, 102, 102, 102, 102, 102, 102]"
    by (simp_all add: numeral_text_def digits.simps digit_char_def base_char_def)
  show "render_with meant (bytes ''%d: %u of 0x%x'') [Int_arg (- 7), Int_arg 12, Int_arg 0xFFFFFFFF] = Some (bytes ''-7: 12 of 0xffffffff'')"
    by (simp add: bytes_def n)
qed (simp_all add: bytes_def)

text \<open>Beyond that range the text is another one: an unsigned number of at least \<open>2 ^ 31\<close> is printed with a sign.\<close>

theorem snprintf_unsigned_signed:
  assumes "0x80000000 \<le> v"
  shows "snprintf 64 (bytes ''%u'') [Int_arg v] = Some (45 # numeral_text 10 (unat (- v)) @ [0])"
proof -
  have "sint v < 0" using assms uint_bounded [of v] by (simp add: sint_uint_u32 word_le_def)
  then have "render (bytes ''%u'') [Int_arg v] = Some (45 # numeral_text 10 (unat (- v)))"
    by (simp add: bytes_def int_text_def)
  moreover have "length (int_text 10 v) \<le> 11" using int_text_chars(2) [of 10 v] by simp
  ultimately have "sprintf_loop 64 (bytes ''%u'') [Int_arg v] [] = Some ([] @ 45 # numeral_text 10 (unat (- v)))"
    using \<open>sint v < 0\<close> by (intro sprintf_loop_render) (simp_all add: room_def int_text_def)
  then show ?thesis by (simp add: snprintf_def sprintf_internal_def)
qed

end
