(* ===== verification/Ports.thy ===== *)
theory Ports
  imports Heap
begin

text \<open>
  Port input and output, \<^verbatim>\<open>includes/hal/io.h\<close>. The devices behind the ports are a parameter: a state of type \<open>'d\<close>
  and a \<open>port_bus\<close> of functions that say what reading and writing a port of each width does. The port is the
  low half of the argument (operand \<^verbatim>\<open>%w1\<close>, register \<^verbatim>\<open>dx\<close>); the count of a block transfer is taken as the
  unsigned number in \<^verbatim>\<open>ecx\<close>. The repeat prefix the code uses, \<^verbatim>\<open>repne\<close>, repeats these instructions by the count.
  The second part is about blocks of bytes in memory, of which a transfer reads or writes one.
\<close>

unbundle bit_operations_syntax

section \<open>Single transfers\<close>

record 'd port_bus =
  bus_in8 :: "u16 \<Rightarrow> 'd \<Rightarrow> u8 \<times> 'd"
  bus_in16 :: "u16 \<Rightarrow> 'd \<Rightarrow> u16 \<times> 'd"
  bus_in32 :: "u16 \<Rightarrow> 'd \<Rightarrow> u32 \<times> 'd"
  bus_out8 :: "u16 \<Rightarrow> u8 \<Rightarrow> 'd \<Rightarrow> 'd"
  bus_out16 :: "u16 \<Rightarrow> u16 \<Rightarrow> 'd \<Rightarrow> 'd"
  bus_out32 :: "u16 \<Rightarrow> u32 \<Rightarrow> 'd \<Rightarrow> 'd"

definition io_inb :: "'d port_bus \<Rightarrow> u32 \<Rightarrow> 'd \<Rightarrow> u8 \<times> 'd" where
  "io_inb bus port = bus_in8 bus (ucast port)"

definition io_inw :: "'d port_bus \<Rightarrow> u32 \<Rightarrow> 'd \<Rightarrow> u16 \<times> 'd" where
  "io_inw bus port = bus_in16 bus (ucast port)"

definition io_inl :: "'d port_bus \<Rightarrow> u32 \<Rightarrow> 'd \<Rightarrow> u32 \<times> 'd" where
  "io_inl bus port = bus_in32 bus (ucast port)"

definition io_outb :: "'d port_bus \<Rightarrow> u32 \<Rightarrow> u8 \<Rightarrow> 'd \<Rightarrow> 'd" where
  "io_outb bus port data = bus_out8 bus (ucast port) data"

definition io_outw :: "'d port_bus \<Rightarrow> u32 \<Rightarrow> u16 \<Rightarrow> 'd \<Rightarrow> 'd" where
  "io_outw bus port data = bus_out16 bus (ucast port) data"

definition io_outl :: "'d port_bus \<Rightarrow> u32 \<Rightarrow> u32 \<Rightarrow> 'd \<Rightarrow> 'd" where
  "io_outl bus port data = bus_out32 bus (ucast port) data"

section \<open>Block transfers\<close>

text \<open>Accesses of 16 bits, as those of 32 in theory Mmu.\<close>

definition vload16 :: "'a vm_scheme \<Rightarrow> u32 \<Rightarrow> u16 option" where
  "vload16 s va = do {
     p0 \<leftarrow> mmu_translate s va;
     p1 \<leftarrow> mmu_translate s (va + 1);
     Some (ucast (phys s p0) OR push_bit 8 (ucast (phys s p1)))
   }"

definition vstore16 :: "u32 \<Rightarrow> u16 \<Rightarrow> 'a vm_scheme \<Rightarrow> 'a vm_scheme option" where
  "vstore16 va v s = do {
     p0 \<leftarrow> mmu_translate s va;
     p1 \<leftarrow> mmu_translate s (va + 1);
     Some (s\<lparr>phys := (phys s)(p0 := ucast v, p1 := ucast (drop_bit 8 v))\<rparr>)
   }"

text \<open>The repeated instruction with the direction flag clear: \<open>w\<close> is the width in bytes.\<close>

fun rep_in :: "('d \<Rightarrow> 'v \<times> 'd) \<Rightarrow> (u32 \<Rightarrow> 'v \<Rightarrow> 's \<Rightarrow> 's option) \<Rightarrow> u32 \<Rightarrow> nat \<Rightarrow> u32 \<Rightarrow> 's \<times> 'd \<Rightarrow> ('s \<times> 'd) option" where
  "rep_in inp st w 0 addr sd = Some sd"
| "rep_in inp st w (Suc n) addr (s, d) = (let (data, d) = inp d in do { s \<leftarrow> st addr data s; rep_in inp st w n (addr + w) (s, d) })"

fun rep_out :: "('v \<Rightarrow> 'd \<Rightarrow> 'd) \<Rightarrow> ('s \<Rightarrow> u32 \<Rightarrow> 'v option) \<Rightarrow> u32 \<Rightarrow> nat \<Rightarrow> u32 \<Rightarrow> 's \<times> 'd \<Rightarrow> ('s \<times> 'd) option" where
  "rep_out out ld w 0 addr sd = Some sd"
| "rep_out out ld w (Suc n) addr (s, d) = do { data \<leftarrow> ld s addr; rep_out out ld w n (addr + w) (s, out data d) }"

definition io_insb :: "'d port_bus \<Rightarrow> u32 \<Rightarrow> u32 \<Rightarrow> u32 \<Rightarrow> 'a vm_scheme \<times> 'd \<Rightarrow> ('a vm_scheme \<times> 'd) option" where
  "io_insb bus port addr cnt = rep_in (bus_in8 bus (ucast port)) vstore8 1 (unat cnt) addr"

definition io_insw :: "'d port_bus \<Rightarrow> u32 \<Rightarrow> u32 \<Rightarrow> u32 \<Rightarrow> 'a vm_scheme \<times> 'd \<Rightarrow> ('a vm_scheme \<times> 'd) option" where
  "io_insw bus port addr cnt = rep_in (bus_in16 bus (ucast port)) vstore16 2 (unat cnt) addr"

definition io_insl :: "'d port_bus \<Rightarrow> u32 \<Rightarrow> u32 \<Rightarrow> u32 \<Rightarrow> 'a vm_scheme \<times> 'd \<Rightarrow> ('a vm_scheme \<times> 'd) option" where
  "io_insl bus port addr cnt = rep_in (bus_in32 bus (ucast port)) vstore32 4 (unat cnt) addr"

definition io_outsb :: "'d port_bus \<Rightarrow> u32 \<Rightarrow> u32 \<Rightarrow> u32 \<Rightarrow> 'a vm_scheme \<times> 'd \<Rightarrow> ('a vm_scheme \<times> 'd) option" where
  "io_outsb bus port addr cnt = rep_out (bus_out8 bus (ucast port)) vload8 1 (unat cnt) addr"

definition io_outsw :: "'d port_bus \<Rightarrow> u32 \<Rightarrow> u32 \<Rightarrow> u32 \<Rightarrow> 'a vm_scheme \<times> 'd \<Rightarrow> ('a vm_scheme \<times> 'd) option" where
  "io_outsw bus port addr cnt = rep_out (bus_out16 bus (ucast port)) vload16 2 (unat cnt) addr"

definition io_outsl :: "'d port_bus \<Rightarrow> u32 \<Rightarrow> u32 \<Rightarrow> u32 \<Rightarrow> 'a vm_scheme \<times> 'd \<Rightarrow> ('a vm_scheme \<times> 'd) option" where
  "io_outsl bus port addr cnt = rep_out (bus_out32 bus (ucast port)) vload32 4 (unat cnt) addr"

section \<open>Blocks of bytes in memory\<close>

fun store_bytes :: "u32 \<Rightarrow> u8 list \<Rightarrow> 'a vm_scheme \<Rightarrow> 'a vm_scheme option" where
  "store_bytes a [] s = Some s"
| "store_bytes a (c # bs) s = do { s \<leftarrow> vstore8 a c s; store_bytes (a + 1) bs s }"

definition buffer_in :: "nat \<Rightarrow> nat \<Rightarrow> u32 \<Rightarrow> nat \<Rightarrow> bool" where
  "buffer_in v n a len \<longleftrightarrow> (\<forall>i < len. in_pages v n (a + of_nat i))"

lemma buffer_in_Suc: "buffer_in v n a (Suc len) \<longleftrightarrow> in_pages v n a \<and> buffer_in v n (a + 1) len"
  by (auto simp: buffer_in_def All_less_Suc2 add.assoc)

lemma buffer_in_0 [simp]: "buffer_in v n a 0"
  by (simp add: buffer_in_def)

lemma buffer_in_add: "buffer_in v n a (k + l) \<longleftrightarrow> buffer_in v n a k \<and> buffer_in v n (a + of_nat k) l"
  by (induction k arbitrary: a) (simp_all add: buffer_in_Suc add.assoc)

definition text_at :: "mem \<Rightarrow> u32 \<Rightarrow> u8 list \<Rightarrow> bool" where
  "text_at m a bs \<longleftrightarrow> (\<forall>i < length bs. m (a + of_nat i) = bs ! i)"

lemma text_at_Nil [simp]: "text_at m a []"
  by (simp add: text_at_def)

lemma text_at_Cons: "text_at m a (c # bs) \<longleftrightarrow> m a = c \<and> text_at m (a + 1) bs"
  by (auto simp: text_at_def All_less_Suc2 add.assoc)

lemma text_at_append: "text_at m a (bs @ cs) \<longleftrightarrow> text_at m a bs \<and> text_at m (a + of_nat (length bs)) cs"
  by (induction bs arbitrary: a) (simp_all add: text_at_Cons add.assoc)

lemma text_at_unique: "text_at m a bs \<Longrightarrow> text_at m a cs \<Longrightarrow> length bs = length cs \<Longrightarrow> bs = cs"
  by (simp add: text_at_def list_eq_iff_nth_eq)

lemma store_bytes_append: "store_bytes a (bs @ cs) s = store_bytes a bs s \<bind> store_bytes (a + of_nat (length bs)) cs"
  by (induction bs arbitrary: a s) (auto simp: add.assoc split: Option.bind_splits)

lemma store_bytes_runs:
  assumes "heap_st v n m k" "buffer_in v n a (length bs)" "length bs < 4294967296"
  shows "\<exists>b m'. store_bytes a bs k = Some (k\<lparr>phys := b\<rparr>) \<and> heap_st v n m' (k\<lparr>phys := b\<rparr>) \<and> text_at m' a bs
    \<and> (\<forall>x. (\<forall>i < length bs. x \<noteq> a + of_nat i) \<longrightarrow> m' x = m x)"
  using assms
proof (induction bs arbitrary: a m k)
  case Nil
  then show ?case by (intro exI [of _ "phys k"] exI [of _ m]) (simp add: text_at_def)
next
  case (Cons c bs)
  from Cons.prems have a: "in_pages v n a" "buffer_in v n (a + 1) (length bs)" by (simp_all add: buffer_in_Suc)
  obtain b where b: "vstore8 a c k = Some (k\<lparr>phys := b\<rparr>)" "heap_st v n (m(a := c)) (k\<lparr>phys := b\<rparr>)"
    by (rule heap_store8 [OF Cons.prems(1) a(1)])
  from Cons.IH [OF b(2) a(2)] Cons.prems(3) obtain d m' where
    d: "store_bytes (a + 1) bs (k\<lparr>phys := b\<rparr>) = Some (k\<lparr>phys := d\<rparr>)" "heap_st v n m' (k\<lparr>phys := d\<rparr>)"
    "text_at m' (a + 1) bs" "\<And>x. \<forall>i < length bs. x \<noteq> a + 1 + of_nat i \<Longrightarrow> m' x = (m(a := c)) x" by auto
  have "a \<noteq> a + 1 + of_nat i" if "i < length bs" for i
  proof
    assume "a = a + 1 + of_nat i"
    then have "(of_nat (Suc i) :: u32) = of_nat 0" by simp
    then show False using that Cons.prems(3) by (simp only: word_unat_eq_iff unat_of_nat) (simp add: take_bit_nat_eq_self)
  qed
  then have "m' a = c" using d(4) [of a] by simp
  then have "text_at m' a (c # bs)" using d(3) by (simp add: text_at_Cons)
  moreover have "m' x = m x" if "\<forall>i < length (c # bs). x \<noteq> a + of_nat i" for x
    using d(4) [of x] that by (auto simp: All_less_Suc2 add.assoc)
  ultimately show ?case using b(1) d(1,2) by (intro exI [of _ d] exI [of _ m']) auto
qed

section \<open>Values and their bytes\<close>

definition enc8 :: "u8 \<Rightarrow> u8 list" where "enc8 v = [v]"
definition enc16 :: "u16 \<Rightarrow> u8 list" where "enc16 v = [ucast v, ucast (drop_bit 8 v)]"
definition enc32 :: "u32 \<Rightarrow> u8 list" where
  "enc32 v = [ucast v, ucast (drop_bit 8 v), ucast (drop_bit 16 v), ucast (drop_bit 24 v)]"

lemma bit_u8_out [simp]: "8 \<le> n \<Longrightarrow> \<not> bit (b :: u8) n"
  by (auto dest: bit_imp_le_length)

lemma dec16: "\<exists>v :: u16. v = ucast b0 OR push_bit 8 (ucast b1) \<and> enc16 v = [b0, b1]"
  unfolding enc16_def by (intro exI conjI refl, simp) (auto intro!: bit_word_eqI simp: bit_simps)

lemma dec32: "\<exists>v :: u32. v = ucast b0 OR push_bit 8 (ucast b1) OR push_bit 16 (ucast b2) OR push_bit 24 (ucast b3)
    \<and> enc32 v = [b0, b1, b2, b3]"
  unfolding enc32_def by (intro exI conjI refl, simp) (auto intro!: bit_word_eqI simp: bit_simps)

text \<open>What \<open>k\<close> single inputs answer, one after the other.\<close>

fun reads :: "('d \<Rightarrow> 'v \<times> 'd) \<Rightarrow> nat \<Rightarrow> 'd \<Rightarrow> 'v list \<times> 'd" where
  "reads inp 0 d = ([], d)"
| "reads inp (Suc k) d = (let (v, d) = inp d; (vs, d) = reads inp k d in (v # vs, d))"

lemma length_reads: "length (fst (reads inp k d)) = k"
  by (induction k arbitrary: d) (simp_all add: split_beta)

text \<open>The interface of an access of width \<open>w\<close> to the pages of a heap: it loads and stores the bytes of one value.\<close>

locale transfer_unit =
  fixes w :: nat and enc :: "'v \<Rightarrow> u8 list"
    and ld :: "'a vm_scheme \<Rightarrow> u32 \<Rightarrow> 'v option" and st :: "u32 \<Rightarrow> 'v \<Rightarrow> 'a vm_scheme \<Rightarrow> 'a vm_scheme option"
  assumes enc_length: "length (enc v) = w"
    and ld_bytes: "heap_st p n m s \<Longrightarrow> buffer_in p n a w \<Longrightarrow> \<exists>v. ld s a = Some v \<and> text_at m a (enc v)"
    and st_bytes: "heap_st p n m s \<Longrightarrow> buffer_in p n a w \<Longrightarrow> st a v s = store_bytes a (enc v) s"
begin

lemma length_encs: "length (concat (map enc vs)) = length vs * w"
  by (induction vs) (simp_all add: enc_length)

lemma rep_in_stores:
  assumes "heap_st p n m s" "buffer_in p n a (k * w)" "k * w < 4294967296"
  shows "rep_in inp st (of_nat w) k a (s, d)
    = map_option (\<lambda>s. (s, snd (reads inp k d))) (store_bytes a (concat (map enc (fst (reads inp k d)))) s)"
  using assms
proof (induction k arbitrary: a m s d)
  case (Suc k)
  obtain v e where v: "inp d = (v, e)" by (cases "inp d")
  have b: "buffer_in p n a w" "buffer_in p n (a + of_nat w) (k * w)" using Suc.prems(2) by (simp_all add: buffer_in_add)
  have lt: "length (enc v) < 4294967296" "buffer_in p n a (length (enc v))" using Suc.prems(3) b(1) by (simp_all add: enc_length)
  obtain f m' where f: "store_bytes a (enc v) s = Some (s\<lparr>phys := f\<rparr>)" "heap_st p n m' (s\<lparr>phys := f\<rparr>)"
    using store_bytes_runs [OF Suc.prems(1) lt(2,1)] by blast
  have "st a v s = Some (s\<lparr>phys := f\<rparr>)" using st_bytes [OF Suc.prems(1) b(1)] f(1) by simp
  then show ?case using Suc.IH [OF f(2) b(2)] Suc.prems(3) f(1) v
    by (simp add: split_beta store_bytes_append enc_length)
qed simp

lemma rep_out_loads:
  assumes "heap_st p n m s" "buffer_in p n a (k * w)"
  obtains vs where "rep_out out ld (of_nat w) k a (s, d) = Some (s, fold out vs d)" "length vs = k" "text_at m a (concat (map enc vs))"
  using assms(2)
proof (induction k arbitrary: a d thesis)
  case 0
  show ?case by (rule 0(1) [of "[]"]) simp_all
next
  case (Suc k)
  have b: "buffer_in p n a w" "buffer_in p n (a + of_nat w) (k * w)" using Suc.prems(2) by (simp_all add: buffer_in_add)
  obtain v where v: "ld s a = Some v" "text_at m a (enc v)" using ld_bytes [OF assms(1) b(1)] by blast
  obtain vs where vs: "rep_out out ld (of_nat w) k (a + of_nat w) (s, out v d) = Some (s, fold out vs (out v d))" "length vs = k"
    "text_at m (a + of_nat w) (concat (map enc vs))"
    using Suc.IH [OF _ b(2)] by blast
  show ?case by (rule Suc.prems(1) [of "v # vs"]) (use v vs in \<open>simp_all add: text_at_append enc_length\<close>)
qed

text \<open>A block transfer is a sequence of single transfers.\<close>

lemma block_out:
  assumes "heap_st p n m s" "buffer_in p n a (k * w)"
  shows "\<exists>vs. length vs = k \<and> text_at m a (concat (map enc vs)) \<and> rep_out out ld (of_nat w) k a (s, d) = Some (s, fold out vs d)"
  by (rule rep_out_loads [OF assms, where out = out and d = d]) blast

lemma block_in:
  assumes "heap_st p n m s" "buffer_in p n a (k * w)" "k * w < 4294967296" "reads inp k d = (vs, d')"
  shows "\<exists>s' m'. rep_in inp st (of_nat w) k a (s, d) = Some (s', d') \<and> heap_st p n m' s' \<and> text_at m' a (concat (map enc vs))
    \<and> (\<forall>x. (\<forall>i < k * w. x \<noteq> a + of_nat i) \<longrightarrow> m' x = m x)"
proof -
  have "length vs = k" using length_reads [of inp k d] assms(4) by simp
  then have l: "length (concat (map enc vs)) = k * w" by (simp add: length_encs)
  then have b: "buffer_in p n a (length (concat (map enc vs)))" "length (concat (map enc vs)) < 4294967296"
    using assms(2,3) by (simp_all only: l)
  show ?thesis using store_bytes_runs [OF assms(1) b] rep_in_stores [OF assms(1-3), of inp d] unfolding l
    by (fastforce simp: assms(4))
qed

end

text \<open>The three widths of the machine have the interface.\<close>

lemma heap_byte_place:
  assumes "heap_st p n m s" "in_pages p n a"
  shows "mmu_translate s a = Some (heap_frame s (vpn a) + PG_OFFSET a)" "phys s (heap_frame s (vpn a) + PG_OFFSET a) = m a"
  using assms heap_translate [of s p n a] by (simp_all add: heap_st_def)

lemma store_place:
  assumes "heap_st p n m (s\<lparr>phys := f\<rparr>)" "in_pages p n a" "heap_frame (s\<lparr>phys := f\<rparr>) = hf"
  shows "vstore8 a c (s\<lparr>phys := f\<rparr>) = Some (s\<lparr>phys := f(hf (vpn a) + PG_OFFSET a := c)\<rparr>)"
    "heap_st p n (m(a := c)) (s\<lparr>phys := f(hf (vpn a) + PG_OFFSET a := c)\<rparr>)"
    "heap_frame (s\<lparr>phys := f(hf (vpn a) + PG_OFFSET a := c)\<rparr>) = hf"
  using heap_byte_place [OF assms(1,2)] heap_phys_update(1,2) [OF assms(1,2) refl, of c]
  by (simp_all add: vstore8_def assms(3))

lemma unit8: "transfer_unit 1 enc8 vload8 vstore8"
proof
  show "\<exists>v. vload8 s a = Some v \<and> text_at m a (enc8 v)" if "heap_st p n m s" "buffer_in p n a 1" for p n m a and s :: "'a vm_scheme"
    using heap_load8 [OF that(1), of a] that(2) by (simp add: buffer_in_def enc8_def text_at_Cons)
qed (simp_all add: enc8_def split: Option.bind_splits)

lemma unit16: "transfer_unit 2 enc16 vload16 vstore16"
proof
  fix p n m a v and s :: "'a vm_scheme"
  assume h: "heap_st p n m s" and b: "buffer_in p n a 2"
  have in2: "in_pages p n a" "in_pages p n (a + 1)" using b by (simp_all add: buffer_in_Suc numeral_2_eq_2)
  note p0 = heap_byte_place [OF h in2(1)] and p1 = heap_byte_place [OF h in2(2)]
  obtain u :: u16 where u: "u = ucast (m a) OR push_bit 8 (ucast (m (a + 1)))" "enc16 u = [m a, m (a + 1)]" using dec16 by blast
  show "\<exists>v. vload16 s a = Some v \<and> text_at m a (enc16 v)"
    by (rule exI [of _ u]) (simp add: vload16_def p0 p1 u(1) [symmetric] u(2) text_at_Cons)
  have s: "heap_st p n m (s\<lparr>phys := phys s\<rparr>)" "heap_frame (s\<lparr>phys := phys s\<rparr>) = heap_frame s" using h by simp_all
  note s0 = store_place [OF s(1) in2(1) s(2)]
  note s1 = store_place [OF s0(2) in2(2) s0(3)]
  show "vstore16 a v s = store_bytes a (enc16 v) s"
    using s0(1) s1(1) by (simp add: enc16_def vstore16_def p0 p1)
qed (simp add: enc16_def)

lemma unit32: "transfer_unit 4 enc32 vload32 vstore32"
proof
  fix p n m a v and s :: "'a vm_scheme"
  assume h: "heap_st p n m s" and b: "buffer_in p n a 4"
  have i: "in_pages p n a" "in_pages p n (a + 1)" "in_pages p n (a + 2)" "in_pages p n (a + 3)"
    using b by (simp_all add: buffer_in_Suc numeral_eq_Suc add.assoc)
  note p = heap_byte_place [OF h i(1)] heap_byte_place [OF h i(2)] heap_byte_place [OF h i(3)] heap_byte_place [OF h i(4)]
  obtain u :: u32 where u: "u = ucast (m a) OR push_bit 8 (ucast (m (a + 1))) OR push_bit 16 (ucast (m (a + 2))) OR push_bit 24 (ucast (m (a + 3)))"
    "enc32 u = [m a, m (a + 1), m (a + 2), m (a + 3)]" using dec32 by blast
  show "\<exists>v. vload32 s a = Some v \<and> text_at m a (enc32 v)"
    by (rule exI [of _ u]) (simp add: vload32_def p u(1) [symmetric] u(2) text_at_Cons add.assoc)
  have s: "heap_st p n m (s\<lparr>phys := phys s\<rparr>)" "heap_frame (s\<lparr>phys := phys s\<rparr>) = heap_frame s" using h by simp_all
  note s0 = store_place [OF s(1) i(1) s(2)]
  note s1 = store_place [OF s0(2) i(2) s0(3)]
  note s2 = store_place [OF s1(2) i(3) s1(3)]
  note s3 = store_place [OF s2(2) i(4) s2(3)]
  show "vstore32 a v s = store_bytes a (enc32 v) s"
    using s0(1) s1(1) s2(1) s3(1) by (simp add: enc32_def vstore32_def p add.assoc)
qed (simp add: enc32_def)

interpretation io8: transfer_unit 1 enc8 vload8 vstore8 by (rule unit8)
interpretation io16: transfer_unit 2 enc16 vload16 vstore16 by (rule unit16)
interpretation io32: transfer_unit 4 enc32 vload32 vstore32 by (rule unit32)

section \<open>Properties\<close>

text \<open>The bytes of the values \<open>vs\<close> are in memory at \<open>a\<close>.\<close>

abbreviation values_at :: "('v \<Rightarrow> u8 list) \<Rightarrow> mem \<Rightarrow> u32 \<Rightarrow> 'v list \<Rightarrow> bool" where
  "values_at enc m a vs \<equiv> text_at m a (concat (map enc vs))"

text \<open>After an input of \<open>k\<close> bytes to \<open>a\<close>: the memory \<open>m'\<close> of \<open>s'\<close> holds the values, and is \<open>m\<close> everywhere else.\<close>

definition received :: "('v \<Rightarrow> u8 list) \<Rightarrow> 'v list \<Rightarrow> nat \<Rightarrow> u32 \<Rightarrow> nat \<Rightarrow> nat \<Rightarrow> mem \<Rightarrow> 'a vm_scheme \<Rightarrow> bool" where
  "received enc vs k a p n m s' \<longleftrightarrow> (\<exists>m'. heap_st p n m' s' \<and> values_at enc m' a vs \<and> (\<forall>x. (\<forall>i < k. x \<noteq> a + of_nat i) \<longrightarrow> m' x = m x))"

lemma block_transfers:
  fixes bus :: "'d port_bus"
  assumes "heap_st p n m s" "buffer_in p n a (4 * unat cnt)" "4 * unat cnt < 4294967296"
  shows "\<exists>vs. length vs = unat cnt \<and> values_at enc8 m a vs \<and> io_outsb bus port a cnt (s, d) = Some (s, fold (io_outb bus port) vs d)"
    and "\<exists>vs. length vs = unat cnt \<and> values_at enc16 m a vs \<and> io_outsw bus port a cnt (s, d) = Some (s, fold (io_outw bus port) vs d)"
    and "\<exists>vs. length vs = unat cnt \<and> values_at enc32 m a vs \<and> io_outsl bus port a cnt (s, d) = Some (s, fold (io_outl bus port) vs d)"
    and "\<exists>s'. io_insb bus port a cnt (s, d) = Some (s', snd (reads (io_inb bus port) (unat cnt) d))
      \<and> received enc8 (fst (reads (io_inb bus port) (unat cnt) d)) (unat cnt) a p n m s'"
    and "\<exists>s'. io_insw bus port a cnt (s, d) = Some (s', snd (reads (io_inw bus port) (unat cnt) d))
      \<and> received enc16 (fst (reads (io_inw bus port) (unat cnt) d)) (2 * unat cnt) a p n m s'"
    and "\<exists>s'. io_insl bus port a cnt (s, d) = Some (s', snd (reads (io_inl bus port) (unat cnt) d))
      \<and> received enc32 (fst (reads (io_inl bus port) (unat cnt) d)) (4 * unat cnt) a p n m s'"
proof -
  have sub: "buffer_in p n a k" if "k \<le> 4 * unat cnt" for k using assms(2) that by (auto simp: buffer_in_def)
  have single: "bus_in8 bus (ucast port) = io_inb bus port" "bus_in16 bus (ucast port) = io_inw bus port"
    "bus_in32 bus (ucast port) = io_inl bus port" "bus_out8 bus (ucast port) = io_outb bus port"
    "bus_out16 bus (ucast port) = io_outw bus port" "bus_out32 bus (ucast port) = io_outl bus port"
    by (simp_all add: io_inb_def io_inw_def io_inl_def io_outb_def io_outw_def io_outl_def fun_eq_iff)
  show "\<exists>vs. length vs = unat cnt \<and> values_at enc8 m a vs \<and> io_outsb bus port a cnt (s, d) = Some (s, fold (io_outb bus port) vs d)"
    using io8.block_out [OF assms(1) sub, of "unat cnt"] by (simp add: io_outsb_def single)
  show "\<exists>vs. length vs = unat cnt \<and> values_at enc16 m a vs \<and> io_outsw bus port a cnt (s, d) = Some (s, fold (io_outw bus port) vs d)"
    using io16.block_out [OF assms(1) sub, of "unat cnt"] by (simp add: io_outsw_def single)
  show "\<exists>vs. length vs = unat cnt \<and> values_at enc32 m a vs \<and> io_outsl bus port a cnt (s, d) = Some (s, fold (io_outl bus port) vs d)"
    using io32.block_out [OF assms(1) sub, of "unat cnt"] by (simp add: io_outsl_def single)
  show "\<exists>s'. io_insb bus port a cnt (s, d) = Some (s', snd (reads (io_inb bus port) (unat cnt) d))
      \<and> received enc8 (fst (reads (io_inb bus port) (unat cnt) d)) (unat cnt) a p n m s'"
    using io8.block_in [OF assms(1) sub _ surjective_pairing, of "unat cnt"] assms(3)
    by (force simp: io_insb_def single received_def)
  show "\<exists>s'. io_insw bus port a cnt (s, d) = Some (s', snd (reads (io_inw bus port) (unat cnt) d))
      \<and> received enc16 (fst (reads (io_inw bus port) (unat cnt) d)) (2 * unat cnt) a p n m s'"
    using io16.block_in [OF assms(1) sub _ surjective_pairing, of "unat cnt"] assms(3)
    by (force simp: io_insw_def single received_def mult.commute)
  show "\<exists>s'. io_insl bus port a cnt (s, d) = Some (s', snd (reads (io_inl bus port) (unat cnt) d))
      \<and> received enc32 (fst (reads (io_inl bus port) (unat cnt) d)) (4 * unat cnt) a p n m s'"
    using io32.block_in [OF assms(1) sub _ surjective_pairing, of "unat cnt"] assms(3)
    by (force simp: io_insl_def single received_def mult.commute)
qed

text \<open>C35: In each of the three widths a block transfer is the sequence of single transfers through the same port,
  whatever the devices are: an output sends the \<open>cnt\<close> values whose bytes lie at the address, in order, and
  leaves memory alone; an input stores the \<open>cnt\<close> values the port delivers, in order and least significant byte
  first, and changes no other byte.\<close>

theorem block_transfer_is_single_transfers:
  fixes bus :: "'d port_bus"
  assumes "heap_st p n m s" "buffer_in p n a (4 * unat cnt)" "4 * unat cnt < 4294967296"
  shows "(\<exists>vs. length vs = unat cnt \<and> values_at enc8 m a vs \<and> io_outsb bus port a cnt (s, d) = Some (s, fold (io_outb bus port) vs d))
    \<and> (\<exists>vs. length vs = unat cnt \<and> values_at enc16 m a vs \<and> io_outsw bus port a cnt (s, d) = Some (s, fold (io_outw bus port) vs d))
    \<and> (\<exists>vs. length vs = unat cnt \<and> values_at enc32 m a vs \<and> io_outsl bus port a cnt (s, d) = Some (s, fold (io_outl bus port) vs d))
    \<and> (\<exists>s'. io_insb bus port a cnt (s, d) = Some (s', snd (reads (io_inb bus port) (unat cnt) d))
      \<and> received enc8 (fst (reads (io_inb bus port) (unat cnt) d)) (unat cnt) a p n m s')
    \<and> (\<exists>s'. io_insw bus port a cnt (s, d) = Some (s', snd (reads (io_inw bus port) (unat cnt) d))
      \<and> received enc16 (fst (reads (io_inw bus port) (unat cnt) d)) (2 * unat cnt) a p n m s')
    \<and> (\<exists>s'. io_insl bus port a cnt (s, d) = Some (s', snd (reads (io_inl bus port) (unat cnt) d))
      \<and> received enc32 (fst (reads (io_inl bus port) (unat cnt) d)) (4 * unat cnt) a p n m s')"
  by (intro conjI block_transfers [OF assms])

text \<open>A device with a 16 bit data port at \<open>0x1F0\<close>, whose other ports answer 0.\<close>

definition data_port :: "u16 list port_bus" where
  "data_port = \<lparr>bus_in8 = (\<lambda>_ d. (0, d)), bus_in16 = (\<lambda>q d. if q = 0x1F0 then (hd d, tl d) else (0, d)), bus_in32 = (\<lambda>_ d. (0, d)),
     bus_out8 = (\<lambda>_ _ d. d), bus_out16 = (\<lambda>q v d. if q = 0x1F0 then d @ [v] else d), bus_out32 = (\<lambda>_ _ d. d)\<rparr>"

lemma block_transfer_is_single_transfers_witness:
  "\<exists>s'. io_insw data_port 0x1F0 0x3018 3 (vh, [0xAABB, 0x1122, 7]) = Some (s', []) \<and> received enc16 [0xAABB, 0x1122, 7] 6 0x3018 3 2 mem_vh s'"
proof -
  have "buffer_in 3 2 0x3018 12"
  proof -
    have "unat (0x3018 + of_nat i :: u32) = 0x3018 + i" if "i < 12" for i
      using that by (subst unat_add_u32) (simp_all add: unat_of_nat_u32)
    then show ?thesis by (auto simp: buffer_in_def in_pages_def vpn_def)
  qed
  then have b: "buffer_in 3 2 0x3018 (4 * unat (3 :: u32))" by simp
  have three: "unat (3 :: u32) = Suc (Suc (Suc 0))" by simp
  have "reads (io_inw data_port 0x1F0) (unat (3 :: u32)) [0xAABB, 0x1122, 7] = ([0xAABB, 0x1122, 7], [])"
    unfolding three by (simp add: io_inw_def data_port_def)
  then show ?thesis using block_transfer_is_single_transfers [OF vh_heap b, of data_port "0x1F0" "[0xAABB, 0x1122, 7]"] by simp
qed

end
