(* ===== verification/Rtc.thy ===== *)
theory Rtc
  imports Ports
begin

text \<open>
  The real time clock, \<^verbatim>\<open>hal/rtc.c\<close> with \<^verbatim>\<open>includes/hal/rtc.h\<close> and \<^verbatim>\<open>includes/awa/time.h\<close>. The
  device behind the two ports is a record: the selected register, the control registers, and
  functions of time (the number of reads so far) for the clock registers and the
  update-in-progress bit, which the hardware changes by itself.
\<close>

unbundle bit_operations_syntax

section \<open>The device\<close>

record cmos =
  cm_index :: u8
  cm_control :: "u8 \<Rightarrow> u8"
  cm_clock :: "nat \<Rightarrow> u8 \<Rightarrow> u8"
  cm_updating :: "nat \<Rightarrow> bool"
  cm_time :: nat

definition RTC_INDEX_PORT :: u32 where "RTC_INDEX_PORT = 0x70"
definition RTC_TARGET_PORT :: u32 where "RTC_TARGET_PORT = 0x71"
definition WITH_NMI_DISABLED :: u8 where "WITH_NMI_DISABLED = 0x80"
definition RTC_CURRENT_CENTRY :: u32 where "RTC_CURRENT_CENTRY = 20"
definition RTC_REG_YRS :: u8 where "RTC_REG_YRS = 0x9"
definition RTC_REG_MTH :: u8 where "RTC_REG_MTH = 0x8"
definition RTC_REG_DAY :: u8 where "RTC_REG_DAY = 0x7"
definition RTC_REG_WDY :: u8 where "RTC_REG_WDY = 0x6"
definition RTC_REG_HRS :: u8 where "RTC_REG_HRS = 0x4"
definition RTC_REG_MIN :: u8 where "RTC_REG_MIN = 0x2"
definition RTC_REG_SEC :: u8 where "RTC_REG_SEC = 0x0"
definition RTC_REG_A :: u8 where "RTC_REG_A = 0xA"
definition RTC_REG_B :: u8 where "RTC_REG_B = 0xB"
definition RTC_REG_C :: u8 where "RTC_REG_C = 0xC"
definition RTC_TIMER_BASE_FREQUENCY :: u32 where "RTC_TIMER_BASE_FREQUENCY = 1024"
definition RTC_TIMER_ON :: u8 where "RTC_TIMER_ON = 0x40"
definition RTC_FREQUENCY_1024HZ :: u8 where "RTC_FREQUENCY_1024HZ = 0b110"
definition RTC_DIVIDER_33KHZ :: u8 where "RTC_DIVIDER_33KHZ = push_bit 4 0b010"

definition RTC_BIN_ENCODED :: "u8 \<Rightarrow> u8" where "RTC_BIN_ENCODED reg = reg AND 0x04"
definition RTC_24HRS_ENCODED :: "u8 \<Rightarrow> u8" where "RTC_24HRS_ENCODED reg = reg AND 0x02"

lemmas rtc_constants = RTC_INDEX_PORT_def RTC_TARGET_PORT_def WITH_NMI_DISABLED_def RTC_CURRENT_CENTRY_def
  RTC_REG_YRS_def RTC_REG_MTH_def RTC_REG_DAY_def RTC_REG_WDY_def RTC_REG_HRS_def RTC_REG_MIN_def RTC_REG_SEC_def
  RTC_REG_A_def RTC_REG_B_def RTC_REG_C_def RTC_TIMER_ON_def RTC_FREQUENCY_1024HZ_def RTC_DIVIDER_33KHZ_def

text \<open>Writes to the index port select a register (the top bit only masks the NMI); writes to the data
  port reach the control registers, reads advance time.\<close>

definition cmos_out :: "u16 \<Rightarrow> u8 \<Rightarrow> cmos \<Rightarrow> cmos" where
  "cmos_out port v d =
    (if port = ucast RTC_INDEX_PORT then d\<lparr>cm_index := v AND 0x7F\<rparr>
     else if port = ucast RTC_TARGET_PORT then d\<lparr>cm_control := (cm_control d)(cm_index d := v)\<rparr> else d)"

definition cmos_value :: "cmos \<Rightarrow> u8" where
  "cmos_value d =
    (if cm_index d < 0xA then cm_clock d (cm_time d) (cm_index d)
     else if cm_index d = 0xA then (cm_control d 0xA AND 0x7F) OR (if cm_updating d (cm_time d) then 0x80 else 0)
     else cm_control d (cm_index d))"

definition cmos_in :: "u16 \<Rightarrow> cmos \<Rightarrow> u8 \<times> cmos" where
  "cmos_in port d = (if port = ucast RTC_TARGET_PORT then (cmos_value d, d\<lparr>cm_time := cm_time d + 1\<rparr>) else (0, d))"

text \<open>The clock answers bytes only.\<close>

definition cmos_bus :: "cmos port_bus" where
  "cmos_bus = \<lparr>bus_in8 = cmos_in, bus_in16 = (\<lambda>_ d. (0, d)), bus_in32 = (\<lambda>_ d. (0, d)),
     bus_out8 = cmos_out, bus_out16 = (\<lambda>_ _ d. d), bus_out32 = (\<lambda>_ _ d. d)\<rparr>"

section \<open>The operations of rtc.c\<close>

definition rtc_read_reg :: "u8 \<Rightarrow> cmos \<Rightarrow> u8 \<times> cmos" where
  "rtc_read_reg reg_selector d = io_inb cmos_bus RTC_TARGET_PORT (io_outb cmos_bus RTC_INDEX_PORT reg_selector d)"

definition rtc_write_reg :: "u8 \<Rightarrow> u8 \<Rightarrow> cmos \<Rightarrow> cmos" where
  "rtc_write_reg reg_selector val d = io_outb cmos_bus RTC_TARGET_PORT val (io_outb cmos_bus RTC_INDEX_PORT reg_selector d)"

definition rtc_enable_timer :: "cmos \<Rightarrow> cmos" where
  "rtc_enable_timer d =
    (let (regB, d) = rtc_read_reg (RTC_REG_B OR WITH_NMI_DISABLED) d
     in rtc_write_reg (RTC_REG_B OR WITH_NMI_DISABLED) (regB OR RTC_TIMER_ON) d)"

definition rtc_disable_timer :: "cmos \<Rightarrow> cmos" where
  "rtc_disable_timer d =
    (let (regB, d) = rtc_read_reg (RTC_REG_B OR WITH_NMI_DISABLED) d
     in rtc_write_reg (RTC_REG_B OR WITH_NMI_DISABLED) (regB AND NOT RTC_TIMER_ON) d)"

definition rtc_init :: "cmos \<Rightarrow> cmos" where
  "rtc_init d =
    (let (regA, d) = rtc_read_reg (RTC_REG_A OR WITH_NMI_DISABLED) d;
         regA = (regA AND NOT 0x7F) OR RTC_FREQUENCY_1024HZ OR RTC_DIVIDER_33KHZ;
         d = rtc_write_reg (RTC_REG_A OR WITH_NMI_DISABLED) regA d
     in rtc_disable_timer d)"

definition bcd2dec :: "u8 \<Rightarrow> u8" where
  "bcd2dec bcd = drop_bit 1 (bcd AND 0xF0) + drop_bit 3 (bcd AND 0xF0) + (bcd AND 0xF)"

record datetime =
  dt_year :: u32
  dt_month :: u8
  dt_day :: u8
  dt_weekday :: u8
  dt_hour :: u8
  dt_minute :: u8
  dt_second :: u8

definition rtc_date_same :: "datetime \<Rightarrow> datetime \<Rightarrow> bool" where
  "rtc_date_same a b \<longleftrightarrow> dt_year a = dt_year b \<and> dt_month a = dt_month b \<and> dt_day a = dt_day b
     \<and> dt_weekday a = dt_weekday b \<and> dt_minute a = dt_minute b \<and> dt_second a = dt_second b"

partial_function (option) wait_update :: "cmos \<Rightarrow> cmos option" where
  "wait_update d = (let (regA, d) = rtc_read_reg RTC_REG_A d in if regA AND 0x80 \<noteq> 0 then wait_update d else Some d)"

definition read_clock :: "cmos \<Rightarrow> datetime \<times> cmos" where
  "read_clock d =
    (let (year, d) = rtc_read_reg RTC_REG_YRS d;
         (month, d) = rtc_read_reg RTC_REG_MTH d;
         (day, d) = rtc_read_reg RTC_REG_DAY d;
         (weekday, d) = rtc_read_reg RTC_REG_WDY d;
         (hour, d) = rtc_read_reg RTC_REG_HRS d;
         (minute, d) = rtc_read_reg RTC_REG_MIN d;
         (second, d) = rtc_read_reg RTC_REG_SEC d
     in (\<lparr>dt_year = ucast year, dt_month = month, dt_day = day, dt_weekday = weekday, dt_hour = hour,
          dt_minute = minute, dt_second = second\<rparr>, d))"

partial_function (option) read_until_same :: "datetime \<Rightarrow> cmos \<Rightarrow> (datetime \<times> cmos) option" where
  "read_until_same datetime d = do {
     d \<leftarrow> wait_update d;
     let current = datetime;
     let (datetime, d) = read_clock d;
     if rtc_date_same datetime current then Some (datetime, d) else read_until_same datetime d
   }"

text \<open>The conversions: from BCD, then to 24 hours, where \<^verbatim>\<open>12 + hour & 0x80\<close> is \<^verbatim>\<open>(12 + hour) & 0x80\<close>.\<close>

definition from_bcd :: "datetime \<Rightarrow> datetime" where
  "from_bcd dt = dt\<lparr>dt_year := ucast (bcd2dec (ucast (dt_year dt))), dt_month := bcd2dec (dt_month dt),
     dt_day := bcd2dec (dt_day dt), dt_hour := bcd2dec (dt_hour dt), dt_minute := bcd2dec (dt_minute dt),
     dt_second := bcd2dec (dt_second dt)\<rparr>"

definition convert_date :: "u8 \<Rightarrow> datetime \<Rightarrow> datetime" where
  "convert_date regbv dt =
    (let dt = (if RTC_BIN_ENCODED regbv = 0 then from_bcd dt else dt);
         dt = (if RTC_24HRS_ENCODED regbv = 0 \<and> drop_bit 7 (dt_hour dt) \<noteq> 0
               then dt\<lparr>dt_hour := (12 + dt_hour dt) AND 0x80\<rparr> else dt)
     in dt\<lparr>dt_year := dt_year dt + RTC_CURRENT_CENTRY * 100\<rparr>)"

definition time_getdatetime :: "datetime \<Rightarrow> cmos \<Rightarrow> (datetime \<times> cmos) option" where
  "time_getdatetime datetime d = do {
     (datetime, d) \<leftarrow> read_until_same datetime d;
     let (regbv, d) = rtc_read_reg RTC_REG_B d;
     Some (convert_date regbv datetime, d)
   }"

section \<open>Registers\<close>

lemma read_reg:
  "rtc_read_reg r d = (cmos_value (d\<lparr>cm_index := r AND 0x7F\<rparr>), d\<lparr>cm_index := r AND 0x7F, cm_time := cm_time d + 1\<rparr>)"
  by (simp add: rtc_read_reg_def io_inb_def io_outb_def cmos_bus_def cmos_in_def cmos_out_def RTC_INDEX_PORT_def RTC_TARGET_PORT_def)

lemma write_reg:
  "rtc_write_reg r x d = d\<lparr>cm_index := r AND 0x7F, cm_control := (cm_control d)(r AND 0x7F := x)\<rparr>"
  by (simp add: rtc_write_reg_def io_outb_def cmos_bus_def cmos_out_def RTC_INDEX_PORT_def RTC_TARGET_PORT_def)

lemma timer_enable_disable:
  "cm_control (rtc_enable_timer d) = (cm_control d)(0xB := cm_control d 0xB OR 0x40)"
  "cm_control (rtc_disable_timer d) = (cm_control d)(0xB := cm_control d 0xB AND NOT 0x40)"
  by (simp_all add: rtc_enable_timer_def rtc_disable_timer_def read_reg write_reg rtc_constants cmos_value_def)

lemma rtc_init_spec:
  "cm_control (rtc_init d) = (cm_control d)(0xA := (if cm_updating d (cm_time d) then 0xA6 else 0x26),
     0xB := cm_control d 0xB AND NOT 0x40)"
  by (simp add: rtc_init_def rtc_disable_timer_def read_reg write_reg rtc_constants cmos_value_def
    bit.conj_disj_distrib2 and.assoc)

lemma bcd2dec_nibbles: "unat (bcd2dec b) = 10 * (unat b div 16) + unat b mod 16"
proof -
  let ?h = "drop_bit 4 b"
  have h: "unat ?h = unat b div 2 ^ 4" by (metis unat_drop_bit_eq drop_bit_eq_div)
  have b: "unat b < 256" using unsigned_less [of b, where 'a = nat] by simp
  have f: "(0xF0 :: u8) = push_bit 4 15" "(15 :: u8) = mask 4" by (simp_all add: mask_eq_exp_minus_1)
  have "b AND 0xF0 = push_bit 4 ?h"
    unfolding f by (rule bit_word_eqI) (auto simp: bit_simps)
  then have "unat (b AND 0xF0) = 16 * (unat b div 16)"
    using b h by (simp only: unsigned_push_bit_eq) (simp add: push_bit_eq_mult take_bit_nat_eq_self)
  then have "unat (drop_bit 1 (b AND 0xF0)) = 8 * (unat b div 16)" "unat (drop_bit 3 (b AND 0xF0)) = 2 * (unat b div 16)"
    by (simp_all only: unat_drop_bit_eq) (simp_all add: drop_bit_eq_div)
  moreover have "unat (b AND 0xF) = unat b mod 2 ^ 4"
    unfolding f(2) by (simp only: unsigned_take_bit_eq flip: take_bit_eq_mask take_bit_eq_mod)
  ultimately have "unat (bcd2dec b) = 8 * (unat b div 16) + 2 * (unat b div 16) + unat b mod 16"
    using b unfolding bcd2dec_def
    by (subst unat_add_lem [THEN iffD1]; (subst unat_add_lem [THEN iffD1])?) simp_all
  then show ?thesis by simp
qed

section \<open>Reading the clock\<close>

text \<open>A clock that stands still from now on, and whose updates end.\<close>

definition steady :: "cmos \<Rightarrow> (u8 \<Rightarrow> u8) \<Rightarrow> bool" where
  "steady d regs \<longleftrightarrow> (\<forall>t \<ge> cm_time d. \<forall>r < 0xA. cm_clock d t r = regs r) \<and> (\<exists>T. \<forall>t \<ge> T. \<not> cm_updating d t)"

definition raw_date :: "(u8 \<Rightarrow> u8) \<Rightarrow> datetime" where
  "raw_date regs = \<lparr>dt_year = ucast (regs 9), dt_month = regs 8, dt_day = regs 7, dt_weekday = regs 6, dt_hour = regs 4,
     dt_minute = regs 2, dt_second = regs 0\<rparr>"

definition later :: "cmos \<Rightarrow> cmos \<Rightarrow> bool" where
  "later d e \<longleftrightarrow> cm_clock e = cm_clock d \<and> cm_updating e = cm_updating d \<and> cm_control e = cm_control d \<and> cm_time d \<le> cm_time e"

lemma later_trans: "later d e \<Longrightarrow> later e f \<Longrightarrow> later d f"
  by (simp add: later_def)

lemma later_refl: "later d d" by (simp add: later_def)

lemma steady_later: "steady d regs \<Longrightarrow> later d e \<Longrightarrow> steady e regs"
  by (auto simp: steady_def later_def)

lemma wait_update_returns:
  assumes "\<forall>t \<ge> T. \<not> cm_updating d t"
  shows "\<exists>e. wait_update d = Some e \<and> later d e"
  using assms
proof (induction "T - cm_time d" arbitrary: d rule: less_induct)
  case less
  define e where "e = d\<lparr>cm_index := 0xA, cm_time := cm_time d + 1\<rparr>"
  have rd: "rtc_read_reg RTC_REG_A d = ((cm_control d 0xA AND 0x7F) OR (if cm_updating d (cm_time d) then 0x80 else 0), e)"
    by (simp add: read_reg RTC_REG_A_def cmos_value_def e_def)
  have later: "later d e" by (simp add: later_def e_def)
  show ?case
  proof (cases "cm_updating d (cm_time d)")
    case True
    then have "cm_time d < T" using less.prems by (meson not_le)
    then have "T - cm_time e < T - cm_time d" by (simp add: e_def)
    moreover have "\<forall>t \<ge> T. \<not> cm_updating e t" using less.prems by (simp add: e_def)
    ultimately obtain f where "wait_update e = Some f" "later e f" using less.hyps by blast
    moreover have "wait_update d = wait_update e"
      using True rd by (subst wait_update.simps) (simp add: bit.conj_disj_distrib2 and.assoc)
    ultimately show ?thesis using later later_trans by auto
  next
    case False
    then have "wait_update d = Some e"
      using rd by (subst wait_update.simps) (simp add: and.assoc)
    then show ?thesis using later by blast
  qed
qed

lemma read_clock_steady:
  assumes "steady d regs"
  shows "\<exists>e. read_clock d = (raw_date regs, e) \<and> later d e"
proof -
  have v: "cm_clock d t r = regs r" if "cm_time d \<le> t" "r < 0xA" for t r
    using assms that by (simp add: steady_def)
  show ?thesis
    by (simp add: read_clock_def read_reg rtc_constants cmos_value_def raw_date_def later_def v)
qed

lemma read_until_same_round:
  assumes "steady d regs"
  obtains e where "later d e"
    "read_until_same dt d = (if rtc_date_same (raw_date regs) dt then Some (raw_date regs, e) else read_until_same (raw_date regs) e)"
proof -
  obtain T where "\<forall>t \<ge> T. \<not> cm_updating d t" using assms by (auto simp: steady_def)
  from wait_update_returns [OF this] obtain e where e: "wait_update d = Some e" "later d e" by blast
  obtain f where f: "read_clock e = (raw_date regs, f)" "later e f"
    using read_clock_steady [OF steady_later [OF assms e(2)]] by blast
  show ?thesis
  proof (rule that [of f])
    show "later d f" using e(2) f(2) later_trans by blast
    show "read_until_same dt d = (if rtc_date_same (raw_date regs) dt then Some (raw_date regs, f) else read_until_same (raw_date regs) f)"
      using e(1) f(1) by (subst read_until_same.simps) simp
  qed
qed

lemma read_until_same_steady:
  assumes "steady d regs"
  shows "\<exists>e. read_until_same dt d = Some (raw_date regs, e) \<and> later d e"
proof -
  obtain e where e: "later d e" "read_until_same dt d
      = (if rtc_date_same (raw_date regs) dt then Some (raw_date regs, e) else read_until_same (raw_date regs) e)"
    by (rule read_until_same_round [OF assms])
  have "steady e regs" using assms e(1) by (rule steady_later)
  then obtain f where f: "later e f" "read_until_same (raw_date regs) e
      = (if rtc_date_same (raw_date regs) (raw_date regs) then Some (raw_date regs, f) else read_until_same (raw_date regs) f)"
    by (rule read_until_same_round)
  have "rtc_date_same (raw_date regs) (raw_date regs)" by (simp add: rtc_date_same_def)
  then show ?thesis using e f later_trans by (cases "rtc_date_same (raw_date regs) dt") auto
qed

lemma time_getdatetime_steady:
  assumes "steady d regs"
  shows "\<exists>e. time_getdatetime dt d = Some (convert_date (cm_control d 0xB) (raw_date regs), e)"
proof -
  obtain e where "read_until_same dt d = Some (raw_date regs, e)" "later d e"
    using read_until_same_steady [OF assms] by blast
  then show ?thesis
    by (simp add: time_getdatetime_def read_reg RTC_REG_B_def cmos_value_def later_def)
qed

section \<open>Properties\<close>

text \<open>A date as the clock encodes it in BCD.\<close>

definition bcd :: "nat \<Rightarrow> u8" where
  "bcd n = of_nat (n div 10 * 16 + n mod 10)"

lemma bcd2dec_bcd: "n < 100 \<Longrightarrow> bcd2dec (bcd n) = of_nat n"
proof -
  assume n: "n < 100"
  then have "n div 10 * 16 + n mod 10 < 256" by linarith
  then have "unat (bcd n) = n div 10 * 16 + n mod 10"
    unfolding bcd_def by (simp only: unat_of_nat) simp
  then have "unat (bcd2dec (bcd n)) = 10 * ((n div 10 * 16 + n mod 10) div 16) + (n div 10 * 16 + n mod 10) mod 16"
    by (simp add: bcd2dec_nibbles)
  also have "\<dots> = n" using n by simp
  finally have "of_nat (unat (bcd2dec (bcd n))) = (of_nat n :: u8)" by simp
  then show ?thesis by simp
qed

lemma ucast_small: "n < 100 \<Longrightarrow> (ucast (of_nat n :: u8) :: u32) = of_nat n"
  by (simp add: unsigned_of_nat take_bit_nat_eq_self)

lemma ucast_there_and_back: "(ucast (ucast (x :: u8) :: u32) :: u8) = x"
  by (rule bit_word_eqI) (simp add: bit_simps)

text \<open>C37: on a clock in BCD and 24 hour mode that stands still \<^verbatim>\<open>time_getdatetime\<close> returns, whatever was in
  the structure before, with the date and time the registers encode.\<close>

theorem time_getdatetime_correct:
  assumes "steady d regs" "cm_control d 0xB AND 6 = 2" "y < 100" "mo < 100" "da < 100" "h < 100" "mi < 100" "s < 100"
    "regs 9 = bcd y" "regs 8 = bcd mo" "regs 7 = bcd da" "regs 4 = bcd h" "regs 2 = bcd mi" "regs 0 = bcd s"
  shows "\<exists>e. time_getdatetime dt d = Some
    (\<lparr>dt_year = 2000 + of_nat y, dt_month = of_nat mo, dt_day = of_nat da, dt_weekday = regs 6, dt_hour = of_nat h,
      dt_minute = of_nat mi, dt_second = of_nat s\<rparr>, e)"
proof -
  let ?b = "cm_control d 0xB"
  have "?b AND 4 = (?b AND 6) AND 4" "?b AND 2 = (?b AND 6) AND 2" by (simp_all add: and.assoc)
  then have mode: "RTC_BIN_ENCODED ?b = 0" "RTC_24HRS_ENCODED ?b \<noteq> 0"
    unfolding RTC_BIN_ENCODED_def RTC_24HRS_ENCODED_def by (simp_all add: assms(2))
  have "convert_date ?b (raw_date regs) =
    \<lparr>dt_year = 2000 + of_nat y, dt_month = of_nat mo, dt_day = of_nat da, dt_weekday = regs 6, dt_hour = of_nat h,
      dt_minute = of_nat mi, dt_second = of_nat s\<rparr>"
    using mode assms(3-) by (simp add: convert_date_def from_bcd_def raw_date_def RTC_CURRENT_CENTRY_def bcd2dec_bcd
      ucast_small ucast_there_and_back)
  then show ?thesis using time_getdatetime_steady [OF assms(1), of dt] by simp
qed

definition noon_cmos :: "u8 \<Rightarrow> (u8 \<Rightarrow> u8) \<Rightarrow> cmos" where
  "noon_cmos regB regs = \<lparr>cm_index = 0, cm_control = (\<lambda>_. 0)(0xB := regB), cm_clock = (\<lambda>_. regs),
     cm_updating = (\<lambda>t. t < 3), cm_time = 0\<rparr>"

lemma noon_steady: "steady (noon_cmos b regs) regs"
  by (auto simp: steady_def noon_cmos_def intro: exI [of _ 3])

definition eve_regs :: "u8 \<Rightarrow> u8" where
  "eve_regs = (\<lambda>_. 0)(9 := bcd 24, 8 := bcd 12, 7 := bcd 31, 6 := 3, 4 := bcd 23, 2 := bcd 59, 0 := bcd 58)"

lemma time_getdatetime_correct_witness:
  "\<exists>e. time_getdatetime (raw_date eve_regs) (noon_cmos 2 eve_regs)
    = Some (\<lparr>dt_year = 2000 + of_nat 24, dt_month = of_nat 12, dt_day = of_nat 31, dt_weekday = eve_regs 6,
        dt_hour = of_nat 23, dt_minute = of_nat 59, dt_second = of_nat 58\<rparr>, e)"
  by (rule time_getdatetime_correct [OF noon_steady]) (simp_all add: noon_cmos_def eve_regs_def)

text \<open>In 12 hour mode every hour of the afternoon is reported as 128: \<^verbatim>\<open>12 + hour & 0x80\<close> adds before
  it masks.\<close>

theorem rtc_afternoon_hour_wrong:
  assumes "steady d regs" "cm_control d 0xB AND 6 = 4" "1 \<le> h" "h \<le> 12" "regs 4 = 0x80 + of_nat h"
  shows "\<exists>now e. time_getdatetime dt d = Some (now, e) \<and> dt_hour now = 128"
proof -
  let ?b = "cm_control d 0xB"
  have "?b AND 4 = (?b AND 6) AND 4" "?b AND 2 = (?b AND 6) AND 2" by (simp_all add: and.assoc)
  then have mode: "RTC_BIN_ENCODED ?b \<noteq> 0" "RTC_24HRS_ENCODED ?b = 0"
    unfolding RTC_BIN_ENCODED_def RTC_24HRS_ENCODED_def by (simp_all add: assms(2))
  have "h = 1 \<or> h = 2 \<or> h = 3 \<or> h = 4 \<or> h = 5 \<or> h = 6 \<or> h = 7 \<or> h = 8 \<or> h = 9 \<or> h = 10 \<or> h = 11 \<or> h = 12"
    using assms(3,4) by presburger
  then have "drop_bit 7 (0x80 + of_nat h :: u8) \<noteq> 0" "(12 + (0x80 + of_nat h)) AND 0x80 = (0x80 :: u8)" by auto
  then have "dt_hour (convert_date ?b (raw_date regs)) = 128"
    using mode assms(5) by (simp add: convert_date_def raw_date_def)
  then show ?thesis using time_getdatetime_steady [OF assms(1), of dt] by auto
qed

lemma rtc_afternoon_hour_wrong_witness:
  "\<exists>now e. time_getdatetime dt (noon_cmos 4 ((\<lambda>_. 0)(4 := 0x83))) = Some (now, e) \<and> dt_hour now = 128"
  by (rule rtc_afternoon_hour_wrong [OF noon_steady, where h = 3]) (simp_all add: noon_cmos_def)

end
