(* ===== verification/Gdt.thy ===== *)
theory Gdt
  imports Prelude
begin

text \<open>
  Segment and gate descriptors: \<^verbatim>\<open>kernel/asm/x86/gdt.c\<close> and \<^verbatim>\<open>idt.c\<close> with their headers. The tables
  are lists of 64-bit words; storing outside a table is \<open>None\<close>. The processor's reading of a
  descriptor is stated by the \<open>seg_\<close> and \<open>gate_\<close> functions, and the descriptors written read
  back as what was asked for.
\<close>

unbundle bit_operations_syntax

section \<open>gdt.h\<close>

definition SD_TYPE :: "u32 \<Rightarrow> u32" where "SD_TYPE x = push_bit 8 x"
definition SD_CODE_DATA :: "u32 \<Rightarrow> u32" where "SD_CODE_DATA x = push_bit 12 x"
definition SD_DPL :: "u32 \<Rightarrow> u32" where "SD_DPL x = push_bit 13 x"
definition SD_PRESENT :: "u32 \<Rightarrow> u32" where "SD_PRESENT x = push_bit 15 x"
definition SD_AVL :: "u32 \<Rightarrow> u32" where "SD_AVL x = push_bit 20 x"
definition SD_64BITS :: "u32 \<Rightarrow> u32" where "SD_64BITS x = push_bit 21 x"
definition SD_32BITS :: "u32 \<Rightarrow> u32" where "SD_32BITS x = push_bit 22 x"
definition SD_4K_GRAN :: "u32 \<Rightarrow> u32" where "SD_4K_GRAN x = push_bit 23 x"

definition SEG_LIM_L :: "u32 \<Rightarrow> u32" where "SEG_LIM_L x = x AND 0x0FFFF"
definition SEG_LIM_H :: "u32 \<Rightarrow> u32" where "SEG_LIM_H x = x AND 0xF0000"
definition SEG_BASE_L :: "u32 \<Rightarrow> u32" where "SEG_BASE_L x = push_bit 16 (x AND 0x0000FFFF)"
definition SEG_BASE_M :: "u32 \<Rightarrow> u32" where "SEG_BASE_M x = drop_bit 16 (x AND 0x00FF0000)"
definition SEG_BASE_H :: "u32 \<Rightarrow> u32" where "SEG_BASE_H x = x AND 0xFF000000"

definition SEG_DATA_RDWR :: u32 where "SEG_DATA_RDWR = 0x02"
definition SEG_CODE_EXRD :: u32 where "SEG_CODE_EXRD = 0x0A"

definition SEG_R0_CODE :: u32 where
  "SEG_R0_CODE = SD_TYPE SEG_CODE_EXRD OR SD_CODE_DATA 1 OR SD_DPL 0 OR SD_PRESENT 1 OR SD_AVL 0 OR SD_64BITS 0
     OR SD_32BITS 1 OR SD_4K_GRAN 1"

definition SEG_R0_DATA :: u32 where
  "SEG_R0_DATA = SD_TYPE SEG_DATA_RDWR OR SD_CODE_DATA 1 OR SD_DPL 0 OR SD_PRESENT 1 OR SD_AVL 0 OR SD_64BITS 0
     OR SD_32BITS 1 OR SD_4K_GRAN 1"

definition SEG_R3_CODE :: u32 where
  "SEG_R3_CODE = SD_TYPE SEG_CODE_EXRD OR SD_CODE_DATA 1 OR SD_DPL 3 OR SD_PRESENT 1 OR SD_AVL 0 OR SD_64BITS 0
     OR SD_32BITS 1 OR SD_4K_GRAN 1"

definition SEG_R3_DATA :: u32 where
  "SEG_R3_DATA = SD_TYPE SEG_DATA_RDWR OR SD_CODE_DATA 1 OR SD_DPL 3 OR SD_PRESENT 1 OR SD_AVL 0 OR SD_64BITS 0
     OR SD_32BITS 1 OR SD_4K_GRAN 1"

lemmas sd_defs = SD_TYPE_def SD_CODE_DATA_def SD_DPL_def SD_PRESENT_def SD_AVL_def SD_64BITS_def SD_32BITS_def SD_4K_GRAN_def
lemmas seg_defs = SEG_LIM_L_def SEG_LIM_H_def SEG_BASE_L_def SEG_BASE_M_def SEG_BASE_H_def

section \<open>gdt.c\<close>

definition GDT_ENTRY :: nat where "GDT_ENTRY = 5"

definition gdt_entry :: "u32 \<Rightarrow> u32 \<Rightarrow> u32 \<Rightarrow> u64" where
  "gdt_entry base limit flags =
    push_bit 32 (ucast (SEG_BASE_H base OR flags OR SEG_LIM_H limit OR SEG_BASE_M base))
      OR ucast (SEG_BASE_L base OR SEG_LIM_L limit)"

definition set_gdt_entry :: "u32 \<Rightarrow> u32 \<Rightarrow> u32 \<Rightarrow> u32 \<Rightarrow> u64 list \<Rightarrow> u64 list option" where
  "set_gdt_entry index base limit flags gdt =
    (if unat index < length gdt then Some (gdt[unat index := gdt_entry base limit flags]) else None)"

definition init_gdt :: "u64 list \<Rightarrow> u64 list option" where
  "init_gdt gdt = do {
     gdt \<leftarrow> set_gdt_entry 0 0 0 0 gdt;
     gdt \<leftarrow> set_gdt_entry 1 0 0xFFFFF SEG_R0_CODE gdt;
     gdt \<leftarrow> set_gdt_entry 2 0 0xFFFFF SEG_R0_DATA gdt;
     gdt \<leftarrow> set_gdt_entry 3 0 0xFFFFF SEG_R3_CODE gdt;
     set_gdt_entry 4 0 0xFFFFF SEG_R3_DATA gdt
   }"

section \<open>interrupts.h: vectors\<close>

definition FAULT_DIVISION_ERROR :: u32 where "FAULT_DIVISION_ERROR = 0"
definition FAULT_GENERAL_PROTECTION :: u32 where "FAULT_GENERAL_PROTECTION = 13"
definition FAULT_PAGE_FAULT :: u32 where "FAULT_PAGE_FAULT = 14"
definition AWA_SYS_PANIC :: u32 where "AWA_SYS_PANIC = 32"
definition EX_INTERRUPT_BEGIN :: u32 where "EX_INTERRUPT_BEGIN = 200"
definition APIC_ERROR_IV :: u32 where "APIC_ERROR_IV = 200"
definition APIC_LINT0_IV :: u32 where "APIC_LINT0_IV = 201"
definition APIC_TIMER_IV :: u32 where "APIC_TIMER_IV = 202"
definition APIC_SPIV_IV :: u32 where "APIC_SPIV_IV = 203"
definition RTC_TIMER_IV :: u32 where "RTC_TIMER_IV = 210"
definition PC_AT_IRQ_RTC :: u8 where "PC_AT_IRQ_RTC = 8"

lemmas vectors = FAULT_DIVISION_ERROR_def FAULT_GENERAL_PROTECTION_def FAULT_PAGE_FAULT_def AWA_SYS_PANIC_def
  EX_INTERRUPT_BEGIN_def APIC_ERROR_IV_def APIC_LINT0_IV_def APIC_TIMER_IV_def APIC_SPIV_IV_def RTC_TIMER_IV_def

section \<open>idt.c\<close>

definition IDT_ENTRY :: nat where "IDT_ENTRY = 256"

definition IDT_ATTR :: "u8 \<Rightarrow> u32" where
  "IDT_ATTR dpl = push_bit 5 0x70 OR push_bit 13 (ucast dpl AND 3) OR push_bit 15 1"

definition idt_entry :: "u16 \<Rightarrow> u32 \<Rightarrow> u8 \<Rightarrow> u64" where
  "idt_entry seg_selector offset dpl =
    push_bit 32 (ucast ((offset AND 0xFFFF0000) OR IDT_ATTR dpl))
      OR ucast (push_bit 16 (ucast seg_selector :: u32) OR (offset AND 0x0000FFFF))"

definition set_idt_entry :: "u32 \<Rightarrow> u16 \<Rightarrow> u32 \<Rightarrow> u8 \<Rightarrow> u64 list \<Rightarrow> u64 list option" where
  "set_idt_entry vector seg_selector isr dpl idt =
    (if unat vector < length idt then Some (idt[unat vector := idt_entry seg_selector isr dpl]) else None)"

text \<open>\<open>asm_isr v\<close> is the address of the entry stub \<^verbatim>\<open>_asm_isrv\<close>, which is assembly.\<close>

definition init_idt :: "(nat \<Rightarrow> u32) \<Rightarrow> u64 list \<Rightarrow> u64 list option" where
  "init_idt asm_isr idt = do {
     idt \<leftarrow> set_idt_entry FAULT_DIVISION_ERROR 0x08 (asm_isr 0) 0 idt;
     idt \<leftarrow> set_idt_entry FAULT_GENERAL_PROTECTION 0x08 (asm_isr 13) 0 idt;
     idt \<leftarrow> set_idt_entry FAULT_PAGE_FAULT 0x08 (asm_isr 14) 0 idt;
     idt \<leftarrow> set_idt_entry APIC_ERROR_IV 0x08 (asm_isr 200) 0 idt;
     idt \<leftarrow> set_idt_entry APIC_LINT0_IV 0x08 (asm_isr 201) 0 idt;
     idt \<leftarrow> set_idt_entry APIC_TIMER_IV 0x08 (asm_isr 202) 0 idt;
     idt \<leftarrow> set_idt_entry APIC_SPIV_IV 0x08 (asm_isr 203) 0 idt;
     idt \<leftarrow> set_idt_entry RTC_TIMER_IV 0x08 (asm_isr 210) 0 idt;
     set_idt_entry AWA_SYS_PANIC 0x08 (asm_isr 32) 0 idt
   }"

section \<open>The processor's reading\<close>

definition low_half :: "u64 \<Rightarrow> u32" where "low_half d = ucast d"
definition high_half :: "u64 \<Rightarrow> u32" where "high_half d = ucast (drop_bit 32 d)"

definition seg_base :: "u64 \<Rightarrow> u32" where
  "seg_base d = drop_bit 16 (low_half d) OR push_bit 16 (high_half d AND 0xFF) OR (high_half d AND 0xFF000000)"

definition seg_limit :: "u64 \<Rightarrow> u32" where
  "seg_limit d = (low_half d AND 0xFFFF) OR (high_half d AND 0xF0000)"

definition seg_flags :: "u64 \<Rightarrow> u32" where
  "seg_flags d = high_half d AND 0x00F0FF00"

definition gate_offset :: "u64 \<Rightarrow> u32" where
  "gate_offset d = (low_half d AND 0xFFFF) OR (high_half d AND 0xFFFF0000)"

definition gate_selector :: "u64 \<Rightarrow> u16" where
  "gate_selector d = ucast (drop_bit 16 (low_half d))"

definition gate_attr :: "u64 \<Rightarrow> u32" where
  "gate_attr d = high_half d AND 0xFFFF"

lemma halves:
  "low_half (push_bit 32 (ucast (h :: u32)) OR ucast (l :: u32)) = l"
  "high_half (push_bit 32 (ucast (h :: u32)) OR ucast (l :: u32)) = h"
  unfolding low_half_def high_half_def by (rule bit_word_eqI, auto simp: bit_simps dest: bit_imp_le_length)+

lemma mask_constants:
  "(0xFF :: u32) = mask 8" "(0xFFFF :: u32) = mask 16" "(0xF0000 :: u32) = push_bit 16 (mask 4)"
  "(0x00FF0000 :: u32) = push_bit 16 (mask 8)" "(0xFF000000 :: u32) = push_bit 24 (mask 8)"
  "(0xFFFF0000 :: u32) = push_bit 16 (mask 16)" "(0x00F0FF00 :: u32) = push_bit 8 (mask 8) OR push_bit 20 (mask 4)"
  "(0xFF0F00FF :: u32) = mask 8 OR push_bit 16 (mask 4) OR push_bit 24 (mask 8)"
  by (simp_all add: mask_eq_exp_minus_1)

lemma flags_bits:
  assumes "flags AND 0xFF0F00FF = (0 :: u32)"
  shows "n < 32 \<Longrightarrow> bit flags n \<Longrightarrow> 8 \<le> n \<and> n < 16 \<or> 20 \<le> n \<and> n < 24"
proof -
  assume n: "n < 32" "bit flags n"
  have "\<not> bit (flags AND 0xFF0F00FF) n" using assms by simp
  then show ?thesis using n unfolding mask_constants by (auto simp: bit_simps not_less)
qed

lemma limit_bits:
  assumes "limit < (0x100000 :: u32)"
  shows "bit limit n \<Longrightarrow> n < 20"
proof -
  assume b: "bit limit n"
  have "unat limit < 2 ^ 20" using assms by (simp add: word_less_nat_alt)
  then have "take_bit 20 (unat limit) = unat limit" by (simp add: take_bit_nat_eq_self)
  moreover have "bit (unat limit) n" using b by (simp add: bit_unsigned_iff)
  ultimately show "n < 20" by (metis bit_take_bit_iff)
qed

lemma gdt_halves:
  "low_half (gdt_entry base limit flags) = SEG_BASE_L base OR SEG_LIM_L limit"
  "high_half (gdt_entry base limit flags) = SEG_BASE_H base OR flags OR SEG_LIM_H limit OR SEG_BASE_M base"
  by (simp_all add: gdt_entry_def halves)

lemma gdt_entry_reads_back:
  assumes "limit < 0x100000" "flags AND 0xFF0F00FF = 0"
  shows "seg_base (gdt_entry base limit flags) = base" "seg_limit (gdt_entry base limit flags) = limit"
    "seg_flags (gdt_entry base limit flags) = flags"
proof -
  note f = flags_bits [OF assms(2)] and l = limit_bits [OF assms(1)]
  show "seg_limit (gdt_entry base limit flags) = limit"
    unfolding seg_limit_def gdt_halves seg_defs mask_constants
  proof (rule bit_word_eqI)
    fix n :: nat
    assume "n < LENGTH(32)"
    then show "bit ((push_bit 16 (base AND mask 16) OR limit AND mask 16) AND mask 16 OR
        (base AND push_bit 24 (mask 8) OR flags OR limit AND push_bit 16 (mask 4) OR drop_bit 16 (base AND push_bit 16 (mask 8)))
        AND push_bit 16 (mask 4)) n = bit limit n"
      using f [of n] l [of n] by (cases "n < 16"; cases "n < 20") (auto simp: bit_simps)
  qed
  show "seg_flags (gdt_entry base limit flags) = flags"
    unfolding seg_flags_def gdt_halves seg_defs mask_constants
  proof (rule bit_word_eqI)
    fix n :: nat
    assume "n < LENGTH(32)"
    then show "bit ((base AND push_bit 24 (mask 8) OR flags OR limit AND push_bit 16 (mask 4) OR drop_bit 16 (base AND push_bit 16 (mask 8)))
        AND (push_bit 8 (mask 8) OR push_bit 20 (mask 4))) n = bit flags n"
      using f [of n] by (auto simp: bit_simps)
  qed
  show "seg_base (gdt_entry base limit flags) = base"
    unfolding seg_base_def gdt_halves seg_defs mask_constants
  proof (rule bit_word_eqI)
    fix n :: nat
    assume "n < LENGTH(32)"
    then show "bit (drop_bit 16 (push_bit 16 (base AND mask 16) OR limit AND mask 16) OR
        push_bit 16 ((base AND push_bit 24 (mask 8) OR flags OR limit AND push_bit 16 (mask 4) OR drop_bit 16 (base AND push_bit 16 (mask 8))) AND mask 8) OR
        (base AND push_bit 24 (mask 8) OR flags OR limit AND push_bit 16 (mask 4) OR drop_bit 16 (base AND push_bit 16 (mask 8)))
        AND push_bit 24 (mask 8)) n = bit base n"
      using f [of n] f [of "n - 16"] l [of n] by (cases "n < 16"; cases "n < 24") (auto simp: bit_simps)
  qed
qed

lemma idt_halves:
  "low_half (idt_entry sel off dpl) = push_bit 16 (ucast sel) OR (off AND 0xFFFF)"
  "high_half (idt_entry sel off dpl) = (off AND 0xFFFF0000) OR IDT_ATTR dpl"
  by (simp_all add: idt_entry_def halves)

lemma IDT_ATTR_bits: "bit (IDT_ATTR dpl) n \<Longrightarrow> n < 16"
proof -
  assume b: "bit (IDT_ATTR dpl) n"
  have "(3 :: u32) = mask 2" "push_bit 5 (0x70 :: u32) = push_bit 9 (mask 3)" "push_bit 15 (1 :: u32) = push_bit 15 (mask 1)"
    by (simp_all add: mask_eq_exp_minus_1)
  then have "IDT_ATTR dpl = push_bit 9 (mask 3) OR push_bit 13 (ucast dpl AND mask 2) OR push_bit 15 (mask 1)"
    unfolding IDT_ATTR_def by presburger
  with b have "bit (push_bit 9 (mask 3) :: u32) n \<or> bit (push_bit 13 (ucast dpl AND mask 2) :: u32) n \<or> bit (push_bit 15 (mask 1) :: u32) n"
    by (metis bit_or_iff)
  then show "n < 16" by (simp only: bit_push_bit_iff bit_mask_iff bit_and_iff) auto
qed

lemma idt_entry_reads_back:
  "gate_offset (idt_entry sel off dpl) = off" "gate_selector (idt_entry sel off dpl) = sel"
  "gate_attr (idt_entry sel off dpl) = IDT_ATTR dpl"
proof -
  show "gate_offset (idt_entry sel off dpl) = off"
    unfolding gate_offset_def idt_halves mask_constants
  proof (rule bit_word_eqI)
    fix n :: nat
    assume "n < LENGTH(32)"
    then show "bit ((push_bit 16 (ucast sel) OR off AND mask 16) AND mask 16 OR (off AND push_bit 16 (mask 16) OR IDT_ATTR dpl) AND push_bit 16 (mask 16)) n
        = bit off n"
      using IDT_ATTR_bits [of dpl n] by (cases "n < 16") (auto simp: bit_simps)
  qed
  show "gate_selector (idt_entry sel off dpl) = sel"
    unfolding gate_selector_def idt_halves mask_constants
    by (rule bit_word_eqI) (auto simp: bit_simps dest: bit_imp_le_length)
  show "gate_attr (idt_entry sel off dpl) = IDT_ATTR dpl"
    unfolding gate_attr_def idt_halves mask_constants
    using IDT_ATTR_bits [of dpl] by (intro bit_word_eqI) (auto simp: bit_simps)
qed

section \<open>Properties\<close>

text \<open>\<^verbatim>\<open>_set_gdt_entry\<close> writes a descriptor from which the processor reads back the base, the limit and
  the flags it was given, and refuses nothing but an index outside the table.\<close>

theorem set_gdt_entry_roundtrip:
  assumes "unat index < length gdt" "limit < 0x100000" "flags AND 0xFF0F00FF = 0"
  shows "\<exists>gdt'. set_gdt_entry index base limit flags gdt = Some gdt' \<and> length gdt' = length gdt
    \<and> seg_base (gdt' ! unat index) = base \<and> seg_limit (gdt' ! unat index) = limit \<and> seg_flags (gdt' ! unat index) = flags
    \<and> (\<forall>k < length gdt. k \<noteq> unat index \<longrightarrow> gdt' ! k = gdt ! k)"
  using assms(1) gdt_entry_reads_back [OF assms(2,3)] by (auto simp: set_gdt_entry_def nth_list_update)

lemma set_gdt_entry_roundtrip_witness:
  "\<exists>gdt'. set_gdt_entry 1 0xC0100000 0xABCDE SEG_R0_CODE [0, 0, 7] = Some gdt' \<and> length gdt' = length [0, 0, 7 :: u64]
    \<and> seg_base (gdt' ! unat (1 :: u32)) = 0xC0100000 \<and> seg_limit (gdt' ! unat (1 :: u32)) = 0xABCDE
    \<and> seg_flags (gdt' ! unat (1 :: u32)) = SEG_R0_CODE
    \<and> (\<forall>k < length [0, 0, 7 :: u64]. k \<noteq> unat (1 :: u32) \<longrightarrow> gdt' ! k = [0, 0, 7] ! k)"
  by (rule set_gdt_entry_roundtrip) (simp_all add: SEG_R0_CODE_def SEG_CODE_EXRD_def sd_defs)

text \<open>\<^verbatim>\<open>_init_gdt\<close>: the null descriptor and four flat segments of 4 GiB.\<close>

lemma flat_flags:
  "SEG_R0_CODE = 0x00C09A00" "SEG_R0_DATA = 0x00C09200" "SEG_R3_CODE = 0x00C0FA00" "SEG_R3_DATA = 0x00C0F200"
  by (simp_all add: SEG_R0_CODE_def SEG_R0_DATA_def SEG_R3_CODE_def SEG_R3_DATA_def SEG_CODE_EXRD_def SEG_DATA_RDWR_def sd_defs)

lemma init_gdt_segments:
  assumes "length gdt = GDT_ENTRY"
  shows "\<exists>c0 d0 c3 d3. init_gdt gdt = Some [0, c0, d0, c3, d3]
    \<and> (\<forall>d \<in> {c0, d0, c3, d3}. seg_base d = 0 \<and> seg_limit d = 0xFFFFF)
    \<and> seg_flags c0 = SEG_R0_CODE \<and> seg_flags d0 = SEG_R0_DATA \<and> seg_flags c3 = SEG_R3_CODE \<and> seg_flags d3 = SEG_R3_DATA"
proof -
  obtain a b c d e where gdt: "gdt = [a, b, c, d, e]"
    using assms by (auto simp: GDT_ENTRY_def length_Suc_conv numeral_eq_Suc)
  have null: "gdt_entry 0 0 0 = 0" by (simp add: gdt_entry_def seg_defs)
  have run: "init_gdt gdt = Some [0, gdt_entry 0 0xFFFFF SEG_R0_CODE, gdt_entry 0 0xFFFFF SEG_R0_DATA,
      gdt_entry 0 0xFFFFF SEG_R3_CODE, gdt_entry 0 0xFFFFF SEG_R3_DATA]"
    by (simp add: gdt init_gdt_def set_gdt_entry_def null)
  have ok: "flags AND 0xFF0F00FF = 0" if "flags \<in> {SEG_R0_CODE, SEG_R0_DATA, SEG_R3_CODE, SEG_R3_DATA}" for flags
    using that by (auto simp: flat_flags)
  then show ?thesis using run gdt_entry_reads_back [of "0xFFFFF", OF _ ok] by auto
qed

definition kernel_vectors :: "nat set" where
  "kernel_vectors = {0, 13, 14, 32, 200, 201, 202, 203, 210}"

lemma init_idt_run:
  assumes "length idt = IDT_ENTRY"
  shows "init_idt asm_isr idt = Some (idt[0 := idt_entry 8 (asm_isr 0) 0, 13 := idt_entry 8 (asm_isr 13) 0,
      14 := idt_entry 8 (asm_isr 14) 0, 200 := idt_entry 8 (asm_isr 200) 0, 201 := idt_entry 8 (asm_isr 201) 0,
      202 := idt_entry 8 (asm_isr 202) 0, 203 := idt_entry 8 (asm_isr 203) 0, 210 := idt_entry 8 (asm_isr 210) 0,
      32 := idt_entry 8 (asm_isr 32) 0])"
proof -
  have set: "set_idt_entry v 8 (asm_isr n) 0 l = Some (l[n := idt_entry 8 (asm_isr n) 0])"
    if "unat v = n" "length l = 256" "n < 256" for v n and l :: "u64 list"
    using that by (simp add: set_idt_entry_def)
  show ?thesis using assms by (simp add: init_idt_def vectors IDT_ENTRY_def set del: list_update_nonempty)
qed

text \<open>C38: after \<^verbatim>\<open>_init_idt\<close> exactly the nine vectors of the kernel have a gate: present, 32-bit, ring 0, kernel
  code segment, with the address of their own stub; every other gate is untouched.\<close>

theorem init_idt_gates:
  assumes "length idt = IDT_ENTRY"
  shows "\<exists>idt'. init_idt asm_isr idt = Some idt' \<and> length idt' = IDT_ENTRY
    \<and> (\<forall>v \<in> kernel_vectors. gate_offset (idt' ! v) = asm_isr v \<and> gate_selector (idt' ! v) = 8 \<and> gate_attr (idt' ! v) = 0x8E00)
    \<and> (\<forall>v < IDT_ENTRY. v \<notin> kernel_vectors \<longrightarrow> idt' ! v = idt ! v)"
proof -
  have "IDT_ATTR 0 = 0x8E00" by (simp add: IDT_ATTR_def)
  then show ?thesis
    using assms by (auto simp: init_idt_run IDT_ENTRY_def kernel_vectors_def idt_entry_reads_back)
qed

lemma init_idt_gates_witness:
  "\<exists>idt'. init_idt (\<lambda>v. 0xC0100000 + of_nat v) (replicate 256 0) = Some idt' \<and> length idt' = IDT_ENTRY
    \<and> gate_offset (idt' ! 13) = 0xC010000D \<and> gate_attr (idt' ! 13) = 0x8E00 \<and> idt' ! 12 = 0"
proof -
  have "length (replicate 256 0 :: u64 list) = IDT_ENTRY" "(12 :: nat) < IDT_ENTRY" "replicate 256 0 ! 12 = (0 :: u64)"
    by (simp_all add: IDT_ENTRY_def)
  moreover have "13 \<in> kernel_vectors" "12 \<notin> kernel_vectors" by (simp_all add: kernel_vectors_def)
  ultimately show ?thesis
    using init_idt_gates [of "replicate 256 0" "\<lambda>v. 0xC0100000 + of_nat v"] by (auto dest!: bspec [of _ _ 13])
qed

end
