(* ===== verification/Kernel.thy ===== *)
theory Kernel
  imports Heap Render Rtc Gdt
begin

text \<open>
  The state of the running kernel: the machine of theory Mmu extended by the static variables of
  the components above memory management and by the devices they drive. A function pointer is a
  value of \<open>code\<close>, which names the routines of the kernel that are ever stored in a pointer, and
  the object that is executed when a data pointer is called. \<^verbatim>\<open>assert\<close> expands to nothing, as in
  the default build.
\<close>

unbundle bit_operations_syntax

section \<open>State\<close>

datatype code = Intr_routine_divide_zero | Intr_routine_general_protection | Intr_routine_page_fault
  | Intr_routine_sys_panic | Intr_routine_fallback | Intr_routine_apic_spi | Intr_routine_apic_error
  | Intr_set_fallback_handler | Timer_update | Temp_intr_routine_rtc_tick | Temp_intr_routine_apic_timer
  | Data_object u32

record acpi_context =
  oem_id :: "u8 list"
  toc_apic_addr :: u32
  toc_apic :: u32
  toc_ioapic :: u32
  irq_exception :: "u32 list"

text \<open>The devices. The local APIC keeps its registers and a log of the writes, newest first; the IO
  APIC has a base address, a selected register and its registers.\<close>

record local_apic =
  apic_regs :: "u32 \<Rightarrow> u32"
  apic_log :: "(u32 \<times> u32) list"

record io_apic =
  io_base :: u32
  io_sel :: u32
  io_regs :: "u32 \<Rightarrow> u32"

record kernel = vm +
  k_heap :: heap_context
  k_tty :: tty
  k_cmos :: cmos
  k_if :: bool
  k_cr2 :: u32
  k_msr :: "u32 \<Rightarrow> u64"
  k_cpuid :: "u32 \<Rightarrow> u32 \<times> u32 \<times> u32 \<times> u32"
  k_pic :: "u8 \<times> u8"
  k_apic :: local_apic
  k_ioapic :: io_apic
  k_toc :: "acpi_context option"
  subscribers :: "u8 \<Rightarrow> code option"
  fallback :: "code option"
  timer_ctx :: u32
  rtc_counter :: u32
  apic_timer_done :: u8

section \<open>Messages\<close>

definition KINFO :: "u8 list" where "KINFO = [0x1B, 48]"
definition KWARN :: "u8 list" where "KWARN = [0x1B, 49]"
definition KERROR :: "u8 list" where "KERROR = [0x1B, 50]"

definition nl :: "u8 list" where "nl = [10]"

text \<open>\<^verbatim>\<open>kprintf\<close> of the module \<open>component\<close>, and \<^verbatim>\<open>kprint_panic\<close>, on the kernel's console.\<close>

definition kprintf :: "string \<Rightarrow> u8 list \<Rightarrow> varg list \<Rightarrow> kernel \<Rightarrow> kernel option" where
  "kprintf component fmt args k = do {
     t \<leftarrow> kprintf_internal (bytes component) (Some fmt) args (k_tty k);
     Some (k\<lparr>k_tty := t\<rparr>)
   }"

definition panic_message :: "u8 list \<Rightarrow> varg list \<Rightarrow> kernel \<Rightarrow> kernel option" where
  "panic_message fmt args k = do {
     t \<leftarrow> kprint_panic fmt args (k_tty k);
     Some (k\<lparr>k_tty := t\<rparr>)
   }"

lemma kprintf_runs:
  assumes "expand_fmt (level_name l) component fmt = Some m" "in_buffer 1024 (sprintf_internal m 1024 args) = Some out"
    "tty_ok t" "clean_theme (tty_theme_color t)"
  obtains t' where "kprintf_internal component (Some (0x1B # l # fmt)) args t = Some t'" "tty_ok t'"
    "tty_theme_color t' = tty_theme_color t"
    "screen_of t' = (scr_text out ((screen_of t)\<lparr>colour := level_colour l (tty_theme_color t)\<rparr>))\<lparr>colour := tty_theme_color t\<rparr>"
proof -
  let ?u = "t\<lparr>tty_theme_color := level_colour l (tty_theme_color t)\<rparr>"
  let ?t' = "(tty_put_str out ?u)\<lparr>tty_theme_color := tty_theme_color t\<rparr>"
  have run: "kprintf_internal component (Some (0x1B # l # fmt)) args t = Some ?t'"
    using assms(1,2) theme_restored [OF assms(4)]
    by (simp add: kprintf_internal_def log_level_def tty_get_theme_def tty_set_theme_def Let_def level_name_def level_colour_def
      MAX_KPRINTF_BUF_SIZE_def VGA_COLOR_BROWN_def VGA_COLOR_LIGHT_RED_def split: if_splits)
  have "tty_ok ?u" using assms(3) by simp
  from put_str_refines [OF this, of out] show ?thesis by (intro that [OF run]) simp_all
qed

text \<open>A message whose arguments are numbers always fits and is printed.\<close>

definition console_ok :: "kernel \<Rightarrow> bool" where
  "console_ok k \<longleftrightarrow> tty_ok (k_tty k) \<and> clean_theme (tty_theme_color (k_tty k))"

lemma kprintf_numbers:
  assumes "render fmt args = Some out" "0 \<notin> set fmt" "length fmt \<le> 60" "\<forall>a \<in> set args. \<exists>v. a = Int_arg v"
    "printable (bytes component)" "length (bytes component) \<le> 20" "console_ok k"
  obtains t where "kprintf component (0x1B # l # fmt) args k = Some (k\<lparr>k_tty := t\<rparr>)" "console_ok (k\<lparr>k_tty := t\<rparr>)"
    "screen_of t = (scr_text (message (level_name l) (bytes component) out)
      ((screen_of (k_tty k))\<lparr>colour := level_colour l (tty_theme_color (k_tty k))\<rparr>))\<lparr>colour := tty_theme_color (k_tty k)\<rparr>"
proof -
  let ?c = "bytes component"
  have x: "expand_fmt (level_name l) ?c fmt = Some (message (level_name l) ?c fmt)"
    using assms by (intro expand_fmt_text level_name_bytes) (simp_all add: printable_def)
  have o: "0 \<notin> set out" "length out \<le> 780" using render_chars [OF assms(1,2)] assms(3,4) by auto
  have "render (message (level_name l) ?c fmt) args = Some (message (level_name l) ?c out)"
    using assms(1,5) level_name_bytes(2) [of l]
    by (simp add: message_def render_append printable_def bytes_literals option.map_comp o_def)
  moreover have m: "length (message (level_name l) ?c out) < 1023" "0 \<notin> set (message (level_name l) ?c out)"
    using o assms(5,6) level_name_bytes [of l] by (auto simp: message_def bytes_literals printable_def)
  ultimately have "sprintf_loop 1024 (message (level_name l) ?c fmt) args [] = Some ([] @ message (level_name l) ?c out)"
    by (intro sprintf_loop_render) (simp_all add: room_def)
  then have "in_buffer 1024 (sprintf_internal (message (level_name l) ?c fmt) 1024 args) = Some (message (level_name l) ?c out)"
    using m by (simp add: sprintf_internal_def in_buffer_text)
  from kprintf_runs [OF x this, of "k_tty k"] assms(7) obtain t where
    "kprintf_internal ?c (Some (0x1B # l # fmt)) args (k_tty k) = Some t" "tty_ok t"
    "tty_theme_color t = tty_theme_color (k_tty k)"
    "screen_of t = (scr_text (message (level_name l) ?c out)
      ((screen_of (k_tty k))\<lparr>colour := level_colour l (tty_theme_color (k_tty k))\<rparr>))\<lparr>colour := tty_theme_color (k_tty k)\<rparr>"
    by (auto simp: console_ok_def)
  then show ?thesis using that [of t] assms(7) by (simp add: kprintf_def console_ok_def)
qed

lemma panic_message_runs:
  assumes "render fmt args = Some out" "0 \<notin> set fmt" "length out < 1023" "tty_ok (k_tty k)"
  obtains t where "panic_message fmt args k = Some (k\<lparr>k_tty := t\<rparr>)" "tty_ok t"
    "screen_of t = scr_text out (panic_screen (screen_of (k_tty k)))"
proof -
  have "0 \<notin> set out" using render_chars [OF assms(1,2)] by blast
  moreover have "sprintf_loop 1024 fmt args [] = Some ([] @ out)"
    using assms(1,3) by (intro sprintf_loop_render) (simp_all add: room_def)
  ultimately have "in_buffer 1024 (sprintf_internal fmt 1024 args) = Some out"
    using assms(3) by (simp add: sprintf_internal_def in_buffer_text)
  from kprint_panic_run [OF assms(4) this] obtain t where
    "kprint_panic fmt args (k_tty k) = Some t" "tty_ok t" "screen_of t = scr_text out (panic_screen (screen_of (k_tty k)))" by blast
  then show ?thesis by (intro that) (simp_all add: panic_message_def)
qed

section \<open>The state of the machine below\<close>

text \<open>Memory is reached through the page tables only, so the fields above leave loads and stores alone.\<close>

lemma mmu_translate_cong: "phys s = phys t \<Longrightarrow> cr3 s = cr3 t \<Longrightarrow> mmu_translate s = mmu_translate t"
  by (intro ext) (simp only: mmu_translate_def)

lemma mmu_translate_kernel [simp]:
  "mmu_translate (k\<lparr>k_heap := x1\<rparr>) = mmu_translate k" "mmu_translate (k\<lparr>k_tty := x2\<rparr>) = mmu_translate k"
  "mmu_translate (k\<lparr>k_cmos := x3\<rparr>) = mmu_translate k" "mmu_translate (k\<lparr>k_if := x4\<rparr>) = mmu_translate k"
  "mmu_translate (k\<lparr>k_msr := x5\<rparr>) = mmu_translate k" "mmu_translate (k\<lparr>k_pic := x6\<rparr>) = mmu_translate k"
  "mmu_translate (k\<lparr>k_apic := x7\<rparr>) = mmu_translate k" "mmu_translate (k\<lparr>k_ioapic := x8\<rparr>) = mmu_translate k"
  "mmu_translate (k\<lparr>k_toc := x9\<rparr>) = mmu_translate k" "mmu_translate (k\<lparr>subscribers := x10\<rparr>) = mmu_translate k"
  "mmu_translate (k\<lparr>fallback := x11\<rparr>) = mmu_translate k" "mmu_translate (k\<lparr>timer_ctx := x12\<rparr>) = mmu_translate k"
  "mmu_translate (k\<lparr>rtc_counter := x13\<rparr>) = mmu_translate k" "mmu_translate (k\<lparr>apic_timer_done := x14\<rparr>) = mmu_translate k"
  by (rule mmu_translate_cong; simp)+

end
