(* ===== verification/Apic.thy ===== *)
theory Apic
  imports Kernel
begin

text \<open>
  Processor identification and the local interrupt controller: \<^verbatim>\<open>hal/cpu.c\<close>, \<^verbatim>\<open>hal/apic.c\<close>,
  \<^verbatim>\<open>includes/hal/apic.h\<close> and \<^verbatim>\<open>includes/hal/pic.h\<close>. The registers of the controller answer only where
  the page tables map \<^verbatim>\<open>APIC_BASE_VADDR\<close> to its physical page; any other mapping is a fault.
\<close>

unbundle bit_operations_syntax

section \<open>cpu.c\<close>

definition BRAND_LEAF :: u32 where "BRAND_LEAF = 0x80000000"

text \<open>\<^verbatim>\<open>__get_cpuid_max\<close> and \<^verbatim>\<open>__get_cpuid\<close> of the compiler's \<^verbatim>\<open>cpuid.h\<close>: the highest leaf of a range is
  the \<^verbatim>\<open>eax\<close> of its first leaf, and a leaf above it leaves the outputs alone.\<close>

definition get_cpuid_max :: "u32 \<Rightarrow> kernel \<Rightarrow> u32" where
  "get_cpuid_max ext k = fst (k_cpuid k ext)"

definition get_cpuid :: "u32 \<Rightarrow> u32 \<times> u32 \<times> u32 \<times> u32 \<Rightarrow> kernel \<Rightarrow> u32 \<times> u32 \<times> u32 \<times> u32" where
  "get_cpuid leaf regs k =
    (let m = get_cpuid_max (leaf AND 0x80000000) k in if m = 0 \<or> m < leaf then regs else k_cpuid k leaf)"

definition cpu_brand_string_supported :: "kernel \<Rightarrow> bool" where
  "cpu_brand_string_supported k \<longleftrightarrow> 0x80000004 \<le> get_cpuid_max BRAND_LEAF k"

definition le_bytes :: "u32 \<Rightarrow> u8 list" where
  "le_bytes w = [ucast w, ucast (drop_bit 8 w), ucast (drop_bit 16 w), ucast (drop_bit 24 w)]"

text \<open>The loop over the leaves 2, 3 and 4; the registers keep their values from one leaf to the next.\<close>

fun brand_loop :: "nat \<Rightarrow> u32 \<Rightarrow> u32 \<times> u32 \<times> u32 \<times> u32 \<Rightarrow> kernel \<Rightarrow> u8 list" where
  "brand_loop 0 i regs k = []"
| "brand_loop (Suc n) i regs k =
    (let (eax, ebx, ecx, edx) = get_cpuid (BRAND_LEAF + i) regs k
     in le_bytes eax @ le_bytes ebx @ le_bytes ecx @ le_bytes edx @ brand_loop n (i + 1) (eax, ebx, ecx, edx) k)"

text \<open>The bytes \<^verbatim>\<open>cpu_get_brand\<close> leaves in the first 49 places of its buffer: the two bytes it writes when
  there is no brand string are overwritten by the loop.\<close>

definition cpu_get_brand :: "u8 list \<Rightarrow> kernel \<Rightarrow> u8 list" where
  "cpu_get_brand brand_out k =
    (let brand_out = (if \<not> cpu_brand_string_supported k then brand_out[0 := 63, 1 := 0] else brand_out);
         bs = brand_loop 3 2 (0, 0, 0, 0) k;
         brand_out = bs @ drop (length bs) brand_out
     in brand_out[48 := 0])"

definition cpu_get_model :: "u8 list \<Rightarrow> kernel \<Rightarrow> u8 list" where
  "cpu_get_model model_out k =
    (let (eax, ebx, ecx, edx) = get_cpuid 0 (0, 0, 0, 0) k;
         bs = le_bytes ebx @ le_bytes edx @ le_bytes ecx
     in (bs @ drop (length bs) model_out)[12 := 0])"

definition cpu_rdmsr :: "u32 \<Rightarrow> kernel \<Rightarrow> u32 \<times> u32" where
  "cpu_rdmsr msr_idx k = (ucast (drop_bit 32 (k_msr k msr_idx)), ucast (k_msr k msr_idx))"

definition cpu_wrmsr :: "u32 \<Rightarrow> u32 \<Rightarrow> u32 \<Rightarrow> kernel \<Rightarrow> kernel" where
  "cpu_wrmsr msr_idx reg_high reg_low k = k\<lparr>k_msr := (k_msr k)(msr_idx := push_bit 32 (ucast reg_high) OR ucast reg_low)\<rparr>"

lemma cpu_msr_roundtrip: "cpu_rdmsr i (cpu_wrmsr i h l k) = (h, l)"
  by (auto simp: cpu_rdmsr_def cpu_wrmsr_def bit_eq_iff bit_simps dest: bit_imp_le_length)

definition cpu_has_apic :: "kernel \<Rightarrow> u32" where
  "cpu_has_apic k = (let (eax, ebx, ecx, edx) = get_cpuid 1 (0, 0, 0, 0) k in edx AND 0x100)"

definition cpu_enable_interrupt :: "kernel \<Rightarrow> kernel" where
  "cpu_enable_interrupt k = k\<lparr>k_if := True\<rparr>"

definition cpu_disable_interrupt :: "kernel \<Rightarrow> kernel" where
  "cpu_disable_interrupt k = k\<lparr>k_if := False\<rparr>"

text \<open>Both interrupt masks of the old controller are set.\<close>

definition pic_disable :: "kernel \<Rightarrow> kernel" where
  "pic_disable k = k\<lparr>k_pic := (0xFF, 0xFF)\<rparr>"

section \<open>apic.h\<close>

definition APIC_BASE_VADDR :: u32 where "APIC_BASE_VADDR = 0x1000"
definition APIC_BASE_PADDR :: u32 where "APIC_BASE_PADDR = 0xFEE00000"
definition IA32_APIC_BASE_MSR :: u32 where "IA32_APIC_BASE_MSR = 0x1B"
definition IA32_APIC_ENABLE :: u64 where "IA32_APIC_ENABLE = 0x800"
definition APIC_IDR :: u32 where "APIC_IDR = 0x20"
definition APIC_VER :: u32 where "APIC_VER = 0x30"
definition APIC_TPR :: u32 where "APIC_TPR = 0x80"
definition APIC_EOI :: u32 where "APIC_EOI = 0xB0"
definition APIC_SPIVR :: u32 where "APIC_SPIVR = 0xF0"
definition APIC_ESR :: u32 where "APIC_ESR = 0x280"
definition APIC_LVT_LINT0 :: u32 where "APIC_LVT_LINT0 = 0x350"
definition APIC_LVT_LINT1 :: u32 where "APIC_LVT_LINT1 = 0x360"
definition APIC_LVT_ERROR :: u32 where "APIC_LVT_ERROR = 0x370"
definition APIC_TIMER_LVT :: u32 where "APIC_TIMER_LVT = 0x320"
definition APIC_TIMER_ICR :: u32 where "APIC_TIMER_ICR = 0x380"
definition APIC_TIMER_DCR :: u32 where "APIC_TIMER_DCR = 0x3E0"
definition APIC_SPIV_APIC_ENABLE :: u32 where "APIC_SPIV_APIC_ENABLE = 0x100"
definition LVT_DELIVERY_FIXED :: u32 where "LVT_DELIVERY_FIXED = 0"
definition LVT_DELIVERY_NMI :: u32 where "LVT_DELIVERY_NMI = push_bit 8 0x4"
definition LVT_TRIGGER_EDGE :: u32 where "LVT_TRIGGER_EDGE = push_bit 15 0"
definition LVT_MASKED :: u32 where "LVT_MASKED = push_bit 16 1"
definition LVT_TIMER_ONESHOT :: u32 where "LVT_TIMER_ONESHOT = push_bit 17 0"
definition LVT_TIMER_PERIODIC :: u32 where "LVT_TIMER_PERIODIC = push_bit 17 1"
definition APIC_TIMER_DIV64 :: u32 where "APIC_TIMER_DIV64 = 0b1001"

definition APIC_PRIORITY :: "u32 \<Rightarrow> u32 \<Rightarrow> u32" where
  "APIC_PRIORITY cls subcls = push_bit 4 cls OR subcls"

lemmas apic_regs_defs = APIC_IDR_def APIC_VER_def APIC_TPR_def APIC_EOI_def APIC_SPIVR_def APIC_ESR_def APIC_LVT_LINT0_def
  APIC_LVT_LINT1_def APIC_LVT_ERROR_def APIC_TIMER_LVT_def APIC_TIMER_ICR_def APIC_TIMER_DCR_def
lemmas lvt_defs = LVT_DELIVERY_FIXED_def LVT_DELIVERY_NMI_def LVT_TRIGGER_EDGE_def LVT_MASKED_def LVT_TIMER_ONESHOT_def
  LVT_TIMER_PERIODIC_def

definition apic_mapped :: "u32 \<Rightarrow> kernel \<Rightarrow> bool" where
  "apic_mapped reg k \<longleftrightarrow> mmu_translate k (APIC_BASE_VADDR + reg) = Some (APIC_BASE_PADDR + reg)"

definition apic_read_reg :: "u32 \<Rightarrow> kernel \<Rightarrow> u32 option" where
  "apic_read_reg reg k = (if apic_mapped reg k then Some (apic_regs (k_apic k) reg) else None)"

definition apic_write_reg :: "u32 \<Rightarrow> u32 \<Rightarrow> kernel \<Rightarrow> kernel option" where
  "apic_write_reg reg val k =
    (if apic_mapped reg k
     then Some (k\<lparr>k_apic := \<lparr>apic_regs = (apic_regs (k_apic k))(reg := val), apic_log = (reg, val) # apic_log (k_apic k)\<rparr>\<rparr>)
     else None)"

definition apic_done_servicing :: "kernel \<Rightarrow> kernel option" where
  "apic_done_servicing k = apic_write_reg APIC_EOI 0 k"

section \<open>apic.c\<close>

definition LVT_ENTRY_LINT0 :: "u32 \<Rightarrow> u32" where "LVT_ENTRY_LINT0 vector = LVT_DELIVERY_FIXED OR vector"
definition LVT_ENTRY_LINT1 :: u32 where "LVT_ENTRY_LINT1 = LVT_DELIVERY_NMI OR LVT_MASKED OR LVT_TRIGGER_EDGE"
definition LVT_ENTRY_ERROR :: "u32 \<Rightarrow> u32" where "LVT_ENTRY_ERROR vector = LVT_DELIVERY_FIXED OR vector"

definition apic_setup_lvts :: "kernel \<Rightarrow> kernel option" where
  "apic_setup_lvts k = do {
     k \<leftarrow> apic_write_reg APIC_LVT_LINT0 (LVT_ENTRY_LINT0 APIC_LINT0_IV) k;
     k \<leftarrow> apic_write_reg APIC_LVT_LINT1 LVT_ENTRY_LINT1 k;
     apic_write_reg APIC_LVT_ERROR (LVT_ENTRY_ERROR APIC_ERROR_IV) k
   }"

definition apic_init :: "kernel \<Rightarrow> kernel option" where
  "apic_init k = do {
     let k = cpu_disable_interrupt k;
     let k = pic_disable k;
     let k = k\<lparr>k_msr := (k_msr k)(IA32_APIC_BASE_MSR := k_msr k IA32_APIC_BASE_MSR OR IA32_APIC_ENABLE)\<rparr>;
     idr \<leftarrow> apic_read_reg APIC_IDR k;
     let apic_id = drop_bit 24 idr;
     apic_ver \<leftarrow> apic_read_reg APIC_VER k;
     k \<leftarrow> kprintf ''APIC'' (KINFO @ bytes ''ID: %x, Version: %x, Max LVT: %u'' @ nl)
       [Int_arg apic_id, Int_arg (apic_ver AND 0xFF), Int_arg (drop_bit 16 apic_ver AND 0xFF)] k;
     k \<leftarrow> apic_setup_lvts k;
     k \<leftarrow> apic_write_reg APIC_TPR (APIC_PRIORITY 2 0) k;
     spiv \<leftarrow> apic_read_reg APIC_SPIVR k;
     let spiv = (spiv AND NOT 0xFF) OR APIC_SPIV_APIC_ENABLE OR APIC_SPIV_IV;
     apic_write_reg APIC_SPIVR spiv k
   }"

section \<open>Registers\<close>

definition apic_page_mapped :: "kernel \<Rightarrow> bool" where
  "apic_page_mapped k \<longleftrightarrow> (\<forall>reg < 0x400. apic_mapped reg k)"

lemma apic_mapped_cong: "mmu_translate j = mmu_translate k \<Longrightarrow> apic_mapped r j = apic_mapped r k"
  by (simp add: apic_mapped_def)

lemma apic_mapped_kernel [simp]:
  "apic_mapped r (k\<lparr>k_tty := x2\<rparr>) = apic_mapped r k" "apic_mapped r (k\<lparr>k_if := x4\<rparr>) = apic_mapped r k"
  "apic_mapped r (k\<lparr>k_msr := x5\<rparr>) = apic_mapped r k" "apic_mapped r (k\<lparr>k_pic := x6\<rparr>) = apic_mapped r k"
  "apic_mapped r (k\<lparr>k_apic := x7\<rparr>) = apic_mapped r k" "apic_mapped r (k\<lparr>k_cmos := x3\<rparr>) = apic_mapped r k"
  "apic_mapped r (k\<lparr>subscribers := x10\<rparr>) = apic_mapped r k" "apic_mapped r (k\<lparr>fallback := x11\<rparr>) = apic_mapped r k"
  "apic_mapped r (k\<lparr>rtc_counter := x13\<rparr>) = apic_mapped r k" "apic_mapped r (k\<lparr>apic_timer_done := x14\<rparr>) = apic_mapped r k"
  by (rule apic_mapped_cong; simp)+

definition apic_put :: "u32 \<Rightarrow> u32 \<Rightarrow> kernel \<Rightarrow> kernel" where
  "apic_put reg val k = k\<lparr>k_apic := \<lparr>apic_regs = (apic_regs (k_apic k))(reg := val), apic_log = (reg, val) # apic_log (k_apic k)\<rparr>\<rparr>"

lemma apic_page_put [simp]: "apic_page_mapped (apic_put r v k) = apic_page_mapped k"
  by (simp add: apic_page_mapped_def apic_put_def)

lemma apic_put_fields [simp]:
  "apic_regs (k_apic (apic_put r v k)) = (apic_regs (k_apic k))(r := v)"
  "apic_log (k_apic (apic_put r v k)) = (r, v) # apic_log (k_apic k)"
  "mmu_translate (apic_put r v k) = mmu_translate k"
  by (simp_all add: apic_put_def)

lemma apic_access:
  assumes "apic_page_mapped k" "reg < 0x400"
  shows "apic_read_reg reg k = Some (apic_regs (k_apic k) reg)" "apic_write_reg reg val k = Some (apic_put reg val k)"
  using assms by (simp_all add: apic_page_mapped_def apic_read_reg_def apic_write_reg_def apic_put_def)

section \<open>Properties\<close>

text \<open>With its page mapped and a working console \<^verbatim>\<open>apic_init\<close> returns with interrupts off, the old
  controller masked and the APIC enabled; it writes the local vectors (LINT0 to 201, LINT1 masked,
  errors to 200) and the task priority before it enables the controller with spurious vector 203.\<close>

theorem apic_init_programs:
  assumes "apic_page_mapped k" "console_ok k"
  shows "\<exists>k'. apic_init k = Some k' \<and> \<not> k_if k' \<and> k_pic k' = (0xFF, 0xFF) \<and> k_msr k' 0x1B = k_msr k 0x1B OR 0x800
    \<and> (\<exists>spiv. apic_log (k_apic k') = [(APIC_SPIVR, spiv), (APIC_TPR, 0x20), (APIC_LVT_ERROR, 200), (APIC_LVT_LINT1, 0x10400),
        (APIC_LVT_LINT0, 201)] @ apic_log (k_apic k) \<and> spiv AND 0xFF = 203 \<and> spiv AND 0x100 = 0x100)
    \<and> mmu_translate k' = mmu_translate k \<and> console_ok k'"
proof -
  define k1 where "k1 = (pic_disable (cpu_disable_interrupt k))\<lparr>k_msr := (k_msr k)(0x1B := k_msr k 0x1B OR 0x800)\<rparr>"
  have m1: "apic_page_mapped k1" "console_ok k1" "mmu_translate k1 = mmu_translate k" "k_apic k1 = k_apic k"
    using assms by (simp_all add: k1_def apic_page_mapped_def console_ok_def pic_disable_def cpu_disable_interrupt_def)
  let ?fmt = "bytes ''ID: %x, Version: %x, Max LVT: %u'' @ nl"
  let ?args = "[Int_arg (drop_bit 24 (apic_regs (k_apic k) APIC_IDR)), Int_arg (apic_regs (k_apic k) APIC_VER AND 0xFF),
    Int_arg (drop_bit 16 (apic_regs (k_apic k) APIC_VER) AND 0xFF)]"
  obtain out where out: "render ?fmt ?args = Some out" by (simp add: bytes_def nl_def)
  have comp: "printable (bytes ''APIC'')" "length (bytes ''APIC'') \<le> 20" by (simp_all add: bytes_def printable_def)
  have fmt: "0 \<notin> set ?fmt" "length ?fmt \<le> 60" "\<forall>a \<in> set ?args. \<exists>v. a = Int_arg v" by (simp_all add: bytes_def nl_def)
  obtain t where t: "kprintf ''APIC'' (0x1B # 48 # ?fmt) ?args k1 = Some (k1\<lparr>k_tty := t\<rparr>)" "console_ok (k1\<lparr>k_tty := t\<rparr>)"
    by (rule kprintf_numbers [OF out fmt comp m1(2)])
  define k2 where "k2 = k1\<lparr>k_tty := t\<rparr>"
  have m2: "apic_page_mapped k2" "k_apic k2 = k_apic k"
    using m1 by (simp_all add: k2_def apic_page_mapped_def)
  define spiv where "spiv = (apic_regs (k_apic k) APIC_SPIVR AND NOT 0xFF) OR 0x100 OR 203"
  define k' where "k' = apic_put APIC_SPIVR spiv (apic_put APIC_TPR 0x20 (apic_put APIC_LVT_ERROR 200
    (apic_put APIC_LVT_LINT1 0x10400 (apic_put APIC_LVT_LINT0 201 k2))))"
  have acc: "apic_write_reg r v j = Some (apic_put r v j)" "apic_read_reg r j = Some (apic_regs (k_apic j) r)"
    if "apic_page_mapped j" "r < 0x400" for j r v using apic_access that by simp_all
  have "apic_init k = Some k'"
    using m1 m2 t(1) unfolding apic_init_def
    by (simp add: k1_def [symmetric, unfolded pic_disable_def cpu_disable_interrupt_def] pic_disable_def cpu_disable_interrupt_def
      IA32_APIC_BASE_MSR_def IA32_APIC_ENABLE_def acc apic_regs_defs KINFO_def k2_def [symmetric] apic_setup_lvts_def LVT_ENTRY_LINT0_def
      LVT_ENTRY_LINT1_def LVT_ENTRY_ERROR_def lvt_defs vectors APIC_PRIORITY_def APIC_SPIV_APIC_ENABLE_def k'_def spiv_def)
  moreover have "spiv AND 0xFF = 203 \<and> spiv AND 0x100 = 0x100"
    by (simp add: spiv_def bit.conj_disj_distrib2 and.assoc)
  moreover have "\<not> k_if k'" "k_pic k' = (0xFF, 0xFF)" "k_msr k' 0x1B = k_msr k 0x1B OR 0x800" "mmu_translate k' = mmu_translate k" "console_ok k'"
    using t(2) m1(3) by (simp_all add: k'_def apic_put_def k2_def k1_def pic_disable_def cpu_disable_interrupt_def console_ok_def)
  moreover have "apic_log (k_apic k') = [(APIC_SPIVR, spiv), (APIC_TPR, 0x20), (APIC_LVT_ERROR, 200), (APIC_LVT_LINT1, 0x10400),
        (APIC_LVT_LINT0, 201)] @ apic_log (k_apic k)"
    using m2(2) by (simp add: k'_def)
  ultimately show ?thesis by blast
qed

text \<open>A kernel on the machine of theory Vmm, with page 1 mapped to the local APIC.\<close>

definition kernel_on :: "vm \<Rightarrow> heap_context \<Rightarrow> kernel" where
  "kernel_on s heap = vm.extend s (kernel.fields heap (tty_boot (\<lambda>_. 0)) (noon_cmos 2 eve_regs) True 0 (\<lambda>_. 0) (\<lambda>_. (0, 0, 0, 0))
     (0, 0) \<lparr>apic_regs = (\<lambda>_. 0), apic_log = []\<rparr> \<lparr>io_base = 0xFEC00000, io_sel = 0, io_regs = (\<lambda>_. 0)\<rparr>
     None (\<lambda>_. None) None 0 0 0)"

lemma kernel_on_fields [simp]:
  "phys (kernel_on s h) = phys s" "cr3 (kernel_on s h) = cr3 s" "k_heap (kernel_on s h) = h"
  "k_tty (kernel_on s h) = tty_boot (\<lambda>_. 0)" "subscribers (kernel_on s h) = (\<lambda>_. None)" "fallback (kernel_on s h) = None"
  "k_apic (kernel_on s h) = \<lparr>apic_regs = (\<lambda>_. 0), apic_log = []\<rparr>"
  by (simp_all add: kernel_on_def vm.defs kernel.defs)

lemma kernel_on_console: "console_ok (kernel_on s h)"
  by (simp add: console_ok_def tty_boot_ok clean_theme_def) (simp add: tty_boot_def VGA_COLOR_BLACK_def)

lemma kernel_on_translate: "mmu_translate (kernel_on s h) = mmu_translate s"
  by (rule mmu_translate_cong) simp_all

definition apic_vm :: vm where
  "apic_vm = upd_entry 0 1 0xFEE00003 vm1"

lemma small_page_offset:
  assumes "reg < 0x400"
  shows "L1_INDEX (0x1000 + reg) = 0" "L2_INDEX (0x1000 + reg) = 1" "PG_OFFSET (0x1000 + reg) = reg"
proof -
  have r: "unat reg < 1024" using assms by (simp add: word_less_nat_alt)
  then have "unat (0x1000 + reg) = 4096 + unat reg" by (subst unat_add_u32) simp_all
  then show "L1_INDEX (0x1000 + reg) = 0" "L2_INDEX (0x1000 + reg) = 1" "PG_OFFSET (0x1000 + reg) = reg"
    using r by (simp_all add: word_unat_eq_iff unat_word)
qed

lemma apic_page_on:
  assumes "vm_ok s" "pagemap s (0, 1) = Some 0xFEE00003"
  shows "apic_page_mapped (kernel_on s h)"
proof -
  have "apic_mapped reg (kernel_on s h)" if "reg < 0x400" for reg
    using mmu_translate_pagemap [OF assms(1), of "0x1000 + reg"] small_page_offset [OF that] assms(2)
    by (simp add: apic_mapped_def kernel_on_translate APIC_BASE_VADDR_def APIC_BASE_PADDR_def IS_CACHED_def PG_ALIGN_def)
  then show ?thesis by (simp add: apic_page_mapped_def)
qed

lemma apic_vm_mapped: "apic_page_mapped (kernel_on apic_vm h)"
  using vm_ok_upd [OF vm1_ok, of 0 1 "0xFEE00003"] pagemap_upd [OF vm1_ok, of 0 1 "0xFEE00003"]
  by (intro apic_page_on) (simp_all add: vm1_l1e apic_vm_def)

lemma apic_init_programs_witness:
  "\<exists>k'. apic_init (kernel_on apic_vm heap_vh) = Some k' \<and> \<not> k_if k' \<and> k_pic k' = (0xFF, 0xFF)
    \<and> k_msr k' 0x1B = k_msr (kernel_on apic_vm heap_vh) 0x1B OR 0x800
    \<and> (\<exists>spiv. apic_log (k_apic k') = [(APIC_SPIVR, spiv), (APIC_TPR, 0x20), (APIC_LVT_ERROR, 200), (APIC_LVT_LINT1, 0x10400),
        (APIC_LVT_LINT0, 201)] @ apic_log (k_apic (kernel_on apic_vm heap_vh)) \<and> spiv AND 0xFF = 203 \<and> spiv AND 0x100 = 0x100)
    \<and> mmu_translate k' = mmu_translate (kernel_on apic_vm heap_vh) \<and> console_ok k'"
  by (rule apic_init_programs [OF apic_vm_mapped kernel_on_console])

text \<open>Without a brand string in the processor the buffer is filled with zeros: the question mark is lost.\<close>

lemma cpu_get_brand_unsupported:
  assumes "get_cpuid_max 0x80000000 k < 0x80000002" "49 \<le> length buf"
  shows "take 49 (cpu_get_brand buf k) = replicate 49 0"
proof -
  have "get_cpuid leaf r k = r" if "leaf \<in> {0x80000002, 0x80000003, 0x80000004}" for leaf r
    using that assms(1) by (auto simp: get_cpuid_def word_less_nat_alt)
  then have "brand_loop 3 2 (0, 0, 0, 0) k = replicate 48 0"
    by (simp add: numeral_3_eq_3 BRAND_LEAF_def le_bytes_def) (simp add: numeral_eq_Suc)
  then show ?thesis using assms(2)
    by (intro nth_equalityI) (auto simp: cpu_get_brand_def nth_append nth_list_update less_Suc_eq)
qed

text \<open>The test for an APIC looks at bit 8 of the feature word (CMPXCHG8B); the APIC is bit 9.\<close>

lemma cpu_has_apic_tests_bit_8:
  assumes "1 \<le> get_cpuid_max 0 k" "k_cpuid k 1 = (a, b, c, d)"
  shows "cpu_has_apic k \<noteq> 0 \<longleftrightarrow> bit d 8"
proof -
  have "get_cpuid 1 (0, 0, 0, 0) k = (a, b, c, d)" using assms by (auto simp: get_cpuid_def Let_def)
  moreover have "(0x100 :: u32) = push_bit 8 1" by simp
  ultimately show ?thesis unfolding cpu_has_apic_def
    by (simp add: bit_iff_and_push_bit_not_eq_0 del: push_bit_of_1)
qed

end
