(* ===== verification/Llist.thy ===== *)
theory Llist
  imports Heap
begin

text \<open>
  The cyclic doubly linked list of \<^verbatim>\<open>includes/awa/ds/llist.h\<close>, over any memory with word loads and
  stores (\<open>ld\<close> and \<open>st\<close>), and the interface of a heap that holds structures of words. The kernel
  heap is an interpretation of it. A header is two words, \<^verbatim>\<open>prev\<close> at offset 0 and \<^verbatim>\<open>next\<close> at offset 4.
\<close>

unbundle bit_operations_syntax

section \<open>llist.h\<close>

definition llist_add :: "(u32 \<Rightarrow> u32 \<Rightarrow> 's \<Rightarrow> 's option) \<Rightarrow> u32 \<Rightarrow> u32 \<Rightarrow> u32 \<Rightarrow> 's \<Rightarrow> 's option" where
  "llist_add st elem prev nxt s = do {
     s \<leftarrow> st nxt elem s;
     s \<leftarrow> st (elem + 4) nxt s;
     s \<leftarrow> st elem prev s;
     st (prev + 4) elem s
   }"

definition llist_init_head :: "(u32 \<Rightarrow> u32 \<Rightarrow> 's \<Rightarrow> 's option) \<Rightarrow> u32 \<Rightarrow> 's \<Rightarrow> 's option" where
  "llist_init_head st head s = do {
     s \<leftarrow> st (head + 4) head s;
     st head head s
   }"

definition llist_append :: "('s \<Rightarrow> u32 \<Rightarrow> u32 option) \<Rightarrow> (u32 \<Rightarrow> u32 \<Rightarrow> 's \<Rightarrow> 's option) \<Rightarrow> u32 \<Rightarrow> u32 \<Rightarrow> 's \<Rightarrow> 's option" where
  "llist_append ld st head elem s = do {
     nxt \<leftarrow> ld s (head + 4);
     llist_add st elem head nxt s
   }"

definition llist_prepend :: "('s \<Rightarrow> u32 \<Rightarrow> u32 option) \<Rightarrow> (u32 \<Rightarrow> u32 \<Rightarrow> 's \<Rightarrow> 's option) \<Rightarrow> u32 \<Rightarrow> u32 \<Rightarrow> 's \<Rightarrow> 's option" where
  "llist_prepend ld st head elem s = do {
     prev \<leftarrow> ld s head;
     llist_add st elem prev head s
   }"

text \<open>\<^verbatim>\<open>elem->next->prev = elem->next\<close>: the successor is made its own predecessor.\<close>

definition llist_delete :: "('s \<Rightarrow> u32 \<Rightarrow> u32 option) \<Rightarrow> (u32 \<Rightarrow> u32 \<Rightarrow> 's \<Rightarrow> 's option) \<Rightarrow> u32 \<Rightarrow> 's \<Rightarrow> 's option" where
  "llist_delete ld st elem s = do {
     prev \<leftarrow> ld s elem;
     nxt \<leftarrow> ld s (elem + 4);
     s \<leftarrow> st (prev + 4) nxt s;
     nxt \<leftarrow> ld s (elem + 4);
     s \<leftarrow> st nxt nxt s;
     s \<leftarrow> st elem elem s;
     st (elem + 4) elem s
   }"

section \<open>Lists in a map of words\<close>

text \<open>\<open>nexts w a xs b\<close>: following \<^verbatim>\<open>next\<close> from \<open>a\<close> visits \<open>xs\<close> and then \<open>b\<close>; \<open>prevs\<close> the same for \<^verbatim>\<open>prev\<close>.\<close>

fun nexts :: "(u32 \<Rightarrow> u32) \<Rightarrow> u32 \<Rightarrow> u32 list \<Rightarrow> u32 \<Rightarrow> bool" where
  "nexts w a [] b \<longleftrightarrow> w (a + 4) = b"
| "nexts w a (x # xs) b \<longleftrightarrow> w (a + 4) = x \<and> nexts w x xs b"

fun prevs :: "(u32 \<Rightarrow> u32) \<Rightarrow> u32 \<Rightarrow> u32 list \<Rightarrow> u32 \<Rightarrow> bool" where
  "prevs w a [] b \<longleftrightarrow> w b = a"
| "prevs w a (x # xs) b \<longleftrightarrow> w x = a \<and> prevs w x xs b"

definition is_list :: "(u32 \<Rightarrow> u32) \<Rightarrow> u32 \<Rightarrow> u32 list \<Rightarrow> bool" where
  "is_list w head xs \<longleftrightarrow> nexts w head xs head \<and> prevs w head xs head"

lemma nexts_append: "nexts w a (xs @ x # ys) b \<longleftrightarrow> nexts w a xs x \<and> nexts w x ys b"
  by (induction xs arbitrary: a) auto

lemma nexts_cong: "(\<And>x. x \<in> insert a (set xs) \<Longrightarrow> w' (x + 4) = w (x + 4)) \<Longrightarrow> nexts w' a xs b = nexts w a xs b"
  by (induction xs arbitrary: a) auto

lemma prevs_cong: "(\<And>x. x \<in> insert b (set xs) \<Longrightarrow> w' x = w x) \<Longrightarrow> prevs w' a xs b = prevs w a xs b"
  by (induction xs arbitrary: a) auto

lemma nexts_last: "nexts w a xs b \<Longrightarrow> w (last (a # xs) + 4) = b"
  by (induction xs arbitrary: a) auto

lemma nexts_set_last:
  assumes "nexts w a xs b" "last (a # xs) + 4 = c" "distinct (a # xs)"
  shows "nexts (w(c := b')) a xs b'"
  using assms
proof (induction xs arbitrary: a)
  case (Cons x xs)
  then have "a \<noteq> last (x # xs)" by (metis distinct.simps(2) last_in_set list.distinct(1))
  then have "a + 4 \<noteq> c" using Cons.prems(2) by auto
  with Cons show ?case by simp
qed simp

section \<open>Heaps of structures\<close>

text \<open>The addresses of the words of the live blocks.\<close>

definition words :: "(nat \<times> nat) set \<Rightarrow> u32 set" where
  "words B = {of_nat (a + f) | a k f. (a, k) \<in> B \<and> 4 dvd f \<and> f + 4 \<le> k}"

lemma words_mono: "A \<subseteq> B \<Longrightarrow> words A \<subseteq> words B"
  by (auto simp: words_def)

locale struct_heap =
  fixes ld :: "'s \<Rightarrow> u32 \<Rightarrow> u32 option"
    and st :: "u32 \<Rightarrow> u32 \<Rightarrow> 's \<Rightarrow> 's option"
    and ld8 :: "'s \<Rightarrow> u32 \<Rightarrow> u8 option"
    and st8 :: "u32 \<Rightarrow> u8 \<Rightarrow> 's \<Rightarrow> 's option"
    and alloc :: "u32 \<Rightarrow> 's \<Rightarrow> (u32 \<times> 's) option"
    and release :: "u32 \<Rightarrow> 's \<Rightarrow> 's option"
    and good :: "u32 \<Rightarrow> bool"
    and rep :: "'s \<Rightarrow> (nat \<times> nat) set \<Rightarrow> (u32 \<Rightarrow> u32) \<Rightarrow> bool"
    and devices :: "'s \<Rightarrow> 'o"
  assumes ld_rep: "rep s B w \<Longrightarrow> a \<in> words B \<Longrightarrow> ld s a = Some (w a)"
    and ld8_rep: "rep s B w \<Longrightarrow> a \<in> words B \<Longrightarrow> ld8 s a = Some (ucast (w a))"
    and st_rep: "rep s B w \<Longrightarrow> a \<in> words B
      \<Longrightarrow> \<exists>s'. st a x s = Some s' \<and> rep s' B (w(a := x)) \<and> devices s' = devices s"
    and st8_rep: "rep s B w \<Longrightarrow> a \<in> words B
      \<Longrightarrow> \<exists>s' x. st8 a v s = Some s' \<and> rep s' B (w(a := x)) \<and> ucast x = v \<and> devices s' = devices s"
    and alloc_rep: "rep s B w \<Longrightarrow> good sz \<Longrightarrow> \<exists>r s' w'. alloc sz s = Some (r, s') \<and> (\<forall>c \<in> words B. w' c = w c)
      \<and> devices s' = devices s \<and> (if r = 0 then rep s' B w'
         else \<exists>k. unat sz \<le> k \<and> (unat r, k) \<notin> B \<and> rep s' (insert (unat r, k) B) w')"
    and release_rep: "rep s B w \<Longrightarrow> (p, k) \<in> B
      \<Longrightarrow> \<exists>s'. release (of_nat p) s = Some s' \<and> rep s' (B - {(p, k)}) w \<and> devices s' = devices s"
    and block_rep: "rep s B w \<Longrightarrow> (p, k) \<in> B \<Longrightarrow> 0 < p \<and> 4 dvd p \<and> p + k < 4294967296"
    and apart_rep: "rep s B w \<Longrightarrow> (p, k) \<in> B \<Longrightarrow> (q, l) \<in> B \<Longrightarrow> (p, k) = (q, l) \<or> p + k \<le> q \<or> q + l \<le> p"
begin

text \<open>An object of \<open>n\<close> bytes: a live block at least that long.\<close>

definition obj :: "(nat \<times> nat) set \<Rightarrow> nat \<Rightarrow> u32 \<Rightarrow> bool" where
  "obj B n x \<longleftrightarrow> (\<exists>k. (unat x, k) \<in> B \<and> n \<le> k)"

lemma obj_word: "obj B n x \<Longrightarrow> 4 dvd f \<Longrightarrow> f + 4 \<le> n \<Longrightarrow> x + of_nat f \<in> words B"
proof -
  assume "obj B n x" "4 dvd f" "f + 4 \<le> n"
  then obtain k where "(unat x, k) \<in> B" "f + 4 \<le> k" by (auto simp: obj_def)
  moreover have "x + of_nat f = of_nat (unat x + f)" by simp
  ultimately show ?thesis using \<open>4 dvd f\<close> unfolding words_def by blast
qed

lemma field_eq:
  assumes "rep s B w" "obj B n x" "obj B i y" "f + 4 \<le> n" "g + 4 \<le> i"
  shows "x + of_nat f = y + of_nat g \<longleftrightarrow> x = y \<and> f = g"
proof
  assume eq: "x + of_nat f = y + of_nat g"
  obtain k l where kl: "(unat x, k) \<in> B" "n \<le> k" "(unat y, l) \<in> B" "i \<le> l" using assms(2,3) by (auto simp: obj_def)
  have lim: "unat x + f < 4294967296" "unat y + g < 4294967296"
    using block_rep [OF assms(1) kl(1)] block_rep [OF assms(1) kl(3)] kl assms(4,5) by auto
  have "unat (x + of_nat f) = unat x + f" "unat (y + of_nat g) = unat y + g"
    using lim by (subst unat_add_u32; simp)+
  then have sum: "unat x + f = unat y + g" using eq by simp
  have "x = y"
  proof (rule ccontr)
    assume "x \<noteq> y"
    then have "(unat x, k) \<noteq> (unat y, l)" by (auto simp: word_unat_eq_iff)
    then have "unat x + k \<le> unat y \<or> unat y + l \<le> unat x" using apart_rep [OF assms(1) kl(1,3)] by blast
    then show False using sum kl assms(4,5) by linarith
  qed
  then show "x = y \<and> f = g" using sum by simp
qed simp

lemma obj_words: "obj B n x \<Longrightarrow> 8 \<le> n \<Longrightarrow> x \<in> words B" "obj B n x \<Longrightarrow> 8 \<le> n \<Longrightarrow> x + 4 \<in> words B"
  using obj_word [of B n x 0] obj_word [of B n x 4] by simp_all

text \<open>What the operations write.\<close>

lemma add_run:
  assumes "rep s B w" "nxt \<in> words B" "elem \<in> words B" "elem + 4 \<in> words B" "prev + 4 \<in> words B"
  obtains s' where "llist_add st elem prev nxt s = Some s'" "devices s' = devices s"
    "rep s' B (w(nxt := elem, elem + 4 := nxt, elem := prev, prev + 4 := elem))"
proof -
  let ?w1 = "w(nxt := elem)" and ?w2 = "w(nxt := elem, elem + 4 := nxt)" and ?w3 = "w(nxt := elem, elem + 4 := nxt, elem := prev)"
  obtain s1 where 1: "st nxt elem s = Some s1" "rep s1 B ?w1" "devices s1 = devices s" using st_rep [OF assms(1,2)] by blast
  obtain s2 where 2: "st (elem + 4) nxt s1 = Some s2" "rep s2 B ?w2" "devices s2 = devices s1" using st_rep [OF 1(2) assms(4)] by blast
  obtain s3 where 3: "st elem prev s2 = Some s3" "rep s3 B ?w3" "devices s3 = devices s2" using st_rep [OF 2(2) assms(3)] by blast
  obtain s4 where 4: "st (prev + 4) elem s3 = Some s4" "rep s4 B (?w3(prev + 4 := elem))" "devices s4 = devices s3"
    using st_rep [OF 3(2) assms(5)] by blast
  show ?thesis using that [of s4] 1 2 3 4 by (simp add: llist_add_def)
qed

lemma delete_run:
  assumes "rep s B w" "elem \<in> words B" "elem + 4 \<in> words B" "w elem + 4 \<in> words B" "w (elem + 4) \<in> words B"
  obtains s' where "llist_delete ld st elem s = Some s'" "devices s' = devices s"
    "rep s' B (w(w elem + 4 := w (elem + 4), w (elem + 4) := w (elem + 4), elem := elem, elem + 4 := elem))"
proof -
  let ?n = "w (elem + 4)"
  let ?w1 = "w(w elem + 4 := ?n)" and ?w2 = "w(w elem + 4 := ?n, ?n := ?n)" and ?w3 = "w(w elem + 4 := ?n, ?n := ?n, elem := elem)"
  obtain s1 where 1: "st (w elem + 4) ?n s = Some s1" "rep s1 B ?w1" "devices s1 = devices s" using st_rep [OF assms(1,4)] by blast
  obtain s2 where 2: "st ?n ?n s1 = Some s2" "rep s2 B ?w2" "devices s2 = devices s1" using st_rep [OF 1(2) assms(5)] by blast
  obtain s3 where 3: "st elem elem s2 = Some s3" "rep s3 B ?w3" "devices s3 = devices s2" using st_rep [OF 2(2) assms(2)] by blast
  obtain s4 where 4: "st (elem + 4) elem s3 = Some s4" "rep s4 B (?w3(elem + 4 := elem))" "devices s4 = devices s3"
    using st_rep [OF 3(2) assms(3)] by blast
  have "ld s1 (elem + 4) = Some ?n" using ld_rep [OF 1(2) assms(3)] by simp
  then show ?thesis
    using that [of s4] 1 2 3 4 ld_rep [OF assms(1,2)] ld_rep [OF assms(1,3)] by (simp add: llist_delete_def)
qed

text \<open>A list threaded through objects of \<open>n\<close> bytes. Only the forward links are kept by every operation.\<close>

definition list_of :: "(nat \<times> nat) set \<Rightarrow> (u32 \<Rightarrow> u32) \<Rightarrow> nat \<Rightarrow> u32 \<Rightarrow> u32 list \<Rightarrow> bool" where
  "list_of B w n head xs \<longleftrightarrow> 8 \<le> n \<and> distinct (head # xs) \<and> (\<forall>x \<in> insert head (set xs). obj B n x) \<and> nexts w head xs head"

lemma list_ofD:
  assumes "list_of B w n head xs"
  shows "8 \<le> n" "distinct (head # xs)" "x \<in> insert head (set xs) \<Longrightarrow> obj B n x" "nexts w head xs head"
  using assms by (auto simp: list_of_def)

lemma header_eq:
  assumes "rep s B w" "obj B n x" "obj B n y" "8 \<le> n"
  shows "x + 4 = y + 4 \<longleftrightarrow> x = y" "x + 4 \<noteq> y" "y \<noteq> x + 4"
  using field_eq [OF assms(1-3), of 4 4] field_eq [OF assms(1-3), of 4 0] assms(4) by auto

lemma field_apart:
  assumes "rep s B w" "obj B n x" "obj B n y" "8 \<le> f" "f + 4 \<le> n"
  shows "x + of_nat f \<noteq> y" "x + of_nat f \<noteq> y + 4"
  using field_eq [OF assms(1-3,5), of 0] field_eq [OF assms(1-3,5), of 4] assms(4,5) by auto

text \<open>Storing to a field behind the header keeps the list.\<close>

lemma list_of_field:
  assumes "rep s B w" "list_of B w n head xs" "obj B n x" "8 \<le> f" "f + 4 \<le> n"
  shows "list_of B (w(x + of_nat f := v)) n head xs"
proof -
  note L = list_ofD [OF assms(2)]
  have "nexts (w(x + of_nat f := v)) head xs head = nexts w head xs head"
  proof (rule nexts_cong)
    fix z
    assume "z \<in> insert head (set xs)"
    then have "x + of_nat f \<noteq> z + 4" using field_apart(2) [OF assms(1,3) L(3) assms(4,5)] by blast
    then show "(w(x + of_nat f := v)) (z + 4) = w (z + 4)" by (metis fun_upd_other)
  qed
  then show ?thesis using assms(2) by (simp add: list_of_def)
qed

lemma obj_shrink: "obj B n z \<Longrightarrow> z \<noteq> x \<Longrightarrow> obj (B - {(unat x, k)}) n z"
  by (auto simp: obj_def word_unat_eq_iff)

lemma list_of_shrink:
  assumes "list_of B w n head xs" "x \<notin> insert head (set xs)"
  shows "list_of (B - {(unat x, k)}) w n head xs"
  using assms obj_shrink [of B n _ x k] by (auto simp: list_of_def)

text \<open>\<^verbatim>\<open>llist_append\<close> inserts right behind the head.\<close>

lemma append_list:
  assumes "rep s B w" "list_of B w n head xs" "obj B n elem" "elem \<notin> insert head (set xs)"
  obtains s' where "llist_append ld st head elem s = Some s'" "devices s' = devices s"
    "rep s' B (w(w (head + 4) := elem, elem + 4 := w (head + 4), elem := head, head + 4 := elem))"
    "list_of B (w(w (head + 4) := elem, elem + 4 := w (head + 4), elem := head, head + 4 := elem)) n head (elem # xs)"
proof -
  note L = list_ofD [OF assms(2)]
  let ?nxt = "w (head + 4)"
  have nin: "?nxt \<in> insert head (set xs)" using L(4) by (cases xs) auto
  obtain s' where s': "llist_add st elem head ?nxt s = Some s'" "devices s' = devices s"
    "rep s' B (w(?nxt := elem, elem + 4 := ?nxt, elem := head, head + 4 := elem))"
    using add_run [OF assms(1) obj_words(1) [OF L(3) [OF nin] L(1)] obj_words [OF assms(3) L(1)] obj_words(2) [OF L(3) L(1)]]
    by auto
  let ?w = "w(?nxt := elem, elem + 4 := ?nxt, elem := head, head + 4 := elem)"
  have o: "obj B n x" if "x \<in> insert elem (insert head (set xs))" for x using that L(3) assms(3) by auto
  note eq = header_eq [OF assms(1) o o L(1)]
  have eq4: "?w (x + 4) = w (x + 4)" if "x \<in> set xs" for x
    using that nin eq [of x elem] eq [of x head] eq [of x ?nxt] assms(4) L(2) by auto
  have first: "?w (elem + 4) = ?nxt" "?w (head + 4) = elem"
    using eq [of elem head] eq [of elem elem] assms(4) by auto
  have "nexts ?w elem xs head"
  proof (cases xs)
    case Nil
    then show ?thesis using first(1) L(4) by simp
  next
    case (Cons y ys)
    then have "nexts ?w y ys head = nexts w y ys head" by (intro nexts_cong eq4) auto
    then show ?thesis using first(1) L(4) Cons assms(4) by simp
  qed
  then have "list_of B ?w n head (elem # xs)"
    using first(2) L(1,2) assms(4) o by (auto simp: list_of_def)
  moreover have "ld s (head + 4) = Some ?nxt" using ld_rep [OF assms(1) obj_words(2) [OF L(3) L(1)]] by simp
  ultimately show ?thesis using that [of s'] s' by (simp add: llist_append_def)
qed

text \<open>\<^verbatim>\<open>llist_delete\<close> takes an element out when its \<^verbatim>\<open>prev\<close> is its predecessor.\<close>

lemma delete_list:
  assumes "rep s B w" "list_of B w n head (xs @ x # ys)" "w x = last (head # xs)"
    and "y = hd (ys @ [head])" "w' = w(w x + 4 := y, y := y, x := x, x + 4 := x)"
  obtains s' where "llist_delete ld st x s = Some s'" "devices s' = devices s" "rep s' B w'" "list_of B w' n head (xs @ ys)"
proof -
  note L = list_ofD [OF assms(2)]
  have parts: "nexts w head xs x" "nexts w x ys head" using L(4) by (simp_all add: nexts_append)
  have next_y: "w (x + 4) = y" using parts(2) assms(4) by (cases ys) auto
  have ins: "w x \<in> insert head (set xs)" "y \<in> insert head (set ys)"
    using assms(3,4) by (cases xs; cases ys; simp)+
  have o: "obj B n z" if "z \<in> insert head (set xs \<union> set ys \<union> {x})" for z using that L(3) [of z] by auto
  note eq = header_eq [OF assms(1) o o L(1)]
  have at: "x \<in> words B" "x + 4 \<in> words B" "w x + 4 \<in> words B" "w (x + 4) \<in> words B"
    using obj_words [OF o [of x] L(1)] obj_words(2) [OF o [of "w x"] L(1)] obj_words(1) [OF o [of y] L(1)] ins next_y by auto
  obtain s' where s': "llist_delete ld st x s = Some s'" "devices s' = devices s" "rep s' B w'"
    using delete_run [OF assms(1) at] next_y assms(5) by auto
  have w4: "w' (z + 4) = (if z = x then x else if z = w x then y else w (z + 4))"
    if "z \<in> insert head (set xs \<union> set ys \<union> {x})" for z
    using that ins eq [of z x] eq [of z y] eq [of z "w x"] unfolding assms(5) by auto
  have "nexts w' head xs y"
  proof -
    let ?u = "w(w x + 4 := y)"
    have "nexts ?u head xs y" by (rule nexts_set_last [OF parts(1)]) (use assms(3) L(2) in auto)
    moreover have "nexts w' head xs y = nexts ?u head xs y"
    proof (rule nexts_cong)
      fix z
      assume "z \<in> insert head (set xs)"
      then show "w' (z + 4) = ?u (z + 4)" using w4 [of z] eq [of z "w x"] ins L(2) by auto
    qed
    ultimately show ?thesis by simp
  qed
  moreover have "nexts w' y zs head" if "ys = y # zs" for zs
  proof -
    have "nexts w' y zs head = nexts w y zs head"
    proof (rule nexts_cong)
      fix z
      assume "z \<in> insert y (set zs)"
      then show "w' (z + 4) = w (z + 4)" using w4 [of z] ins that L(2) by auto
    qed
    then show ?thesis using parts(2) that by simp
  qed
  ultimately have "nexts w' head (xs @ ys) head" using assms(4) by (cases ys) (auto simp: nexts_append)
  then have "list_of B w' n head (xs @ ys)" using L(1,2) o by (auto simp: list_of_def)
  with s' show ?thesis using that by blast
qed

end

end
