(* ===== verification/KHeap.thy ===== *)
theory KHeap
  imports Apic Llist
begin

text \<open>
  The kernel heap as the store of the kernel's structures: \<^verbatim>\<open>lxmalloc\<close> and \<^verbatim>\<open>lxfree\<close> on the kernel state,
  and the proof that together with loads and stores they provide the interface \<open>struct_heap\<close>.
\<close>

unbundle bit_operations_syntax

section \<open>The memory of a kernel state\<close>

text \<open>The allocator sees the machine and its own context; the devices and tables are out of its reach.\<close>

definition machine :: "kernel \<Rightarrow> vm" where
  "machine k = vm.truncate k"

definition with_machine :: "vm \<Rightarrow> kernel \<Rightarrow> kernel" where
  "with_machine s k = vm.extend s (vm.more k)"

definition kmalloc :: "u32 \<Rightarrow> kernel \<Rightarrow> (u32 \<times> kernel) option" where
  "kmalloc sz k = do {
     (p, heap, s) \<leftarrow> lxmalloc sz (k_heap k) (machine k);
     Some (p, (with_machine s k)\<lparr>k_heap := heap\<rparr>)
   }"

definition kfree :: "u32 \<Rightarrow> kernel \<Rightarrow> kernel option" where
  "kfree p k = do {
     s \<leftarrow> lxfree p (machine k);
     Some (with_machine s k)
   }"

text \<open>Everything but the memory and the heap's own variables.\<close>

definition devices :: "kernel \<Rightarrow> kernel" where
  "devices k = k\<lparr>k_heap := \<lparr>hp_start = 0, hp_brk = 0, hp_max_addr = 0\<rparr>, phys := (\<lambda>_. 0), cr3 := 0, invlpg_log := [],
     pm_bitmap := (\<lambda>_. 0), max_pg := 0, pg_lookup_ptr := 0\<rparr>"

lemma machine_simps [simp]:
  "machine (with_machine s k) = s" "k_heap (with_machine s k) = k_heap k" "machine (k\<lparr>k_heap := h\<rparr>) = machine k"
  "devices (with_machine s k) = devices k" "devices (k\<lparr>k_heap := h\<rparr>) = devices k"
  by (cases k; cases s; simp add: machine_def with_machine_def devices_def vm.defs pmm.defs)+

lemma machine_other [simp]:
  "machine (k\<lparr>k_tty := x1\<rparr>) = machine k" "machine (k\<lparr>k_cmos := x2\<rparr>) = machine k" "machine (k\<lparr>k_apic := x3\<rparr>) = machine k"
  "machine (k\<lparr>timer_ctx := x4\<rparr>) = machine k" "machine (k\<lparr>rtc_counter := x5\<rparr>) = machine k"
  "machine (k\<lparr>apic_timer_done := x6\<rparr>) = machine k" "machine (k\<lparr>subscribers := x7\<rparr>) = machine k" "machine (k\<lparr>k_if := x8\<rparr>) = machine k"
  by (cases k; simp add: machine_def vm.defs)+

lemma devicesD:
  assumes "devices j = devices k"
  shows "timer_ctx j = timer_ctx k" "k_tty j = k_tty k" "k_cmos j = k_cmos k" "k_apic j = k_apic k" "subscribers j = subscribers k"
    "k_if j = k_if k" "rtc_counter j = rtc_counter k" "apic_timer_done j = apic_timer_done k"
  using assms by (cases j; cases k; simp add: devices_def machine_def vm.defs)+

lemma translate_machine: "mmu_translate k = mmu_translate (machine k)"
  by (rule mmu_translate_cong) (cases k; simp add: machine_def vm.defs)+

lemma phys_machine: "phys k = phys (machine k)"
  by (cases k) (simp add: machine_def vm.defs)

lemma load_machine: "vload32 k a = vload32 (machine k) a" "vload8 k a = vload8 (machine k) a"
  by (simp_all only: vload32_def vload8_def translate_machine [of k] phys_machine [of k])

lemma with_phys: "k\<lparr>phys := b\<rparr> = with_machine ((machine k)\<lparr>phys := b\<rparr>) k"
  by (cases k) (simp add: machine_def with_machine_def vm.defs)

lemma store_machine:
  "vstore32 a v k = map_option (\<lambda>s. with_machine s k) (vstore32 a v (machine k))"
  "vstore8 a x k = map_option (\<lambda>s. with_machine s k) (vstore8 a x (machine k))"
  unfolding vstore32_def vstore8_def translate_machine [of k] phys_machine [of k] with_phys [of _ k]
  by (auto split: Option.bind_split)

section \<open>The heap interface\<close>

definition kernel_rep :: "kernel \<Rightarrow> (nat \<times> nat) set \<Rightarrow> (u32 \<Rightarrow> u32) \<Rightarrow> bool" where
  "kernel_rep k B w \<longleftrightarrow> (\<exists>v n m cs. heap_inv (k_heap k) v n m cs (machine k) \<and> B = heap_blocks (k_heap k) cs
     \<and> (\<forall>a \<in> words B. w a = load32 m a))"

lemma kernel_repI:
  "heap_inv (k_heap k) v n m cs (machine k) \<Longrightarrow> B = heap_blocks (k_heap k) cs \<Longrightarrow> (\<And>a. a \<in> words B \<Longrightarrow> w a = load32 m a)
    \<Longrightarrow> kernel_rep k B w"
  unfolding kernel_rep_def by blast

lemma load32_low_byte: "ucast (load32 m a) = m a"
  by (rule bit_word_eqI) (auto simp: load32_def bit_simps)

lemma words_aligned_apart:
  assumes "4 dvd a" "4 dvd b" "a < 4294967296" "b < 4294967296" "a \<noteq> b"
  shows "words_apart (of_nat a) (of_nat b)"
proof -
  have "4 dvd 4294967296 - a" "4 dvd 4294967296 - b" using assms by (auto intro: dvd_diff_nat)
  then have top: "a \<le> 4294967292" "b \<le> 4294967292" using assms(3,4) by (auto dest!: dvd_imp_le)
  have "a + 4 \<le> b \<or> b + 4 \<le> a" using assms(1,2,5) by (auto simp: dvd_def)
  then show ?thesis
    using words_apart_unat [of "of_nat a" "of_nat b"] words_apart_unat [of "of_nat b" "of_nat a"] top by auto
qed

lemma block_aligned:
  assumes "heap_inv heap v n m cs s" "(a, k) \<in> heap_blocks heap cs"
  shows "4 dvd a"
proof -
  note I = heap_invD [OF assms(1)]
  obtain xs c ys where cs: "cs = xs @ (c, True) # ys" "a = unat (hp_start heap) + extent xs + 4"
    using block_split [OF assms(2) I(7)] by blast
  have "4 dvd extent xs" using I(7) cs(1) seg_extent_dvd [of m _ False xs] by auto
  then show ?thesis using cs(2) I(3) by (simp add: fits_def)
qed

lemma word_in_block:
  assumes "heap_inv heap v n m cs s" "c \<in> words (heap_blocks heap cs)"
  obtains a k f where "c = of_nat (a + f)" "(a, k) \<in> heap_blocks heap cs" "f + 4 \<le> k" "4 dvd (a + f)"
    "a + f < 4294967296" "at v n (a + f)"
proof -
  obtain a k f where f: "c = of_nat (a + f)" "(a, k) \<in> heap_blocks heap cs" "4 dvd f" "f + 4 \<le> k"
    using assms(2) by (auto simp: words_def)
  have "4 dvd a + f" using block_aligned [OF assms(1) f(2)] f(3) by simp
  moreover note block_in_pages [OF assms(1) f(2)]
  ultimately show ?thesis using that [OF f(1,2,4)] f(4) by (simp add: at_def)
qed

lemma kernel_load:
  assumes "kernel_rep k B w" "a \<in> words B"
  shows "vload32 k a = Some (w a)" "vload8 k a = Some (ucast (w a))"
proof -
  obtain v n m cs where inv: "heap_inv (k_heap k) v n m cs (machine k)" and B: "B = heap_blocks (k_heap k) cs"
    and w: "\<forall>a \<in> words B. w a = load32 m a" using assms(1) unfolding kernel_rep_def by blast
  note I = heap_invD [OF inv]
  obtain p where p: "a = of_nat p" "at v n p" using word_in_block [OF inv] assms(2) B by metis
  note at = at_addr [OF I(1) p(2)]
  show "vload32 k a = Some (w a)" using heap_load32 [OF I(1) at(1,2)] w assms(2) p(1) by (simp add: load_machine)
  show "vload8 k a = Some (ucast (w a))"
    using heap_load8 [OF I(1) at(1)] w assms(2) p(1) by (simp add: load_machine load32_low_byte)
qed

text \<open>A write inside one word of a block, by bytes of \<open>m\<close>.\<close>

lemma kernel_write:
  assumes "kernel_rep k B w" "a \<in> words B"
    and step: "\<And>v n m. heap_st v n m (machine k) \<Longrightarrow> in_pages v n a \<Longrightarrow> aligned4 a
      \<Longrightarrow> \<exists>s m'. run = Some s \<and> heap_st v n m' s \<and> load32 m' a = x m \<and> (\<forall>b. (\<forall>i < 4. b \<noteq> a + of_nat i) \<longrightarrow> m' b = m b)"
    and val: "\<And>m. load32 m a = w a \<Longrightarrow> x m = y"
  shows "\<exists>s. run = Some s \<and> kernel_rep (with_machine s k) B (w(a := y))"
proof -
  obtain v n m cs where inv: "heap_inv (k_heap k) v n m cs (machine k)" and B: "B = heap_blocks (k_heap k) cs"
    and w: "\<forall>a \<in> words B. w a = load32 m a" using assms(1) unfolding kernel_rep_def by blast
  note I = heap_invD [OF inv]
  obtain q l f where p: "a = of_nat (q + f)" "(q, l) \<in> heap_blocks (k_heap k) cs" "f + 4 \<le> l" "4 dvd q + f"
    "q + f < 4294967296" "at v n (q + f)" using word_in_block [OF inv] assms(2) B by metis
  have lim: "q + l < 4294967296" by (rule block_in_pages(3) [OF inv p(2)])
  note at = at_addr [OF I(1) p(6), folded p(1)]
  obtain s m' where s: "run = Some s" "heap_st v n m' s" "load32 m' a = x m" "\<forall>b. (\<forall>i < 4. b \<noteq> a + of_nat i) \<longrightarrow> m' b = m b"
    using step [OF I(1) at(1,2)] by blast
  have same: "m' (of_nat b) = m (of_nat b)" if b: "b < 4294967296" "b < q + f \<or> q + f + 4 \<le> b" for b
  proof -
    have "(of_nat b :: u32) \<noteq> a + of_nat i" if "i < 4" for i
    proof -
      have "a + of_nat i = (of_nat (q + f + i) :: u32)" using p(1) by simp
      moreover have "b \<noteq> q + f + i" "q + f + i < 4294967296" using b(2) that p(3) lim by auto
      ultimately show ?thesis using of_nat_inject_u32 [OF b(1), of "q + f + i"] by (simp del: of_nat_add)
    qed
    then show ?thesis using s(4) by blast
  qed
  have "heap_inv (k_heap k) v n m' cs s"
    by (rule client_write [OF inv p(2) s(2)]) (use same p(3) in auto)
  moreover have "(w(a := y)) c = load32 m' c" if c: "c \<in> words B" for c
  proof (cases "c = a")
    case True
    then show ?thesis using s(3) val [of m] w assms(2) by simp
  next
    case False
    obtain r where r: "c = of_nat r" "4 dvd r" "r < 4294967296" using word_in_block [OF inv] c B by metis
    moreover have "r \<noteq> q + f" using False r(1) p(1) by blast
    ultimately have "words_apart c a" unfolding p(1) r(1) by (intro words_aligned_apart p(4,5))
    then have "m' (c + of_nat j) = m (c + of_nat j)" if "j < 4" for j
      using s(4) that by (auto simp: words_apart_def)
    from this [of 0] this [of 1] this [of 2] this [of 3] show ?thesis using w c False by (simp add: load32_def)
  qed
  ultimately show ?thesis using s(1) B unfolding kernel_rep_def by auto
qed

lemma kernel_store:
  assumes "kernel_rep k B w" "a \<in> words B"
  shows "\<exists>k'. vstore32 a x k = Some k' \<and> kernel_rep k' B (w(a := x)) \<and> devices k' = devices k"
proof -
  have "\<exists>s. vstore32 a x (machine k) = Some s \<and> kernel_rep (with_machine s k) B (w(a := x))"
  proof (rule kernel_write [OF assms, where x = "\<lambda>_. x"])
    fix v n m
    assume "heap_st v n m (machine k)" "in_pages v n a" "aligned4 a"
    then obtain b where "vstore32 a x (machine k) = Some ((machine k)\<lparr>phys := b\<rparr>)"
      "heap_st v n (store32 m a x) ((machine k)\<lparr>phys := b\<rparr>)" by (rule heap_store32)
    moreover have "store32 m a x b = m b" if "\<forall>i < 4. b \<noteq> a + of_nat i" for b
      using that by (intro store32_apart) (metis (no_types))
    ultimately show "\<exists>s m'. vstore32 a x (machine k) = Some s \<and> heap_st v n m' s \<and> load32 m' a = x
        \<and> (\<forall>b. (\<forall>i < 4. b \<noteq> a + of_nat i) \<longrightarrow> m' b = m b)" by auto
  qed simp
  then show ?thesis by (auto simp: store_machine)
qed

text \<open>A store to a heap block does not change the page tables.\<close>

lemma kernel_store_translate:
  assumes "kernel_rep k B w" "a \<in> words B" "vstore32 a x k = Some k'" "L1_INDEX b < 1023"
  shows "mmu_translate k' b = mmu_translate k b"
proof -
  obtain v n m cs where inv: "heap_inv (k_heap k) v n m cs (machine k)" and B: "B = heap_blocks (k_heap k) cs"
    using assms(1) unfolding kernel_rep_def by blast
  note I = heap_invD [OF inv]
  obtain p where p: "a = of_nat p" "at v n p" using word_in_block [OF inv] assms(2) B by metis
  note at = at_addr [OF I(1) p(2), folded p(1)]
  obtain c where c: "vstore32 a x (machine k) = Some ((machine k)\<lparr>phys := c\<rparr>)"
    "heap_st v n (store32 m a x) ((machine k)\<lparr>phys := c\<rparr>)" "pagemap ((machine k)\<lparr>phys := c\<rparr>) = pagemap (machine k)"
    by (rule heap_store32_pagemap [OF I(1) at(1,2)])
  have "vm_ok (machine k)" "vm_ok ((machine k)\<lparr>phys := c\<rparr>)" using I(1) c(2) by (simp_all add: heap_st_def)
  then have "mmu_translate ((machine k)\<lparr>phys := c\<rparr>) b = mmu_translate (machine k) b"
    using c(3) assms(4) by (simp add: mmu_translate_pagemap)
  moreover have "machine k' = (machine k)\<lparr>phys := c\<rparr>" using assms(3) c(1) by (auto simp: store_machine)
  ultimately show ?thesis using translate_machine [of k] translate_machine [of k'] by simp
qed

lemma kernel_store8:
  assumes "kernel_rep k B w" "a \<in> words B"
  shows "\<exists>k' y. vstore8 a x k = Some k' \<and> kernel_rep k' B (w(a := y)) \<and> ucast y = x \<and> devices k' = devices k"
proof -
  let ?y = "(w a AND NOT (mask 8)) OR ucast x"
  have "\<exists>s. vstore8 a x (machine k) = Some s \<and> kernel_rep (with_machine s k) B (w(a := ?y))"
  proof (rule kernel_write [OF assms, where x = "\<lambda>m. (load32 m a AND NOT (mask 8)) OR ucast x"])
    fix v n m
    assume "heap_st v n m (machine k)" "in_pages v n a" "aligned4 a"
    then obtain b where "vstore8 a x (machine k) = Some ((machine k)\<lparr>phys := b\<rparr>)"
      "heap_st v n (m(a := x)) ((machine k)\<lparr>phys := b\<rparr>)" by (blast elim: heap_store8)
    moreover have "load32 (m(a := x)) a = (load32 m a AND NOT (mask 8)) OR ucast x"
      by (rule bit_word_eqI) (auto simp: load32_def bit_simps dest: bit_imp_le_length)
    moreover have "(m(a := x)) b = m b" if "\<forall>i < 4. b \<noteq> a + of_nat i" for b
      using that [rule_format, of 0] by simp
    ultimately show "\<exists>s m'. vstore8 a x (machine k) = Some s \<and> heap_st v n m' s \<and> load32 m' a = (load32 m a AND NOT (mask 8)) OR ucast x
        \<and> (\<forall>b. (\<forall>i < 4. b \<noteq> a + of_nat i) \<longrightarrow> m' b = m b)" by blast
  qed simp
  moreover have "ucast ?y = x"
    by (rule bit_word_eqI) (auto simp: bit_simps dest: bit_imp_le_length)
  ultimately show ?thesis by (auto simp: store_machine)
qed

lemma words_kept:
  assumes "heap_inv heap v n m cs s" "same_blocks (heap_blocks heap cs \<inter> B) m m'" "c \<in> words (heap_blocks heap cs \<inter> B)"
  shows "load32 m' c = load32 m c"
proof -
  obtain a k f where c: "c = of_nat (a + f)" "(a, k) \<in> heap_blocks heap cs \<inter> B" "f + 4 \<le> k"
    using assms(3) by (auto simp: words_def)
  have "m' (c + of_nat j) = m (c + of_nat j)" if "j < 4" for j
  proof -
    have "a + f + j \<in> {a ..< a + k}" using that c(3) by simp
    then have "m' (of_nat (a + f + j)) = m (of_nat (a + f + j))"
      using assms(2) c(2) unfolding same_blocks_def by blast
    then show ?thesis using c(1) by simp
  qed
  from this [of 0] this [of 1] this [of 2] this [of 3] show ?thesis by (simp add: load32_def)
qed

lemma kernel_malloc:
  assumes "kernel_rep k B w" "servable sz"
  shows "\<exists>p k' w'. kmalloc sz k = Some (p, k') \<and> (\<forall>c \<in> words B. w' c = w c) \<and> devices k' = devices k
    \<and> (if p = 0 then kernel_rep k' B w' else \<exists>l. unat sz \<le> l \<and> (unat p, l) \<notin> B \<and> kernel_rep k' (insert (unat p, l) B) w')"
proof -
  obtain v n m cs where inv: "heap_inv (k_heap k) v n m cs (machine k)" and B: "B = heap_blocks (k_heap k) cs"
    and w: "\<forall>a \<in> words B. w a = load32 m a" using assms(1) unfolding kernel_rep_def by blast
  have sz: "sz \<noteq> 0" "unat sz \<le> 0xFFFFFFF0" using assms(2) by (simp_all add: servable_def)
  show ?thesis
  proof (cases rule: malloc_spec [OF inv sz, case_names oom block])
    case (oom s')
    have "kernel_rep ((with_machine s' k)\<lparr>k_heap := k_heap k\<rparr>) B w"
      by (rule kernel_repI [of _ v n m cs]) (use oom(2) B w in simp_all)
    then show ?thesis using oom(1) by (simp add: kmalloc_def lxmalloc_def) blast
  next
    case (block p heap' s' n' m' cs')
    let ?l = "block_size sz - 4"
    have g: "p \<noteq> 0" "heap_blocks heap' cs' = insert (unat p, ?l) B" "(unat p, ?l) \<notin> B" "same_blocks B m m'"
      using block(3) by (simp_all add: granted_def B)
    have "\<forall>c \<in> words B. load32 m' c = w c"
      using words_kept [OF inv, of B m'] g(4) w B by simp
    moreover have "kernel_rep ((with_machine s' k)\<lparr>k_heap := heap'\<rparr>) (insert (unat p, ?l) B) (load32 m')"
      by (rule kernel_repI [of _ v n' m' cs']) (use block(2) g(2) in simp_all)
    moreover have "unat sz \<le> ?l" using block_size(3) [OF sz(2)] by simp
    ultimately show ?thesis using block(1) g(1,3)
      by (intro exI [of _ p] exI [of _ "(with_machine s' k)\<lparr>k_heap := heap'\<rparr>"] exI [of _ "load32 m'"])
        (auto simp: kmalloc_def lxmalloc_def)
  qed
qed

lemma kernel_free:
  assumes "kernel_rep k B w" "(p, l) \<in> B"
  shows "\<exists>k'. kfree (of_nat p) k = Some k' \<and> kernel_rep k' (B - {(p, l)}) w \<and> devices k' = devices k"
proof -
  obtain v n m cs where inv: "heap_inv (k_heap k) v n m cs (machine k)" and B: "B = heap_blocks (k_heap k) cs"
    and w: "\<forall>a \<in> words B. w a = load32 m a" using assms(1) unfolding kernel_rep_def by blast
  obtain s' m' cs' where f: "lxfree (of_nat p) (machine k) = Some s'" "heap_inv (k_heap k) v n m' cs' s'"
    "heap_blocks (k_heap k) cs' = B - {(p, l)}" "same_blocks (heap_blocks (k_heap k) cs') m m'"
    using free_block [OF inv assms(2) [unfolded B]] B by metis
  have sub: "B \<inter> (B - {(p, l)}) = B - {(p, l)}" by blast
  have "load32 m' c = w c" if c: "c \<in> words (B - {(p, l)})" for c
  proof -
    have "load32 m' c = load32 m c"
      by (rule words_kept [OF inv, where B = "B - {(p, l)}"]) (use c f(3,4) B sub in simp_all)
    then show ?thesis using w words_mono [of "B - {(p, l)}" B] c by auto
  qed
  then have "kernel_rep (with_machine s' k) (B - {(p, l)}) w"
    by (intro kernel_repI [of _ v n m' cs']) (use f(2,3) in simp_all)
  then show ?thesis using f(1) by (simp add: kfree_def)
qed

interpretation khs: struct_heap vload32 vstore32 vload8 vstore8 kmalloc kfree servable kernel_rep devices
proof unfold_locales
  fix k :: kernel and B w
  assume rep: "kernel_rep k B w"
  then obtain v n m cs where inv: "heap_inv (k_heap k) v n m cs (machine k)" and B: "B = heap_blocks (k_heap k) cs"
    unfolding kernel_rep_def by blast
  note I = heap_invD [OF inv]
  show "0 < p \<and> 4 dvd p \<and> p + l < 4294967296" if "(p, l) \<in> B" for p l
    using block_aligned [OF inv] block_in_pages(3) [OF inv] blocks_range [OF I(7)] that B by fastforce
  show "(p, l) = (q, i) \<or> p + l \<le> q \<or> q + i \<le> p" if "(p, l) \<in> B" "(q, i) \<in> B" for p l q i
    by (rule blocks_disjoint [OF I(7)]) (use that B in simp_all)
qed (use kernel_load kernel_store kernel_store8 kernel_malloc kernel_free in \<open>simp_all\<close>)

lemma rep_fields [simp]:
  "kernel_rep (k\<lparr>k_tty := t, k_cmos := c\<rparr>) B w = kernel_rep k B w"
  "kernel_rep (k\<lparr>timer_ctx := p\<rparr>) B w = kernel_rep k B w"
  "kernel_rep (k\<lparr>k_apic := a\<rparr>) B w = kernel_rep k B w"
  by (simp_all add: kernel_rep_def)

text \<open>A kernel on the machine of theory Heap, where blocks are live.\<close>

lemma kernel_on_rep: "\<exists>w. kernel_rep (kernel_on vh heap_vh) {(0x3004, 0), (0x3008, 12)} w"
proof -
  have "machine (kernel_on vh heap_vh) = vh" by (simp add: machine_def kernel_on_def vm.defs)
  then show ?thesis
    using vh_inv vh_blocks by (intro exI [of _ "load32 mem_vh"] kernel_repI [of _ 3 2 mem_vh chunks_vh]) simp_all
qed

end
