(* ===== verification/Interrupts.thy ===== *)
theory Interrupts
  imports Apic Gdt
begin

text \<open>
  Interrupt dispatch and the handlers of the kernel: \<^verbatim>\<open>kernel/asm/x86/interrupts.c\<close> and
  \<^verbatim>\<open>kernel/asm/x86/intr_routines.c\<close>. A handler returns to \<^verbatim>\<open>intr_handler\<close> or spins for ever; calling
  a data pointer executes data, which is \<open>None\<close>.
\<close>

unbundle bit_operations_syntax

section \<open>State\<close>

record gp_regs =
  eax :: u32
  ebx :: u32
  ecx :: u32
  edx :: u32
  edi :: u32
  ebp :: u32
  esi :: u32
  gp_esp :: u32

record isr_param =
  registers :: gp_regs
  vector :: u32
  err_code :: u32
  eip :: u32
  cs :: u32
  eflags :: u32
  esp :: u32
  ss :: u32

datatype outcome = Return kernel | Spin kernel

section \<open>interrupts.c\<close>

definition intr_subscribe :: "u8 \<Rightarrow> code \<Rightarrow> kernel \<Rightarrow> kernel" where
  "intr_subscribe v subscriber k = k\<lparr>subscribers := (subscribers k)(v := Some subscriber)\<rparr>"

definition intr_unsubscribe :: "u8 \<Rightarrow> code \<Rightarrow> kernel \<Rightarrow> kernel" where
  "intr_unsubscribe v subscriber k =
    (if subscribers k v = Some subscriber then k\<lparr>subscribers := (subscribers k)(v := None)\<rparr> else k)"

definition intr_set_fallback_handler :: "code option \<Rightarrow> kernel \<Rightarrow> kernel" where
  "intr_set_fallback_handler f k = k\<lparr>fallback := f\<rparr>"

text \<open>\<open>call\<close> runs the code behind a function pointer; \<open>p\<close> is the address of the parameter block.\<close>

definition intr_handler :: "(code \<Rightarrow> u32 \<Rightarrow> isr_param \<Rightarrow> kernel \<Rightarrow> outcome option) \<Rightarrow> u32 \<Rightarrow> isr_param \<Rightarrow> kernel
    \<Rightarrow> outcome option" where
  "intr_handler call p param k = do {
     let subscriber = (if vector param \<le> 255 then subscribers k (ucast (vector param)) else None);
     r \<leftarrow> (case subscriber of
            Some f \<Rightarrow> call f p param k
          | None \<Rightarrow>
              (case fallback k of
                 Some f \<Rightarrow> call f p param k
               | None \<Rightarrow> map_option Return (panic_message (bytes ''INT %u: (%x) [%p: %p] Unknown'')
                   [Int_arg (vector param), Int_arg (err_code param), Int_arg (cs param), Int_arg (eip param)] k)));
     case r of
       Spin k \<Rightarrow> Some (Spin k)
     | Return k \<Rightarrow>
         if EX_INTERRUPT_BEGIN \<le> vector param \<and> vector param \<noteq> APIC_SPIV_IV
         then map_option Return (apic_done_servicing k) else Some (Return k)
   }"

section \<open>intr_routines.c\<close>

definition print_panic_msg :: "u8 list \<Rightarrow> isr_param \<Rightarrow> kernel \<Rightarrow> kernel option" where
  "print_panic_msg msg param k =
    panic_message (bytes ''  INT %u: (%x) [%p: %p] %s'')
      [Int_arg (vector param), Int_arg (err_code param), Int_arg (cs param), Int_arg (eip param), Str_arg msg] k"

definition intr_routine_divide_zero :: "isr_param \<Rightarrow> kernel \<Rightarrow> outcome option" where
  "intr_routine_divide_zero param k = map_option Spin (print_panic_msg (bytes ''Divide by zero!'') param k)"

definition intr_routine_general_protection :: "isr_param \<Rightarrow> kernel \<Rightarrow> outcome option" where
  "intr_routine_general_protection param k = map_option Spin (print_panic_msg (bytes ''General Protection'') param k)"

definition intr_routine_page_fault :: "isr_param \<Rightarrow> kernel \<Rightarrow> outcome option" where
  "intr_routine_page_fault param k = do {
     let pg_fault_ptr = k_cr2 k;
     k \<leftarrow> (if pg_fault_ptr = 0 then print_panic_msg (bytes ''Null pointer reference'') param k
          else do {
            buf \<leftarrow> in_buffer 32 (sprintf (bytes ''Page fault on %p'') [Int_arg pg_fault_ptr]);
            print_panic_msg buf param k
          });
     Some (Spin k)
   }"

text \<open>The string at an address, for the panic call, which passes a pointer in a register.\<close>

partial_function (option) string_at :: "u32 \<Rightarrow> 'a vm_scheme \<Rightarrow> u8 list option" where
  "string_at p s = do {
     c \<leftarrow> vload8 s p;
     if c = 0 then Some [] else do { cs \<leftarrow> string_at (p + 1) s; Some (c # cs) }
   }"

definition intr_routine_sys_panic :: "isr_param \<Rightarrow> kernel \<Rightarrow> outcome option" where
  "intr_routine_sys_panic param k = do {
     msg \<leftarrow> string_at (edi (registers param)) k;
     map_option Spin (print_panic_msg msg param k)
   }"

definition intr_routine_fallback :: "isr_param \<Rightarrow> kernel \<Rightarrow> outcome option" where
  "intr_routine_fallback param k = map_option Spin (print_panic_msg (bytes ''Unknown Interrupt'') param k)"

definition intr_routine_apic_spi :: "isr_param \<Rightarrow> kernel \<Rightarrow> outcome option" where
  "intr_routine_apic_spi param k = Some (Return k)"

definition intr_routine_apic_error :: "isr_param \<Rightarrow> kernel \<Rightarrow> outcome option" where
  "intr_routine_apic_error param k = do {
     error_reg \<leftarrow> apic_read_reg APIC_ESR k;
     buf \<leftarrow> in_buffer 32 (sprintf (bytes ''APIC error, ESR=0x%x'') [Int_arg error_reg]);
     map_option Spin (print_panic_msg buf param k)
   }"

definition intr_routine_init :: "kernel \<Rightarrow> kernel" where
  "intr_routine_init k =
    (let k = intr_subscribe (ucast FAULT_DIVISION_ERROR) Intr_routine_divide_zero k;
         k = intr_subscribe (ucast FAULT_GENERAL_PROTECTION) Intr_routine_general_protection k;
         k = intr_subscribe (ucast FAULT_PAGE_FAULT) Intr_routine_page_fault k;
         k = intr_subscribe (ucast AWA_SYS_PANIC) Intr_routine_sys_panic k;
         k = intr_subscribe (ucast APIC_SPIV_IV) Intr_routine_apic_spi k;
         k = intr_subscribe (ucast APIC_ERROR_IV) Intr_routine_apic_error k
     in intr_set_fallback_handler (Some Intr_set_fallback_handler) k)"

text \<open>What calling a function pointer does. \<open>timer\<close> runs the handlers of the timer component.
  \<^verbatim>\<open>intr_set_fallback_handler\<close> called as a handler takes the address of the parameter block.\<close>

fun call_code :: "(code \<Rightarrow> isr_param \<Rightarrow> kernel \<Rightarrow> outcome option) \<Rightarrow> code \<Rightarrow> u32 \<Rightarrow> isr_param \<Rightarrow> kernel \<Rightarrow> outcome option" where
  "call_code timer Intr_routine_divide_zero p param k = intr_routine_divide_zero param k"
| "call_code timer Intr_routine_general_protection p param k = intr_routine_general_protection param k"
| "call_code timer Intr_routine_page_fault p param k = intr_routine_page_fault param k"
| "call_code timer Intr_routine_sys_panic p param k = intr_routine_sys_panic param k"
| "call_code timer Intr_routine_fallback p param k = intr_routine_fallback param k"
| "call_code timer Intr_routine_apic_spi p param k = intr_routine_apic_spi param k"
| "call_code timer Intr_routine_apic_error p param k = intr_routine_apic_error param k"
| "call_code timer Intr_set_fallback_handler p param k =
    Some (Return (intr_set_fallback_handler (if p = 0 then None else Some (Data_object p)) k))"
| "call_code timer (Data_object a) p param k = None"
| "call_code timer c p param k = timer c param k"

section \<open>Panic messages\<close>

definition panic_text :: "isr_param \<Rightarrow> u8 list \<Rightarrow> u8 list" where
  "panic_text param msg = bytes ''  INT '' @ int_text 10 (vector param) @ bytes '': ('' @ int_text 16 (err_code param)
     @ bytes '') [0x'' @ int_text 16 (cs param) @ bytes '': 0x'' @ int_text 16 (eip param) @ bytes ''] '' @ msg"

lemma print_panic_msg_runs:
  assumes "tty_ok (k_tty k)" "0 \<notin> set msg" "length msg \<le> 900"
  obtains t where "print_panic_msg msg param k = Some (k\<lparr>k_tty := t\<rparr>)" "tty_ok t"
    "screen_of t = scr_text (panic_text param msg) (panic_screen (screen_of (k_tty k)))"
proof -
  let ?fmt = "bytes ''  INT %u: (%x) [%p: %p] %s''"
  let ?args = "[Int_arg (vector param), Int_arg (err_code param), Int_arg (cs param), Int_arg (eip param), Str_arg msg]"
  have r: "render ?fmt ?args = Some (panic_text param msg)"
    using assms(2,3) by (simp add: bytes_def panic_text_def)
  have l: "length (int_text 10 v) \<le> 11" "length (int_text 16 v) \<le> 11" for v
    using int_text_chars(2) [of 10 v] int_text_chars(2) [of 16 v] by simp_all
  have "length (panic_text param msg) < 1023"
    using assms(3) l(1) [of "vector param"] l(2) [of "err_code param"] l(2) [of "cs param"] l(2) [of "eip param"]
    by (simp add: panic_text_def bytes_def)
  then obtain t where "panic_message ?fmt ?args k = Some (k\<lparr>k_tty := t\<rparr>)" "tty_ok t"
    "screen_of t = scr_text (panic_text param msg) (panic_screen (screen_of (k_tty k)))"
    using panic_message_runs [OF r _ _ assms(1)] by (auto simp: bytes_def)
  then show ?thesis using that by (simp add: print_panic_msg_def)
qed

lemma init_lookup:
  "subscribers (intr_routine_init k) v =
    (if v = 0 then Some Intr_routine_divide_zero else if v = 13 then Some Intr_routine_general_protection
     else if v = 14 then Some Intr_routine_page_fault else if v = 32 then Some Intr_routine_sys_panic
     else if v = 203 then Some Intr_routine_apic_spi else if v = 200 then Some Intr_routine_apic_error else subscribers k v)"
  "fallback (intr_routine_init k) = Some Intr_set_fallback_handler" "k_tty (intr_routine_init k) = k_tty k"
  by (simp_all add: intr_routine_init_def intr_subscribe_def intr_set_fallback_handler_def vectors)

text \<open>External interrupts are acknowledged once, after their handler; exceptions and the spurious vector
  never.\<close>

lemma intr_handler_acknowledges:
  assumes "vector param \<le> 255" "subscribers k (ucast (vector param)) = Some f" "call f p param k = Some (Return k1)"
    "apic_page_mapped k1"
  shows "intr_handler call p param k
    = Some (Return (if 200 \<le> vector param \<and> vector param \<noteq> 203 then apic_put APIC_EOI 0 k1 else k1))"
  using assms apic_access(2) [OF assms(4), of APIC_EOI 0]
  by (simp add: intr_handler_def vectors apic_done_servicing_def APIC_EOI_def)

section \<open>Properties\<close>

text \<open>C33: after \<^verbatim>\<open>intr_routine_init\<close> a division error or a protection fault stops the kernel for good, with
  vector, error code, code segment, address and reason on the panic screen.\<close>

theorem exceptions_panic:
  assumes "tty_ok (k_tty k)" "vector param = 0 \<and> msg = bytes ''Divide by zero!'' \<or> vector param = 13 \<and> msg = bytes ''General Protection''"
  shows "\<exists>k'. intr_handler (call_code timer) p param (intr_routine_init k) = Some (Spin k') \<and> tty_ok (k_tty k')
    \<and> screen_of (k_tty k') = scr_text (panic_text param msg) (panic_screen (screen_of (k_tty k)))"
proof -
  let ?k = "intr_routine_init k"
  have m: "0 \<notin> set msg" "length msg \<le> 900" using assms(2) by (auto simp: bytes_def)
  have ok: "tty_ok (k_tty ?k)" using assms(1) by (simp add: init_lookup)
  obtain t where t: "print_panic_msg msg param ?k = Some (?k\<lparr>k_tty := t\<rparr>)" "tty_ok t"
    "screen_of t = scr_text (panic_text param msg) (panic_screen (screen_of (k_tty k)))"
    by (rule print_panic_msg_runs [OF ok m, where param = param]) (simp add: init_lookup)
  have "intr_handler (call_code timer) p param ?k = Some (Spin (?k\<lparr>k_tty := t\<rparr>))"
    using assms(2)
  proof (elim disjE conjE)
    assume v: "vector param = 0" "msg = bytes ''Divide by zero!''"
    show ?thesis using t(1) unfolding intr_handler_def v by (simp add: init_lookup intr_routine_divide_zero_def)
  next
    assume v: "vector param = 13" "msg = bytes ''General Protection''"
    show ?thesis using t(1) unfolding intr_handler_def v by (simp add: init_lookup intr_routine_general_protection_def)
  qed
  then show ?thesis using t by simp
qed

definition fault_param :: "u32 \<Rightarrow> isr_param" where
  "fault_param v = \<lparr>registers = \<lparr>eax = 0, ebx = 0, ecx = 0, edx = 0, edi = 0, ebp = 0, esi = 0, gp_esp = 0\<rparr>,
     vector = v, err_code = 0, eip = 0xC0101234, cs = 8, eflags = 0x200, esp = 0, ss = 0\<rparr>"

definition idle_timer :: "code \<Rightarrow> isr_param \<Rightarrow> kernel \<Rightarrow> outcome option" where
  "idle_timer c param k = Some (Return k)"

lemma exceptions_panic_witness:
  "\<exists>k'. intr_handler (call_code idle_timer) 0xC0001000 (fault_param 13) (intr_routine_init (kernel_on apic_vm heap_vh)) = Some (Spin k')
    \<and> tty_ok (k_tty k') \<and> screen_of (k_tty k') = scr_text (panic_text (fault_param 13) (bytes ''General Protection''))
      (panic_screen (screen_of (k_tty (kernel_on apic_vm heap_vh))))"
  by (rule exceptions_panic) (simp_all add: tty_boot_ok fault_param_def)

text \<open>C40: the fallback handler installed is \<^verbatim>\<open>intr_set_fallback_handler\<close> itself. An interrupt through one of the
  gates of \<^verbatim>\<open>_init_idt\<close> that has no subscriber, as \<^verbatim>\<open>APIC_LINT0_IV\<close> never has one, is acknowledged without a message
  and makes its parameter block, which lies on the stack, the fallback handler; the next interrupt without a subscriber jumps
  into that block.\<close>

theorem unknown_interrupt_corrupts_fallback:
  assumes "v \<in> kernel_vectors" "vector param = of_nat v" "subscribers (intr_routine_init k) (of_nat v) = None" "p \<noteq> 0" "apic_page_mapped k"
  shows "\<exists>k'. intr_handler (call_code timer) p param (intr_routine_init k) = Some (Return k') \<and> k_tty k' = k_tty k
    \<and> apic_log (k_apic k') = (APIC_EOI, 0) # apic_log (k_apic k) \<and> fallback k' = Some (Data_object p)
    \<and> (\<forall>u q param'. u \<in> kernel_vectors \<and> vector param' = of_nat u \<and> subscribers k' (of_nat u) = None
         \<longrightarrow> intr_handler (call_code timer) q param' k' = None)"
proof -
  let ?k = "intr_routine_init k" and ?k1 = "(intr_routine_init k)\<lparr>fallback := Some (Data_object p)\<rparr>"
  have small: "vector d \<le> 255 \<and> (ucast (vector d) :: u8) = of_nat u" if "u \<in> kernel_vectors" "vector d = of_nat u" for u d
    using that by (auto simp: kernel_vectors_def)
  have v: "v = 201 \<or> v = 202 \<or> v = 210" using assms(1,3) by (auto simp: kernel_vectors_def init_lookup)
  have m: "apic_page_mapped ?k1" using assms(5)
    by (simp add: apic_page_mapped_def intr_routine_init_def intr_subscribe_def intr_set_fallback_handler_def)
  let ?k' = "apic_put APIC_EOI 0 ?k1"
  have "EX_INTERRUPT_BEGIN \<le> vector param" "vector param \<noteq> APIC_SPIV_IV" using v assms(2) by (auto simp: vectors)
  moreover have "apic_done_servicing ?k1 = Some ?k'"
    using apic_access(2) [OF m, of APIC_EOI 0] by (simp add: apic_done_servicing_def APIC_EOI_def)
  ultimately have "intr_handler (call_code timer) p param ?k = Some (Return ?k')"
    using small [OF assms(1,2)] assms(3,4) by (simp add: intr_handler_def init_lookup intr_set_fallback_handler_def)
  moreover have "fallback ?k' = Some (Data_object p)" "k_tty ?k' = k_tty k" "subscribers ?k' = subscribers ?k"
    "apic_log (k_apic ?k') = (APIC_EOI, 0) # apic_log (k_apic k)"
    by (simp_all add: apic_put_def init_lookup) (simp add: intr_routine_init_def intr_subscribe_def intr_set_fallback_handler_def)
  moreover have "intr_handler (call_code timer) q d ?k' = None"
    if "u \<in> kernel_vectors" "vector d = of_nat u" "subscribers ?k' (of_nat u) = None" for u q d
    using small [OF that(1,2)] that(3) \<open>fallback ?k' = _\<close> by (simp add: intr_handler_def)
  ultimately show ?thesis by blast
qed

lemma unknown_interrupt_corrupts_fallback_witness:
  "\<exists>k'. intr_handler (call_code idle_timer) 0xC0001000 (fault_param 201) (intr_routine_init (kernel_on apic_vm heap_vh)) = Some (Return k')
    \<and> fallback k' = Some (Data_object 0xC0001000)"
proof -
  have v: "201 \<in> kernel_vectors" "vector (fault_param 201) = of_nat 201" by (simp_all add: kernel_vectors_def fault_param_def)
  have "subscribers (intr_routine_init (kernel_on apic_vm heap_vh)) (of_nat 201) = None" by (simp add: init_lookup kernel_on_def vm.defs kernel.defs)
  from unknown_interrupt_corrupts_fallback [OF v this _ apic_vm_mapped, of "0xC0001000" idle_timer] show ?thesis by auto
qed

end
