(* ===== verification/Timer.thy ===== *)
theory Timer
  imports Interrupts KHeap
begin

text \<open>
  The software timers of \<^verbatim>\<open>kernel/timer.c\<close>. Timers are structures of the kernel heap on a list of theory
  Llist whose head \<^verbatim>\<open>active_timers\<close> is a timer structure too. A callback is code outside the kernel's
  own: it is a parameter \<open>call\<close>, applied to the function pointer and the payload. The interrupts
  that arrive while \<^verbatim>\<open>timer_init\<close> waits are a list of parameter blocks with their addresses.
\<close>

unbundle bit_operations_syntax

section \<open>Structures\<close>

definition SYS_TIMER_FREQUENCY_HZ :: u32 where "SYS_TIMER_FREQUENCY_HZ = 2048"
definition TIMER_MODE_PERIODIC :: u8 where "TIMER_MODE_PERIODIC = 0x1"
definition APIC_CALIBRATION_CONST :: u32 where "APIC_CALIBRATION_CONST = 0x100000"

definition LVT_ENTRY_TIMER :: "u32 \<Rightarrow> u32 \<Rightarrow> u32" where
  "LVT_ENTRY_TIMER vec mode = LVT_DELIVERY_FIXED OR mode OR vec"

text \<open>\<^verbatim>\<open>struct lx_timer_context\<close> and \<^verbatim>\<open>struct lx_timer\<close>: the fields of the structure at \<open>p\<close>.\<close>

definition ctx_active_timers :: "u32 \<Rightarrow> u32" where "ctx_active_timers p = p"
definition ctx_base_frequency :: "u32 \<Rightarrow> u32" where "ctx_base_frequency p = p + 4"
definition ctx_running_frequency :: "u32 \<Rightarrow> u32" where "ctx_running_frequency p = p + 8"
definition ctx_tick_interval :: "u32 \<Rightarrow> u32" where "ctx_tick_interval p = p + 12"
definition sizeof_lx_timer_context :: u32 where "sizeof_lx_timer_context = 16"

definition tm_deadline :: "u32 \<Rightarrow> u32" where "tm_deadline p = p + 8"
definition tm_counter :: "u32 \<Rightarrow> u32" where "tm_counter p = p + 12"
definition tm_payload :: "u32 \<Rightarrow> u32" where "tm_payload p = p + 16"
definition tm_callback :: "u32 \<Rightarrow> u32" where "tm_callback p = p + 20"
definition tm_flags :: "u32 \<Rightarrow> u32" where "tm_flags p = p + 24"
definition sizeof_lx_timer :: u32 where "sizeof_lx_timer = 28"

lemmas ctx_defs = ctx_active_timers_def ctx_base_frequency_def ctx_running_frequency_def ctx_tick_interval_def
lemmas tm_defs = tm_deadline_def tm_counter_def tm_payload_def tm_callback_def tm_flags_def

section \<open>Starting timers\<close>

definition timer_run :: "u32 \<Rightarrow> u32 \<Rightarrow> u32 \<Rightarrow> u8 \<Rightarrow> kernel \<Rightarrow> (u32 \<times> kernel) option" where
  "timer_run ticks callback payload flags k = do {
     (timer, k) \<leftarrow> kmalloc sizeof_lx_timer k;
     if timer = 0 then Some (0, k)
     else do {
       k \<leftarrow> vstore32 (tm_callback timer) callback k;
       k \<leftarrow> vstore32 (tm_counter timer) ticks k;
       k \<leftarrow> vstore32 (tm_deadline timer) ticks k;
       k \<leftarrow> vstore32 (tm_payload timer) payload k;
       k \<leftarrow> vstore8 (tm_flags timer) flags k;
       timers \<leftarrow> vload32 k (ctx_active_timers (timer_ctx k));
       k \<leftarrow> llist_append vload32 vstore32 timers timer k;
       Some (1, k)
     }
   }"

definition timer_run_second :: "u32 \<Rightarrow> u32 \<Rightarrow> u32 \<Rightarrow> u8 \<Rightarrow> kernel \<Rightarrow> (u32 \<times> kernel) option" where
  "timer_run_second second callback payload flags k = do {
     f \<leftarrow> vload32 k (ctx_running_frequency (timer_ctx k));
     timer_run (second * f) callback payload flags k
   }"

section \<open>The tick\<close>

text \<open>The body of the loop for the timer at \<open>pos\<close>.\<close>

definition update_one :: "(u32 \<Rightarrow> u32 \<Rightarrow> kernel \<Rightarrow> kernel option) \<Rightarrow> u32 \<Rightarrow> kernel \<Rightarrow> kernel option" where
  "update_one call pos k = do {
     c \<leftarrow> vload32 k (tm_counter pos);
     k \<leftarrow> vstore32 (tm_counter pos) (c - 1) k;
     if c - 1 \<noteq> 0 then Some k
     else do {
       cb \<leftarrow> vload32 k (tm_callback pos);
       k \<leftarrow> (if cb \<noteq> 0 then do { payload \<leftarrow> vload32 k (tm_payload pos); call cb payload k } else Some k);
       flags \<leftarrow> vload8 k (tm_flags pos);
       if flags AND TIMER_MODE_PERIODIC \<noteq> 0
       then do { d \<leftarrow> vload32 k (tm_deadline pos); vstore32 (tm_counter pos) d k }
       else do { k \<leftarrow> llist_delete vload32 vstore32 pos k; kfree pos k }
     }
   }"

text \<open>\<^verbatim>\<open>llist_for_each\<close> reads the successor \<open>nxt\<close> of \<open>pos\<close> before it runs the body for \<open>pos\<close>.\<close>

partial_function (option) update_loop :: "(u32 \<Rightarrow> u32 \<Rightarrow> kernel \<Rightarrow> kernel option) \<Rightarrow> u32 \<Rightarrow> u32 \<Rightarrow> u32 \<Rightarrow> kernel \<Rightarrow> kernel option" where
  "update_loop call head pos nxt k =
    (if pos = head then Some k
     else do {
       k \<leftarrow> update_one call pos k;
       nxt' \<leftarrow> vload32 k (nxt + 4);
       update_loop call head nxt nxt' k
     })"

definition timer_update :: "(u32 \<Rightarrow> u32 \<Rightarrow> kernel \<Rightarrow> kernel option) \<Rightarrow> kernel \<Rightarrow> kernel option" where
  "timer_update call k = do {
     head \<leftarrow> vload32 k (ctx_active_timers (timer_ctx k));
     pos \<leftarrow> vload32 k (head + 4);
     nxt \<leftarrow> vload32 k (pos + 4);
     update_loop call head pos nxt k
   }"

section \<open>Initialisation and calibration\<close>

definition timer_init_context :: "kernel \<Rightarrow> kernel option" where
  "timer_init_context k = do {
     (ctx, k) \<leftarrow> kmalloc sizeof_lx_timer_context k;
     let k = k\<lparr>timer_ctx := ctx\<rparr>;
     (timers, k) \<leftarrow> kmalloc sizeof_lx_timer k;
     k \<leftarrow> vstore32 (ctx_active_timers (timer_ctx k)) timers k;
     head \<leftarrow> vload32 k (ctx_active_timers (timer_ctx k));
     llist_init_head vstore32 head k
   }"

definition temp_intr_routine_rtc_tick :: "kernel \<Rightarrow> kernel" where
  "temp_intr_routine_rtc_tick k =
    (let k = k\<lparr>rtc_counter := rtc_counter k + 1\<rparr>
     in k\<lparr>k_cmos := snd (rtc_read_reg RTC_REG_C (k_cmos k))\<rparr>)"

text \<open>A division by zero is a processor exception; from there the result is \<open>None\<close>.\<close>

definition temp_intr_routine_apic_timer :: "kernel \<Rightarrow> kernel option" where
  "temp_intr_routine_apic_timer k =
    (if rtc_counter k = 0 then None
     else do {
       k \<leftarrow> vstore32 (ctx_base_frequency (timer_ctx k)) (APIC_CALIBRATION_CONST div rtc_counter k * RTC_TIMER_BASE_FREQUENCY) k;
       let k = k\<lparr>apic_timer_done := 1\<rparr>;
       Some (k\<lparr>k_cmos := rtc_disable_timer (k_cmos k)\<rparr>)
     })"

fun timer_code :: "(u32 \<Rightarrow> u32 \<Rightarrow> kernel \<Rightarrow> kernel option) \<Rightarrow> code \<Rightarrow> isr_param \<Rightarrow> kernel \<Rightarrow> outcome option" where
  "timer_code call Timer_update param k = map_option Return (timer_update call k)"
| "timer_code call Temp_intr_routine_rtc_tick param k = Some (Return (temp_intr_routine_rtc_tick k))"
| "timer_code call Temp_intr_routine_apic_timer param k = map_option Return (temp_intr_routine_apic_timer k)"
| "timer_code call c param k = None"

fun wait_until_done :: "(u32 \<Rightarrow> isr_param \<Rightarrow> kernel \<Rightarrow> outcome option) \<Rightarrow> (u32 \<times> isr_param) list \<Rightarrow> kernel \<Rightarrow> outcome option" where
  "wait_until_done handle [] k = (if apic_timer_done k \<noteq> 0 then Some (Return k) else None)"
| "wait_until_done handle ((p, param) # es) k =
    (if apic_timer_done k \<noteq> 0 then Some (Return k)
     else do {
       r \<leftarrow> handle p param k;
       case r of Return k \<Rightarrow> wait_until_done handle es k | Spin k \<Rightarrow> Some (Spin k)
     })"

definition timer_calibrated :: "u32 \<Rightarrow> kernel \<Rightarrow> kernel option" where
  "timer_calibrated frequency k = do {
     base \<leftarrow> vload32 k (ctx_base_frequency (timer_ctx k));
     k \<leftarrow> kprintf ''TIMER'' (KINFO @ bytes ''Base frequency: %u Hz'' @ nl) [Int_arg base] k;
     k \<leftarrow> vstore32 (ctx_running_frequency (timer_ctx k)) frequency k;
     base \<leftarrow> vload32 k (ctx_base_frequency (timer_ctx k));
     k \<leftarrow> (if frequency = 0 then None else vstore32 (ctx_tick_interval (timer_ctx k)) (base div frequency) k);
     let k = intr_unsubscribe (ucast APIC_TIMER_IV) Temp_intr_routine_apic_timer k;
     let k = intr_unsubscribe (ucast RTC_TIMER_IV) Temp_intr_routine_rtc_tick k;
     k \<leftarrow> apic_write_reg APIC_TIMER_LVT (LVT_ENTRY_TIMER APIC_TIMER_IV LVT_TIMER_PERIODIC) k;
     let k = intr_subscribe (ucast APIC_TIMER_IV) Timer_update k;
     tick \<leftarrow> vload32 k (ctx_tick_interval (timer_ctx k));
     apic_write_reg APIC_TIMER_ICR tick k
   }"

definition timer_init :: "(u32 \<Rightarrow> u32 \<Rightarrow> kernel \<Rightarrow> kernel option) \<Rightarrow> (u32 \<times> isr_param) list \<Rightarrow> u32 \<Rightarrow> kernel \<Rightarrow> outcome option" where
  "timer_init call interrupts frequency k = do {
     k \<leftarrow> timer_init_context k;
     let k = cpu_disable_interrupt k;
     k \<leftarrow> apic_write_reg APIC_TIMER_LVT (LVT_ENTRY_TIMER APIC_TIMER_IV LVT_TIMER_ONESHOT) k;
     k \<leftarrow> apic_write_reg APIC_TIMER_DCR APIC_TIMER_DIV64 k;
     k \<leftarrow> vstore32 (ctx_base_frequency (timer_ctx k)) 0 k;
     let k = k\<lparr>rtc_counter := 0, apic_timer_done := 0\<rparr>;
     let k = intr_subscribe (ucast APIC_TIMER_IV) Temp_intr_routine_apic_timer k;
     let k = intr_subscribe (ucast RTC_TIMER_IV) Temp_intr_routine_rtc_tick k;
     let k = k\<lparr>k_cmos := rtc_enable_timer (k_cmos k)\<rparr>;
     k \<leftarrow> apic_write_reg APIC_TIMER_ICR APIC_CALIBRATION_CONST k;
     let k = cpu_enable_interrupt k;
     r \<leftarrow> wait_until_done (intr_handler (call_code (timer_code call))) interrupts k;
     case r of Return k \<Rightarrow> map_option Return (timer_calibrated frequency k) | Spin k \<Rightarrow> Some (Spin k)
   }"

section \<open>Timers as values\<close>

record timer =
  t_deadline :: u32
  t_counter :: u32
  t_payload :: u32
  t_callback :: u32
  t_flags :: u8

definition timer_at :: "(u32 \<Rightarrow> u32) \<Rightarrow> u32 \<Rightarrow> timer" where
  "timer_at w p = \<lparr>t_deadline = w (p + 8), t_counter = w (p + 12), t_payload = w (p + 16), t_callback = w (p + 20),
     t_flags = ucast (w (p + 24))\<rparr>"

definition expires :: "timer \<Rightarrow> bool" where
  "expires t \<longleftrightarrow> t_counter t = 1 \<and> t_flags t AND TIMER_MODE_PERIODIC = 0"

definition tick :: "timer \<Rightarrow> timer" where
  "tick t = t\<lparr>t_counter := (if t_counter t = 1 then t_deadline t else t_counter t - 1)\<rparr>"

text \<open>What a callback that only touches the console and the clock does when its timer runs out.\<close>

definition fire :: "(u32 \<Rightarrow> u32 \<Rightarrow> tty \<times> cmos \<Rightarrow> tty \<times> cmos) \<Rightarrow> timer \<Rightarrow> tty \<times> cmos \<Rightarrow> tty \<times> cmos" where
  "fire g t io = (if t_counter t = 1 \<and> t_callback t \<noteq> 0 then g (t_callback t) (t_payload t) io else io)"

definition console :: "kernel \<Rightarrow> tty \<times> cmos" where
  "console k = (k_tty k, k_cmos k)"

definition only_console :: "(u32 \<Rightarrow> u32 \<Rightarrow> kernel \<Rightarrow> kernel option) \<Rightarrow> (u32 \<Rightarrow> u32 \<Rightarrow> tty \<times> cmos \<Rightarrow> tty \<times> cmos) \<Rightarrow> bool" where
  "only_console call g \<longleftrightarrow>
    (\<forall>cb payload k. call cb payload k = Some (k\<lparr>k_tty := fst (g cb payload (console k)), k_cmos := snd (g cb payload (console k))\<rparr>))"

text \<open>The timers of a kernel: \<open>xs\<close> on the list at \<open>head\<close>, with the context in a block of its own.\<close>

definition timers :: "kernel \<Rightarrow> (nat \<times> nat) set \<Rightarrow> (u32 \<Rightarrow> u32) \<Rightarrow> u32 \<Rightarrow> u32 list \<Rightarrow> bool" where
  "timers k B w head xs \<longleftrightarrow> kernel_rep k B w \<and> khs.list_of B w 28 head xs \<and> khs.obj B 16 (timer_ctx k)
     \<and> timer_ctx k \<notin> insert head (set xs) \<and> w (timer_ctx k) = head"

text \<open>\<^verbatim>\<open>llist_delete\<close> does not keep the \<^verbatim>\<open>prev\<close> links, so a tick is only safe when every timer that expires
  still points back at its predecessor, which must not expire in the same tick.\<close>

fun links_ok :: "(u32 \<Rightarrow> u32) \<Rightarrow> u32 \<Rightarrow> bool \<Rightarrow> u32 list \<Rightarrow> bool" where
  "links_ok w p gone [] = True"
| "links_ok w p gone (x # xs) \<longleftrightarrow> (expires (timer_at w x) \<longrightarrow> w x = p \<and> \<not> gone) \<and> links_ok w x (expires (timer_at w x)) xs"

lemma links_ok_cong:
  "(\<And>x. x \<in> set xs \<Longrightarrow> timer_at w' x = timer_at w x \<and> w' x = w x) \<Longrightarrow> links_ok w' p gone xs = links_ok w p gone xs"
  by (induction xs arbitrary: p gone) auto

section \<open>One timer\<close>

lemma timer_words:
  assumes "khs.obj B 28 x"
  shows "x \<in> words B" "x + 4 \<in> words B" "x + 8 \<in> words B" "x + 12 \<in> words B" "x + 16 \<in> words B" "x + 20 \<in> words B" "x + 24 \<in> words B"
  using khs.obj_word [OF assms, of 0] khs.obj_word [OF assms, of 4] khs.obj_word [OF assms, of 8] khs.obj_word [OF assms, of 12]
    khs.obj_word [OF assms, of 16] khs.obj_word [OF assms, of 20] khs.obj_word [OF assms, of 24] by simp_all

lemma timer_fields:
  assumes "kernel_rep k B w" "khs.obj B 28 x" "khs.obj B 28 z" "f \<in> {0, 4, 8, 12, 16, 20, 24}"
  shows "z + 8 = x + of_nat f \<longleftrightarrow> z = x \<and> f = 8" "z + 12 = x + of_nat f \<longleftrightarrow> z = x \<and> f = 12"
    "z + 16 = x + of_nat f \<longleftrightarrow> z = x \<and> f = 16" "z + 20 = x + of_nat f \<longleftrightarrow> z = x \<and> f = 20"
    "z + 24 = x + of_nat f \<longleftrightarrow> z = x \<and> f = 24"
  using khs.field_eq [OF assms(1,3,2), of 8 f] khs.field_eq [OF assms(1,3,2), of 12 f] khs.field_eq [OF assms(1,3,2), of 16 f]
    khs.field_eq [OF assms(1,3,2), of 20 f] khs.field_eq [OF assms(1,3,2), of 24 f] assms(4) by auto

lemma timer_at_counter:
  assumes "kernel_rep k B w" "khs.obj B 28 x" "khs.obj B 28 z"
  shows "timer_at (w(x + 12 := v)) z = (if z = x then (timer_at w z)\<lparr>t_counter := v\<rparr> else timer_at w z)"
  using timer_fields [OF assms, of 12] by (simp add: timer_at_def)

lemma timer_at_header:
  assumes "kernel_rep k B w" "khs.obj B 28 x" "khs.obj B 28 z"
  shows "timer_at (w(x := v)) z = timer_at w z" "timer_at (w(x + 4 := v)) z = timer_at w z"
  using timer_fields [OF assms, of 0] timer_fields [OF assms, of 4] by (simp_all add: timer_at_def)

lemma fire_run:
  assumes "kernel_rep k B w" "khs.obj B 28 x" "t_counter (timer_at w x) = 1" "only_console call g"
  obtains k' where "kernel_rep k' B (w(x + 12 := 0))" "timer_ctx k' = timer_ctx k" "console k' = fire g (timer_at w x) (console k)"
    "update_one call x k = (if t_flags (timer_at w x) AND TIMER_MODE_PERIODIC \<noteq> 0 then vstore32 (x + 12) (w (x + 8)) k'
      else do { k \<leftarrow> llist_delete vload32 vstore32 x k'; kfree x k })"
proof -
  note wd = timer_words [OF assms(2)]
  let ?w = "w(x + 12 := 0)"
  have c: "vload32 k (x + 12) = Some 1" using khs.ld_rep [OF assms(1) wd(4)] assms(3) by (simp add: timer_at_def)
  obtain k1 where 1: "vstore32 (x + 12) 0 k = Some k1" "kernel_rep k1 B ?w" "devices k1 = devices k"
    using khs.st_rep [OF assms(1) wd(4), of 0] by blast
  have ld: "vload32 k1 (x + 20) = Some (w (x + 20))" "vload32 k1 (x + 16) = Some (w (x + 16))"
    using khs.ld_rep [OF 1(2) wd(6)] khs.ld_rep [OF 1(2) wd(5)] by simp_all
  let ?k2 = "k1\<lparr>k_tty := fst (g (w (x + 20)) (w (x + 16)) (console k1)), k_cmos := snd (g (w (x + 20)) (w (x + 16)) (console k1))\<rparr>"
  define k2 where "k2 = (if w (x + 20) \<noteq> 0 then ?k2 else k1)"
  have rep: "kernel_rep k2 B ?w" using 1(2) by (simp add: k2_def)
  have fld: "vload8 k2 (x + 24) = Some (t_flags (timer_at w x))" "vload32 k2 (x + 8) = Some (w (x + 8))"
    using khs.ld8_rep [OF rep wd(7)] khs.ld_rep [OF rep wd(3)] by (simp_all add: timer_at_def)
  have run: "(if w (x + 20) \<noteq> 0 then do { payload \<leftarrow> vload32 k1 (x + 16); call (w (x + 20)) payload k1 } else Some k1) = Some k2"
    using assms(4) ld by (simp add: k2_def only_console_def)
  have "console k2 = fire g (timer_at w x) (console k)"
    using assms(3) devicesD [OF 1(3)] by (simp add: k2_def fire_def timer_at_def console_def)
  moreover have "timer_ctx k2 = timer_ctx k" using devicesD [OF 1(3)] by (simp add: k2_def)
  moreover have "update_one call x k = (if t_flags (timer_at w x) AND TIMER_MODE_PERIODIC \<noteq> 0 then vstore32 (x + 12) (w (x + 8)) k2
      else do { k \<leftarrow> llist_delete vload32 vstore32 x k2; kfree x k })"
    unfolding update_one_def tm_defs using c 1(1) ld run fld by simp
  ultimately show ?thesis using that [OF rep] by simp
qed

lemma update_one_stays:
  assumes "kernel_rep k B w" "khs.obj B 28 x" "\<not> expires (timer_at w x)" "only_console call g"
  obtains k' where "update_one call x k = Some k'" "kernel_rep k' B (w(x + 12 := t_counter (tick (timer_at w x))))"
    "timer_ctx k' = timer_ctx k" "console k' = fire g (timer_at w x) (console k)"
proof (cases "t_counter (timer_at w x) = 1")
  case True
  note wd = timer_words [OF assms(2)]
  obtain k1 where 1: "kernel_rep k1 B (w(x + 12 := 0))" "timer_ctx k1 = timer_ctx k" "console k1 = fire g (timer_at w x) (console k)"
    "update_one call x k = (if t_flags (timer_at w x) AND TIMER_MODE_PERIODIC \<noteq> 0 then vstore32 (x + 12) (w (x + 8)) k1
      else do { k \<leftarrow> llist_delete vload32 vstore32 x k1; kfree x k })"
    by (rule fire_run [OF assms(1,2) True assms(4)])
  obtain k2 where 2: "vstore32 (x + 12) (w (x + 8)) k1 = Some k2" "kernel_rep k2 B (w(x + 12 := 0, x + 12 := w (x + 8)))"
    "devices k2 = devices k1" using khs.st_rep [OF 1(1) wd(4)] by blast
  show ?thesis using that [of k2] 1 2 devicesD [OF 2(3)] assms(3) True
    by (simp add: expires_def tick_def console_def timer_at_def)
next
  case False
  let ?c = "w (x + 12) - 1"
  have c: "vload32 k (x + 12) = Some (w (x + 12))" using khs.ld_rep [OF assms(1) timer_words(4) [OF assms(2)]] .
  obtain k1 where 1: "vstore32 (x + 12) ?c k = Some k1" "kernel_rep k1 B (w(x + 12 := ?c))" "devices k1 = devices k"
    using khs.st_rep [OF assms(1) timer_words(4) [OF assms(2)]] by blast
  show ?thesis using that [of k1] c 1 devicesD [OF 1(3)] False
    by (simp add: update_one_def tm_defs tick_def fire_def timer_at_def console_def)
qed

lemma update_one_expires:
  assumes "kernel_rep k B w" "khs.list_of B w 28 head (kept @ x # ys)" "expires (timer_at w x)" "w x = last (head # kept)"
    "only_console call g" "y = hd (ys @ [head])" "w' = w(x + 12 := 0, w x + 4 := y, y := y, x := x, x + 4 := x)"
  obtains k' l where "update_one call x k = Some k'" "(unat x, l) \<in> B" "28 \<le> l" "kernel_rep k' (B - {(unat x, l)}) w'"
    "khs.list_of (B - {(unat x, l)}) w' 28 head (kept @ ys)" "timer_ctx k' = timer_ctx k" "console k' = fire g (timer_at w x) (console k)"
proof -
  note L = khs.list_ofD [OF assms(2)]
  have x: "khs.obj B 28 x" "x \<notin> insert head (set (kept @ ys))" using L(2,3) by auto
  have c: "t_counter (timer_at w x) = 1" "t_flags (timer_at w x) AND TIMER_MODE_PERIODIC = 0"
    using assms(3) by (simp_all add: expires_def)
  obtain k1 where 1: "kernel_rep k1 B (w(x + 12 := 0))" "timer_ctx k1 = timer_ctx k" "console k1 = fire g (timer_at w x) (console k)"
    "update_one call x k = do { k \<leftarrow> llist_delete vload32 vstore32 x k1; kfree x k }"
    by (rule fire_run [OF assms(1) x(1) c(1) assms(5)]) (simp add: c)
  have same: "(w(x + 12 := 0)) x = w x" using khs.field_eq [OF assms(1) x(1,1), of 12 0] by simp
  have "khs.list_of B (w(x + 12 := 0)) 28 head (kept @ x # ys)"
    using khs.list_of_field [OF assms(1,2) x(1), of 12] by simp
  from khs.delete_list [OF 1(1) this _ assms(6), of w'] obtain k2 where
    2: "llist_delete vload32 vstore32 x k1 = Some k2" "devices k2 = devices k1" "kernel_rep k2 B w'" "khs.list_of B w' 28 head (kept @ ys)"
    using assms(4,7) same by auto
  obtain l where l: "(unat x, l) \<in> B" "28 \<le> l" using x(1) by (auto simp: khs.obj_def)
  obtain k3 where 3: "kfree x k2 = Some k3" "kernel_rep k3 (B - {(unat x, l)}) w'" "devices k3 = devices k2"
    using khs.release_rep [OF 2(3) l(1)] by auto
  have "khs.list_of (B - {(unat x, l)}) w' 28 head (kept @ ys)" by (rule khs.list_of_shrink [OF 2(4) x(2)])
  then show ?thesis
    using that [of k3 l] 1 2(1,2) 3 l devicesD [OF 2(2)] devicesD [OF 3(3)] by (simp add: console_def)
qed

section \<open>All timers\<close>

text \<open>The blocks of the timers that expire.\<close>

definition expired :: "(u32 \<Rightarrow> u32) \<Rightarrow> u32 list \<Rightarrow> (nat \<times> nat) set" where
  "expired w xs = {(p, l). 28 \<le> l \<and> (\<exists>x \<in> set xs. expires (timer_at w x) \<and> p = unat x)}"

definition untouched :: "(nat \<times> nat) set \<Rightarrow> u32 set \<Rightarrow> (u32 \<Rightarrow> u32) \<Rightarrow> (u32 \<Rightarrow> u32) \<Rightarrow> bool" where
  "untouched B X w w' \<longleftrightarrow> (\<forall>y f i. khs.obj B i y \<longrightarrow> y \<notin> X \<longrightarrow> f + 4 \<le> i \<longrightarrow> w' (y + of_nat f) = w (y + of_nat f))"

lemma fieldI: "x \<in> X \<Longrightarrow> f + 4 \<le> 28 \<Longrightarrow> x + of_nat f \<in> {x + of_nat f | x f. x \<in> X \<and> f + 4 \<le> (28 :: nat)}"
  by blast

lemma untouched_writes:
  assumes "kernel_rep k B w" "\<And>x. x \<in> X \<Longrightarrow> khs.obj B 28 x" "A \<subseteq> {x + of_nat f | x f. x \<in> X \<and> f + 4 \<le> 28}"
    and "\<And>a. a \<notin> A \<Longrightarrow> w' a = w a"
  shows "untouched B X w w'"
  unfolding untouched_def
proof (intro allI impI)
  fix y f i
  assume y: "khs.obj B i y" "y \<notin> X" "f + 4 \<le> i"
  have "y + of_nat f \<notin> A"
  proof
    assume "y + of_nat f \<in> A"
    then obtain x g where "x \<in> X" "g + 4 \<le> 28" "y + of_nat f = x + of_nat g" using assms(3) by blast
    then show False using khs.field_eq [OF assms(1) y(1) assms(2) y(3), of x g] y(2) by auto
  qed
  then show "w' (y + of_nat f) = w (y + of_nat f)" by (rule assms(4))
qed

lemma step_timer:
  assumes "kernel_rep k B w" "khs.list_of B w 28 head (kept @ x # ys)" "links_ok w (last (head # kept)) False (x # ys)"
    "only_console call g"
  obtains k' w' where "update_one call x k = Some k'" "kernel_rep k' (B - expired w [x]) w'"
    "khs.list_of (B - expired w [x]) w' 28 head ((kept @ filter (\<lambda>x. \<not> expires (timer_at w x)) [x]) @ ys)"
    "links_ok w' (last (head # kept @ filter (\<lambda>x. \<not> expires (timer_at w x)) [x])) False ys"
    "timer_ctx k' = timer_ctx k" "console k' = fire g (timer_at w x) (console k)"
    "\<And>z. khs.obj B 28 z \<Longrightarrow> z \<noteq> x \<Longrightarrow> timer_at w' z = timer_at w z" "\<not> expires (timer_at w x) \<Longrightarrow> timer_at w' x = tick (timer_at w x)"
    "untouched B (insert head (set (kept @ x # ys))) w w'"
    "\<And>z. \<not> expires (timer_at w x) \<Longrightarrow> khs.obj B 28 z \<Longrightarrow> w' z = w z"
proof -
  note L = khs.list_ofD [OF assms(2)]
  have x: "khs.obj B 28 x" using L(3) by simp
  have O: "\<And>z. z \<in> insert head (set (kept @ x # ys)) \<Longrightarrow> khs.obj B 28 z" using L(3) .
  note hdr = khs.header_eq [OF assms(1)]
  show ?thesis
  proof (cases "expires (timer_at w x)")
    case False
    let ?w = "w(x + 12 := t_counter (tick (timer_at w x)))"
    obtain k' where 1: "update_one call x k = Some k'" "kernel_rep k' B ?w" "timer_ctx k' = timer_ctx k"
      "console k' = fire g (timer_at w x) (console k)" by (rule update_one_stays [OF assms(1) x False assms(4)])
    have B: "expired w [x] = {}" using False by (simp add: expired_def)
    have "khs.list_of B ?w 28 head (kept @ x # ys)" using khs.list_of_field [OF assms(1,2) x, of 12] by simp
    moreover have "?w z = w z" if "khs.obj B 28 z" for z using khs.field_eq [OF assms(1) that x, of 0 12] by simp
    moreover have t: "timer_at ?w z = timer_at w z" if "khs.obj B 28 z" "z \<noteq> x" for z
      using timer_at_counter [OF assms(1) x that(1)] that(2) by simp
    moreover have "links_ok ?w x False ys = links_ok w x False ys"
    proof (rule links_ok_cong)
      fix z
      assume z: "z \<in> set ys"
      then have "khs.obj B 28 z" "z \<noteq> x" using L(2,3) by auto
      then show "timer_at ?w z = timer_at w z \<and> ?w z = w z" using t khs.field_eq [OF assms(1) _ x, of 28 z 0 12] by simp
    qed
    moreover have "timer_at ?w x = tick (timer_at w x)" using timer_at_counter [OF assms(1) x x] by (simp add: tick_def)
    moreover have "untouched B (insert head (set (kept @ x # ys))) w ?w"
    proof (rule untouched_writes [OF assms(1) O, where A = "{x + of_nat 12}"])
      show "{x + of_nat 12} \<subseteq> {z + of_nat f | z f. z \<in> insert head (set (kept @ x # ys)) \<and> f + 4 \<le> 28}"
        by (intro insert_subsetI empty_subsetI fieldI) simp_all
    qed simp_all
    ultimately show ?thesis using that [of k' ?w] 1 assms(3) False by (simp add: B)
  next
    case True
    let ?p = "w x" and ?y = "hd (ys @ [head])"
    let ?w = "w(x + 12 := 0, ?p + 4 := ?y, ?y := ?y, x := x, x + 4 := x)"
    have p: "?p = last (head # kept)" using assms(3) True by simp
    obtain k' l where 1: "update_one call x k = Some k'" "(unat x, l) \<in> B" "28 \<le> l" "kernel_rep k' (B - {(unat x, l)}) ?w"
      "khs.list_of (B - {(unat x, l)}) ?w 28 head (kept @ ys)" "timer_ctx k' = timer_ctx k" "console k' = fire g (timer_at w x) (console k)"
      by (rule update_one_expires [OF assms(1,2) True p assms(4) refl refl])
    have "j = l" if "(unat x, j) \<in> B" "28 \<le> j" for j
      using khs.apart_rep [OF assms(1) that(1) 1(2)] that(2) 1(3) by auto
    then have B: "B - expired w [x] = B - {(unat x, l)}" using True 1(3) by (auto simp: expired_def)
    have ins: "?p \<in> insert head (set kept)" "?y \<in> insert head (set ys)" unfolding p by (cases kept; cases ys; simp)+
    then have py: "khs.obj B 28 ?p" "khs.obj B 28 ?y" using L(3) by auto
    have t: "timer_at ?w z = timer_at w z" if z: "khs.obj B 28 z" "z \<noteq> x" for z
      using timer_fields [OF assms(1) x z(1), of 0] timer_fields [OF assms(1) x z(1), of 4] timer_fields [OF assms(1) x z(1), of 12]
        timer_fields [OF assms(1) py(1) z(1), of 4] timer_fields [OF assms(1) py(2) z(1), of 0] z(2) by (simp add: timer_at_def)
    have same: "?w z = w z" if z: "khs.obj B 28 z" "z \<noteq> x" "z \<noteq> ?y" for z
      using khs.field_eq [OF assms(1) z(1) x, of 0 12] hdr [OF x z(1)] hdr [OF py(1) z(1)] z(2,3) by auto
    have "links_ok ?w ?p False ys"
    proof (cases ys)
      case (Cons y zs)
      have zs: "links_ok ?w y False zs = links_ok w y False zs"
      proof (rule links_ok_cong)
        fix z
        assume "z \<in> set zs"
        then have "khs.obj B 28 z" "z \<noteq> x" "z \<noteq> ?y" using L(2,3) Cons by auto
        then show "timer_at ?w z = timer_at w z \<and> ?w z = w z" using t same by blast
      qed
      have "\<not> expires (timer_at w y)" "links_ok w y False zs" using assms(3) True Cons by auto
      moreover have "timer_at ?w y = timer_at w y" by (rule t) (use L(2,3) Cons in auto)
      ultimately show ?thesis using zs Cons by (simp only: links_ok.simps) simp
    qed simp
    moreover have "untouched B (insert head (set (kept @ x # ys))) w ?w"
    proof (rule untouched_writes [OF assms(1) O, where A = "{x + of_nat 12, ?p + of_nat 4, ?y + of_nat 0, x + of_nat 0, x + of_nat 4}"])
      show "{x + of_nat 12, ?p + of_nat 4, ?y + of_nat 0, x + of_nat 0, x + of_nat 4}
          \<subseteq> {z + of_nat f | z f. z \<in> insert head (set (kept @ x # ys)) \<and> f + 4 \<le> 28}"
        by (intro insert_subsetI empty_subsetI fieldI) (use ins in auto)
    qed simp_all
    ultimately show ?thesis using that [of k' ?w] 1 True t by (simp add: B p)
  qed
qed

lemma obj_expired: "khs.obj B i y \<Longrightarrow> (\<And>x. x \<in> set xs \<Longrightarrow> expires (timer_at w x) \<Longrightarrow> y \<noteq> x) \<Longrightarrow> khs.obj (B - expired w xs) i y"
  by (fastforce simp: khs.obj_def expired_def word_unat_eq_iff)

lemma untouched_trans:
  assumes "untouched B X w w'" "untouched (B - expired w xs) Y w' w''" "Y \<subseteq> X" "set xs \<subseteq> X"
  shows "untouched B X w w''"
  unfolding untouched_def
proof (intro allI impI)
  fix y f i
  assume y: "khs.obj B i y" "y \<notin> X" "f + 4 \<le> i"
  have "khs.obj (B - expired w xs) i y" by (rule obj_expired [OF y(1)]) (use y(2) assms(4) in auto)
  then show "w'' (y + of_nat f) = w (y + of_nat f)"
    using assms(1-3) y by (simp add: untouched_def subset_iff) metis
qed

lemma nexts_next: "nexts w x ys h \<Longrightarrow> w (x + 4) = hd (ys @ [h])"
  by (cases ys) auto

lemma update_loop_run:
  assumes "kernel_rep k B w" "khs.list_of B w 28 head (kept @ rest)" "links_ok w (last (head # kept)) False rest"
    "only_console call g" "pos = hd (rest @ [head])" "nxt = w (pos + 4)"
  shows "\<exists>k' w'. update_loop call head pos nxt k = Some k' \<and> kernel_rep k' (B - expired w rest) w'
    \<and> khs.list_of (B - expired w rest) w' 28 head (kept @ filter (\<lambda>x. \<not> expires (timer_at w x)) rest)
    \<and> timer_ctx k' = timer_ctx k \<and> console k' = fold (\<lambda>x. fire g (timer_at w x)) rest (console k)
    \<and> (\<forall>z. khs.obj B 28 z \<longrightarrow> z \<notin> set rest \<longrightarrow> timer_at w' z = timer_at w z)
    \<and> (\<forall>z \<in> set rest. \<not> expires (timer_at w z) \<longrightarrow> timer_at w' z = tick (timer_at w z))
    \<and> untouched B (insert head (set (kept @ rest))) w w'
    \<and> ((\<forall>z \<in> set rest. \<not> expires (timer_at w z)) \<longrightarrow> (\<forall>z. khs.obj B 28 z \<longrightarrow> w' z = w z))"
  using assms
proof (induction rest arbitrary: k B w kept pos nxt)
  case Nil
  then show ?case
    by (intro exI [of _ k] exI [of _ w]) (simp add: update_loop.simps expired_def untouched_def)
next
  case (Cons x ys)
  note L = khs.list_ofD [OF Cons.prems(2)]
  let ?k = "filter (\<lambda>x. \<not> expires (timer_at w x)) [x]"
  let ?B = "B - expired w [x]"
  obtain k1 w1 where 1: "update_one call x k = Some k1" "kernel_rep k1 ?B w1" "khs.list_of ?B w1 28 head ((kept @ ?k) @ ys)"
    "links_ok w1 (last (head # kept @ ?k)) False ys" "timer_ctx k1 = timer_ctx k" "console k1 = fire g (timer_at w x) (console k)"
    "\<And>z. khs.obj B 28 z \<Longrightarrow> z \<noteq> x \<Longrightarrow> timer_at w1 z = timer_at w z"
    "\<not> expires (timer_at w x) \<Longrightarrow> timer_at w1 x = tick (timer_at w x)"
    "untouched B (insert head (set (kept @ x # ys))) w w1"
    "\<And>z. \<not> expires (timer_at w x) \<Longrightarrow> khs.obj B 28 z \<Longrightarrow> w1 z = w z"
    by (rule step_timer [OF Cons.prems(1-4)]) blast
  have x: "x \<noteq> head" "x \<notin> set ys" using L(2) by auto
  have nxt: "nxt = hd (ys @ [head])"
    using L(4) Cons.prems(5,6) nexts_next [of w x ys head] by (simp add: nexts_append)
  then have "nxt \<in> insert head (set ((kept @ ?k) @ ys))" by (cases ys) auto
  then have ld: "vload32 k1 (nxt + 4) = Some (w1 (nxt + 4))"
    using khs.list_ofD(3) [OF 1(3)] by (intro khs.ld_rep [OF 1(2)] khs.obj_words(2) [where n = 28]) simp_all
  have same: "timer_at w1 z = timer_at w z" if "z \<in> set ys" for z
    by (rule 1(7)) (use that L(3) x(2) in auto)
  then have B: "?B - expired w1 ys = B - expired w (x # ys)" by (auto simp: expired_def)
  have f: "filter (\<lambda>x. \<not> expires (timer_at w1 x)) ys = filter (\<lambda>x. \<not> expires (timer_at w x)) ys"
    "fold (\<lambda>x. fire g (timer_at w1 x)) ys c = fold (\<lambda>x. fire g (timer_at w x)) ys c" for c
    using same by (auto intro: filter_cong fold_cong)
  obtain k' w' where 2: "update_loop call head nxt (w1 (nxt + 4)) k1 = Some k'" "kernel_rep k' (?B - expired w1 ys) w'"
    "khs.list_of (?B - expired w1 ys) w' 28 head ((kept @ ?k) @ filter (\<lambda>x. \<not> expires (timer_at w1 x)) ys)"
    "timer_ctx k' = timer_ctx k1" "console k' = fold (\<lambda>x. fire g (timer_at w1 x)) ys (console k1)"
    "\<forall>z. khs.obj ?B 28 z \<longrightarrow> z \<notin> set ys \<longrightarrow> timer_at w' z = timer_at w1 z"
    "\<forall>z \<in> set ys. \<not> expires (timer_at w1 z) \<longrightarrow> timer_at w' z = tick (timer_at w1 z)"
    "untouched ?B (insert head (set ((kept @ ?k) @ ys))) w1 w'"
    "(\<forall>z \<in> set ys. \<not> expires (timer_at w1 z)) \<longrightarrow> (\<forall>z. khs.obj ?B 28 z \<longrightarrow> w' z = w1 z)"
    using Cons.IH [OF 1(2,3,4) Cons.prems(4) nxt refl] by blast
  have "update_loop call head pos nxt k = Some k'"
    by (subst update_loop.simps) (use Cons.prems(5) x(1) 1(1) ld 2(1) in simp)
  moreover have "timer_at w' z = timer_at w z" if "khs.obj B 28 z" "z \<notin> set (x # ys)" for z
  proof -
    have "khs.obj ?B 28 z" by (rule obj_expired [OF that(1)]) (use that(2) in auto)
    then show ?thesis using 2(6) 1(7) [OF that(1)] that(2) by simp
  qed
  moreover have "timer_at w' z = tick (timer_at w z)" if "z \<in> set (x # ys)" "\<not> expires (timer_at w z)" for z
  proof (cases "z = x")
    case True
    have "khs.obj ?B 28 x" by (rule obj_expired) (use L(3) that True in auto)
    then show ?thesis using 2(6) 1(8) x(2) that(2) True by simp
  next
    case False
    then show ?thesis using 2(7) same that by auto
  qed
  moreover have "untouched B (insert head (set (kept @ x # ys))) w w'"
    by (rule untouched_trans [OF 1(9) 2(8)]) auto
  moreover have "w' z = w z" if "\<forall>z \<in> set (x # ys). \<not> expires (timer_at w z)" "khs.obj B 28 z" for z
  proof -
    have "expired w [x] = {}" using that(1) by (simp add: expired_def)
    then show ?thesis using 1(10) 2(9) same that by simp
  qed
  ultimately show ?case
    using 2(2-5) 1(5,6) by (intro exI [of _ k'] exI [of _ w']) (cases "expires (timer_at w x)"; simp add: B f)
qed

definition prescribed :: "(u32 \<Rightarrow> u32) \<Rightarrow> u32 list \<Rightarrow> timer list" where
  "prescribed w xs = map (timer_at w) xs"

text \<open>C13: a tick does to the list of timers what it should: every counter is decremented; a timer that reaches
  0 fires, in list order, and is reloaded when it is periodic and taken off the list and released when it is
  not. Three conditions are needed. The callbacks return and touch only the console and the clock. A timer that
  expires in this tick has an intact back link. No two neighbours expire in this tick. The last two are not kept
  by a tick in which a timer expires, since \<^verbatim>\<open>llist_delete\<close> spoils the back link of the next one; a tick in
  which none expires keeps all back links.\<close>

theorem timer_update_correct:
  assumes "timers k B w head xs" "links_ok w head False xs" "only_console call g"
  shows "\<exists>k' w' ys. timer_update call k = Some k' \<and> timers k' (B - expired w xs) w' head ys
    \<and> ys = filter (\<lambda>x. \<not> expires (timer_at w x)) xs \<and> prescribed w' ys = map tick (filter (\<lambda>t. \<not> expires t) (prescribed w xs))
    \<and> console k' = fold (fire g) (prescribed w xs) (console k)
    \<and> (ys = xs \<and> prevs w head xs head \<longrightarrow> prevs w' head ys head)"
proof -
  have T: "kernel_rep k B w" "khs.list_of B w 28 head xs" "khs.obj B 16 (timer_ctx k)" "timer_ctx k \<notin> insert head (set xs)"
    "w (timer_ctx k) = head" using assms(1) by (simp_all add: timers_def)
  note L = khs.list_ofD [OF T(2)]
  have pos: "w (head + 4) = hd (xs @ [head])" by (rule nexts_next [OF L(4)])
  then have pin: "w (head + 4) \<in> insert head (set xs)" by (cases xs) auto
  have ctx: "timer_ctx k \<in> words B" using khs.obj_word [OF T(3), of 0] by simp
  let ?ys = "filter (\<lambda>x. \<not> expires (timer_at w x)) xs"
  obtain k' w' where 1: "update_loop call head (w (head + 4)) (w (w (head + 4) + 4)) k = Some k'"
    "kernel_rep k' (B - expired w xs) w'" "khs.list_of (B - expired w xs) w' 28 head ?ys"
    "timer_ctx k' = timer_ctx k" "console k' = fold (\<lambda>x. fire g (timer_at w x)) xs (console k)"
    "\<forall>z \<in> set xs. \<not> expires (timer_at w z) \<longrightarrow> timer_at w' z = tick (timer_at w z)" "untouched B (insert head (set xs)) w w'"
    "(\<forall>z \<in> set xs. \<not> expires (timer_at w z)) \<longrightarrow> (\<forall>z. khs.obj B 28 z \<longrightarrow> w' z = w z)"
    using update_loop_run [OF T(1), where kept = "[]", of head xs, OF _ _ assms(3) pos refl] T(2) assms(2) by auto
  have ld: "vload32 k (x + 4) = Some (w (x + 4))" if "x \<in> insert head (set xs)" for x
    using khs.ld_rep [OF T(1) khs.obj_words(2) [OF L(3) [OF that]]] by simp
  have run: "timer_update call k = Some k'"
    using 1(1) khs.ld_rep [OF T(1) ctx] ld [of head] ld [OF pin] T(5) by (simp add: timer_update_def ctx_defs)
  have "khs.obj (B - expired w xs) 16 (timer_ctx k)" by (rule obj_expired [OF T(3)]) (use T(4) in auto)
  moreover have "w' (timer_ctx k) = head"
    using 1(7) [unfolded untouched_def, rule_format, OF T(3,4), of 0] T(5) by simp
  ultimately have "timers k' (B - expired w xs) w' head ?ys" using 1(2-4) T(4) by (auto simp: timers_def)
  moreover have "prescribed w' ?ys = map tick (filter (\<lambda>t. \<not> expires t) (prescribed w xs))"
    using 1(6) by (auto simp: prescribed_def filter_map o_def)
  moreover have "fold (\<lambda>x. fire g (timer_at w x)) xs c = fold (fire g) (prescribed w xs) c" for c
    by (simp add: prescribed_def fold_map o_def)
  moreover have "prevs w' head xs head" if "?ys = xs" "prevs w head xs head"
  proof -
    have "\<forall>z \<in> insert head (set xs). w' z = w z" using 1(8) L(3) that(1) by (simp add: filter_id_conv)
    then show ?thesis using prevs_cong that(2) by metis
  qed
  ultimately show ?thesis using run 1(5) by metis
qed

section \<open>A sample\<close>

fun writes :: "(u32 \<times> u32) list \<Rightarrow> (u32 \<Rightarrow> u32) \<Rightarrow> u32 \<Rightarrow> u32" where
  "writes [] w = w"
| "writes ((a, x) # ws) w = writes ws (w(a := x))"

lemma rep_writes:
  "kernel_rep k B w \<Longrightarrow> fst ` set ws \<subseteq> words B \<Longrightarrow> \<exists>k'. kernel_rep k' B (writes ws w) \<and> devices k' = devices k
    \<and> (\<forall>b. L1_INDEX b < 1023 \<longrightarrow> mmu_translate k' b = mmu_translate k b)"
proof (induction ws w arbitrary: k rule: writes.induct)
  case (2 a x ws w)
  from 2(3) have a: "a \<in> words B" by simp
  obtain k1 where 1: "vstore32 a x k = Some k1" "kernel_rep k1 B (w(a := x))" "devices k1 = devices k"
    using khs.st_rep [OF 2(2) a] by blast
  from 2(3) have "fst ` set ws \<subseteq> words B" by simp
  from 2(1) [OF 1(2) this] 1(3) kernel_store_translate [OF 2(2) a 1(1)] show ?case
    by (simp only: writes.simps) metis
qed auto

lemma heap_st_upd:
  assumes "heap_st v n m s" "i < 1023" "j < 1024" "l1e s i \<noteq> 0" "\<And>p. p \<in> {v ..< v + n} \<Longrightarrow> slot p \<noteq> (i, j)"
  shows "heap_st v n m (upd_entry i j e s)"
proof -
  let ?s = "upd_entry i j e s"
  have ok: "vm_ok s" "heap_pages s v n" and ph: "\<And>a. in_pages v n a \<Longrightarrow> phys s (heap_frame s (vpn a) + PG_OFFSET a) = m a"
    using assms(1) by (simp_all add: heap_st_def)
  have pm: "pagemap ?s (slot p) = pagemap s (slot p)" if "p \<in> {v ..< v + n}" for p
    using pagemap_upd [OF ok(1) assms(2,3,4), of e] assms(5) [OF that] by simp
  then have hf: "heap_frame ?s p = heap_frame s p" if "p \<in> {v ..< v + n}" for p using that by (simp add: heap_frame_def)
  note fr = vm_frame_upd [OF ok(1) assms(2-4), of e]
  have "page_free ?s = page_free s" by (simp add: page_free_def fun_eq_iff)
  then have "heap_pages ?s v n" using ok(2) pm hf fr(2) by (simp add: heap_pages_def inj_on_def)
  moreover have "phys ?s (heap_frame ?s (vpn a) + PG_OFFSET a) = m a" if a: "in_pages v n a" for a
  proof -
    obtain e' where "\<not> table_frame s (PG_ALIGN e')" "heap_frame s (vpn a) = PG_ALIGN e'" by (rule heap_page_entry [OF ok(2) a])
    then have "\<not> table_frame ?s (PG_ALIGN (heap_frame s (vpn a) + PG_OFFSET a))"
      using page_add(1) [of "heap_frame s (vpn a)" "PG_OFFSET a"] fr(2) by simp
    then show ?thesis using fr(1) ph [OF a] hf [of "vpn a"] a unfolding vm_frame_def in_pages_def by simp
  qed
  moreover have "vm_ok ?s" by (rule vm_ok_upd [OF ok(1) assms(2-4)])
  ultimately show ?thesis by (simp add: heap_st_def)
qed

text \<open>A heap with blocks for a context, a list head and two timers.\<close>

definition timer_blocks :: "(nat \<times> nat) set" where
  "timer_blocks = {(0x3004, 0), (0x3008, 12), (0x3018, 20), (0x3030, 28), (0x3050, 28), (0x3070, 28)}"

lemma timer_heap:
  obtains s :: vm and m where "heap_inv heap_vh 3 2 m [(4, True), (16, True), (24, True), (32, True), (32, True), (32, True), (0xF70, False)] s"
proof -
  have f: "first_fit (block_size 28) [(4, True), (16, True), (24, True), (0xFD0, False)] = Some ([(4, True), (16, True), (24, True)], 0xFD0, [])"
    "first_fit (block_size 28) [(4, True), (16, True), (24, True), (32, True), (0xFB0, False)]
      = Some ([(4, True), (16, True), (24, True), (32, True)], 0xFB0, [])"
    "first_fit (block_size 28) [(4, True), (16, True), (24, True), (32, True), (32, True), (0xF90, False)]
      = Some ([(4, True), (16, True), (24, True), (32, True), (32, True)], 0xF90, [])"
    by (simp_all add: block_size_def)
  have sz: "(28 :: u32) \<noteq> 0" "unat (28 :: u32) \<le> 0xFFFFFFF0" by simp_all
  obtain s :: vm and m where 1: "heap_inv heap_vh 3 2 m [(4, True), (16, True), (24, True), (0xFD0, False)] s"
    using vh_malloc by blast
  obtain s1 :: vm and m1 where 2: "heap_inv heap_vh 3 2 m1 [(4, True), (16, True), (24, True), (32, True), (0xFB0, False)] s1"
    using malloc_reuses [OF 1 sz f(1)] by (auto simp: placed_def block_size_def)
  obtain s2 :: vm and m2 where 3: "heap_inv heap_vh 3 2 m2 [(4, True), (16, True), (24, True), (32, True), (32, True), (0xF90, False)] s2"
    using malloc_reuses [OF 2 sz f(2)] by (auto simp: placed_def block_size_def)
  show ?thesis using malloc_reuses [OF 3 sz f(3)] that by (auto simp: placed_def block_size_def)
qed

lemma timer_heap_apic:
  obtains s :: vm and m where "heap_inv heap_vh 3 2 m [(4, True), (16, True), (24, True), (32, True), (32, True), (32, True), (0xF70, False)] s"
    "pagemap s (0, 1) = Some 0xFEE00003"
proof -
  obtain s :: vm and m where inv: "heap_inv heap_vh 3 2 m [(4, True), (16, True), (24, True), (32, True), (32, True), (32, True), (0xF70, False)] s"
    by (rule timer_heap)
  note st = heap_invD(1) [OF inv]
  have sl: "slot p \<noteq> (0, 1)" if "p \<in> {3 ..< 3 + 2}" for p
  proof -
    have "p = 3 \<or> p = 4" using that by auto
    then show ?thesis by (auto simp: slot_def)
  qed
  have "(3 :: nat) \<in> {3 ..< 3 + 2}" by simp
  then obtain e where "pagemap s (slot 3) = Some e" using st unfolding heap_st_def heap_pages_def by blast
  then have l1: "l1e s 0 \<noteq> 0" by (auto simp: slot_def pagemap_def)
  have ok: "vm_ok s" using st by (simp add: heap_st_def)
  have "heap_st 3 2 m (upd_entry 0 1 0xFEE00003 s)" by (rule heap_st_upd [OF st _ _ l1 sl]) simp_all
  then have "heap_inv heap_vh 3 2 m [(4, True), (16, True), (24, True), (32, True), (32, True), (32, True), (0xF70, False)] (upd_entry 0 1 0xFEE00003 s)"
    using inv by (simp add: heap_inv_def)
  moreover have "pagemap (upd_entry 0 1 0xFEE00003 s) (0, 1) = Some 0xFEE00003"
    using pagemap_upd [OF ok, of 0 1 "0xFEE00003"] l1 by simp
  ultimately show ?thesis by (rule that)
qed

text \<open>Two one-shot timers with counters \<open>c\<close> and \<open>d\<close>.\<close>

definition two_timers :: "u32 \<Rightarrow> u32 \<Rightarrow> (u32 \<times> u32) list" where
  "two_timers c d = [(0x3018, 0x3030), (0x3030, 0x3070), (0x3034, 0x3050),
     (0x3050, 0x3030), (0x3054, 0x3070), (0x3058, 9), (0x305C, c), (0x3060, 0), (0x3064, 0), (0x3068, 0),
     (0x3070, 0x3050), (0x3074, 0x3030), (0x3078, 9), (0x307C, d), (0x3080, 0), (0x3084, 0), (0x3088, 0)]"

lemma small_page_L1: "reg < 0x400 \<Longrightarrow> L1_INDEX (APIC_BASE_VADDR + reg) < 1023"
  by (simp add: small_page_offset(1) APIC_BASE_VADDR_def)

lemma two_timers_rep:
  obtains k w where "timers k timer_blocks w 0x3030 [0x3050, 0x3070]" "w 0x3050 = 0x3030" "w 0x3070 = 0x3050" "w 0x3030 = 0x3070"
    "apic_page_mapped k" "subscribers k = (\<lambda>_. None)" "rtc_counter k = 0" "apic_timer_done k = 0"
    "timer_at w 0x3050 = \<lparr>t_deadline = 9, t_counter = c, t_payload = 0, t_callback = 0, t_flags = 0\<rparr>"
    "timer_at w 0x3070 = \<lparr>t_deadline = 9, t_counter = d, t_payload = 0, t_callback = 0, t_flags = 0\<rparr>"
proof -
  obtain s :: vm and m where inv: "heap_inv heap_vh 3 2 m [(4, True), (16, True), (24, True), (32, True), (32, True), (32, True), (0xF70, False)] s"
    and apic: "pagemap s (0, 1) = Some 0xFEE00003" by (rule timer_heap_apic)
  let ?k = "(kernel_on s heap_vh)\<lparr>timer_ctx := 0x3018\<rparr>"
  have mac: "machine ?k = s" "k_heap ?k = heap_vh" by (simp_all add: machine_def kernel_on_def vm.defs kernel.defs)
  have B: "timer_blocks = heap_blocks heap_vh [(4, True), (16, True), (24, True), (32, True), (32, True), (32, True), (0xF70, False)]"
    by (auto simp: timer_blocks_def heap_vh_def)
  have rep: "kernel_rep ?k timer_blocks (load32 m)"
    by (rule kernel_repI [of _ 3 2 m]) (simp_all only: mac B inv)
  have obj: "khs.obj timer_blocks 16 0x3018" "khs.obj timer_blocks 28 0x3030" "khs.obj timer_blocks 28 0x3050" "khs.obj timer_blocks 28 0x3070"
    by (auto simp: khs.obj_def timer_blocks_def)
  have wd: "0x3018 \<in> words timer_blocks"
    "x \<in> {0x3030, 0x3050, 0x3070} \<Longrightarrow> {x, x + 4, x + 8, x + 12, x + 16, x + 20, x + 24} \<subseteq> words timer_blocks" for x
    using khs.obj_word [OF obj(1), of 0] timer_words [OF obj(2)] timer_words [OF obj(3)] timer_words [OF obj(4)] by auto
  have "fst ` set (two_timers c d) \<subseteq> words timer_blocks"
    using wd(1) wd(2) [of "0x3030"] wd(2) [of "0x3050"] wd(2) [of "0x3070"] by (simp add: two_timers_def)
  from rep_writes [OF rep this] obtain k where k: "kernel_rep k timer_blocks (writes (two_timers c d) (load32 m))"
    "devices k = devices ?k" "\<forall>b. L1_INDEX b < 1023 \<longrightarrow> mmu_translate k b = mmu_translate ?k b" by blast
  let ?w = "writes (two_timers c d) (load32 m)"
  have "vm_ok s" using heap_invD(1) [OF inv] by (simp add: heap_st_def)
  then have "apic_page_mapped (kernel_on s heap_vh)" by (rule apic_page_on [OF _ apic])
  then have "apic_page_mapped k" using k(3) small_page_L1 by (simp add: apic_page_mapped_def apic_mapped_def)
  moreover have "subscribers k = (\<lambda>_. None)" "rtc_counter k = 0" "apic_timer_done k = 0"
    using devicesD [OF k(2)] by (simp_all add: kernel_on_def vm.defs kernel.defs)
  moreover have "timer_ctx k = 0x3018" using devicesD(1) [OF k(2)] by simp
  moreover have "khs.list_of timer_blocks ?w 28 0x3030 [0x3050, 0x3070]"
    using obj by (simp add: khs.list_of_def two_timers_def)
  ultimately show ?thesis using k(1) obj(1) by (intro that [of k ?w]) (simp_all add: timers_def two_timers_def timer_at_def)
qed

lemma timer_update_correct_witness:
  "\<exists>k w k' w'. timers k timer_blocks w 0x3030 [0x3050, 0x3070] \<and> timer_update (\<lambda>cb p k. Some k) k = Some k'
    \<and> timers k' (timer_blocks - expired w [0x3050, 0x3070]) w' 0x3030 [0x3070]
    \<and> timer_at w' 0x3070 = \<lparr>t_deadline = 9, t_counter = 1, t_payload = 0, t_callback = 0, t_flags = 0\<rparr>"
proof -
  obtain k w where kw: "timers k timer_blocks w 0x3030 [0x3050, 0x3070]" "w 0x3050 = 0x3030" "w 0x3070 = 0x3050" "w 0x3030 = 0x3070"
    "timer_at w 0x3050 = \<lparr>t_deadline = 9, t_counter = 1, t_payload = 0, t_callback = 0, t_flags = 0\<rparr>"
    "timer_at w 0x3070 = \<lparr>t_deadline = 9, t_counter = 2, t_payload = 0, t_callback = 0, t_flags = 0\<rparr>"
    by (rule two_timers_rep)
  have ex: "expires (timer_at w 0x3050)" "\<not> expires (timer_at w 0x3070)" using kw(5,6) by (simp_all add: expires_def)
  have "links_ok w 0x3030 False [0x3050, 0x3070]" using kw(2) ex by simp
  moreover have "only_console (\<lambda>cb p k. Some k) (\<lambda>cb p io. io)" by (simp add: only_console_def console_def)
  ultimately obtain k' w' ys where 1: "timer_update (\<lambda>cb p k. Some k) k = Some k'"
    "timers k' (timer_blocks - expired w [0x3050, 0x3070]) w' 0x3030 ys"
    "prescribed w' ys = map tick (filter (\<lambda>t. \<not> expires t) (prescribed w [0x3050, 0x3070]))"
    "ys = filter (\<lambda>x. \<not> expires (timer_at w x)) [0x3050, 0x3070]"
    using timer_update_correct [OF kw(1)] by blast
  have ys: "ys = [0x3070]" using 1(4) ex by simp
  moreover have "timer_at w' 0x3070 = tick (timer_at w 0x3070)" using 1(3) ex ys by (simp add: prescribed_def)
  ultimately show ?thesis using kw(1,6) 1(1,2) by (auto simp: tick_def)
qed

section \<open>Neighbours that expire together\<close>

text \<open>The first of the two is taken off; the second one then links back to itself.\<close>

lemma first_of_two_expires:
  assumes "kernel_rep k B w" "khs.list_of B w 28 head [x, y]" "w x = head" "expires (timer_at w x)" "only_console call g"
  obtains k1 l w1 where "update_one call x k = Some k1" "(unat x, l) \<in> B" "28 \<le> l" "kernel_rep k1 (B - {(unat x, l)}) w1"
    "khs.list_of (B - {(unat x, l)}) w1 28 head [y]" "w1 y = y" "timer_at w1 y = timer_at w y"
proof -
  have list: "khs.list_of B w 28 head ([] @ x # [y])" using assms(2) by simp
  note L = khs.list_ofD [OF list]
  have o: "khs.obj B 28 head" "khs.obj B 28 x" "khs.obj B 28 y" and d: "head \<noteq> x" "head \<noteq> y" "x \<noteq> y"
    using L(3) [of head] L(3) [of x] L(3) [of y] L(2) by simp_all
  have p: "w x = last (head # [])" "y = hd ([y] @ [head])" using assms(3) by simp_all
  let ?w1 = "w(x + 12 := 0, w x + 4 := y, y := y, x := x, x + 4 := x)"
  obtain k1 l where 1: "update_one call x k = Some k1" "(unat x, l) \<in> B" "28 \<le> l" "kernel_rep k1 (B - {(unat x, l)}) ?w1"
    "khs.list_of (B - {(unat x, l)}) ?w1 28 head ([] @ [y])"
    by (rule update_one_expires [OF assms(1) list assms(4) p(1) assms(5) p(2) refl])
  note f = timer_fields [OF assms(1) o(2,3), of 0] timer_fields [OF assms(1) o(2,3), of 4] timer_fields [OF assms(1) o(2,3), of 12]
    timer_fields [OF assms(1) o(1,3), of 4] timer_fields [OF assms(1) o(3,3), of 0]
  have "timer_at ?w1 y = timer_at w y" using f d assms(3) by (simp add: timer_at_def)
  moreover have "?w1 y = y" using khs.header_eq(2) [OF assms(1) o(2,3)] d by auto
  ultimately show ?thesis using that [OF 1(1-4)] 1(5) by simp
qed

text \<open>Taking off a timer that links back to itself leaves the head linked to it, and releases it.\<close>

lemma self_linked_expires:
  assumes "kernel_rep k B w" "khs.list_of B w 28 head [y]" "w y = y" "expires (timer_at w y)" "only_console call g"
  obtains k' l w' where "update_one call y k = Some k'" "(unat y, l) \<in> B" "28 \<le> l" "kernel_rep k' (B - {(unat y, l)}) w'"
    "vload32 k' (head + 4) = Some y"
proof -
  note L = khs.list_ofD [OF assms(2)]
  have o: "khs.obj B 28 y" "khs.obj B 28 head" and d: "head \<noteq> y" and n: "w (y + 4) = head" "w (head + 4) = y"
    using L(3) [of head] L(3) [of y] L(2,4) by simp_all
  note wy = khs.obj_words [OF o(1), simplified] and wh = khs.obj_words [OF o(2), simplified]
  have t: "t_counter (timer_at w y) = 1" "t_flags (timer_at w y) AND TIMER_MODE_PERIODIC = 0"
    using assms(4) by (simp_all add: expires_def)
  obtain k2 where 2: "kernel_rep k2 B (w(y + 12 := 0))"
    "update_one call y k = do { k \<leftarrow> llist_delete vload32 vstore32 y k2; kfree y k }"
    by (rule fire_run [OF assms(1) o(1) t(1) assms(5)]) (simp add: t(2))
  let ?w2 = "w(y + 12 := 0)"
  have q: "y + 12 \<noteq> y" "y + 12 \<noteq> y + 4" "y + 12 \<noteq> head + 4" "y + 4 \<noteq> y" "y + 4 \<noteq> head" "head + 4 \<noteq> y" "head + 4 \<noteq> head"
    "y \<noteq> y + 12" "y + 4 \<noteq> y + 12" "head + 4 \<noteq> y + 12" "y \<noteq> y + 4" "head \<noteq> y + 4" "y \<noteq> head + 4" "head \<noteq> head + 4" "head + 4 \<noteq> y + 4"
    using khs.header_eq [OF assms(1) o(1,1)] khs.header_eq [OF assms(1) o(1,2)] khs.header_eq [OF assms(1) o(2,1)] khs.header_eq [OF assms(1) o(2,2)]
      timer_fields(2) [OF assms(1) o(1,1), of 0] timer_fields(2) [OF assms(1) o(1,1), of 4] timer_fields(2) [OF assms(1) o(2,1), of 4] d by auto
  have w2: "?w2 y = y" "?w2 (y + 4) = head" using assms(3) n q by simp_all
  let ?w3 = "?w2(y + 4 := head, head := head, y := y, y + 4 := y)"
  obtain k3 where 3: "llist_delete vload32 vstore32 y k2 = Some k3" "kernel_rep k3 B ?w3"
    by (rule khs.delete_run [OF 2(1) wy]; (simp only: w2 wy wh)?)
  obtain l where l: "(unat y, l) \<in> B" "28 \<le> l" using o(1) by (auto simp: khs.obj_def)
  obtain k4 where 4: "kfree y k3 = Some k4" "kernel_rep k4 (B - {(unat y, l)}) ?w3"
    using khs.release_rep [OF 3(2) l(1)] by auto
  have oh: "khs.obj (B - {(unat y, l)}) 28 head" by (rule khs.obj_shrink [OF o(2)]) (use d in simp)
  have "?w3 (head + 4) = y" using n q by simp
  then have "vload32 k4 (head + 4) = Some y" using khs.ld_rep [OF 4(2) khs.obj_words(2) [OF oh]] by simp
  then show ?thesis using that [OF _ l 4(2)] 2(2) 3(1) 4(1) by simp
qed

text \<open>C27: when the two timers of the list expire in the same tick, the code leaves the list in ruins: both
  are released, but the head still links to the second one.\<close>

theorem timer_update_dangles:
  assumes "timers k B w head [x, y]" "w x = head" "w y = x" "expires (timer_at w x)" "expires (timer_at w y)" "only_console call g"
  shows "\<exists>k' B' w'. timer_update call k = Some k' \<and> kernel_rep k' B' w' \<and> vload32 k' (head + 4) = Some y
    \<and> \<not> khs.obj B' 28 x \<and> \<not> khs.obj B' 28 y"
proof -
  have T: "kernel_rep k B w" "khs.list_of B w 28 head [x, y]" "khs.obj B 16 (timer_ctx k)" "w (timer_ctx k) = head"
    using assms(1) by (simp_all add: timers_def)
  note L = khs.list_ofD [OF T(2)]
  have o: "khs.obj B 28 head" "khs.obj B 28 x" and d: "head \<noteq> x" "head \<noteq> y" "x \<noteq> y" and n: "w (head + 4) = x" "w (x + 4) = y"
    using L(3) [of head] L(3) [of x] L(2,4) by simp_all
  obtain k1 l w1 where 1: "update_one call x k = Some k1" "(unat x, l) \<in> B" "28 \<le> l" "kernel_rep k1 (B - {(unat x, l)}) w1"
    "khs.list_of (B - {(unat x, l)}) w1 28 head [y]" "w1 y = y" "timer_at w1 y = timer_at w y"
    by (rule first_of_two_expires [OF T(1,2) assms(2,4,6)])
  let ?B = "B - {(unat x, l)}"
  have "expires (timer_at w1 y)" using assms(5) 1(7) by simp
  from self_linked_expires [OF 1(4-6) this assms(6)] obtain k2 l2 w2 where 2: "update_one call y k1 = Some k2"
    "(unat y, l2) \<in> ?B" "28 \<le> l2" "kernel_rep k2 (?B - {(unat y, l2)}) w2" "vload32 k2 (head + 4) = Some y" by metis
  have "khs.obj ?B 28 y" "w1 (y + 4) = head" using khs.list_ofD(3,4) [OF 1(5)] by simp_all
  then have "vload32 k1 (y + 4) = Some head" using khs.ld_rep [OF 1(4) khs.obj_words(2), of 28 y] by simp
  then have "update_loop call head x y k = Some k2"
    using 1(1) 2(1,5) d by (subst update_loop.simps, simp) (subst update_loop.simps, simp, simp add: update_loop.simps)
  moreover have "timer_update call k = update_loop call head x y k"
    using khs.ld_rep [OF T(1)] khs.obj_word [OF T(3), of 0] khs.obj_words(2) [OF o(1)] khs.obj_words(2) [OF o(2)] T(4) n
    by (simp add: timer_update_def ctx_defs)
  moreover have "\<not> khs.obj (?B - {(unat y, l2)}) 28 z" if z: "z = x \<or> z = y" for z
    using z 1(2,3) 2(2,3) khs.apart_rep [OF T(1), of "unat z" _ "unat x" l] khs.apart_rep [OF T(1), of "unat z" _ "unat y" l2]
    by (fastforce simp: khs.obj_def)
  ultimately show ?thesis using 2(4,5) by metis
qed

lemma timer_update_dangles_witness:
  "\<exists>k w k' B' w'. timers k timer_blocks w 0x3030 [0x3050, 0x3070] \<and> timer_update (\<lambda>cb p k. Some k) k = Some k'
    \<and> kernel_rep k' B' w' \<and> vload32 k' 0x3034 = Some 0x3070 \<and> \<not> khs.obj B' 28 0x3070"
proof -
  obtain k w where kw: "timers k timer_blocks w 0x3030 [0x3050, 0x3070]" "w 0x3050 = 0x3030" "w 0x3070 = 0x3050" "w 0x3030 = 0x3070"
    "timer_at w 0x3050 = \<lparr>t_deadline = 9, t_counter = 1, t_payload = 0, t_callback = 0, t_flags = 0\<rparr>"
    "timer_at w 0x3070 = \<lparr>t_deadline = 9, t_counter = 1, t_payload = 0, t_callback = 0, t_flags = 0\<rparr>"
    by (rule two_timers_rep)
  have ex: "expires (timer_at w 0x3050)" "expires (timer_at w 0x3070)" using kw(5,6) by (simp_all add: expires_def)
  have "only_console (\<lambda>cb p k. Some k) (\<lambda>cb p io. io)" by (simp add: only_console_def console_def)
  from timer_update_dangles [OF kw(1-3) ex this] kw(1) show ?thesis by auto
qed

section \<open>Starting a timer\<close>

lemma prevs_append:
  assumes "kernel_rep k B w" "khs.list_of B w 28 head xs" "khs.obj B 28 x" "x \<notin> insert head (set xs)" "prevs w head xs head"
  shows "prevs (w(w (head + 4) := x, x + 4 := w (head + 4), x := head, head + 4 := x)) head (x # xs) head"
proof -
  note L = khs.list_ofD [OF assms(2)]
  let ?n = "w (head + 4)"
  let ?w = "w(?n := x, x + 4 := ?n, x := head, head + 4 := x)"
  have o: "khs.obj B 28 z" if "z \<in> insert x (insert head (set xs))" for z using that L(3) assms(3) by auto
  have ne: "head + 4 \<noteq> z" "x + 4 \<noteq> z" if "z \<in> insert x (insert head (set xs))" for z
    using khs.header_eq(2) [OF assms(1) o [of head] o [OF that]] khs.header_eq(2) [OF assms(1) o [of x] o [OF that]] by auto
  have x: "?w x = head" using ne [of x] by simp
  show ?thesis
  proof (cases xs)
    case Nil
    then show ?thesis using L(4) x ne [of head] assms(4) by simp
  next
    case (Cons y ys)
    then have y: "?n = y" using L(4) by simp
    have "?w y = x" using y ne [of y] assms(4) Cons by auto
    moreover have "prevs ?w y ys head = prevs w y ys head"
    proof (rule prevs_cong)
      fix z
      assume "z \<in> insert head (set ys)"
      then show "?w z = w z" using y ne [of z] assms(4) L(2) Cons by auto
    qed
    ultimately show ?thesis using x assms(5) Cons by simp
  qed
qed

lemma links_ok_prevs: "prevs w p xs b \<Longrightarrow> (\<And>x. x \<in> set xs \<Longrightarrow> \<not> expires (timer_at w x)) \<Longrightarrow> links_ok w p gone xs"
  by (induction xs arbitrary: p gone) auto

lemma fresh_obj:
  assumes "kernel_rep k (insert (unat r, l) B) w" "(unat r, l) \<notin> B" "28 \<le> l" "khs.obj B n z" "0 < n"
  shows "z \<noteq> r" "khs.obj (insert (unat r, l) B) n z"
proof -
  obtain j where j: "(unat z, j) \<in> B" "n \<le> j" using assms(4) by (auto simp: khs.obj_def)
  show "z \<noteq> r" using khs.apart_rep [OF assms(1), of "unat z" j "unat r" l] assms(2,3,5) j by auto
  show "khs.obj (insert (unat r, l) B) n z" using j by (auto simp: khs.obj_def)
qed

text \<open>The fields of a new timer are filled in without touching any other object.\<close>

lemma fill_timer:
  assumes "kernel_rep k B w" "khs.obj B 28 r"
  obtains k' w' where "do { k \<leftarrow> vstore32 (r + 20) callback k; k \<leftarrow> vstore32 (r + 12) ticks k; k \<leftarrow> vstore32 (r + 8) ticks k;
      k \<leftarrow> vstore32 (r + 16) payload k; vstore8 (r + 24) flags k } = Some k'" "kernel_rep k' B w'" "devices k' = devices k"
    "timer_at w' r = \<lparr>t_deadline = ticks, t_counter = ticks, t_payload = payload, t_callback = callback, t_flags = flags\<rparr>"
    "\<And>z g i. khs.obj B i z \<Longrightarrow> z \<noteq> r \<Longrightarrow> g + 4 \<le> i \<Longrightarrow> w' (z + of_nat g) = w (z + of_nat g)"
proof -
  note wd = timer_words [OF assms(2)]
  obtain k2 where 2: "vstore32 (r + 20) callback k = Some k2" "kernel_rep k2 B (w(r + 20 := callback))" "devices k2 = devices k"
    using khs.st_rep [OF assms(1) wd(6)] by blast
  obtain k3 where 3: "vstore32 (r + 12) ticks k2 = Some k3" "kernel_rep k3 B (w(r + 20 := callback, r + 12 := ticks))"
    "devices k3 = devices k2" using khs.st_rep [OF 2(2) wd(4)] by blast
  obtain k4 where 4: "vstore32 (r + 8) ticks k3 = Some k4" "kernel_rep k4 B (w(r + 20 := callback, r + 12 := ticks, r + 8 := ticks))"
    "devices k4 = devices k3" using khs.st_rep [OF 3(2) wd(3)] by blast
  obtain k5 where 5: "vstore32 (r + 16) payload k4 = Some k5"
    "kernel_rep k5 B (w(r + 20 := callback, r + 12 := ticks, r + 8 := ticks, r + 16 := payload))"
    "devices k5 = devices k4" using khs.st_rep [OF 4(2) wd(5)] by blast
  obtain k6 v where 6: "vstore8 (r + 24) flags k5 = Some k6" "ucast v = flags" "devices k6 = devices k5"
    "kernel_rep k6 B (w(r + 20 := callback, r + 12 := ticks, r + 8 := ticks, r + 16 := payload, r + 24 := v))"
    using khs.st8_rep [OF 5(2) wd(7)] by blast
  let ?w = "w(r + 20 := callback, r + 12 := ticks, r + 8 := ticks, r + 16 := payload, r + 24 := v)"
  have "?w (z + of_nat g) = w (z + of_nat g)" if "khs.obj B i z" "z \<noteq> r" "g + 4 \<le> i" for z g i
  proof -
    have "z + of_nat g \<noteq> r + of_nat f" if "f \<in> {8, 12, 16, 20, 24}" for f
      using khs.field_eq [OF assms(1) \<open>khs.obj B i z\<close> assms(2) \<open>g + 4 \<le> i\<close>, of f] that \<open>z \<noteq> r\<close> by auto
    from this [of 8] this [of 12] this [of 16] this [of 20] this [of 24] show ?thesis by simp
  qed
  then show ?thesis
    using that [of k6 ?w] 2 3 4 5 6 by (simp add: timer_at_def)
qed

text \<open>A list whose objects keep their words is the same list of the same timers.\<close>

lemma list_kept:
  assumes "khs.list_of B w 28 head xs" "\<And>x g. x \<in> insert head (set xs) \<Longrightarrow> g \<in> {0, 4, 8, 12, 16, 20, 24} \<Longrightarrow> w' (x + of_nat g) = w (x + of_nat g)"
  shows "nexts w' head xs head" "prevs w' head xs head = prevs w head xs head" "prescribed w' xs = prescribed w xs"
proof -
  have same: "w' x = w x" "w' (x + 4) = w (x + 4)" "timer_at w' x = timer_at w x" if "x \<in> insert head (set xs)" for x
    using assms(2) [OF that, of 0] assms(2) [OF that, of 4] assms(2) [OF that, of 8] assms(2) [OF that, of 12]
      assms(2) [OF that, of 16] assms(2) [OF that, of 20] assms(2) [OF that, of 24] by (simp_all add: timer_at_def)
  show "nexts w' head xs head" using nexts_cong [of head xs w' w head] same(2) khs.list_ofD(4) [OF assms(1)] by simp
  show "prevs w' head xs head = prevs w head xs head" using prevs_cong [of head xs w' w head] same(1) by simp
  show "prescribed w' xs = prescribed w xs" using same(3) by (simp add: prescribed_def)
qed

text \<open>A filled timer is put in front.\<close>

lemma append_timer:
  assumes "kernel_rep k B w" "khs.list_of B w 28 head xs" "prevs w head xs head" "khs.obj B 28 r" "r \<notin> insert head (set xs)"
    "khs.obj B 16 (timer_ctx k)" "timer_ctx k \<notin> insert r (insert head (set xs))" "w (timer_ctx k) = head"
  obtains k' w' where "llist_append vload32 vstore32 head r k = Some k'" "devices k' = devices k" "timers k' B w' head (r # xs)"
    "prevs w' head (r # xs) head" "prescribed w' (r # xs) = timer_at w r # prescribed w xs"
proof -
  note L = khs.list_ofD [OF assms(2)]
  let ?n = "w (head + 4)"
  let ?w = "w(?n := r, r + 4 := ?n, r := head, head + 4 := r)"
  obtain k3 where 3: "llist_append vload32 vstore32 head r k = Some k3" "devices k3 = devices k" "kernel_rep k3 B ?w"
    "khs.list_of B ?w 28 head (r # xs)" by (rule khs.append_list [OF assms(1,2,4,5)])
  have nin: "?n \<in> insert head (set xs)" using L(4) by (cases xs) auto
  have no: "khs.obj B 28 ?n" "khs.obj B 28 head" using L(3) nin by simp_all
  have t: "timer_at ?w x = timer_at w x" if "khs.obj B 28 x" for x
    using timer_fields [OF assms(1) no(1) that, of 0] timer_fields [OF assms(1,4) that, of 4] timer_fields [OF assms(1,4) that, of 0]
      timer_fields [OF assms(1) no(2) that, of 4] by (simp add: timer_at_def)
  then have "prescribed ?w (r # xs) = timer_at w r # prescribed w xs" using assms(4) L(3) by (simp add: prescribed_def)
  moreover have "?w (timer_ctx k) = head"
    using khs.field_eq [OF assms(1,6,4), of 0 4] khs.field_eq [OF assms(1,6) no(2), of 0 4] assms(7,8) nin by auto
  then have "timers k3 B ?w head (r # xs)"
    using 3 assms(6,7) devicesD(1) [OF 3(2)] by (simp add: timers_def)
  moreover have "prevs ?w head (r # xs) head" by (rule prevs_append [OF assms(1,2,4,5,3)])
  ultimately show ?thesis using that 3(1,2) by blast
qed

text \<open>C19: \<^verbatim>\<open>timer_run\<close> either changes nothing and answers 0, or answers 1 and puts a new timer with the given
  ticks, callback, payload and flags in front of the others, which stay as they are; intact
  back links stay intact.\<close>

theorem timer_run_correct:
  assumes "timers k B w head xs" "prevs w head xs head"
  shows "\<exists>r k' B' w' ys. timer_run ticks callback payload flags k = Some (r, k') \<and> timers k' B' w' head ys \<and> prevs w' head ys head
    \<and> console k' = console k \<and> B \<subseteq> B'
    \<and> (r = 0 \<and> prescribed w' ys = prescribed w xs \<or> r = 1 \<and> prescribed w' ys =
        \<lparr>t_deadline = ticks, t_counter = ticks, t_payload = payload, t_callback = callback, t_flags = flags\<rparr> # prescribed w xs)"
proof -
  have T: "kernel_rep k B w" "khs.list_of B w 28 head xs" "khs.obj B 16 (timer_ctx k)" "timer_ctx k \<notin> insert head (set xs)"
    "w (timer_ctx k) = head" using assms(1) by (simp_all add: timers_def)
  note L = khs.list_ofD [OF T(2)]
  have good: "servable sizeof_lx_timer" by (simp add: servable_def sizeof_lx_timer_def)
  obtain r k1 w1 where 1: "kmalloc sizeof_lx_timer k = Some (r, k1)" "\<forall>c \<in> words B. w1 c = w c" "devices k1 = devices k"
    and r: "if r = 0 then kernel_rep k1 B w1
      else \<exists>l. unat sizeof_lx_timer \<le> l \<and> (unat r, l) \<notin> B \<and> kernel_rep k1 (insert (unat r, l) B) w1"
    using khs.alloc_rep [OF T(1) good] by blast
  note dev = devicesD [OF 1(3)]
  have same: "w1 (x + of_nat g) = w (x + of_nat g)" if "x \<in> insert head (set xs)" "g \<in> {0, 4, 8, 12, 16, 20, 24}" for x g
    using timer_words [OF L(3) [OF that(1)]] 1(2) that(2) by auto
  note kept = list_kept [of B w head xs w1, OF T(2) same]
  have ctx1: "w1 (timer_ctx k) = head" using khs.obj_word [OF T(3), of 0] 1(2) T(5) by simp
  show ?thesis
  proof (cases "r = 0")
    case True
    then have "timers k1 B w1 head xs" using r T(3,4) ctx1 L kept(1) dev(1) by (simp add: timers_def khs.list_of_def)
    moreover have "timer_run ticks callback payload flags k = Some (0, k1)" using 1(1) True by (simp add: timer_run_def)
    ultimately show ?thesis using kept(2,3) assms(2) dev(2,3) by (force simp: console_def)
  next
    case False
    then obtain l where l: "28 \<le> l" "(unat r, l) \<notin> B" "kernel_rep k1 (insert (unat r, l) B) w1"
      using r by (auto simp: sizeof_lx_timer_def)
    let ?B = "insert (unat r, l) B"
    note fresh = fresh_obj [OF l(3,2,1)]
    have or: "khs.obj ?B 28 r" using l(1) by (auto simp: khs.obj_def)
    obtain k2 w2 where 2: "do { k \<leftarrow> vstore32 (r + 20) callback k1; k \<leftarrow> vstore32 (r + 12) ticks k; k \<leftarrow> vstore32 (r + 8) ticks k;
        k \<leftarrow> vstore32 (r + 16) payload k; vstore8 (r + 24) flags k } = Some k2" "kernel_rep k2 ?B w2" "devices k2 = devices k1"
      "timer_at w2 r = \<lparr>t_deadline = ticks, t_counter = ticks, t_payload = payload, t_callback = callback, t_flags = flags\<rparr>"
      "\<And>z g i. khs.obj ?B i z \<Longrightarrow> z \<noteq> r \<Longrightarrow> g + 4 \<le> i \<Longrightarrow> w2 (z + of_nat g) = w1 (z + of_nat g)"
      by (rule fill_timer [OF l(3) or, of callback ticks payload flags]) blast
    have out: "x \<noteq> r" "khs.obj ?B 28 x" if "x \<in> insert head (set xs)" for x using fresh [OF L(3) [OF that]] by simp_all
    have list1: "khs.list_of ?B w1 28 head xs" using L(1,2) kept(1) out(2) by (simp add: khs.list_of_def)
    have same2: "w2 (x + of_nat g) = w1 (x + of_nat g)" if "x \<in> insert head (set xs)" "g \<in> {0, 4, 8, 12, 16, 20, 24}" for x g
      using 2(5) [OF out(2,1) [OF that(1)], of g] that(2) by auto
    note kept2 = list_kept [of ?B w1 head xs w2, OF list1 same2]
    have c: "timer_ctx k2 = timer_ctx k" using dev(1) devicesD(1) [OF 2(3)] by simp
    have ctx: "timer_ctx k \<noteq> r" "khs.obj ?B 16 (timer_ctx k)" using fresh [OF T(3)] by simp_all
    have ctx2: "w2 (timer_ctx k) = head" using 2(5) [OF ctx(2,1), of 0] ctx1 by simp
    have list2: "khs.list_of ?B w2 28 head xs" using L(1,2) kept2(1) out(2) by (simp add: khs.list_of_def)
    have "prevs w2 head xs head" using kept(2) kept2(2) assms(2) by simp
    from append_timer [OF 2(2) list2 this or] obtain k3 w3 where 3: "llist_append vload32 vstore32 head r k2 = Some k3"
      "devices k3 = devices k2" "timers k3 ?B w3 head (r # xs)" "prevs w3 head (r # xs) head"
      "prescribed w3 (r # xs) = timer_at w2 r # prescribed w2 xs"
      using out(1) ctx ctx2 c T(4) by auto
    have "vload32 k2 (timer_ctx k2) = Some head" using khs.ld_rep [OF 2(2)] khs.obj_word [OF ctx(2), of 0] ctx2 c by simp
    then have "timer_run ticks callback payload flags k = Some (1, k3)"
      using 1(1) False 2(1) 3(1) by (simp add: timer_run_def tm_defs ctx_defs bind_eq_Some_conv) blast
    moreover have "console k3 = console k"
      using dev devicesD [OF 2(3)] devicesD [OF 3(2)] by (simp add: console_def)
    moreover have "prescribed w3 (r # xs)
        = \<lparr>t_deadline = ticks, t_counter = ticks, t_payload = payload, t_callback = callback, t_flags = flags\<rparr> # prescribed w xs"
      using 3(5) 2(4) kept(3) kept2(3) by simp
    ultimately show ?thesis using 3(3,4) by blast
  qed
qed

lemma timer_run_correct_witness:
  "\<exists>k w r k' B' w' ys. timers k timer_blocks w 0x3030 [0x3050, 0x3070] \<and> timer_run 5 0xC0101000 0 1 k = Some (r, k')
    \<and> timers k' B' w' 0x3030 ys \<and> prevs w' 0x3030 ys 0x3030 \<and> r \<in> {0, 1}"
proof -
  obtain k w where kw: "timers k timer_blocks w 0x3030 [0x3050, 0x3070]" "w 0x3050 = 0x3030" "w 0x3070 = 0x3050" "w 0x3030 = 0x3070"
    using two_timers_rep by metis
  have "prevs w 0x3030 [0x3050, 0x3070] 0x3030" using kw(2-4) by simp
  from timer_run_correct [OF kw(1) this, of 5 "0xC0101000" 0 1] kw(1) show ?thesis by blast
qed

section \<open>Calibration\<close>

lemma timer_vectors: "ucast APIC_TIMER_IV = (202 :: u8)" "ucast RTC_TIMER_IV = (210 :: u8)"
  by (simp_all add: APIC_TIMER_IV_def RTC_TIMER_IV_def)

definition calibrating :: "kernel \<Rightarrow> (nat \<times> nat) set \<Rightarrow> (u32 \<Rightarrow> u32) \<Rightarrow> u32 \<Rightarrow> bool" where
  "calibrating k B w c \<longleftrightarrow> kernel_rep k B w \<and> khs.obj B 16 (timer_ctx k) \<and> apic_page_mapped k
     \<and> subscribers k 202 = Some Temp_intr_routine_apic_timer \<and> subscribers k 210 = Some Temp_intr_routine_rtc_tick
     \<and> apic_timer_done k = 0 \<and> rtc_counter k = c"

lemma rtc_tick_step:
  assumes "calibrating k B w c" "vector param = 210"
  obtains k' where "intr_handler (call_code (timer_code call)) p param k = Some (Return k')" "calibrating k' B w (c + 1)"
    "timer_ctx k' = timer_ctx k" "k_tty k' = k_tty k"
proof -
  let ?k1 = "temp_intr_routine_rtc_tick k"
  have m: "apic_page_mapped ?k1" using assms(1)
    by (simp add: calibrating_def temp_intr_routine_rtc_tick_def Let_def apic_page_mapped_def)
  have "intr_handler (call_code (timer_code call)) p param k = Some (Return (apic_put APIC_EOI 0 ?k1))"
    using intr_handler_acknowledges [OF _ _ _ m, of param k Temp_intr_routine_rtc_tick "call_code (timer_code call)" p] assms
    by (simp add: calibrating_def)
  moreover have "calibrating (apic_put APIC_EOI 0 ?k1) B w (c + 1)"
    using assms(1) m by (simp add: calibrating_def temp_intr_routine_rtc_tick_def Let_def apic_put_def kernel_rep_def)
      (simp add: apic_page_mapped_def)
  moreover have "timer_ctx (apic_put APIC_EOI 0 ?k1) = timer_ctx k" "k_tty (apic_put APIC_EOI 0 ?k1) = k_tty k"
    by (simp_all add: temp_intr_routine_rtc_tick_def Let_def apic_put_def)
  ultimately show ?thesis using that by blast
qed

lemma apic_timer_step:
  assumes "calibrating k B w c" "vector param = 202" "c \<noteq> 0"
  obtains k' where "intr_handler (call_code (timer_code call)) p param k = Some (Return k')" "apic_timer_done k' = 1"
    "kernel_rep k' B (w(timer_ctx k + 4 := 0x100000 div c * 1024))" "timer_ctx k' = timer_ctx k" "apic_page_mapped k'"
    "devices k' = devices (apic_put APIC_EOI 0 (k\<lparr>apic_timer_done := 1, k_cmos := rtc_disable_timer (k_cmos k)\<rparr>))"
proof -
  have C: "kernel_rep k B w" "khs.obj B 16 (timer_ctx k)" "apic_page_mapped k" "rtc_counter k = c"
    "subscribers k 202 = Some Temp_intr_routine_apic_timer" using assms(1) by (simp_all add: calibrating_def)
  have at: "timer_ctx k + 4 \<in> words B" using khs.obj_word [OF C(2), of 4] by simp
  let ?f = "0x100000 div c * 1024 :: u32"
  obtain k1 where 1: "vstore32 (timer_ctx k + 4) ?f k = Some k1" "kernel_rep k1 B (w(timer_ctx k + 4 := ?f))" "devices k1 = devices k"
    using khs.st_rep [OF C(1) at] by blast
  let ?k2 = "k1\<lparr>apic_timer_done := 1, k_cmos := rtc_disable_timer (k_cmos k1)\<rparr>"
  have "mmu_translate k1 (APIC_BASE_VADDR + reg) = mmu_translate k (APIC_BASE_VADDR + reg)" if "reg < 0x400" for reg
    by (rule kernel_store_translate [OF C(1) at 1(1) small_page_L1 [OF that]])
  then have m: "apic_page_mapped ?k2" using C(3) by (simp add: apic_page_mapped_def) (simp add: apic_mapped_def)
  have run: "temp_intr_routine_apic_timer k = Some ?k2"
    using assms(3) C(4) 1(1) by (simp add: temp_intr_routine_apic_timer_def ctx_defs APIC_CALIBRATION_CONST_def RTC_TIMER_BASE_FREQUENCY_def)
  have "intr_handler (call_code (timer_code call)) p param k = Some (Return (apic_put APIC_EOI 0 ?k2))"
    using intr_handler_acknowledges [OF _ _ _ m, of param k Temp_intr_routine_apic_timer "call_code (timer_code call)" p] assms(2) C(5) run
    by simp
  moreover have "kernel_rep (apic_put APIC_EOI 0 ?k2) B (w(timer_ctx k + 4 := ?f))"
    using 1(2) by (simp add: apic_put_def kernel_rep_def)
  moreover have "devices (apic_put APIC_EOI 0 ?k2)
      = devices (apic_put APIC_EOI 0 (k\<lparr>apic_timer_done := 1, k_cmos := rtc_disable_timer (k_cmos k)\<rparr>))"
    using 1(3) by (cases k; cases k1) (simp add: devices_def apic_put_def)
  moreover have "timer_ctx k1 = timer_ctx k" by (rule devicesD [OF 1(3)])
  ultimately show ?thesis using that [of "apic_put APIC_EOI 0 ?k2"] m by (simp add: apic_put_def apic_page_mapped_def)
qed

lemma wait_done: "apic_timer_done k \<noteq> 0 \<Longrightarrow> wait_until_done handle es k = Some (Return k)"
  by (cases es) auto

lemma calibration_run:
  assumes "calibrating k B w c" "\<forall>e \<in> set ticks. vector (snd e) = 210" "vector param = 202" "c + of_nat (length ticks) \<noteq> 0"
  shows "\<exists>k'. wait_until_done (intr_handler (call_code (timer_code call))) (ticks @ (p, param) # rest) k = Some (Return k')
    \<and> kernel_rep k' B (w(timer_ctx k + 4 := 0x100000 div (c + of_nat (length ticks)) * 1024)) \<and> timer_ctx k' = timer_ctx k
    \<and> apic_page_mapped k' \<and> k_tty k' = k_tty k \<and> apic_timer_done k' = 1"
  using assms
proof (induction ticks arbitrary: k c)
  case Nil
  obtain k' where k': "intr_handler (call_code (timer_code call)) p param k = Some (Return k')" "apic_timer_done k' = 1"
    "kernel_rep k' B (w(timer_ctx k + 4 := 0x100000 div c * 1024))" "timer_ctx k' = timer_ctx k" "apic_page_mapped k'"
    "devices k' = devices (apic_put APIC_EOI 0 (k\<lparr>apic_timer_done := 1, k_cmos := rtc_disable_timer (k_cmos k)\<rparr>))"
    by (rule apic_timer_step [OF Nil.prems(1,3)]) (use Nil.prems(4) in simp)
  have "k_tty k' = k_tty k" using devicesD(2) [OF k'(6)] by (simp add: apic_put_def)
  then show ?case using k' Nil.prems(1) by (simp add: calibrating_def wait_done fun_upd_def)
next
  case (Cons e ticks)
  obtain q d where e: "e = (q, d)" by fastforce
  obtain k1 where 1: "intr_handler (call_code (timer_code call)) q d k = Some (Return k1)" "calibrating k1 B w (c + 1)"
    "timer_ctx k1 = timer_ctx k" "k_tty k1 = k_tty k" by (rule rtc_tick_step [OF Cons.prems(1)]) (use Cons.prems(2) e in auto)
  have "c + 1 + of_nat (length ticks) \<noteq> 0" using Cons.prems(4) by (simp add: ac_simps)
  from Cons.IH [OF 1(2) _ Cons.prems(3) this] Cons.prems(1,2) 1 e show ?case
    by (simp add: calibrating_def ac_simps fun_upd_def)
qed

text \<open>C22: calibration through the interrupt dispatcher: after at least one clock tick the first APIC timer
  interrupt ends the wait with the base frequency \<open>0x100000 / ticks * 1024\<close> in the context; when it comes
  before the first tick the wait does not return, because the handler divides by zero.\<close>

theorem calibration_measures:
  assumes "calibrating k B w 0" "\<forall>e \<in> set ticks. vector (snd e) = 210" "vector param = 202" "length ticks < 4294967296"
  shows "if ticks = [] then wait_until_done (intr_handler (call_code (timer_code call))) (ticks @ (p, param) # rest) k = None
    else \<exists>k'. wait_until_done (intr_handler (call_code (timer_code call))) (ticks @ (p, param) # rest) k = Some (Return k')
      \<and> vload32 k' (ctx_base_frequency (timer_ctx k')) = Some (0x100000 div of_nat (length ticks) * 1024)
      \<and> apic_timer_done k' = 1 \<and> k_tty k' = k_tty k"
proof (cases "ticks = []")
  case True
  have "intr_handler (call_code (timer_code call)) p param k = None"
    using assms(1,3) by (simp add: calibrating_def intr_handler_def temp_intr_routine_apic_timer_def)
  then show ?thesis using assms(1) True by (simp add: calibrating_def)
next
  case False
  have "(of_nat (length ticks) :: u32) \<noteq> 0" using of_nat_inject_u32 [OF assms(4), of 0] False by simp
  then have "0 + of_nat (length ticks) \<noteq> (0 :: u32)" by simp
  from calibration_run [OF assms(1-3) this, of call p rest] obtain k' where k':
    "wait_until_done (intr_handler (call_code (timer_code call))) (ticks @ (p, param) # rest) k = Some (Return k')"
    "kernel_rep k' B (w(timer_ctx k + 4 := 0x100000 div of_nat (length ticks) * 1024))" "timer_ctx k' = timer_ctx k"
    "k_tty k' = k_tty k" "apic_timer_done k' = 1" by auto
  have "timer_ctx k + 4 \<in> words B" using assms(1) khs.obj_word [of B 16 "timer_ctx k" 4] by (simp add: calibrating_def)
  from khs.ld_rep [OF k'(2) this] have "vload32 k' (ctx_base_frequency (timer_ctx k')) = Some (0x100000 div of_nat (length ticks) * 1024)"
    using k'(3) by (simp add: ctx_defs)
  then show ?thesis using k'(1,4,5) by (simp only: False if_False) blast
qed

lemma calibration_measures_witness:
  "\<exists>k k'. wait_until_done (intr_handler (call_code (timer_code (\<lambda>cb p k. Some k))))
      [(0xC0002000, fault_param 210), (0xC0002000, fault_param 210), (0xC0002000, fault_param 202), (0xC0002000, fault_param 202)] k
      = Some (Return k')
    \<and> vload32 k' (ctx_base_frequency (timer_ctx k')) = Some (0x100000 div 2 * 1024)"
proof -
  let ?S = "(\<lambda>_. None)(202 := Some Temp_intr_routine_apic_timer, 210 := Some Temp_intr_routine_rtc_tick)"
  obtain k w where kw: "timers k timer_blocks w 0x3030 [0x3050, 0x3070]" "apic_page_mapped k" "subscribers k = (\<lambda>_. None)" "rtc_counter k = 0" "apic_timer_done k = 0"
    by (rule two_timers_rep)
  have "calibrating (k\<lparr>subscribers := ?S\<rparr>) timer_blocks w 0"
    using kw by (simp add: calibrating_def timers_def kernel_rep_def apic_page_mapped_def)
  from calibration_measures [OF this, of "[(0xC0002000, fault_param 210), (0xC0002000, fault_param 210)]" "fault_param 202"
      "\<lambda>cb p k. Some k" "0xC0002000" "[(0xC0002000, fault_param 202)]"]
  show ?thesis by (auto simp: fault_param_def)
qed

end
