(* ===== verification/Acpi.thy ===== *)
theory Acpi
  imports Apic
begin

text \<open>
  The ACPI tables and the IO APIC: \<^verbatim>\<open>hal/acpi/acpi.c\<close>, \<^verbatim>\<open>hal/acpi/parser/madt_parser.c\<close> and
  \<^verbatim>\<open>hal/ioapic.c\<close> with their headers. Tables are read through the page tables, so a stray pointer is
  a fault. The context built from them is a record; the table of interrupt overrides is a list of
  24 pointers, empty when \<^verbatim>\<open>lxcalloc\<close> had no memory, and storing or reading outside it is \<open>None\<close>.
\<close>

unbundle bit_operations_syntax

section \<open>The layout of the tables (sdt.h, madt.h, acpi.h)\<close>

definition ACPI_RSDP_SIG_L :: u32 where "ACPI_RSDP_SIG_L = 0x20445352"
definition ACPI_MADT_SIG :: u32 where "ACPI_MADT_SIG = 0x43495041"
definition ACPI_MADT_LAPIC :: u8 where "ACPI_MADT_LAPIC = 0x0"
definition ACPI_MADT_IOAPIC :: u8 where "ACPI_MADT_IOAPIC = 0x1"
definition ACPI_MADT_INTSO :: u8 where "ACPI_MADT_INTSO = 0x2"

text \<open>Offsets of the members of the packed structures.\<close>

definition rsdp_rsdt :: "u32 \<Rightarrow> u32" where "rsdp_rsdt p = p + 16"
definition sdthdr_signature :: "u32 \<Rightarrow> u32" where "sdthdr_signature p = p"
definition sdthdr_length :: "u32 \<Rightarrow> u32" where "sdthdr_length p = p + 4"
definition sdthdr_oem_id :: "u32 \<Rightarrow> u32" where "sdthdr_oem_id p = p + 10"
definition sizeof_sdthdr :: u32 where "sizeof_sdthdr = 36"
definition rsdt_entry :: "u32 \<Rightarrow> u32" where "rsdt_entry p = p + sizeof_sdthdr"
definition madt_apic_addr :: "u32 \<Rightarrow> u32" where "madt_apic_addr p = p + sizeof_sdthdr"
definition sizeof_madt :: u32 where "sizeof_madt = 44"
definition ics_type :: "u32 \<Rightarrow> u32" where "ics_type p = p"
definition ics_length :: "u32 \<Rightarrow> u32" where "ics_length p = p + 1"
definition ioapic_ioapic_addr :: "u32 \<Rightarrow> u32" where "ioapic_ioapic_addr p = p + 4"
definition intso_source :: "u32 \<Rightarrow> u32" where "intso_source p = p + 3"
definition intso_gsi :: "u32 \<Rightarrow> u32" where "intso_gsi p = p + 4"
definition sizeof_acpi_context :: u32 where "sizeof_acpi_context = 23"

lemmas layout_defs = rsdp_rsdt_def sdthdr_signature_def sdthdr_length_def sdthdr_oem_id_def sizeof_sdthdr_def rsdt_entry_def
  madt_apic_addr_def sizeof_madt_def ics_type_def ics_length_def ioapic_ioapic_addr_def intso_source_def intso_gsi_def

section \<open>madt_parser.c\<close>

definition store_ics :: "'a vm_scheme \<Rightarrow> u32 \<Rightarrow> acpi_context \<Rightarrow> acpi_context option" where
  "store_ics s entry toc = do {
     ty \<leftarrow> vload8 s (ics_type entry);
     if ty = ACPI_MADT_LAPIC then Some (toc\<lparr>toc_apic := entry\<rparr>)
     else if ty = ACPI_MADT_IOAPIC then Some (toc\<lparr>toc_ioapic := entry\<rparr>)
     else if ty = ACPI_MADT_INTSO then do {
       source \<leftarrow> vload8 s (intso_source entry);
       if unat source < length (irq_exception toc)
       then Some (toc\<lparr>irq_exception := (irq_exception toc)[unat source := entry]\<rparr>) else None
     } else Some toc
   }"

partial_function (option) ics_loop :: "'a vm_scheme \<Rightarrow> u32 \<Rightarrow> u32 \<Rightarrow> acpi_context \<Rightarrow> acpi_context option" where
  "ics_loop s ics_start ics_end toc =
    (if ics_start < ics_end then do {
       toc \<leftarrow> store_ics s ics_start toc;
       len \<leftarrow> vload8 s (ics_length ics_start);
       ics_loop s (ics_start + ucast len) ics_end toc
     } else Some toc)"

definition madt_parse :: "u32 \<Rightarrow> acpi_context \<Rightarrow> heap_context \<Rightarrow> 'a vm_scheme
    \<Rightarrow> (acpi_context \<times> heap_context \<times> 'a vm_scheme) option" where
  "madt_parse madt toc heap s = do {
     apic_addr \<leftarrow> vload32 s (madt_apic_addr madt);
     let toc = toc\<lparr>toc_apic_addr := apic_addr\<rparr>;
     let ics_start = madt + sizeof_madt;
     length \<leftarrow> vload32 s (sdthdr_length madt);
     let ics_end = madt + length;
     (table, heap, s) \<leftarrow> lxcalloc 24 4 heap s;
     let toc = toc\<lparr>irq_exception := (if table = 0 then [] else replicate 24 0)\<rparr>;
     toc \<leftarrow> ics_loop s ics_start ics_end toc;
     Some (toc, heap, s)
   }"

section \<open>acpi.c\<close>

fun rsdp_sum :: "nat \<Rightarrow> u32 \<Rightarrow> u8 \<Rightarrow> 'a vm_scheme \<Rightarrow> u8 option" where
  "rsdp_sum 0 p acc s = Some acc"
| "rsdp_sum (Suc n) p acc s = do { b \<leftarrow> vload8 s p; rsdp_sum n (p + 1) (acc + b) s }"

definition acpi_rsdp_validate :: "u32 \<Rightarrow> 'a vm_scheme \<Rightarrow> bool option" where
  "acpi_rsdp_validate rsdp s = do { acc \<leftarrow> rsdp_sum 20 rsdp 0 s; Some (acc = 0) }"

function rsdp_search :: "u32 \<Rightarrow> 'a vm_scheme \<Rightarrow> u32 option" where
  "rsdp_search mem_start s =
    (if mem_start < 0x100000 then do {
       sig_low \<leftarrow> vload32 s mem_start;
       if sig_low = ACPI_RSDP_SIG_L then Some mem_start else rsdp_search (mem_start + 16) s
     } else Some 0)"
  by auto

lemma rsdp_step: "p < (0x100000 :: u32) \<Longrightarrow> unat (p + 16) = unat p + 16"
  by (subst unat_add_u32) (simp_all add: word_less_nat_alt)

termination rsdp_search
  by (relation "measure (\<lambda>(p, s). 0x200000 - unat p)") (auto simp: rsdp_step word_less_nat_alt)

declare rsdp_search.simps [simp del]

definition acpi_locate_rsdp :: "'a vm_scheme \<Rightarrow> u32 option" where
  "acpi_locate_rsdp s = rsdp_search 0x4000 s"

text \<open>\<^verbatim>\<open>strncpy\<close> from the table: bytes up to a terminator, padded with zeros.\<close>

fun copy_oem :: "nat \<Rightarrow> u32 \<Rightarrow> 'a vm_scheme \<Rightarrow> u8 list option" where
  "copy_oem 0 p s = Some []"
| "copy_oem (Suc n) p s = do {
     c \<leftarrow> vload8 s p;
     if c = 0 then Some (replicate (Suc n) 0) else do { cs \<leftarrow> copy_oem n (p + 1) s; Some (c # cs) }
   }"

text \<open>The loop over the entries of the RSDT.\<close>

fun rsdt_loop :: "nat \<Rightarrow> u32 \<Rightarrow> u32 \<Rightarrow> acpi_context \<Rightarrow> heap_context \<Rightarrow> 'a vm_scheme
    \<Rightarrow> (acpi_context \<times> heap_context \<times> 'a vm_scheme) option" where
  "rsdt_loop 0 i rsdt toc heap s = Some (toc, heap, s)"
| "rsdt_loop (Suc n) i rsdt toc heap s = do {
     sdthdr \<leftarrow> vload32 s (rsdt_entry rsdt + 4 * i);
     signature \<leftarrow> vload32 s (sdthdr_signature sdthdr);
     (toc, heap, s) \<leftarrow> (if signature = ACPI_MADT_SIG then madt_parse sdthdr toc heap s else Some (toc, heap, s));
     rsdt_loop n (i + 1) rsdt toc heap s
   }"

fun print_overrides :: "u32 list \<Rightarrow> kernel \<Rightarrow> kernel option" where
  "print_overrides [] k = Some k"
| "print_overrides (intso # rest) k =
    (if intso = 0 then print_overrides rest k
     else do {
       source \<leftarrow> vload8 k (intso_source intso);
       gsi \<leftarrow> vload32 k (intso_gsi intso);
       k \<leftarrow> kprintf ''ACPI'' (KINFO @ bytes ''IRQ #%u -> GSI #%u'' @ nl) [Int_arg (ucast source), Int_arg gsi] k;
       print_overrides rest k
     })"

text \<open>\<^verbatim>\<open>acpi_init\<close>. The context is only a value here, its block is allocated all the same; without
  memory for it, or without an IO APIC entry, the code uses the null pointer, which is a fault as
  page 0 is not mapped by then. The result of the checksum is an argument of \<^verbatim>\<open>assert_msg\<close> and so dropped.\<close>

definition acpi_init :: "kernel \<Rightarrow> kernel option" where
  "acpi_init k = do {
     rsdp \<leftarrow> acpi_locate_rsdp k;
     _ \<leftarrow> acpi_rsdp_validate rsdp k;
     rsdt \<leftarrow> vload32 k (rsdp_rsdt rsdp);
     k \<leftarrow> kprintf ''ACPI'' (KINFO @ bytes ''RSDP found at %p, RSDT: %p'' @ nl) [Int_arg rsdp, Int_arg rsdt] k;
     (ctx, heap, k) \<leftarrow> lxcalloc 1 sizeof_acpi_context (k_heap k) k;
     if ctx = 0 then None
     else do {
       oem \<leftarrow> copy_oem 6 (sdthdr_oem_id rsdt) k;
       let toc = \<lparr>oem_id = oem @ [0], toc_apic_addr = 0, toc_apic = 0, toc_ioapic = 0, irq_exception = []\<rparr>;
       length \<leftarrow> vload32 k (sdthdr_length rsdt);
       let entry_n = drop_bit 2 (length - sizeof_sdthdr);
       (toc, heap, k) \<leftarrow> rsdt_loop (unat entry_n) 0 rsdt toc heap k;
       let k = k\<lparr>k_heap := heap, k_toc := Some toc\<rparr>;
       k \<leftarrow> kprintf ''ACPI'' (KINFO @ bytes ''OEM: %s'' @ nl) [Str_arg (takeWhile (\<lambda>c. c \<noteq> 0) (oem_id toc))] k;
       ioapic_addr \<leftarrow> vload32 k (ioapic_ioapic_addr (toc_ioapic toc));
       k \<leftarrow> kprintf ''ACPI'' (KINFO @ bytes ''IOAPIC address: %p'' @ nl) [Int_arg ioapic_addr] k;
       k \<leftarrow> kprintf ''ACPI'' (KINFO @ bytes ''APIC address: %p'' @ nl) [Int_arg (toc_apic_addr toc)] k;
       if irq_exception toc = [] then None else print_overrides (irq_exception toc) k
     }
   }"

definition acpi_get_context :: "kernel \<Rightarrow> acpi_context option" where
  "acpi_get_context k = k_toc k"

section \<open>ioapic.c\<close>

definition IOAPIC_BASE_VADDR :: u32 where "IOAPIC_BASE_VADDR = 0x2000"
definition IOAPIC_IOREGSEL :: u32 where "IOAPIC_IOREGSEL = 0x00"
definition IOAPIC_IOWIN :: u32 where "IOAPIC_IOWIN = 0x10"
definition IOAPIC_IOREDTBL_BASE :: u8 where "IOAPIC_IOREDTBL_BASE = 0x10"
definition IOAPIC_DELMOD_FIXED :: u32 where "IOAPIC_DELMOD_FIXED = 0b000"

definition ioapic_mapped :: "u32 \<Rightarrow> kernel \<Rightarrow> bool" where
  "ioapic_mapped off k \<longleftrightarrow> mmu_translate k (IOAPIC_BASE_VADDR + off) = Some (io_base (k_ioapic k) + off)"

text \<open>The select register has 8 bits; the window is the selected register.\<close>

definition ioapic_store :: "u32 \<Rightarrow> u32 \<Rightarrow> kernel \<Rightarrow> kernel option" where
  "ioapic_store off v k =
    (if \<not> ioapic_mapped off k then None
     else let io = k_ioapic k in
       if off = IOAPIC_IOREGSEL then Some (k\<lparr>k_ioapic := io\<lparr>io_sel := v AND 0xFF\<rparr>\<rparr>)
       else if off = IOAPIC_IOWIN then Some (k\<lparr>k_ioapic := io\<lparr>io_regs := (io_regs io)(io_sel io := v)\<rparr>\<rparr>)
       else Some k)"

definition ioapic_write :: "u8 \<Rightarrow> u32 \<Rightarrow> kernel \<Rightarrow> kernel option" where
  "ioapic_write sel val k = do {
     k \<leftarrow> ioapic_store IOAPIC_IOREGSEL (ucast sel) k;
     ioapic_store IOAPIC_IOWIN val k
   }"

definition ioapic_read :: "u8 \<Rightarrow> kernel \<Rightarrow> (u32 \<times> kernel) option" where
  "ioapic_read sel k = do {
     k \<leftarrow> ioapic_store IOAPIC_IOREGSEL (ucast sel) k;
     if ioapic_mapped IOAPIC_IOWIN k then Some (io_regs (k_ioapic k) (io_sel (k_ioapic k)), k) else None
   }"

definition ioapic_redirect :: "u8 \<Rightarrow> u8 \<Rightarrow> u8 \<Rightarrow> u32 \<Rightarrow> kernel \<Rightarrow> kernel option" where
  "ioapic_redirect irq vector dest flags k = do {
     let reg_sel = IOAPIC_IOREDTBL_BASE + irq * 2;
     k \<leftarrow> ioapic_write reg_sel ((ucast vector OR flags) AND 0x1FFFF) k;
     ioapic_write (reg_sel + 1) (push_bit 24 (ucast dest)) k
   }"

definition ioapic_get_irq :: "acpi_context \<Rightarrow> u8 \<Rightarrow> 'a vm_scheme \<Rightarrow> u8 option" where
  "ioapic_get_irq acpi_ctx old_irq s =
    (if 24 \<le> old_irq then Some old_irq
     else if length (irq_exception acpi_ctx) \<le> unat old_irq then None
     else let int_override = irq_exception acpi_ctx ! unat old_irq in
       if int_override \<noteq> 0 then do { gsi \<leftarrow> vload32 s (intso_gsi int_override); Some (ucast gsi) } else Some old_irq)"

definition ioapic_init :: "kernel \<Rightarrow> kernel option" where
  "ioapic_init k = do {
     acpi_ctx \<leftarrow> acpi_get_context k;
     irq \<leftarrow> ioapic_get_irq acpi_ctx PC_AT_IRQ_RTC k;
     ioapic_redirect irq (ucast RTC_TIMER_IV) 0 IOAPIC_DELMOD_FIXED k
   }"

section \<open>The interrupt overrides\<close>

text \<open>The entries of a table, by their addresses: each is readable, has a known source when it is an
  override, and leads to the next one by its length.\<close>

fun ics_chain :: "'a vm_scheme \<Rightarrow> u32 \<Rightarrow> u32 list \<Rightarrow> u32 \<Rightarrow> bool" where
  "ics_chain s b [] a \<longleftrightarrow> b \<le> a"
| "ics_chain s b (e # es) a \<longleftrightarrow> e = a \<and> a < b \<and> (\<exists>ty len. vload8 s a = Some ty \<and> vload8 s (a + 1) = Some len
     \<and> (ty = 2 \<longrightarrow> (\<exists>src. vload8 s (a + 3) = Some src \<and> src < 24)) \<and> ics_chain s b es (a + ucast len))"

definition add_ics :: "'a vm_scheme \<Rightarrow> u32 \<Rightarrow> acpi_context \<Rightarrow> acpi_context" where
  "add_ics s e toc = (case store_ics s e toc of Some toc' \<Rightarrow> toc' | None \<Rightarrow> toc)"

definition overrides :: "'a vm_scheme \<Rightarrow> u32 list \<Rightarrow> u8 \<Rightarrow> u32 list" where
  "overrides s es irq = filter (\<lambda>e. vload8 s e = Some 2 \<and> vload8 s (e + 3) = Some irq) es"

lemmas ics_defs = store_ics_def ACPI_MADT_LAPIC_def ACPI_MADT_IOAPIC_def ACPI_MADT_INTSO_def ics_type_def intso_source_def

lemma ics_chain_step:
  assumes "ics_chain s b (e # es) a" "length (irq_exception toc) = 24"
  shows "store_ics s a toc = Some (add_ics s a toc)"
proof -
  obtain ty where ty: "vload8 s a = Some ty" "ty = 2 \<Longrightarrow> \<exists>src. vload8 s (a + 3) = Some src \<and> src < 24"
    using assms(1) by auto
  have "\<exists>t. store_ics s a toc = Some t"
  proof (cases "ty = 2")
    case True
    then obtain src where "vload8 s (a + 3) = Some src" "src < 24" using ty(2) by blast
    then show ?thesis using ty(1) True assms(2) by (simp add: ics_defs word_less_nat_alt)
  qed (simp add: ics_defs ty(1))
  then show ?thesis by (auto simp: add_ics_def)
qed

lemma length_add_ics [simp]: "length (irq_exception (add_ics s e toc)) = length (irq_exception toc)"
  by (auto simp: add_ics_def ics_defs split: option.split bind_splits)

lemma length_fold_ics: "length (irq_exception (fold (add_ics s) es toc)) = length (irq_exception toc)"
  by (induction es arbitrary: toc) simp_all

lemma ics_loop_chain:
  "ics_chain s b es a \<Longrightarrow> length (irq_exception toc) = 24 \<Longrightarrow> ics_loop s a b toc = Some (fold (add_ics s) es toc)"
proof (induction es arbitrary: a toc)
  case Nil
  then show ?case by (subst ics_loop.simps) auto
next
  case (Cons e es)
  obtain len where len: "e = a" "a < b" "vload8 s (a + 1) = Some len" "ics_chain s b es (a + ucast len)"
    using Cons.prems(1) by auto
  have "ics_loop s a b toc = ics_loop s (a + ucast len) b (add_ics s a toc)"
    using ics_chain_step [OF Cons.prems] len by (subst ics_loop.simps) (simp add: ics_length_def)
  also have "\<dots> = Some (fold (add_ics s) es (add_ics s a toc))"
    using len(4) Cons.prems(2) by (intro Cons.IH) simp_all
  finally show ?case using len(1) by simp
qed

lemma add_ics_lookup:
  assumes "ics_chain s b (e # es) a" "length (irq_exception toc) = 24" "irq < 24"
  shows "irq_exception (add_ics s e toc) ! unat irq
    = (if vload8 s e = Some 2 \<and> vload8 s (e + 3) = Some irq then e else irq_exception toc ! unat irq)"
proof -
  have eq: "unat src = unat irq \<longleftrightarrow> src = irq" for src :: u8 by (simp add: word_unat_eq_iff)
  have i: "unat irq < 24" using assms(3) by (simp add: word_less_nat_alt)
  have e: "e = a" using assms(1) by simp
  obtain ty where ty: "vload8 s a = Some ty" "ty = 2 \<Longrightarrow> \<exists>src. vload8 s (a + 3) = Some src \<and> src < 24"
    using assms(1) by auto
  show ?thesis
  proof (cases "ty = 2")
    case True
    then obtain src where "vload8 s (a + 3) = Some src" "src < 24" using ty(2) by blast
    then show ?thesis using ty(1) True assms(2) i e eq
      by (auto simp: add_ics_def ics_defs word_less_nat_alt nth_list_update)
  qed (simp add: add_ics_def ics_defs ty(1) e)
qed

lemma fold_ics_lookup:
  "ics_chain s b es a \<Longrightarrow> length (irq_exception toc) = 24 \<Longrightarrow> irq < 24 \<Longrightarrow>
    irq_exception (fold (add_ics s) es toc) ! unat irq
      = (if overrides s es irq = [] then irq_exception toc ! unat irq else last (overrides s es irq))"
proof (induction es arbitrary: a toc)
  case (Cons e es)
  obtain len :: u8 where len: "ics_chain s b es (a + ucast len)" using Cons.prems(1) by auto
  have "irq_exception (fold (add_ics s) es (add_ics s e toc)) ! unat irq
      = (if overrides s es irq = [] then irq_exception (add_ics s e toc) ! unat irq else last (overrides s es irq))"
    using len Cons.prems(2,3) by (intro Cons.IH) simp_all
  then show ?case using add_ics_lookup [OF Cons.prems] by (simp add: overrides_def)
qed (simp add: overrides_def)

section \<open>Properties\<close>

text \<open>C31: over a well-formed table the parser returns, and \<^verbatim>\<open>ioapic_get_irq\<close> then answers every legacy
  interrupt with the global interrupt of its last override, or with itself when there is none.\<close>

theorem madt_overrides_route:
  assumes "ics_chain s b es a" "0 \<notin> set es" "irq_exception toc = replicate 24 0" "irq < 24"
  shows "\<exists>toc'. ics_loop s a b toc = Some toc' \<and>
    ioapic_get_irq toc' irq s = (if overrides s es irq = [] then Some irq
      else map_option ucast (vload32 s (last (overrides s es irq) + 4)))"
proof -
  let ?t = "fold (add_ics s) es toc"
  have l: "length (irq_exception toc) = 24" using assms(3) by simp
  have i: "unat irq < 24" using assms(4) by (simp add: word_less_nat_alt)
  have "last (overrides s es irq) \<noteq> 0" if "overrides s es irq \<noteq> []"
    using last_in_set [OF that] assms(2) by (auto simp: overrides_def)
  then have "ioapic_get_irq ?t irq s = (if overrides s es irq = [] then Some irq
      else map_option ucast (vload32 s (last (overrides s es irq) + 4)))"
    using fold_ics_lookup [OF assms(1) l assms(4)] assms(3,4) i length_fold_ics [of s es toc]
    by (simp add: ioapic_get_irq_def intso_gsi_def Let_def map_conv_bind_option comp_def flip: not_le)
  then show ?thesis using ics_loop_chain [OF assms(1) l] by blast
qed

text \<open>An entry of length 0 stops the parser for ever.\<close>

theorem madt_zero_length_hangs:
  assumes "a < b" "vload8 s (a + 1) = Some 0"
  shows "ics_loop s a b toc = None"
proof -
  have stuck: "\<not> (s' = s \<and> a' = a \<and> b' = b)" if "ics_loop s' a' b' toc = Some r" for s' a' b' toc r
  proof (rule ics_loop.raw_induct [where P = "\<lambda>s' a' b' toc r. \<not> (s' = s \<and> a' = a \<and> b' = b)", OF _ that])
    fix f a' b' toc r and s' :: "'a vm_scheme"
    assume IH: "\<And>s' a' b' toc r. f s' a' b' toc = Some r \<Longrightarrow> \<not> (s' = s \<and> a' = a \<and> b' = b)"
      and step: "(if a' < b' then do {
          toc \<leftarrow> store_ics s' a' toc; len \<leftarrow> vload8 s' (ics_length a'); f s' (a' + ucast len) b' toc } else Some toc) = Some r"
    show "\<not> (s' = s \<and> a' = a \<and> b' = b)"
    proof
      assume eq: "s' = s \<and> a' = a \<and> b' = b"
      with step assms obtain x where "f s a b x = Some r" by (auto simp: ics_length_def split: if_splits bind_splits)
      with IH [of s a b x r] show False by blast
    qed
  qed
  show ?thesis
  proof (cases "ics_loop s a b toc")
    case (Some r)
    from stuck [OF this] show ?thesis by simp
  qed
qed

text \<open>An override of a source from 24 on is stored behind the table: the code goes wrong.\<close>

theorem madt_source_out_of_range:
  assumes "a < b" "vload8 s a = Some 2" "vload8 s (a + 3) = Some src" "24 \<le> src" "length (irq_exception toc) = 24"
  shows "ics_loop s a b toc = None"
  using assms by (subst ics_loop.simps) (simp add: ics_defs word_le_nat_alt)

text \<open>\<^verbatim>\<open>ioapic_redirect\<close> of one of the 24 pins writes the two registers of its entry, vector, delivery
  flags and destination, and no other register.\<close>

definition ioapic_page_mapped :: "kernel \<Rightarrow> bool" where
  "ioapic_page_mapped k \<longleftrightarrow> ioapic_mapped IOAPIC_IOREGSEL k \<and> ioapic_mapped IOAPIC_IOWIN k"

lemma ioapic_write_spec:
  assumes "ioapic_page_mapped k"
  shows "ioapic_write sel val k = Some (k\<lparr>k_ioapic := (k_ioapic k)\<lparr>io_sel := ucast sel, io_regs := (io_regs (k_ioapic k))(ucast sel := val)\<rparr>\<rparr>)"
proof -
  have "(ucast sel :: u32) AND 0xFF = ucast sel"
  proof -
    have "(ucast sel :: u32) AND mask 8 = ucast sel"
      by (rule bit_word_eqI) (auto simp: bit_simps dest: bit_imp_le_length)
    then show ?thesis by (simp add: mask_eq_exp_minus_1)
  qed
  then show ?thesis using assms
    by (simp add: ioapic_write_def ioapic_store_def ioapic_page_mapped_def ioapic_mapped_def IOAPIC_IOREGSEL_def IOAPIC_IOWIN_def)
qed

theorem ioapic_redirect_entry:
  assumes "ioapic_page_mapped k" "irq < 24"
  shows "\<exists>k'. ioapic_redirect irq vector dest flags k = Some k'
    \<and> (\<forall>r. io_regs (k_ioapic k') r = (if r = 0x10 + 2 * ucast irq then (ucast vector OR flags) AND 0x1FFFF
        else if r = 0x11 + 2 * ucast irq then push_bit 24 (ucast dest) else io_regs (k_ioapic k) r))"
proof -
  have i: "unat irq < 24" using assms(2) by (simp add: word_less_nat_alt)
  have u: "unat (ucast x :: u32) = unat x" for x :: u8
    using unsigned_less [of x, where 'a = nat] by (simp add: unsigned_ucast_eq take_bit_nat_eq_self)
  have "unat (irq * 2) = unat irq * 2" using i by (subst unat_mult_lem [THEN iffD1]) simp_all
  then have r8: "unat (0x10 + irq * 2) = 16 + unat irq * 2" using i by (subst unat_add_lem [THEN iffD1]) simp_all
  then have r9: "unat (0x10 + irq * 2 + 1) = 17 + unat irq * 2" using i by (subst unat_add_lem [THEN iffD1]) simp_all
  have "unat (2 * ucast irq :: u32) = 2 * unat irq" using i u [of irq] by (subst unat_mult_u32) simp_all
  then have "unat (0x10 + 2 * ucast irq :: u32) = 16 + 2 * unat irq" "unat (0x11 + 2 * ucast irq :: u32) = 17 + 2 * unat irq"
    using i by (subst unat_add_u32; simp)+
  then have sel: "(ucast (0x10 + irq * 2) :: u32) = 0x10 + 2 * ucast irq" "(ucast (0x10 + irq * 2 + 1) :: u32) = 0x11 + 2 * ucast irq"
    using r8 r9 u [of "0x10 + irq * 2"] u [of "0x10 + irq * 2 + 1"] by (simp_all only: word_unat_eq_iff)
  define k1 where "k1 = k\<lparr>k_ioapic := (k_ioapic k)\<lparr>io_sel := ucast (0x10 + irq * 2),
    io_regs := (io_regs (k_ioapic k))(ucast (0x10 + irq * 2) := (ucast vector OR flags) AND 0x1FFFF)\<rparr>\<rparr>"
  have "ioapic_page_mapped k1" using assms(1) by (simp add: k1_def ioapic_page_mapped_def ioapic_mapped_def)
  then have "ioapic_redirect irq vector dest flags k = Some (k1\<lparr>k_ioapic := (k_ioapic k1)\<lparr>io_sel := ucast (0x10 + irq * 2 + 1),
    io_regs := (io_regs (k_ioapic k1))(ucast (0x10 + irq * 2 + 1) := push_bit 24 (ucast dest))\<rparr>\<rparr>)"
    using assms(1) by (simp add: ioapic_redirect_def IOAPIC_IOREDTBL_BASE_def ioapic_write_spec k1_def [symmetric])
  then show ?thesis unfolding sel by (auto simp: k1_def sel)
qed

section \<open>Concrete instances\<close>

text \<open>The heap machine of theory Heap with an override of interrupt 0 by 2 in its block at 0x3008, and a
  broken one behind it.\<close>

definition acpi_vm :: vm where
  "acpi_vm = wr 0x3010 0xFF000002 (wr 0x300C 2 (wr 0x3008 0xA02 vh))"

lemma acpi_vm_bytes:
  "vload8 acpi_vm 0x3008 = Some 2" "vload8 acpi_vm 0x3009 = Some 10" "vload8 acpi_vm 0x300B = Some 0"
  "vload8 acpi_vm 0x300D = Some 0" "vload8 acpi_vm 0x3010 = Some 2" "vload8 acpi_vm 0x3013 = Some 255"
  "vload32 acpi_vm 0x300C = Some 2"
proof -
  let ?m = "put 0x3010 0xFF000002 (put 0x300C 2 (put 0x3008 0xA02 mem_vh))"
  have at: "at 3 2 0x3008" "at 3 2 0x300C" "at 3 2 0x3010" by (simp_all add: at_def)
  have st: "heap_st 3 2 ?m acpi_vm" unfolding acpi_vm_def by (intro store_at(2) vh_heap at)
  have rd: "vload8 acpi_vm (of_nat b) = Some (?m (of_nat b))" if "0x3000 \<le> b" "b < 0x4000" for b :: nat
    using that by (intro heap_load8 [OF st] in_pages_nat) simp_all
  from rd [of "0x3008"] rd [of "0x3009"] rd [of "0x300B"] rd [of "0x300D"] rd [of "0x3010"] rd [of "0x3013"]
  show "vload8 acpi_vm 0x3008 = Some 2" "vload8 acpi_vm 0x3009 = Some 10" "vload8 acpi_vm 0x300B = Some 0"
    "vload8 acpi_vm 0x300D = Some 0" "vload8 acpi_vm 0x3010 = Some 2" "vload8 acpi_vm 0x3013 = Some 255"
    by (simp_all add: put_def store32_def)
  show "vload32 acpi_vm 0x300C = Some 2"
    using heap_load32 [OF st, of "0x300C"] in_pages_nat [of 3 "0x300C" 2]
    by (simp add: aligned4_def put_def load32_def store32_def)
qed

definition empty_toc :: acpi_context where
  "empty_toc = \<lparr>oem_id = [], toc_apic_addr = 0, toc_apic = 0, toc_ioapic = 0, irq_exception = replicate 24 0\<rparr>"

lemma madt_overrides_route_witness:
  "\<exists>toc'. ics_loop acpi_vm 0x3008 0x3012 empty_toc = Some toc' \<and>
    ioapic_get_irq toc' 0 acpi_vm = (if overrides acpi_vm [0x3008] 0 = [] then Some 0
      else map_option ucast (vload32 acpi_vm (last (overrides acpi_vm [0x3008] 0) + 4)))"
  by (rule madt_overrides_route) (simp_all add: acpi_vm_bytes empty_toc_def)

lemma madt_zero_length_hangs_witness: "ics_loop acpi_vm 0x300C 0x3012 empty_toc = None"
  by (rule madt_zero_length_hangs) (simp_all add: acpi_vm_bytes)

lemma madt_source_out_of_range_witness: "ics_loop acpi_vm 0x3010 0x301A empty_toc = None"
  by (rule madt_source_out_of_range [where src = 255]) (simp_all add: acpi_vm_bytes empty_toc_def)

definition ioapic_vm :: vm where
  "ioapic_vm = upd_entry 0 2 0xFEC00003 vm1"

lemma ioapic_vm_mapped: "ioapic_page_mapped (kernel_on ioapic_vm h)"
proof -
  have vm: "vm_ok ioapic_vm" "pagemap ioapic_vm (0, 2) = Some 0xFEC00003"
    using vm_ok_upd [OF vm1_ok, of 0 2 "0xFEC00003"] pagemap_upd [OF vm1_ok, of 0 2 "0xFEC00003"]
    by (simp_all add: vm1_l1e ioapic_vm_def)
  have "io_base (k_ioapic (kernel_on ioapic_vm h)) = 0xFEC00000" by (simp add: kernel_on_def vm.defs kernel.defs)
  then show ?thesis
    using mmu_translate_pagemap [OF vm(1), of "0x2000"] mmu_translate_pagemap [OF vm(1), of "0x2010"] vm(2)
    by (simp add: ioapic_page_mapped_def ioapic_mapped_def kernel_on_translate IOAPIC_BASE_VADDR_def IOAPIC_IOREGSEL_def
      IOAPIC_IOWIN_def IS_CACHED_def PG_ALIGN_def L1_INDEX_def L2_INDEX_def PG_OFFSET_def)
qed

lemma ioapic_redirect_entry_witness:
  "\<exists>k'. ioapic_redirect 8 210 0 0 (kernel_on ioapic_vm h) = Some k'
    \<and> (\<forall>r. io_regs (k_ioapic k') r = (if r = 0x10 + 2 * ucast (8 :: u8) then (ucast (210 :: u8) OR 0) AND 0x1FFFF
        else if r = 0x11 + 2 * ucast (8 :: u8) then push_bit 24 (ucast (0 :: u8)) else io_regs (k_ioapic (kernel_on ioapic_vm h)) r))"
  by (rule ioapic_redirect_entry [OF ioapic_vm_mapped]) simp

end
