(* ===== verification/Hhk.thy ===== *)
theory Hhk
  imports Vmm KString
begin

text \<open>
  The higher half setup of \<^verbatim>\<open>arch/x86/hhk.c\<close>. It runs before paging is on, so addresses are physical and
  the state is the byte memory. The linker's symbols are a record; \<^verbatim>\<open>ptd_t\<close> is a 32-bit word, so pointer
  arithmetic on the directory steps by 4. A kernel that is too large stops in \<^verbatim>\<open>while (1)\<close>: \<open>None\<close>.
\<close>

unbundle bit_operations_syntax

section \<open>Page tables\<close>

record linker =
  kernel_start :: u32
  kernel_end :: u32
  init_hhk_end :: u32

definition PT_ADDR :: "u32 \<Rightarrow> u32 \<Rightarrow> u32" where
  "PT_ADDR ptd pt_index = ptd + 4 * ((pt_index + 1) * 1024)"

definition SET_PDE :: "u32 \<Rightarrow> u32 \<Rightarrow> u32 \<Rightarrow> mem \<Rightarrow> mem" where
  "SET_PDE ptd pde_index pde m = store32 m (ptd + 4 * pde_index) pde"

definition SET_PTE :: "u32 \<Rightarrow> u32 \<Rightarrow> u32 \<Rightarrow> u32 \<Rightarrow> mem \<Rightarrow> mem" where
  "SET_PTE ptd pt_index pte_index pte m = store32 m (PT_ADDR ptd pt_index + 4 * pte_index) pte"

definition KERNEL_PAGE_COUNT :: "linker \<Rightarrow> u32" where
  "KERNEL_PAGE_COUNT L = drop_bit 12 (kernel_end L - kernel_start L + 0x1000 - 1)"

definition HHK_PAGE_COUNT :: "linker \<Rightarrow> u32" where
  "HHK_PAGE_COUNT L = drop_bit 12 (init_hhk_end L - 0x100000 + 0x1000 - 1)"

definition PG_TABLE_IDENTITY :: u32 where "PG_TABLE_IDENTITY = 0"
definition PG_TABLE_KERNEL :: u32 where "PG_TABLE_KERNEL = 1"
definition PG_TABLE_STACK :: u32 where "PG_TABLE_STACK = 4"

text \<open>\<^verbatim>\<open>for (i = from; i < from + n; i++) body\<close>\<close>

fun for_up :: "nat \<Rightarrow> u32 \<Rightarrow> (u32 \<Rightarrow> mem \<Rightarrow> mem) \<Rightarrow> mem \<Rightarrow> mem" where
  "for_up 0 i body m = m"
| "for_up (Suc n) i body m = for_up n (i + 1) body (body i m)"

definition init_page :: "linker \<Rightarrow> u32 \<Rightarrow> mem \<Rightarrow> mem option" where
  "init_page L ptd m = do {
     let m = SET_PDE ptd 0 (NEW_L1_ENTRY PG_PRESENT (ptd + 4 * PG_MAX_ENTRIES)) m;
     let m = for_up 256 0 (\<lambda>i. SET_PTE ptd PG_TABLE_IDENTITY i (NEW_L2_ENTRY PG_PREM_RW (push_bit 12 i))) m;
     let m = for_up (unat (HHK_PAGE_COUNT L)) 0
       (\<lambda>i. SET_PTE ptd PG_TABLE_IDENTITY (256 + i) (NEW_L2_ENTRY PG_PREM_RW (0x100000 + push_bit 12 i))) m;
     let kernel_pde_index = L1_INDEX (kernel_start L);
     let kernel_pte_index = L2_INDEX (kernel_start L);
     let kernel_pg_counts = KERNEL_PAGE_COUNT L;
     let m = for_up (unat (PG_TABLE_STACK - PG_TABLE_KERNEL)) 0
       (\<lambda>i. SET_PDE ptd (kernel_pde_index + i) (NEW_L1_ENTRY PG_PREM_RW (PT_ADDR ptd (PG_TABLE_KERNEL + i)))) m;
     if kernel_pg_counts > (PG_TABLE_STACK - PG_TABLE_KERNEL) * PG_MAX_ENTRIES then None
     else do {
       let kernel_pm = V2P (kernel_start L);
       let m = for_up (unat kernel_pg_counts) 0
         (\<lambda>i. SET_PTE ptd PG_TABLE_KERNEL (kernel_pte_index + i) (NEW_L2_ENTRY PG_PREM_RW (kernel_pm + push_bit 12 i))) m;
       Some (SET_PDE ptd (PG_MAX_ENTRIES - 1) (NEW_L1_ENTRY T_SELF_REF_PERM ptd) m)
     }
   }"

definition hhk_init :: "linker \<Rightarrow> u32 \<Rightarrow> u32 \<Rightarrow> mem \<Rightarrow> mem option" where
  "hhk_init L ptd kpg_size m = init_page L ptd (for_up (unat kpg_size) 0 (\<lambda>i m. m(ptd + i := 0)) m)"

section \<open>The boot loader's information\<close>

definition MULTIBOOT_INFO_DRIVE_INFO :: u32 where "MULTIBOOT_INFO_DRIVE_INFO = 0x80"
definition sizeof_multiboot_info :: u32 where "sizeof_multiboot_info = 120"
definition mbi_flags :: "u32 \<Rightarrow> u32" where "mbi_flags p = p"
definition mbi_mmap_length :: "u32 \<Rightarrow> u32" where "mbi_mmap_length p = p + 44"
definition mbi_mmap_addr :: "u32 \<Rightarrow> u32" where "mbi_mmap_addr p = p + 48"
definition mbi_drives_length :: "u32 \<Rightarrow> u32" where "mbi_drives_length p = p + 52"
definition mbi_drives_addr :: "u32 \<Rightarrow> u32" where "mbi_drives_addr p = p + 56"

lemmas mbi_defs = mbi_flags_def mbi_mmap_length_def mbi_mmap_addr_def mbi_drives_length_def mbi_drives_addr_def

definition save_subset :: "u32 \<Rightarrow> u32 \<Rightarrow> u32 \<Rightarrow> mem \<Rightarrow> u32 \<times> mem" where
  "save_subset destination base sz m = (sz, for_up (unat sz) 0 (\<lambda>i m. m(destination + i := m (base + i))) m)"

definition save_multiboot_info :: "u32 \<Rightarrow> u32 \<Rightarrow> mem \<Rightarrow> mem" where
  "save_multiboot_info info destination m =
    (let m = for_up (unat sizeof_multiboot_info) 0 (\<lambda>i m. m(destination + i := m (info + i))) m;
         current = sizeof_multiboot_info;
         m = store32 m (mbi_mmap_addr destination) (destination + current);
         (n, m) = save_subset (destination + current) (load32 m (mbi_mmap_addr info)) (load32 m (mbi_mmap_length info)) m;
         current = current + n
     in if load32 m (mbi_flags info) AND MULTIBOOT_INFO_DRIVE_INFO \<noteq> 0
        then (let m = store32 m (mbi_drives_addr destination) (destination + current)
              in snd (save_subset (destination + current) (load32 m (mbi_drives_addr info)) (load32 m (mbi_drives_length info)) m))
        else m)"

section \<open>The tables as a list of entries\<close>

text \<open>Entry \<open>q\<close> of the directory and the tables behind it: entry \<open>q mod 1024\<close> of page \<open>q div 1024\<close> of the area.\<close>

definition entry :: "u32 \<Rightarrow> mem \<Rightarrow> nat \<Rightarrow> u32" where
  "entry ptd m q = load32 m (ptd + 4 * of_nat q)"

definition kpg_area :: "u32 \<Rightarrow> bool" where
  "kpg_area ptd \<longleftrightarrow> page_aligned ptd \<and> unat ptd + 24576 \<le> 4294967296"

lemma unat_entry:
  assumes "kpg_area ptd" "q < 6144"
  shows "unat (ptd + 4 * of_nat q) = unat ptd + 4 * q"
proof -
  have "unat (4 * of_nat q :: u32) = 4 * q" using assms by (subst unat_mult_u32) simp_all
  then show ?thesis using assms by (subst unat_add_u32) (simp_all add: kpg_area_def)
qed

lemma entry_aligned:
  assumes "kpg_area ptd" "q < 6144"
  shows "aligned4 (ptd + 4 * of_nat q)"
proof -
  have "aligned4 (ptd + 4 * 0)" using assms(1) by (intro entry_addr(3)) (simp_all add: kpg_area_def)
  then have "4 dvd unat ptd" by (simp add: aligned4_unat)
  then show ?thesis using unat_entry [OF assms] by (simp add: aligned4_unat)
qed

lemma entry_store:
  assumes "kpg_area ptd" "p < 6144" "q < 6144"
  shows "entry ptd (store32 m (ptd + 4 * of_nat p) v) q = (if p = q then v else entry ptd m q)"
proof -
  have "ptd + 4 * of_nat p = ptd + 4 * of_nat q \<longleftrightarrow> p = q"
    using unat_entry [OF assms(1,2)] unat_entry [OF assms(1,3)] by (metis add_left_cancel mult_cancel1 zero_neq_numeral)
  then show ?thesis using entry_aligned [OF assms(1,2)] entry_aligned [OF assms(1,3)]
    by (simp only: entry_def load32_store32_aligned)
qed

lemma entry_for_up:
  assumes "kpg_area ptd" "\<And>i. i < n \<Longrightarrow> A (s + of_nat i) = ptd + 4 * of_nat (c + i)" "c + n \<le> 6144" "q < 6144"
  shows "entry ptd (for_up n s (\<lambda>i m. store32 m (A i) (V i)) m) q
    = (if c \<le> q \<and> q < c + n then V (s + of_nat (q - c)) else entry ptd m q)"
  using assms(2,3)
proof (induction n arbitrary: s c m)
  case (Suc n)
  have A0: "A s = ptd + 4 * of_nat c" using Suc.prems(1) [of 0] by simp
  have "A (s + 1 + of_nat i) = ptd + 4 * of_nat (Suc c + i)" if "i < n" for i
    using Suc.prems(1) [of "Suc i"] that by (simp add: add.assoc)
  from Suc.IH [OF this] Suc.prems(2)
  have IH: "entry ptd (for_up n (s + 1) (\<lambda>i m. store32 m (A i) (V i)) (store32 m (A s) (V s))) q
      = (if Suc c \<le> q \<and> q < Suc c + n then V (s + 1 + of_nat (q - Suc c)) else entry ptd (store32 m (A s) (V s)) q)" by simp
  have "entry ptd (store32 m (A s) (V s)) q = (if c = q then V s else entry ptd m q)"
    unfolding A0 by (rule entry_store [OF assms(1)]) (use Suc.prems(2) assms(4) in simp_all)
  moreover have "s + 1 + of_nat (q - Suc c) = s + of_nat (q - c)" if "Suc c \<le> q"
    using that of_nat_add [of 1 "q - Suc c", where 'a = "32 word"] by (simp add: add.assoc Suc_diff_Suc)
  ultimately show ?case using IH by (auto simp: not_less_eq_eq)
qed auto

lemma PTE_addr: "PT_ADDR ptd (of_nat t) + 4 * of_nat i = ptd + 4 * of_nat (1024 * (t + 1) + i)"
  by (simp add: PT_ADDR_def algebra_simps)

text \<open>Clearing the area.\<close>

lemma for_up_clear:
  "unat p + n \<le> 4294967296 \<Longrightarrow> for_up n s (\<lambda>i m. m(p - s + i := 0)) m x
    = (if unat p \<le> unat x \<and> unat x < unat p + n then 0 else m x)"
proof (induction n arbitrary: s p m)
  case (Suc n)
  have step: "for_up (Suc n) s (\<lambda>i m. m(p - s + i := 0)) m x = for_up n (s + 1) (\<lambda>i m. m(p + 1 - (s + 1) + i := 0)) (m(p := 0)) x"
    by (simp add: fun_upd_def)
  have "for_up n (s + 1) (\<lambda>i m. m(p + 1 - (s + 1) + i := 0)) (m(p := 0)) x
      = (if unat p < unat x \<and> unat x < unat p + Suc n then 0 else (m(p := 0)) x)"
  proof (cases "n = 0")
    case False
    then have p1: "unat (p + 1) = unat p + 1" using Suc.prems by (subst unat_add_u32) simp_all
    have "unat (p + 1) + n \<le> 4294967296" using Suc.prems p1 by simp
    note Suc.IH [OF this, of "s + 1" "m(p := 0)"]
    then show ?thesis unfolding p1 by (simp only: Suc_le_eq add_Suc add_Suc_right One_nat_def add_0_right)
  qed auto
  then show ?case unfolding step by (auto simp: word_unat_eq_iff)
qed auto

lemma entry_clear:
  assumes "kpg_area ptd" "q < 6144"
  shows "entry ptd (for_up 24576 0 (\<lambda>i m. m(ptd + i := 0)) m) q = 0"
proof -
  have c: "for_up 24576 0 (\<lambda>i m. m(ptd + i := 0)) m x = 0" if "unat ptd \<le> unat x" "unat x < unat ptd + 24576" for x
    using for_up_clear [of ptd 24576 0 m x] assms(1) that by (simp add: kpg_area_def)
  have "unat (ptd + 4 * of_nat q + of_nat j) = unat ptd + 4 * q + j" if "j < 4" for j
    using unat_entry [OF assms] assms that by (subst unat_add_u32) (simp_all add: kpg_area_def)
  then have "for_up 24576 0 (\<lambda>i m. m(ptd + i := 0)) m (ptd + 4 * of_nat q + of_nat j) = 0" if "j < 4" for j
    using that assms(2) by (intro c) simp_all
  from this [of 0] this [of 1] this [of 2] this [of 3] show ?thesis by (simp add: entry_def load32_def)
qed

section \<open>What the setup writes\<close>

text \<open>The linker script lays the kernel out like this.\<close>

definition layout_ok :: "linker \<Rightarrow> bool" where
  "layout_ok L \<longleftrightarrow> unat (HHK_PAGE_COUNT L) \<le> 768 \<and> 0 < unat (L1_INDEX (kernel_start L)) \<and> unat (L1_INDEX (kernel_start L)) \<le> 1020
     \<and> unat (KERNEL_PAGE_COUNT L) \<le> 3072"

definition boot_entry :: "linker \<Rightarrow> u32 \<Rightarrow> nat \<Rightarrow> u32" where
  "boot_entry L ptd q =
    (let d = unat (L1_INDEX (kernel_start L)); t = unat (L2_INDEX (kernel_start L)); c = unat (KERNEL_PAGE_COUNT L) in
     if q = 0 then NEW_L1_ENTRY PG_PRESENT (ptd + 4096)
     else if q = 1023 then NEW_L1_ENTRY T_SELF_REF_PERM ptd
     else if d \<le> q \<and> q < d + 3 then NEW_L1_ENTRY PG_PREM_RW (ptd + 4096 * (2 + of_nat (q - d)))
     else if 1024 \<le> q \<and> q < 1280 + unat (HHK_PAGE_COUNT L) then NEW_L2_ENTRY PG_PREM_RW (4096 * of_nat (q - 1024))
     else if 2048 + t \<le> q \<and> q < 2048 + t + c then NEW_L2_ENTRY PG_PREM_RW (V2P (kernel_start L) + 4096 * of_nat (q - 2048 - t))
     else 0)"

lemma shift12: "push_bit 12 (of_nat i :: u32) = 4096 * of_nat i"
  by (simp add: push_bit_eq_mult)

text \<open>One loop of the setup: entries \<open>c\<close> to \<open>c + n\<close> change, the others stay.\<close>

lemma entry_pte_loop:
  assumes "kpg_area ptd" "1024 * (t + 1) + k + n \<le> 6144" "q < 6144"
  shows "entry ptd (for_up n 0 (\<lambda>i. SET_PTE ptd (of_nat t) (of_nat k + i) (V i)) m) q
    = (if 1024 * (t + 1) + k \<le> q \<and> q < 1024 * (t + 1) + k + n then V (of_nat (q - (1024 * (t + 1) + k))) else entry ptd m q)"
  unfolding SET_PTE_def using entry_for_up [OF assms(1), of n "\<lambda>i. PT_ADDR ptd (of_nat t) + 4 * (of_nat k + i)" 0 "1024 * (t + 1) + k" q V m]
    assms(2,3) PTE_addr [of ptd t "k + _"] by (simp add: add.assoc)

lemma entry_pde_loop:
  assumes "kpg_area ptd" "k + n \<le> 1024" "q < 6144"
  shows "entry ptd (for_up n 0 (\<lambda>i. SET_PDE ptd (of_nat k + i) (V i)) m) q
    = (if k \<le> q \<and> q < k + n then V (of_nat (q - k)) else entry ptd m q)"
  unfolding SET_PDE_def using entry_for_up [OF assms(1), of n "\<lambda>i. ptd + 4 * (of_nat k + i)" 0 k q V m] assms(2,3)
  by (simp add: add.assoc)

lemma entry_pde:
  assumes "kpg_area ptd" "k < 1024" "q < 6144"
  shows "entry ptd (SET_PDE ptd (of_nat k) v m) q = (if k = q then v else entry ptd m q)"
  unfolding SET_PDE_def using assms by (intro entry_store) simp_all

lemma boot_entries:
  assumes area: "kpg_area ptd" and lay: "layout_ok L"
  shows "\<exists>m'. hhk_init L ptd 24576 m = Some m' \<and> (\<forall>q < 6144. entry ptd m' q = boot_entry L ptd q)"
proof -
  define d t c h where "d = unat (L1_INDEX (kernel_start L))" and "t = unat (L2_INDEX (kernel_start L))"
    and "c = unat (KERNEL_PAGE_COUNT L)" and "h = unat (HHK_PAGE_COUNT L)"
  note nat_defs = d_def t_def c_def h_def
  have b: "h \<le> 768" "0 < d" "d \<le> 1020" "c \<le> 3072" "t + c \<le> 4095" using lay L2_INDEX_lt [of "kernel_start L"]
    by (simp_all add: layout_ok_def nat_defs word_less_nat_alt)
  define m0 where "m0 = for_up 24576 0 (\<lambda>i m. m(ptd + i := 0)) m"
  define m1 where "m1 = SET_PDE ptd (of_nat 0) (NEW_L1_ENTRY PG_PRESENT (ptd + 4 * PG_MAX_ENTRIES)) m0"
  define m2 where "m2 = for_up 256 0 (\<lambda>i. SET_PTE ptd (of_nat 0) (of_nat 0 + i) (NEW_L2_ENTRY PG_PREM_RW (push_bit 12 i))) m1"
  define m3 where "m3 = for_up h 0 (\<lambda>i. SET_PTE ptd (of_nat 0) (of_nat 256 + i) (NEW_L2_ENTRY PG_PREM_RW (0x100000 + push_bit 12 i))) m2"
  define m4 where "m4 = for_up 3 0 (\<lambda>i. SET_PDE ptd (of_nat d + i) (NEW_L1_ENTRY PG_PREM_RW (PT_ADDR ptd (1 + i)))) m3"
  define m5 where "m5 = for_up c 0
    (\<lambda>i. SET_PTE ptd (of_nat 1) (of_nat t + i) (NEW_L2_ENTRY PG_PREM_RW (V2P (kernel_start L) + push_bit 12 i))) m4"
  define m6 where "m6 = SET_PDE ptd (of_nat 1023) (NEW_L1_ENTRY T_SELF_REF_PERM ptd) m5"
  have fits: "\<not> KERNEL_PAGE_COUNT L > (PG_TABLE_STACK - PG_TABLE_KERNEL) * PG_MAX_ENTRIES"
    using b(4) by (simp add: c_def PG_TABLE_STACK_def PG_TABLE_KERNEL_def PG_MAX_ENTRIES_def word_less_nat_alt)
  have "hhk_init L ptd 24576 m = Some m6"
    unfolding hhk_init_def init_page_def Let_def if_not_P [OF fits]
    by (simp add: m0_def m1_def m2_def m3_def m4_def m5_def m6_def nat_defs PG_TABLE_IDENTITY_def PG_TABLE_STACK_def
      PG_TABLE_KERNEL_def PG_MAX_ENTRIES_def)
  moreover have "entry ptd m6 q = boot_entry L ptd q" if q: "q < 6144" for q
  proof -
    have e0: "entry ptd m0 q = 0" unfolding m0_def by (rule entry_clear [OF area q])
    have e1: "entry ptd m1 q = (if q = 0 then NEW_L1_ENTRY PG_PRESENT (ptd + 4096) else 0)"
      unfolding m1_def using entry_pde [OF area _ q, of 0] e0 by (auto simp: PG_MAX_ENTRIES_def)
    have e2: "entry ptd m2 q = (if 1024 \<le> q \<and> q < 1280 then NEW_L2_ENTRY PG_PREM_RW (push_bit 12 (of_nat (q - 1024))) else entry ptd m1 q)"
      unfolding m2_def using entry_pte_loop [OF area _ q, of 0 0 256] by simp
    have e3: "entry ptd m3 q = (if 1280 \<le> q \<and> q < 1280 + h then NEW_L2_ENTRY PG_PREM_RW (0x100000 + push_bit 12 (of_nat (q - 1280)))
        else entry ptd m2 q)"
      unfolding m3_def using entry_pte_loop [OF area _ q, of 0 256 h] b(1) by simp
    have e4: "entry ptd m4 q = (if d \<le> q \<and> q < d + 3 then NEW_L1_ENTRY PG_PREM_RW (PT_ADDR ptd (1 + of_nat (q - d))) else entry ptd m3 q)"
      unfolding m4_def using entry_pde_loop [OF area _ q, of d 3] b(3) by simp
    have e5: "entry ptd m5 q = (if 2048 + t \<le> q \<and> q < 2048 + t + c
        then NEW_L2_ENTRY PG_PREM_RW (V2P (kernel_start L) + push_bit 12 (of_nat (q - (2048 + t)))) else entry ptd m4 q)"
      unfolding m5_def using entry_pte_loop [OF area _ q, of 1 t c] b(5) by simp
    have e6: "entry ptd m6 q = (if q = 1023 then NEW_L1_ENTRY T_SELF_REF_PERM ptd else entry ptd m5 q)"
      unfolding m6_def using entry_pde [OF area _ q, of 1023] by auto
    have hi: "0x100000 + push_bit 12 (of_nat (q - 1280) :: u32) = 4096 * of_nat (q - 1024)" if "1280 \<le> q"
    proof -
      have "q - 1024 = 256 + (q - 1280)" using that by simp
      then show ?thesis unfolding shift12 by (simp only: of_nat_add) (simp add: algebra_simps)
    qed
    have pt: "PT_ADDR ptd (1 + of_nat (q - d)) = ptd + 4096 * (2 + of_nat (q - d))" by (simp add: PT_ADDR_def algebra_simps)
    show ?thesis unfolding boot_entry_def Let_def e6 e5 e4 e3 e2 e1 nat_defs [symmetric] shift12 pt
      using b hi shift12 by auto
  qed
  ultimately show ?thesis by blast
qed

section \<open>The machine the setup leaves\<close>

text \<open>The table behind directory entry \<open>i\<close>, as a page of the area; page 0 is the directory.\<close>

definition boot_table :: "linker \<Rightarrow> nat \<Rightarrow> nat option" where
  "boot_table L i = (let d = unat (L1_INDEX (kernel_start L)) in
     if i = 0 then Some 1 else if i = 1023 then Some 0 else if d \<le> i \<and> i < d + 3 then Some (2 + (i - d)) else None)"

definition boot_machine :: "linker \<Rightarrow> u32 \<Rightarrow> 'a vm_scheme \<Rightarrow> bool" where
  "boot_machine L ptd s \<longleftrightarrow> kpg_area ptd \<and> layout_ok L \<and> cr3 s = ptd \<and> (\<forall>q < 6144. entry ptd (phys s) q = boot_entry L ptd q)"

lemma area_page:
  assumes "kpg_area ptd" "T < 6"
  shows "page_aligned (ptd + 4096 * of_nat T)" "unat (ptd + 4096 * of_nat T) = unat ptd + 4096 * T"
proof -
  show u: "unat (ptd + 4096 * of_nat T) = unat ptd + 4096 * T"
    using unat_entry [OF assms(1), of "1024 * T"] assms(2) by simp
  have "4096 dvd unat ptd" using assms(1) aligned_dvd_u32 [of ptd 12] by (simp add: kpg_area_def page_aligned_mask)
  then show "page_aligned (ptd + 4096 * of_nat T)"
    using u aligned_dvd_u32 [of "ptd + 4096 * of_nat T" 12] by (simp add: page_aligned_mask)
qed

lemma boot_table_less: "layout_ok L \<Longrightarrow> boot_table L i = Some T \<Longrightarrow> T < 6"
  by (auto simp: boot_table_def Let_def split: if_splits)

lemma boot_table_inj: "layout_ok L \<Longrightarrow> boot_table L i = Some T \<Longrightarrow> boot_table L j = Some T \<Longrightarrow> i = j"
  by (auto simp: boot_table_def Let_def split: if_splits)

lemma present_perms: "IS_CACHED PG_PRESENT" "IS_CACHED PG_PREM_RW" "IS_CACHED T_SELF_REF_PERM"
  by (simp_all add: IS_CACHED_def page_consts)

lemma cached_nonzero: "IS_CACHED e \<Longrightarrow> e \<noteq> 0"
  by (metis IS_CACHED_0)

lemma boot_directory:
  assumes "boot_machine L ptd s" "i < 1024"
  shows "boot_table L (unat i) = None \<Longrightarrow> l1e s i = 0"
    "boot_table L (unat i) = Some T \<Longrightarrow> IS_CACHED (l1e s i) \<and> tbl s i = ptd + 4096 * of_nat T"
proof -
  have i: "unat i < 1024" using assms(2) by (simp add: word_less_nat_alt)
  then have "entry ptd (phys s) (unat i) = boot_entry L ptd (unat i)" "cr3 s = ptd"
    using assms(1) by (simp_all add: boot_machine_def)
  then have e: "l1e s i = boot_entry L ptd (unat i)" by (simp add: l1e_def entry_def)
  have lay: "layout_ok L" and area: "kpg_area ptd" using assms(1) by (simp_all add: boot_machine_def)
  show "l1e s i = 0" if "boot_table L (unat i) = None"
    using that i lay by (auto simp: e boot_entry_def boot_table_def layout_ok_def Let_def split: if_splits)
  show "IS_CACHED (l1e s i) \<and> tbl s i = ptd + 4096 * of_nat T" if t: "boot_table L (unat i) = Some T"
  proof -
    have p: "page_aligned (ptd + 4096 * of_nat T)" by (rule area_page(1) [OF area boot_table_less [OF lay t]])
    have "\<exists>fl. IS_CACHED fl \<and> boot_entry L ptd (unat i) = NEW_L1_ENTRY fl (ptd + 4096 * of_nat T)"
      using t lay present_perms by (auto simp: boot_entry_def boot_table_def layout_ok_def Let_def split: if_splits)
    then show ?thesis using p by (auto simp: e tbl_def PG_ALIGN_id)
  qed
qed

lemma boot_l2e:
  assumes "boot_machine L ptd s" "i < 1024" "j < 1024" "boot_table L (unat i) = Some T"
  shows "l2e s i j = boot_entry L ptd (1024 * T + unat j)"
proof -
  have "T < 6" using assms(1,4) by (auto simp: boot_machine_def intro: boot_table_less)
  moreover have "unat j < 1024" using assms(3) by (simp add: word_less_nat_alt)
  ultimately have q: "1024 * T + unat j < 6144" by simp
  have "tbl s i = ptd + 4096 * of_nat T" using boot_directory(2) [OF assms(1,2,4)] by simp
  then have "l2e s i j = entry ptd (phys s) (1024 * T + unat j)"
    by (simp add: l2e_def entry_def algebra_simps)
  then show ?thesis using assms(1) q by (simp add: boot_machine_def)
qed

lemma boot_vm_ok:
  assumes "boot_machine L ptd s" "pmm_ok s" "\<And>T. T < 6 \<Longrightarrow> \<not> page_free s (drop_bit 12 (ptd + 4096 * of_nat T))"
  shows "vm_ok s"
  unfolding vm_ok_def
proof (intro conjI allI impI)
  note dir = boot_directory [OF assms(1)]
  have area: "kpg_area ptd" and lay: "layout_ok L" and c: "cr3 s = ptd" using assms(1) by (simp_all add: boot_machine_def)
  have self: "boot_table L (unat (1023 :: u32)) = Some 0" by (simp add: boot_table_def Let_def)
  show "pmm_ok s" by fact
  show "page_aligned (cr3 s)" using area by (simp add: c kpg_area_def)
  show "l1e s 1023 \<noteq> 0" "tbl s 1023 = cr3 s" using dir(2) [OF _ self] by (auto simp: c dest: cached_nonzero)
  have tab: "\<exists>T < 6. boot_table L (unat i) = Some T \<and> IS_CACHED (l1e s i) \<and> tbl s i = ptd + 4096 * of_nat T"
    if i: "i < 1024" "l1e s i \<noteq> 0" for i
  proof (cases "boot_table L (unat i)")
    case None
    then show ?thesis using dir(1) [OF i(1)] i(2) by blast
  next
    case (Some T)
    then show ?thesis using dir(2) [OF i(1) Some] boot_table_less [OF lay Some] by blast
  qed
  show "IS_CACHED (l1e s i)" "\<not> page_free s (drop_bit 12 (tbl s i))" if "i < 1024" "l1e s i \<noteq> 0" for i
    using tab [OF that] assms(3) by metis+
  show "i = j" if ij: "i < 1024" "j < 1024" "l1e s i \<noteq> 0" "l1e s j \<noteq> 0" "tbl s i = tbl s j" for i j
  proof -
    from tab [OF ij(1,3)] tab [OF ij(2,4)] ij(5) obtain T U where
      t: "T < 6" "boot_table L (unat i) = Some T" "U < 6" "boot_table L (unat j) = Some U"
      and e: "ptd + 4096 * of_nat T = ptd + 4096 * of_nat U" by metis
    have "unat ptd + 4096 * T = unat ptd + 4096 * U"
      using arg_cong [OF e, of unat] unfolding area_page(2) [OF area t(1)] area_page(2) [OF area t(3)] .
    then have "T = U" by simp
    then have "unat i = unat j" using boot_table_inj [OF lay t(2)] t(4) by blast
    then show ?thesis by (simp only: word_unat_eq_iff)
  qed
qed

lemma boot_l2e_identity:
  assumes "boot_machine L ptd s" "j < 1024"
  shows "l2e s 0 j = (if unat j < 256 + unat (HHK_PAGE_COUNT L) then NEW_L2_ENTRY PG_PREM_RW (4096 * j) else 0)"
proof -
  have "boot_table L (unat (0 :: u32)) = Some 1" by (simp add: boot_table_def Let_def)
  from boot_l2e [OF assms(1) _ assms(2) this] have "l2e s 0 j = boot_entry L ptd (1024 + unat j)" by simp
  moreover have "unat j < 1024" using assms(2) by (simp add: word_less_nat_alt)
  ultimately show ?thesis using assms(1) by (auto simp: boot_machine_def layout_ok_def boot_entry_def Let_def)
qed

lemma boot_l2e_kernel:
  assumes "boot_machine L ptd s" "i < 1024" "j < 1024" "x < 3" "unat i = unat (L1_INDEX (kernel_start L)) + x"
    "y = 1024 * x + unat j" "t = unat (L2_INDEX (kernel_start L))"
  shows "l2e s i j = (if t \<le> y \<and> y < t + unat (KERNEL_PAGE_COUNT L)
      then NEW_L2_ENTRY PG_PREM_RW (V2P (kernel_start L) + 4096 * of_nat (y - t)) else 0)"
proof -
  have lay: "layout_ok L" using assms(1) by (simp add: boot_machine_def)
  then have "boot_table L (unat i) = Some (2 + x)" using assms(4,5) by (auto simp: boot_table_def layout_ok_def Let_def)
  from boot_l2e [OF assms(1-3) this] have e: "l2e s i j = boot_entry L ptd (2048 + y)"
    by (simp add: assms(6) algebra_simps)
  have "\<not> 2048 + y < 1280 + unat (HHK_PAGE_COUNT L)" "unat (L1_INDEX (kernel_start L)) \<le> 1020"
    using lay by (simp_all add: layout_ok_def)
  then show ?thesis unfolding e boot_entry_def Let_def assms(7) by simp
qed

text \<open>The address map the tables hold: the pages from 0 to the end of the setup code map to themselves, the pages of the
  kernel map to the physical pages below \<open>0xC0000000\<close> as far as the three tables reach, and nothing else
  is mapped below the directory.\<close>

definition built_map :: "linker \<Rightarrow> u32 \<Rightarrow> u32 option" where
  "built_map L va =
    (if unat va < 0x100000 + 4096 * unat (HHK_PAGE_COUNT L) then Some va
     else if unat (kernel_start L) \<le> unat va \<and> unat va < unat (kernel_start L) + 4096 * unat (KERNEL_PAGE_COUNT L)
       \<and> unat va < 4194304 * (unat (L1_INDEX (kernel_start L)) + 3) then Some (V2P va)
     else None)"

lemma V2P_page_aligned: "page_aligned a \<Longrightarrow> page_aligned (V2P a)"
proof -
  assume "page_aligned a"
  then have "4096 dvd unat a" using aligned_dvd_u32 [of a 12] by (simp add: page_aligned_mask)
  moreover have "V2P a = a + 0x40000000" by (simp add: V2P_def HIGHER_HLF_BASE_def)
  then have "unat (V2P a) = (unat a + 0x40000000) mod 4294967296" by (simp add: unat_word_ariths)
  ultimately have "4096 dvd unat (V2P a)" by (simp only:) (rule dvd_mod, simp_all)
  then show ?thesis using aligned_dvd_u32 [of "V2P a" 12] by (simp add: page_aligned_mask)
qed

lemma boot_translate:
  assumes boot: "boot_machine L ptd s" and ks: "page_aligned (kernel_start L)" and va: "L1_INDEX va < 1023"
  shows "mmu_translate s va = built_map L va"
proof -
  define p j d t k where "p = unat va div 4096" and "j = L2_INDEX va" and "d = unat (L1_INDEX (kernel_start L))"
    and "t = unat (L2_INDEX (kernel_start L))" and "k = unat (kernel_start L) div 4096"
  have lay: "layout_ok L" and c: "page_aligned (cr3 s)" using boot by (simp_all add: boot_machine_def kpg_area_def)
  have idx: "unat (L1_INDEX va) = p div 1024" "unat j = p mod 1024" "j < 1024" "L1_INDEX va < 1024"
    by (simp_all add: p_def j_def unat_word div_mult2_eq [symmetric])
  have k: "k = 1024 * d + t"
    using div_mult_mod_eq [of k 1024] by (simp add: k_def d_def t_def unat_word div_mult2_eq [symmetric])
  have "4096 dvd unat (kernel_start L)"
    using ks aligned_dvd_u32 [of "kernel_start L" 12] by (simp add: page_aligned_mask)
  then have k4: "unat (kernel_start L) = 4096 * k" by (simp add: k_def)
  have pb: "4096 * p \<le> unat va" "unat va < 4096 * p + 4096" by (simp_all add: p_def)
  consider (low) "p div 1024 = 0" | (mid) "d \<le> p div 1024" "p div 1024 < d + 3" | (none) "p div 1024 \<noteq> 0" "\<not> (d \<le> p div 1024 \<and> p div 1024 < d + 3)"
    by linarith
  then show ?thesis
  proof cases
    case low
    then have i0: "L1_INDEX va = 0" using idx(1) by (simp add: unat_eq_zero)
    have pj: "unat j = p" "p < 1024" using low idx(2) by auto
    have "IS_CACHED (l1e s 0)" using boot_directory(2) [OF boot, of 0 1] by (simp add: boot_table_def Let_def)
    moreover have "4096 * j = PG_ALIGN va"
      using pj by (simp add: word_unat_eq_iff unat_PG_ALIGN p_def unat_mult_u32 minus_mod_eq_mult_div)
    moreover have "p < 256 + unat (HHK_PAGE_COUNT L) \<longleftrightarrow> unat va < 0x100000 + 4096 * unat (HHK_PAGE_COUNT L)"
      unfolding p_def by (simp add: div_less_iff_less_mult mult.commute)
    moreover have "unat va < unat (kernel_start L)" unfolding k4 k
      using lay pj(2) pb unfolding layout_ok_def d_def [symmetric] by auto
    ultimately show ?thesis unfolding mmu_translate_l2e [OF c] i0 j_def [symmetric] boot_l2e_identity [OF boot idx(3)] built_map_def
      using pj(1) present_perms(2) by (simp add: PG_ALIGN_id page_split)
  next
    case mid
    define x y where "x = p div 1024 - d" and "y = 1024 * x + unat j"
    have x: "x < 3" "unat (L1_INDEX va) = d + x" using mid by (simp_all add: x_def idx(1))
    have y: "p = 1024 * d + y" using div_mult_mod_eq [of p 1024] x(2) unfolding y_def idx(1,2) by linarith
    have "boot_table L (unat (L1_INDEX va)) = Some (2 + x)"
      using x lay by (auto simp: boot_table_def layout_ok_def Let_def d_def)
    then have e: "IS_CACHED (l1e s (L1_INDEX va))" using boot_directory(2) [OF boot idx(4)] by blast
    have iff: "t \<le> y \<and> y < t + unat (KERNEL_PAGE_COUNT L)
        \<longleftrightarrow> unat (kernel_start L) \<le> unat va \<and> unat va < unat (kernel_start L) + 4096 * unat (KERNEL_PAGE_COUNT L)
          \<and> unat va < 4194304 * (unat (L1_INDEX (kernel_start L)) + 3)"
      using k y pb k4 x(1) idx(2) unfolding d_def [symmetric] by (auto simp: y_def)
    have "PG_ALIGN (V2P (kernel_start L) + 4096 * of_nat (y - t)) = V2P (PG_ALIGN va)" if "t \<le> y"
    proof -
      have u: "unat (PG_ALIGN va) = 4096 * p" by (simp add: unat_PG_ALIGN p_def minus_mod_eq_mult_div)
      have "PG_ALIGN va = 4096 * of_nat p" using arg_cong [OF u, of "of_nat :: nat \<Rightarrow> u32"] by simp
      moreover have "kernel_start L = 4096 * of_nat k" using arg_cong [OF k4, of "of_nat :: nat \<Rightarrow> u32"] by simp
      moreover have "p = k + (y - t)" using k y that by simp
      ultimately have "V2P (kernel_start L) + 4096 * of_nat (y - t) = V2P (PG_ALIGN va)"
        by (simp add: V2P_def algebra_simps)
      then show ?thesis by (simp add: PG_ALIGN_id V2P_page_aligned)
    qed
    moreover have "V2P (PG_ALIGN va) + PG_OFFSET va = V2P va"
      using page_split [of va] by (simp add: V2P_def algebra_simps)
    moreover have "\<not> unat va < 0x100000 + 4096 * unat (HHK_PAGE_COUNT L)"
      using lay y pb by (simp add: layout_ok_def d_def)
    ultimately show ?thesis unfolding mmu_translate_l2e [OF c] j_def [symmetric] built_map_def
        boot_l2e_kernel [OF boot idx(4,3) x(1) x(2) [unfolded d_def] y_def t_def] iff [symmetric]
      using e present_perms(2) by auto
  next
    case none
    have "boot_table L (unat (L1_INDEX va)) = None"
      using none va unfolding boot_table_def Let_def idx(1) d_def [symmetric] by (auto simp: word_less_nat_alt idx(1))
    then have "l1e s (L1_INDEX va) = 0" by (rule boot_directory(1) [OF boot idx(4)])
    moreover have "built_map L va = None"
    proof -
      have "1024 \<le> p" using none(1) by linarith
      moreover have "p < 1024 * d \<or> 1024 * d + 3072 \<le> p" using none(2) by linarith
      ultimately show ?thesis using lay k k4 pb
        unfolding built_map_def layout_ok_def d_def [symmetric] by auto
    qed
    ultimately show ?thesis by (simp add: mmu_translate_l2e [OF c])
  qed
qed

text \<open>What the setup is meant to map, by the linker's symbols: the memory below 1 MiB and the pages of the setup code to
  themselves, every page of the kernel image to where it is loaded, and nothing else. The three page tables of the kernel end at
  \<open>tables_end\<close>.\<close>

definition intended_map :: "linker \<Rightarrow> u32 \<Rightarrow> u32 option" where
  "intended_map L va =
    (if unat va < 0x100000 \<or> unat (PG_ALIGN va) < unat (init_hhk_end L) then Some va
     else if unat (kernel_start L) \<le> unat va \<and> unat (PG_ALIGN va) < unat (kernel_end L) then Some (V2P va)
     else None)"

definition tables_end :: "linker \<Rightarrow> nat" where
  "tables_end L = 4194304 * (unat (L1_INDEX (kernel_start L)) + 3)"

lemma pages_up_to:
  fixes v b e :: nat
  assumes "4096 * b \<le> e"
  shows "v < 4096 * b + 4096 * ((e - 4096 * b + 4095) div 4096) \<longleftrightarrow> v < 4096 * b \<or> 4096 * (v div 4096) < e"
proof -
  obtain x where x: "e = 4096 * b + x" using assms le_Suc_ex by blast
  define q c where "q = v div 4096" and "c = (x + 4095) div 4096"
  have "v < 4096 * (b + c) \<longleftrightarrow> q < b + c" "v < 4096 * b \<longleftrightarrow> q < b"
    by (simp_all only: q_def div_less_iff_less_mult zero_less_numeral mult.commute)
  moreover have c: "p < c \<longleftrightarrow> 4096 * p < x" for p
  proof -
    have "p < c \<longleftrightarrow> Suc p * 4096 \<le> x + 4095"
      by (simp only: c_def Suc_le_eq [symmetric] less_eq_div_iff_mult_less_eq zero_less_numeral)
    then show ?thesis by auto
  qed
  moreover have "q < b + c \<longleftrightarrow> q < b \<or> 4096 * q < 4096 * b + x"
  proof (cases "q < b")
    case False
    then obtain p where "q = b + p" using not_less le_Suc_ex by metis
    then show ?thesis using c [of p] by simp
  qed simp
  ultimately show ?thesis unfolding x by (simp add: q_def c_def algebra_simps)
qed

lemma page_counts:
  assumes "0x100000 \<le> init_hhk_end L" "init_hhk_end L \<le> 0x400000" "0 < L1_INDEX (kernel_start L)" "kernel_start L \<le> kernel_end L"
  shows "unat (HHK_PAGE_COUNT L) = (unat (init_hhk_end L) - 0x100000 + 4095) div 4096"
    "unat (KERNEL_PAGE_COUNT L) = (unat (kernel_end L) - unat (kernel_start L) + 4095) div 4096"
    "unat (HHK_PAGE_COUNT L) \<le> 768"
proof -
  have round: "a + 0x1000 - 1 = a + 0xFFF" for a :: u32 by simp
  have "unat (init_hhk_end L - 0x100000) = unat (init_hhk_end L) - 0x100000"
    using assms(1) by (simp add: unat_sub_u32 word_le_nat_alt)
  moreover have hi: "unat (init_hhk_end L) \<le> 0x400000" using assms(2) by (simp add: word_le_nat_alt)
  ultimately have "unat (init_hhk_end L - 0x100000 + 0xFFF) = unat (init_hhk_end L) - 0x100000 + 4095"
    by (subst unat_add_u32) simp_all
  then show h: "unat (HHK_PAGE_COUNT L) = (unat (init_hhk_end L) - 0x100000 + 4095) div 4096"
    by (simp only: HHK_PAGE_COUNT_def round unat_drop_bit_eq) (simp add: drop_bit_eq_div)
  show "unat (HHK_PAGE_COUNT L) \<le> 768" using hi unfolding h by simp
  have lt: "unat (kernel_end L) < 4294967296" using unsigned_less [of "kernel_end L"] by simp
  have s: "4194304 \<le> unat (kernel_start L)" using assms(3) by (simp add: word_less_nat_alt unat_word)
  have "unat (kernel_end L) - unat (kernel_start L) + 4095 < 4294967296" using lt s by linarith
  moreover have "unat (kernel_end L - kernel_start L) = unat (kernel_end L) - unat (kernel_start L)"
    using assms(4) by (simp add: unat_sub_u32 word_le_nat_alt)
  ultimately have "unat (kernel_end L - kernel_start L + 0xFFF) = unat (kernel_end L) - unat (kernel_start L) + 4095"
    by (subst unat_add_u32) simp_all
  then show "unat (KERNEL_PAGE_COUNT L) = (unat (kernel_end L) - unat (kernel_start L) + 4095) div 4096"
    by (simp only: KERNEL_PAGE_COUNT_def round unat_drop_bit_eq) (simp add: drop_bit_eq_div)
qed

text \<open>The tables hold the intended map as far as they reach.\<close>

lemma built_map_intended:
  assumes "0x100000 \<le> init_hhk_end L" "init_hhk_end L \<le> 0x400000" "0 < L1_INDEX (kernel_start L)" "kernel_start L \<le> kernel_end L"
    "page_aligned (kernel_start L)"
  shows "built_map L va = (if tables_end L \<le> unat va then None else intended_map L va)"
proof -
  note c = page_counts [OF assms(1-4)]
  have e: "0x100000 \<le> unat (init_hhk_end L)" "unat (kernel_start L) \<le> unat (kernel_end L)" using assms(1,4) by (simp_all add: word_le_nat_alt)
  obtain n where n: "unat (kernel_start L) = 4096 * n" using assms(5) aligned_dvd_u32 [of "kernel_start L" 12] by (auto simp: page_aligned_mask)
  have p: "unat (PG_ALIGN va) = 4096 * (unat va div 4096)" by (simp add: unat_PG_ALIGN minus_mod_eq_mult_div)
  have low: "unat va < 0x100000 + 4096 * unat (HHK_PAGE_COUNT L) \<longleftrightarrow> unat va < 0x100000 \<or> unat (PG_ALIGN va) < unat (init_hhk_end L)"
    using pages_up_to [of 256 "unat (init_hhk_end L)" "unat va"] e(1) by (simp add: c p)
  have high: "unat va < unat (kernel_start L) + 4096 * unat (KERNEL_PAGE_COUNT L)
      \<longleftrightarrow> unat va < unat (kernel_start L) \<or> unat (PG_ALIGN va) < unat (kernel_end L)"
    using pages_up_to [of n "unat (kernel_end L)" "unat va"] e(2) by (simp add: c p n)
  have "0x100000 + 4096 * unat (HHK_PAGE_COUNT L) \<le> tables_end L" using c(3) by (simp add: tables_end_def)
  then show ?thesis unfolding built_map_def intended_map_def low [symmetric] using high by (auto simp: tables_end_def)
qed

lemma intended_beyond:
  assumes "init_hhk_end L \<le> 0x400000" "unat (kernel_end L) \<le> tables_end L" "tables_end L \<le> unat va"
  shows "intended_map L va = None"
proof -
  have "4096 * (tables_end L div 4096) = tables_end L" by (simp add: tables_end_def)
  moreover have "tables_end L div 4096 \<le> unat va div 4096" using assms(3) by (rule div_le_mono)
  moreover have "unat (PG_ALIGN va) = 4096 * (unat va div 4096)" by (simp add: unat_PG_ALIGN minus_mod_eq_mult_div)
  ultimately have "tables_end L \<le> unat (PG_ALIGN va)" by linarith
  moreover have "unat (init_hhk_end L) \<le> 0x400000" using assms(1) by (simp add: word_le_nat_alt)
  ultimately show ?thesis using assms by (simp add: intended_map_def) (simp add: tables_end_def)
qed

lemma hhk_init_too_large: "3072 < unat (KERNEL_PAGE_COUNT L) \<Longrightarrow> hhk_init L ptd n m = None"
  by (simp add: hhk_init_def init_page_def Let_def PG_TABLE_STACK_def PG_TABLE_KERNEL_def PG_MAX_ENTRIES_def word_less_nat_alt)

section \<open>Copying the boot loader's information\<close>

text \<open>\<open>n\<close> bytes from \<open>a\<close> lie outside the \<open>l\<close> bytes from \<open>d\<close>, and neither block wraps.\<close>

definition outside :: "u32 \<Rightarrow> nat \<Rightarrow> u32 \<Rightarrow> nat \<Rightarrow> bool" where
  "outside a n d l \<longleftrightarrow> unat a + n \<le> 4294967296 \<and> unat d + l \<le> 4294967296 \<and> (unat a + n \<le> unat d \<or> unat d + l \<le> unat a)"

lemma outside_mono: "outside a n d l \<Longrightarrow> unat d' = unat d + k \<Longrightarrow> k + l' \<le> l \<Longrightarrow> outside a n d' l'"
  by (auto simp: outside_def)

lemma copy_byte:
  "outside a n d n \<Longrightarrow> i < n \<Longrightarrow> unat (a + of_nat i) = unat a + i \<and> unat (d + of_nat i) = unat d + i"
  by (simp add: outside_def unat_add_u32)

lemma for_up_copy:
  assumes "outside a n d n"
  shows "for_up n 0 (\<lambda>i m. m(d + i := m (a + i))) m x
    = (if unat d \<le> unat x \<and> unat x < unat d + n then m (a + (x - d)) else m x)"
proof -
  have gen: "for_up j (of_nat (n - j)) (\<lambda>i m. m(d + i := m (a + i))) m' x
      = (if unat d + (n - j) \<le> unat x \<and> unat x < unat d + n then m (a + (x - d)) else m' x)"
    if "j \<le> n" "\<And>i. i < n \<Longrightarrow> m' (a + of_nat i) = m (a + of_nat i)" for j m'
    using that
  proof (induction j arbitrary: m')
    case (Suc j)
    let ?i = "of_nat (n - Suc j) :: u32"
    have nj: "n - j = Suc (n - Suc j)" using Suc.prems(1) by simp
    have i: "n - Suc j < n" "?i + 1 = of_nat (n - j)" unfolding nj using Suc.prems(1) by (simp_all add: add.commute)
    have keep: "(m'(d + ?i := m' (a + ?i))) (a + of_nat k) = m (a + of_nat k)" if "k < n" for k
    proof -
      have "unat (a + of_nat k) \<noteq> unat (d + ?i)"
        using copy_byte [OF assms that] copy_byte [OF assms i(1)] assms i(1) that by (auto simp: outside_def)
      then show ?thesis using Suc.prems(2) [OF that] by (auto simp: word_unat_eq_iff)
    qed
    have "for_up (Suc j) ?i (\<lambda>i m. m(d + i := m (a + i))) m' x
        = for_up j (of_nat (n - j)) (\<lambda>i m. m(d + i := m (a + i))) (m'(d + ?i := m' (a + ?i))) x"
      unfolding i(2) [symmetric] by (simp only: for_up.simps)
    also have "\<dots> = (if unat d + (n - j) \<le> unat x \<and> unat x < unat d + n then m (a + (x - d)) else (m'(d + ?i := m' (a + ?i))) x)"
      using Suc.prems(1) keep by (intro Suc.IH) simp_all
    also have "\<dots> = (if unat d + (n - Suc j) \<le> unat x \<and> unat x < unat d + n then m (a + (x - d)) else m' x)"
    proof (cases "x = d + ?i")
      case True
      have "unat x = unat d + (n - Suc j)" using copy_byte [OF assms i(1)] unfolding True by blast
      moreover have "x - d = ?i" unfolding True by simp
      ultimately show ?thesis using Suc.prems(1) Suc.prems(2) [OF i(1)] nj i(1) True by simp
    next
      case False
      then have "unat x \<noteq> unat d + (n - Suc j)" using copy_byte [OF assms i(1)] by (metis word_unat_eq_iff)
      then show ?thesis using False nj by auto
    qed
    finally show ?case .
  qed (use assms in auto)
  show ?thesis using gen [of n m] by simp
qed

definition in_block :: "u32 \<Rightarrow> nat \<Rightarrow> u32 \<Rightarrow> bool" where
  "in_block d l x \<longleftrightarrow> unat d \<le> unat x \<and> unat x < unat d + l"

lemma outside_byte: "outside a n d l \<Longrightarrow> i < n \<Longrightarrow> \<not> in_block d l (a + of_nat i)"
  by (auto simp: outside_def in_block_def unat_add_u32)

lemma outside_sub: "outside a n d l \<Longrightarrow> i + k \<le> n \<Longrightarrow> 0 < k \<Longrightarrow> outside (a + of_nat i) k d l"
  by (auto simp: outside_def unat_add_u32)

lemma load32_outside:
  assumes "outside p 4 d l" "\<And>x. \<not> in_block d l x \<Longrightarrow> m' x = m x"
  shows "load32 m' p = load32 m p"
  using outside_byte [OF assms(1), of 0] outside_byte [OF assms(1), of 1] outside_byte [OF assms(1), of 2]
    outside_byte [OF assms(1), of 3] by (simp add: load32_def assms(2))

lemma load32_bytes:
  assumes "\<And>i. i < 4 \<Longrightarrow> m' (q + of_nat i) = m (p + of_nat i)"
  shows "load32 m' q = load32 m p"
  using assms [of 0] assms [of 1] assms [of 2] assms [of 3] by (simp add: load32_def)

lemma store32_block:
  assumes "unat p + 4 \<le> 4294967296" "\<not> in_block p 4 x"
  shows "store32 m p v x = m x"
  using assms by (intro store32_apart) (auto simp: in_block_def unat_add_u32)

text \<open>What \<^verbatim>\<open>_save_multiboot_info\<close> has to leave at \<open>d\<close>: the structure, the memory map behind it and,
  when the loader passed it, the drive table behind the map, with the two pointers redirected.\<close>

definition mmap_bytes :: "u32 \<Rightarrow> mem \<Rightarrow> nat" where
  "mmap_bytes info m = unat (load32 m (mbi_mmap_length info))"

definition drive_bytes :: "u32 \<Rightarrow> mem \<Rightarrow> nat" where
  "drive_bytes info m = (if load32 m (mbi_flags info) AND MULTIBOOT_INFO_DRIVE_INFO \<noteq> 0 then unat (load32 m (mbi_drives_length info)) else 0)"

definition saved_bytes :: "u32 \<Rightarrow> mem \<Rightarrow> nat" where
  "saved_bytes info m = 120 + mmap_bytes info m + drive_bytes info m"

definition info_saved :: "u32 \<Rightarrow> u32 \<Rightarrow> mem \<Rightarrow> mem \<Rightarrow> bool" where
  "info_saved info d m m' \<longleftrightarrow>
     (\<forall>i < 120. i < 48 \<or> 52 \<le> i \<and> i < 56 \<or> 60 \<le> i \<longrightarrow> m' (d + of_nat i) = m (info + of_nat i)) \<and> load32 m' (mbi_mmap_addr d) = d + 120
     \<and> load32 m' (mbi_drives_addr d) = (if load32 m (mbi_flags info) AND MULTIBOOT_INFO_DRIVE_INFO \<noteq> 0
          then d + of_nat (120 + mmap_bytes info m) else load32 m (mbi_drives_addr info))
     \<and> (\<forall>i < mmap_bytes info m. m' (d + 120 + of_nat i) = m (load32 m (mbi_mmap_addr info) + of_nat i))
     \<and> (\<forall>i < drive_bytes info m. m' (load32 m' (mbi_drives_addr d) + of_nat i) = m (load32 m (mbi_drives_addr info) + of_nat i))
     \<and> (\<forall>x. \<not> in_block d (saved_bytes info m) x \<longrightarrow> m' x = m x)"

definition info_apart :: "u32 \<Rightarrow> u32 \<Rightarrow> mem \<Rightarrow> bool" where
  "info_apart info d m \<longleftrightarrow> outside info 120 d (saved_bytes info m)
     \<and> outside (load32 m (mbi_mmap_addr info)) (mmap_bytes info m) d (saved_bytes info m)
     \<and> outside (load32 m (mbi_drives_addr info)) (drive_bytes info m) d (saved_bytes info m)"

text \<open>Copying a block that lies outside the destination area into it.\<close>

lemma copy_into:
  assumes "outside a n d l" "k + n \<le> l" "\<And>x. \<not> in_block d l x \<Longrightarrow> m1 x = m x"
  shows "\<not> (unat d + k \<le> unat x \<and> unat x < unat d + k + n) \<Longrightarrow> for_up n 0 (\<lambda>i m. m(d + of_nat k + i := m (a + i))) m1 x = m1 x"
    and "i < n \<Longrightarrow> for_up n 0 (\<lambda>i m. m(d + of_nat k + i := m (a + i))) m1 (d + of_nat k + of_nat i) = m (a + of_nat i)"
proof -
  have o: "unat (d + of_nat k) = unat d + k" "outside a n (d + of_nat k) n" if "0 < n"
  proof -
    show u: "unat (d + of_nat k) = unat d + k" using assms(1,2) that by (subst unat_add_u32) (auto simp: outside_def)
    show "outside a n (d + of_nat k) n" using outside_mono [OF assms(1) u] assms(2) by simp
  qed
  show "for_up n 0 (\<lambda>i m. m(d + of_nat k + i := m (a + i))) m1 x = m1 x" if "\<not> (unat d + k \<le> unat x \<and> unat x < unat d + k + n)"
    using that o by (cases "n = 0") (auto simp: for_up_copy [OF o(2)] simp del: for_up.simps(2))
  show "for_up n 0 (\<lambda>i m. m(d + of_nat k + i := m (a + i))) m1 (d + of_nat k + of_nat i) = m (a + of_nat i)" if i: "i < n"
  proof -
    have n: "0 < n" using i by simp
    show ?thesis
      unfolding for_up_copy [OF o(2) [OF n]] using copy_byte [OF o(2) [OF n] i] i assms(3) [OF outside_byte [OF assms(1) i]] by simp
  qed
qed

lemma save_multiboot_info_correct:
  assumes "info_apart info d m"
  shows "info_saved info d m (save_multiboot_info info d m)"
proof -
  define n D l a b where "n = mmap_bytes info m" and "D = drive_bytes info m" and "l = saved_bytes info m"
    and "a = load32 m (mbi_mmap_addr info)" and "b = load32 m (mbi_drives_addr info)"
  have l: "l = 120 + n + D" by (simp add: n_def D_def l_def saved_bytes_def)
  have out: "outside info 120 d l" "outside a n d l" "outside b D d l"
    using assms by (simp_all add: info_apart_def n_def D_def l_def a_def b_def)
  have dl: "unat d + l \<le> 4294967296" using out(1) by (simp add: outside_def)
  have off: "unat (d + of_nat k) = unat d + k" if "k < l" for k
    using dl that by (subst unat_add_u32) auto
  define m1 where "m1 = for_up 120 0 (\<lambda>i m. m(d + of_nat 0 + i := m (info + i))) m"
  define m2 where "m2 = store32 m1 (d + of_nat 48) (d + 120)"
  define m3 where "m3 = for_up n 0 (\<lambda>i m. m(d + of_nat 120 + i := m (a + i))) m2"
  define m4 where "m4 = store32 m3 (d + of_nat 56) (d + of_nat (120 + n))"
  define m5 where "m5 = for_up D 0 (\<lambda>i m. m(d + of_nat (120 + n) + i := m (b + i))) m4"
  have st: "store32 w (d + of_nat k) v x = w x" if "k + 4 \<le> l" "\<not> (unat d + k \<le> unat x \<and> unat x < unat d + (k + 4))" for w k v x
    using off [of k] dl that by (intro store32_block) (auto simp: in_block_def)
  have c1: "\<not> (unat d \<le> unat x \<and> unat x < unat d + 120) \<Longrightarrow> m1 x = m x"
    "i < 120 \<Longrightarrow> m1 (d + of_nat i) = m (info + of_nat i)" for x i
    using copy_into(1) [OF out(1), where k = 0 and m = m and ?m1.0 = m and x = x] copy_into(2) [OF out(1), where k = 0 and m = m and ?m1.0 = m and i = i] l by (auto simp: m1_def simp del: for_up.simps)
  have c2: "\<not> (unat d + 48 \<le> unat x \<and> unat x < unat d + 52) \<Longrightarrow> m2 x = m1 x" "load32 m2 (d + of_nat 48) = d + 120" for x
    using st [of 48 x m1 "d + 120"] l by (simp_all add: m2_def)
  have o2: "\<not> in_block d l x \<Longrightarrow> m2 x = m x" for x using c1(1) [of x] c2(1) [of x] l by (auto simp: in_block_def)
  have c3: "\<not> (unat d + 120 \<le> unat x \<and> unat x < unat d + 120 + n) \<Longrightarrow> m3 x = m2 x"
    "i < n \<Longrightarrow> m3 (d + of_nat 120 + of_nat i) = m (a + of_nat i)" for x i
    using copy_into(1) [OF out(2) _ o2, where k = 120 and x = x] copy_into(2) [OF out(2) _ o2, where k = 120 and i = i] l by (simp_all add: m3_def del: for_up.simps)
  have c4: "\<not> (unat d + 56 \<le> unat x \<and> unat x < unat d + 60) \<Longrightarrow> m4 x = m3 x" "load32 m4 (d + of_nat 56) = d + of_nat (120 + n)" for x
    using st [of 56 x m3 "d + of_nat (120 + n)"] l by (simp_all add: m4_def)
  have o4: "\<not> in_block d l x \<Longrightarrow> m4 x = m x" for x using o2 [of x] c3(1) [of x] c4(1) [of x] l by (auto simp: in_block_def)
  have c5: "\<not> (unat d + (120 + n) \<le> unat x \<and> unat x < unat d + (120 + n) + D) \<Longrightarrow> m5 x = m4 x"
    "i < D \<Longrightarrow> m5 (d + of_nat (120 + n) + of_nat i) = m (b + of_nat i)" for x i
    using copy_into(1) [OF out(3) _ o4, where k = "120 + n" and x = x] copy_into(2) [OF out(3) _ o4, where k = "120 + n" and i = i] l by (simp_all add: m5_def del: for_up.simps of_nat_add)
  have ld: "load32 w (info + of_nat k) = load32 m (info + of_nat k)" if "\<And>x. \<not> in_block d l x \<Longrightarrow> w x = m x" "k + 4 \<le> 120" for w k
    by (rule load32_outside [OF outside_sub [OF out(1) that(2)] that(1)]) simp
  have o3: "\<not> in_block d l x \<Longrightarrow> m3 x = m x" for x using o2 [of x] c3(1) [of x] l by (auto simp: in_block_def)
  note ld2 = ld [of m2, OF o2] and ld3 = ld [of m3, OF o3] and ld4 = ld [of m4, OF o4]
  have run: "save_multiboot_info info d m = (if load32 m (mbi_flags info) AND MULTIBOOT_INFO_DRIVE_INFO \<noteq> 0 then m5 else m3)"
  proof -
    have "for_up (unat sizeof_multiboot_info) 0 (\<lambda>i m. m(d + i := m (info + i))) m = m1"
      by (simp add: m1_def sizeof_multiboot_info_def del: for_up.simps)
    moreover have "store32 m1 (mbi_mmap_addr d) (d + sizeof_multiboot_info) = m2"
      by (simp add: m2_def mbi_defs sizeof_multiboot_info_def)
    moreover have "save_subset (d + sizeof_multiboot_info) (load32 m2 (mbi_mmap_addr info)) (load32 m2 (mbi_mmap_length info)) m2
        = (of_nat n, m3)"
      using ld2 [of 48] ld2 [of 44]
      by (simp add: save_subset_def m3_def sizeof_multiboot_info_def mbi_defs a_def n_def mmap_bytes_def del: for_up.simps)
    moreover have "load32 m3 (mbi_flags info) = load32 m (mbi_flags info)" using ld3 [of 0] by (simp add: mbi_defs)
    moreover have "store32 m3 (mbi_drives_addr d) (d + (sizeof_multiboot_info + of_nat n)) = m4"
      by (simp add: m4_def mbi_defs sizeof_multiboot_info_def)
    moreover have "snd (save_subset (d + (sizeof_multiboot_info + of_nat n)) (load32 m4 (mbi_drives_addr info)) (load32 m4 (mbi_drives_length info)) m4)
        = m5" if "load32 m (mbi_flags info) AND MULTIBOOT_INFO_DRIVE_INFO \<noteq> 0"
      using ld4 [of 52] ld4 [of 56] that
      by (simp add: save_subset_def m5_def sizeof_multiboot_info_def mbi_defs b_def D_def drive_bytes_def del: for_up.simps)
    ultimately show ?thesis by (simp add: save_multiboot_info_def Let_def)
  qed
  define r where "r = save_multiboot_info info d m"
  have D0: "D = 0" if "\<not> load32 m (mbi_flags info) AND MULTIBOOT_INFO_DRIVE_INFO \<noteq> 0"
    using that by (simp add: D_def drive_bytes_def)
  have r3: "r x = m3 x" if "\<not> (unat d + 56 \<le> unat x \<and> unat x < unat d + 60)"
    "\<not> (unat d + (120 + n) \<le> unat x \<and> unat x < unat d + (120 + n) + D)" for x
    using c5(1) [OF that(2)] c4(1) [OF that(1)] by (simp add: r_def run)
  have word: "load32 w' (d + of_nat k) = load32 w (d + of_nat k)"
    if "k + 4 \<le> l" "\<And>x. unat d + k \<le> unat x \<Longrightarrow> unat x < unat d + k + 4 \<Longrightarrow> w' x = w x" for w w' k
  proof (rule load32_bytes)
    fix i :: nat assume "i < 4"
    then show "w' (d + of_nat k + of_nat i) = w (d + of_nat k + of_nat i)"
      using off [of "k + i"] that(1) by (intro that(2)) (simp_all add: add.assoc)
  qed
  have "r (d + of_nat i) = m (info + of_nat i)" if "i < 120" "i < 48 \<or> 52 \<le> i \<and> i < 56 \<or> 60 \<le> i" for i
    using r3 [of "d + of_nat i"] c3(1) [of "d + of_nat i"] c2(1) [of "d + of_nat i"] c1(2) [OF that(1)] off [of i] that l by auto
  moreover have "load32 r (mbi_mmap_addr d) = d + 120"
    using word [of 48 r m2] r3 c3(1) c2(2) l by (simp add: mbi_defs)
  moreover have "r (d + 120 + of_nat i) = m (a + of_nat i)" if "i < n" for i
    using r3 [of "d + of_nat (120 + i)"] c3(2) [OF that] off [of "120 + i"] that l by (simp add: add.assoc)
  moreover have drives: "load32 r (mbi_drives_addr d) = (if load32 m (mbi_flags info) AND MULTIBOOT_INFO_DRIVE_INFO \<noteq> 0
      then d + of_nat (120 + n) else b)"
  proof (cases "load32 m (mbi_flags info) AND MULTIBOOT_INFO_DRIVE_INFO \<noteq> 0")
    case True
    then show ?thesis using word [of 56 r m4] c5(1) c4(2) l by (simp add: mbi_defs r_def run)
  next
    case False
    have "load32 m3 (d + of_nat 56) = load32 m (info + of_nat 56)"
    proof (rule load32_bytes)
      fix i :: nat assume "i < 4"
      then show "m3 (d + of_nat 56 + of_nat i) = m (info + of_nat 56 + of_nat i)"
        using c3(1) [of "d + of_nat (56 + i)"] c2(1) [of "d + of_nat (56 + i)"] c1(2) [of "56 + i"] off [of "56 + i"] l
        by (simp add: add.assoc)
    qed
    then show ?thesis using False by (simp add: r_def run mbi_defs b_def)
  qed
  moreover have "r (load32 r (mbi_drives_addr d) + of_nat i) = m (b + of_nat i)" if i: "i < D" for i
  proof -
    have f: "load32 m (mbi_flags info) AND MULTIBOOT_INFO_DRIVE_INFO \<noteq> 0" using D0 i by auto
    then have r5: "r = m5" by (simp add: r_def run)
    show ?thesis using c5(2) [OF i] drives f by (simp only: r5 if_True simp_thms)
  qed
  moreover have "r x = m x" if "\<not> in_block d l x" for x
    using r3 [of x] o3 [OF that] that l by (auto simp: in_block_def)
  ultimately show ?thesis
    unfolding info_saved_def r_def [symmetric] n_def [symmetric] D_def [symmetric] l_def [symmetric] a_def [symmetric] b_def [symmetric]
    by simp
qed

section \<open>Outside the area\<close>

text \<open>The setup writes nothing outside the area.\<close>

lemma for_up_same: "(\<And>j m. j < n \<Longrightarrow> body (s + of_nat j) m x = m x) \<Longrightarrow> for_up n s body m x = m x"
proof (induction n arbitrary: s m)
  case (Suc n)
  have "for_up n (s + 1) body (body s m) x = body s m x"
    using Suc.prems [of "Suc _"] by (intro Suc.IH) (simp add: add.assoc)
  then show ?case using Suc.prems [of 0] by simp
qed simp

lemma entry_store_outside:
  assumes "kpg_area ptd" "q < 6144" "\<not> in_block ptd 24576 x"
  shows "store32 m (ptd + 4 * of_nat q) v x = m x"
proof -
  have "unat (ptd + 4 * of_nat q + of_nat j) = unat ptd + 4 * q + j" if "j < 4" for j
    using unat_entry [OF assms(1,2)] assms(1,2) that by (subst unat_add_u32) (simp_all add: kpg_area_def)
  from this [of 0] this [of 1] this [of 2] this [of 3] show ?thesis
    using assms(2,3) by (auto simp: store32_def in_block_def)
qed

lemma pte_outside:
  assumes "kpg_area ptd" "1024 * (t + 1) + k < 6144" "\<not> in_block ptd 24576 x"
  shows "SET_PTE ptd (of_nat t) (of_nat k) v m x = m x"
  using entry_store_outside [OF assms] by (simp add: SET_PTE_def PTE_addr)

lemma pde_outside:
  assumes "kpg_area ptd" "k < 6144" "\<not> in_block ptd 24576 x"
  shows "SET_PDE ptd (of_nat k) v m x = m x"
  using entry_store_outside [OF assms] by (simp add: SET_PDE_def)

lemma hhk_init_outside:
  assumes area: "kpg_area ptd" and lay: "layout_ok L" and run: "hhk_init L ptd 24576 m = Some m'" and out: "\<not> in_block ptd 24576 x"
  shows "m' x = m x"
proof -
  define d t c h where "d = unat (L1_INDEX (kernel_start L))" and "t = unat (L2_INDEX (kernel_start L))"
    and "c = unat (KERNEL_PAGE_COUNT L)" and "h = unat (HHK_PAGE_COUNT L)"
  note nat_defs = d_def t_def c_def h_def
  have b: "h \<le> 768" "d \<le> 1020" "c \<le> 3072" "t < 1024" using lay L2_INDEX_lt [of "kernel_start L"]
    by (simp_all add: layout_ok_def nat_defs word_less_nat_alt)
  have idx: "L1_INDEX (kernel_start L) = of_nat d" "L2_INDEX (kernel_start L) = of_nat t" by (simp_all add: nat_defs)
  have clear: "for_up 24576 0 (\<lambda>i m. m(ptd + i := 0)) m x = m x"
    using for_up_clear [of ptd 24576 0 m x] area out by (auto simp: kpg_area_def in_block_def)
  note pte = pte_outside [OF area _ out] and pde = pde_outside [OF area _ out]
  have l1: "for_up 256 0 (\<lambda>i. SET_PTE ptd 0 i (V i)) n x = n x" for V n
    using pte [of 0] by (intro for_up_same) simp
  have l2: "for_up h 0 (\<lambda>i. SET_PTE ptd 0 (256 + i) (V i)) n x = n x" for V n
    using pte [of 0 "256 + _"] b(1) by (intro for_up_same) simp
  have l3: "for_up 3 0 (\<lambda>i. SET_PDE ptd (of_nat d + i) (V i)) n x = n x" for V n
    using pde [of "d + _"] b(2) by (intro for_up_same) simp
  have l4: "for_up c 0 (\<lambda>i. SET_PTE ptd 1 (of_nat t + i) (V i)) n x = n x" for V n
    using pte [of 1 "t + _"] b(3,4) by (intro for_up_same) simp
  have one: "SET_PDE ptd 0 v n x = n x" "SET_PDE ptd 1023 v n x = n x" for v n
    using pde [of 0] pde [of 1023] by simp_all
  show ?thesis using run unfolding hhk_init_def init_page_def Let_def idx nat_defs(3,4) [symmetric]
    by (auto simp: PG_TABLE_IDENTITY_def PG_TABLE_STACK_def PG_TABLE_KERNEL_def PG_MAX_ENTRIES_def one l1 l2 l3 l4 clear
      split: if_splits)
qed

lemma boot_table_frame:
  assumes "boot_machine L ptd s" "table_frame s f"
  obtains T where "T < 6" "f = ptd + 4096 * of_nat T"
proof -
  obtain i where i: "i < 1024" "l1e s i \<noteq> 0" "tbl s i = f" using assms(2) by (auto simp: table_frame_def)
  then obtain T where "boot_table L (unat i) = Some T" using boot_directory(1) [OF assms(1) i(1)] by (cases "boot_table L (unat i)") auto
  then show ?thesis
    using boot_directory(2) [OF assms(1) i(1)] boot_table_less i(3) assms(1) that by (auto simp: boot_machine_def)
qed

lemma boot_pagemap:
  assumes "boot_machine L ptd s" "L1_INDEX va < 1023" "page_aligned (kernel_start L)" "built_map L va = None"
  shows "pagemap s (va_idx va) = None"
proof (rule ccontr)
  assume "pagemap s (va_idx va) \<noteq> None"
  then have e: "l1e s (L1_INDEX va) \<noteq> 0" "l2e s (L1_INDEX va) (L2_INDEX va) \<noteq> 0"
    by (auto simp: pagemap_def va_idx_def split: if_splits)
  have lt: "L1_INDEX va < 1024" using assms(2) by (simp add: word_less_nat_alt)
  then obtain T where T: "boot_table L (unat (L1_INDEX va)) = Some T"
    using boot_directory(1) [OF assms(1) lt] e(1) by (cases "boot_table L (unat (L1_INDEX va))") auto
  have "unat (L1_INDEX va) \<noteq> 1023" using assms(2) by (auto simp: word_less_nat_alt)
  then have "1 \<le> T" using T by (auto simp: boot_table_def Let_def split: if_splits)
  moreover have l2: "l2e s (L1_INDEX va) (L2_INDEX va) = boot_entry L ptd (1024 * T + unat (L2_INDEX va))"
    by (rule boot_l2e [OF assms(1) lt L2_INDEX_lt T])
  ultimately have "IS_CACHED (l2e s (L1_INDEX va) (L2_INDEX va))"
    using e(2) assms(1) present_perms by (auto simp: boot_entry_def boot_machine_def layout_ok_def Let_def split: if_splits)
  moreover have "IS_CACHED (l1e s (L1_INDEX va))" using boot_directory(2) [OF assms(1) lt T] by blast
  moreover have "page_aligned (cr3 s)" using assms(1) by (simp add: boot_machine_def kpg_area_def)
  ultimately have "mmu_translate s va \<noteq> None" by (simp add: mmu_translate_l2e)
  then show False using boot_translate [OF assms(1,3,2)] assms(4) by simp
qed

section \<open>Properties\<close>

lemma boot_machine_translate_cong:
  "boot_machine L ptd s \<Longrightarrow> phys t = phys s \<Longrightarrow> cr3 t = cr3 s \<Longrightarrow> boot_machine L ptd t"
  by (simp add: boot_machine_def)

lemma hhk_boots:
  assumes "kpg_area ptd" "layout_ok L" "page_aligned (kernel_start L)"
  obtains m' s' where "hhk_init L ptd 24576 m = Some m'" "pmm_init lim (s\<lparr>phys := m', cr3 := ptd\<rparr>) = Some s'"
    "vm_ok (vmm_init s')" "\<And>va. L1_INDEX va < 1023 \<Longrightarrow> mmu_translate (vmm_init s') va = built_map L va"
proof -
  obtain m' where m': "hhk_init L ptd 24576 m = Some m'" "\<forall>q < 6144. entry ptd m' q = boot_entry L ptd q"
    using boot_entries [OF assms(1,2)] by blast
  let ?t = "s\<lparr>phys := m', cr3 := ptd\<rparr>"
  obtain b where init: "pmm_init lim ?t = Some (?t\<lparr>max_pg := drop_bit 12 lim, pg_lookup_ptr := LOOKUP_START, pm_bitmap := b\<rparr>)"
    "pmm_ok (?t\<lparr>max_pg := drop_bit 12 lim, pg_lookup_ptr := LOOKUP_START, pm_bitmap := b\<rparr>)"
    "\<And>p. in_bitmap p \<Longrightarrow> \<not> page_free (?t\<lparr>max_pg := drop_bit 12 lim, pg_lookup_ptr := LOOKUP_START, pm_bitmap := b\<rparr>) p"
    using pmm_init_run [of lim ?t] by metis
  let ?s = "?t\<lparr>max_pg := drop_bit 12 lim, pg_lookup_ptr := LOOKUP_START, pm_bitmap := b\<rparr>"
  have boot: "boot_machine L ptd ?s" using m'(2) assms(1,2) by (simp add: boot_machine_def)
  have "in_bitmap (drop_bit 12 a)" for a
    using less_mult_imp_div_less [of "unat a" 1048576 4096] by (simp add: in_bitmap_def word_less_nat_alt unat_word)
  then have "vm_ok ?s" by (intro boot_vm_ok [OF boot init(2)] init(3))
  then show ?thesis using m'(1) init(1) boot_translate [OF boot assms(3)] by (intro that [of m' ?s]) (simp_all add: vmm_init_def)
qed

text \<open>C6: The higher half setup, on any memory and for every kernel image that starts at a page, stops for ever exactly
  when the image is longer than 12 MiB. Otherwise it returns, and after \<^verbatim>\<open>pmm_init\<close> and \<^verbatim>\<open>vmm_init\<close> the
  machine satisfies the invariant of the virtual memory manager; an image that ends within the three tables is then mapped as
  intended: low memory and the setup code to themselves, all of the image to the addresses it is loaded at,
  nothing else below the recursive mapping. An image of at most 12 MiB that runs past the three tables, as it does not start at
  the first page of one, is not stopped by the size check: what lies past them is not mapped.\<close>

theorem hhk_init_establishes_vm_ok:
  assumes "kpg_area ptd" "page_aligned (kernel_start L)" "0x100000 \<le> init_hhk_end L" "init_hhk_end L \<le> 0x400000"
    "0 < L1_INDEX (kernel_start L)" "L1_INDEX (kernel_start L) \<le> 1020" "kernel_start L \<le> kernel_end L"
  shows "case hhk_init L ptd 24576 m of
      None \<Rightarrow> unat (kernel_start L) + 12 * 1024 * 1024 < unat (kernel_end L)
    | Some m' \<Rightarrow> unat (kernel_end L) \<le> unat (kernel_start L) + 12 * 1024 * 1024
        \<and> (\<exists>s'. pmm_init lim (s\<lparr>phys := m', cr3 := ptd\<rparr>) = Some s' \<and> vm_ok (vmm_init s')
            \<and> (\<forall>va. L1_INDEX va < 1023 \<and> (unat (kernel_end L) \<le> tables_end L \<or> unat va < tables_end L)
                \<longrightarrow> mmu_translate (vmm_init s') va = intended_map L va)
            \<and> (\<forall>va. L1_INDEX va < 1023 \<and> tables_end L \<le> unat va \<longrightarrow> mmu_translate (vmm_init s') va = None))"
proof -
  note c = page_counts [OF assms(3,4,5,7)] and built = built_map_intended [OF assms(3,4,5,7,2)]
  have e: "unat (kernel_start L) \<le> unat (kernel_end L)" using assms(7) by (simp add: word_le_nat_alt)
  show ?thesis
  proof (cases "unat (KERNEL_PAGE_COUNT L) \<le> 3072")
    case True
    then have "layout_ok L" using c(3) assms(5,6) by (simp add: layout_ok_def word_le_nat_alt word_less_nat_alt)
    then obtain m' s' where r: "hhk_init L ptd 24576 m = Some m'" "pmm_init lim (s\<lparr>phys := m', cr3 := ptd\<rparr>) = Some s'"
      "vm_ok (vmm_init s')" "\<And>va. L1_INDEX va < 1023 \<Longrightarrow> mmu_translate (vmm_init s') va = built_map L va"
      using hhk_boots [OF assms(1) _ assms(2)] by metis
    have "mmu_translate (vmm_init s') va = intended_map L va"
      if "L1_INDEX va < 1023" "unat (kernel_end L) \<le> tables_end L \<or> unat va < tables_end L" for va
      using r(4) [OF that(1)] that(2) intended_beyond [OF assms(4), of va] by (auto simp: built)
    moreover have "unat (kernel_end L) \<le> unat (kernel_start L) + 12 * 1024 * 1024" using True e unfolding c(2) by linarith
    ultimately show ?thesis using r(2-4) by (simp add: r(1) built)
  next
    case False
    then have "unat (kernel_start L) + 12 * 1024 * 1024 < unat (kernel_end L)" unfolding c(2) by linarith
    moreover have "hhk_init L ptd 24576 m = None" by (rule hhk_init_too_large) (use False in simp)
    ultimately show ?thesis by simp
  qed
qed

text \<open>The kernel as it is linked now, and one of 2900 pages.\<close>

definition small_kernel :: linker where
  "small_kernel = \<lparr>kernel_start = 0xC0104000, kernel_end = 0xC0184000, init_hhk_end = 0x104000\<rparr>"

definition large_kernel :: linker where
  "large_kernel = \<lparr>kernel_start = 0xC0104000, kernel_end = 0xC0C58000, init_hhk_end = 0x104000\<rparr>"

lemma kernels:
  "kpg_area 0x17E000" "page_aligned (kernel_start small_kernel)" "HHK_PAGE_COUNT small_kernel = 4"
  "L1_INDEX (kernel_start small_kernel) = 768" "KERNEL_PAGE_COUNT small_kernel = 128"
  "page_aligned (kernel_start large_kernel)" "HHK_PAGE_COUNT large_kernel = 4"
  "L1_INDEX (kernel_start large_kernel) = 768" "KERNEL_PAGE_COUNT large_kernel = 2900"
  by (simp_all add: small_kernel_def large_kernel_def kpg_area_def page_aligned_def PG_OFFSET_def HHK_PAGE_COUNT_def
    KERNEL_PAGE_COUNT_def L1_INDEX_def)

lemma hhk_init_establishes_vm_ok_witness:
  "\<exists>m' s'. hhk_init small_kernel 0x17E000 24576 (\<lambda>_. 0xAA) = Some m'
     \<and> pmm_init 0x2000000 (vm1\<lparr>phys := m', cr3 := 0x17E000\<rparr>) = Some s' \<and> vm_ok (vmm_init s')
     \<and> mmu_translate (vmm_init s') 0xC0105678 = Some 0x105678 \<and> mmu_translate (vmm_init s') 0xB8000 = Some 0xB8000
     \<and> mmu_translate (vmm_init s') 0xC0184000 = None"
proof -
  have i: "L1_INDEX 0xC0105678 < 1023" "L1_INDEX 0xB8000 < 1023" "L1_INDEX 0xC0184000 < 1023" by (simp_all add: L1_INDEX_def)
  have v: "intended_map small_kernel 0xC0105678 = Some 0x105678" "intended_map small_kernel 0xB8000 = Some 0xB8000"
    "intended_map small_kernel 0xC0184000 = None"
    by (simp_all add: intended_map_def small_kernel_def V2P_def HIGHER_HLF_BASE_def PG_ALIGN_def)
  have t: "tables_end small_kernel = 0xC0C00000" by (simp add: tables_end_def kernels)
  have k: "kernel_start small_kernel \<le> kernel_end small_kernel" "init_hhk_end small_kernel \<le> 0x400000"
    "0x100000 \<le> init_hhk_end small_kernel" "unat (kernel_end small_kernel) \<le> tables_end small_kernel"
    by (simp_all add: t) (simp_all add: small_kernel_def)
  have "\<not> unat (kernel_start small_kernel) + 12 * 1024 * 1024 < unat (kernel_end small_kernel)" by (simp add: small_kernel_def)
  then show ?thesis
    using hhk_init_establishes_vm_ok [where ptd = "0x17E000" and L = small_kernel and m = "\<lambda>_. 0xAA" and lim = "0x2000000" and s = vm1] i v k
    by (auto simp: kernels split: option.splits)
qed

text \<open>The size check of \<^verbatim>\<open>_init_page\<close> compares the number of pages alone. A kernel that starts in the
  middle of a table and has 2900 pages passes it, and its last page is not mapped: the entries past the
  third table fall into a table no directory entry names.\<close>

theorem hhk_large_kernel_cut:
  "\<exists>m' s'. hhk_init large_kernel 0x17E000 24576 m = Some m'
     \<and> pmm_init 0x2000000 (vm1\<lparr>phys := m', cr3 := 0x17E000\<rparr>) = Some s'
     \<and> mmu_translate (vmm_init s') (kernel_end large_kernel - 1) = None"
proof -
  have "layout_ok large_kernel" by (simp add: layout_ok_def kernels)
  then obtain m' s' where
    "hhk_init large_kernel 0x17E000 24576 m = Some m'" "pmm_init 0x2000000 (vm1\<lparr>phys := m', cr3 := 0x17E000\<rparr>) = Some s'"
    and t: "\<And>va. L1_INDEX va < 1023 \<Longrightarrow> mmu_translate (vmm_init s') va = built_map large_kernel va"
    using hhk_boots [OF kernels(1) _ kernels(6)] by metis
  moreover have "L1_INDEX (kernel_end large_kernel - 1) < 1023" by (simp add: large_kernel_def L1_INDEX_def)
  moreover have "built_map large_kernel (kernel_end large_kernel - 1) = None"
    by (simp add: built_map_def kernels) (simp add: large_kernel_def)
  ultimately show ?thesis by metis
qed

text \<open>When the boot loader's structure, memory map and drive table lie outside the destination area,
  \<^verbatim>\<open>_save_multiboot_info\<close> leaves a copy of all three there, with the two pointers of the copy redirected
  to the copied tables, and changes nothing else.\<close>

theorem save_multiboot_info_copies:
  assumes "info_apart info destination m"
  shows "info_saved info destination m (save_multiboot_info info destination m)"
  by (rule save_multiboot_info_correct [OF assms])

definition loader_memory :: mem where
  "loader_memory = (\<lambda>_. 7)(0x1000 := 0x80, 0x102C := 24, 0x102D := 0, 0x102E := 0, 0x102F := 0, 0x1030 := 0, 0x1031 := 0x20,
     0x1032 := 0, 0x1033 := 0, 0x1034 := 10, 0x1035 := 0, 0x1036 := 0, 0x1037 := 0, 0x1038 := 0, 0x1039 := 0x30, 0x103A := 0, 0x103B := 0)"

lemma loader_fields:
  "load32 loader_memory (mbi_flags 0x1000) AND MULTIBOOT_INFO_DRIVE_INFO \<noteq> 0" "load32 loader_memory (mbi_mmap_length 0x1000) = 24"
  "load32 loader_memory (mbi_mmap_addr 0x1000) = 0x2000" "load32 loader_memory (mbi_drives_length 0x1000) = 10"
  "load32 loader_memory (mbi_drives_addr 0x1000) = 0x3000"
  by (simp_all add: load32_def loader_memory_def mbi_defs MULTIBOOT_INFO_DRIVE_INFO_def)

lemma save_multiboot_info_copies_witness:
  "info_saved 0x1000 0x100000 loader_memory (save_multiboot_info 0x1000 0x100000 loader_memory)
     \<and> saved_bytes 0x1000 loader_memory = 154"
proof -
  have s: "saved_bytes 0x1000 loader_memory = 154" "mmap_bytes 0x1000 loader_memory = 24" "drive_bytes 0x1000 loader_memory = 10"
    using loader_fields by (simp_all add: saved_bytes_def mmap_bytes_def drive_bytes_def)
  then have "info_apart 0x1000 0x100000 loader_memory"
    by (simp add: info_apart_def outside_def loader_fields)
  from save_multiboot_info_copies [OF this] s show ?thesis by blast
qed

end
