(* ===== verification/Spare.thy ===== *)
theory Spare
  imports Heap
begin

text \<open>
  When memory does not run out. The search of \<^verbatim>\<open>pmm_alloc_page\<close> may pass over free pages, but never over
  eight that fill a byte of the bitmap. A pool with \<open>n\<close> such bytes in a row ahead of the search pointer
  therefore serves \<open>n\<close> requests; this theory carries that guarantee through the operations that take
  pages, up to the initialisation of the heap.
\<close>

section \<open>The page search\<close>

definition spare :: "'a pmm_scheme \<Rightarrow> nat \<Rightarrow> bool" where
  "spare s n \<longleftrightarrow> (\<exists>c. unat (pg_lookup_ptr s) < 8 * c + 8 \<and> 8 * (c + n) \<le> unat (max_pg s)
     \<and> (\<forall>q. 8 * c \<le> unat q \<and> unat q < 8 * (c + n) \<longrightarrow> page_free s q))"

definition same_pool :: "'a pmm_scheme \<Rightarrow> 'a pmm_scheme \<Rightarrow> bool" where
  "same_pool s t \<longleftrightarrow> pg_lookup_ptr s = pg_lookup_ptr t \<and> max_pg s = max_pg t \<and> pm_bitmap s = pm_bitmap t"

lemma spare_cong: "same_pool s t \<Longrightarrow> spare s n = spare t n"
  by (simp add: spare_def same_pool_def page_free_def)

lemma same_pool_simps [simp]: "same_pool s s" "same_pool (s\<lparr>phys := m\<rparr>) s"
  by (simp_all add: same_pool_def)

lemma same_pool_trans: "same_pool s t \<Longrightarrow> same_pool t u \<Longrightarrow> same_pool s u"
  by (simp add: same_pool_def)

lemma scan_chunk_bound:
  assumes "scan_chunk chunk i s = Some (a, s')" "a \<noteq> 0" "unat (pg_lookup_ptr s) = 8 * g + i" "8 * g < 0x100000"
  shows "unat (pg_lookup_ptr s') < 8 * g + 8"
  using assms
proof (induction chunk i s rule: scan_chunk.induct)
  case (1 chunk i s)
  let ?p = "pg_lookup_ptr s"
  show ?case
  proof (cases "i < 8 \<and> (ucast chunk :: u32) AND drop_bit i 0x80 \<noteq> 0")
    case True
    then have "scan_chunk chunk i s = scan_chunk chunk (i + 1) (s\<lparr>pg_lookup_ptr := ?p + 1\<rparr>)"
      by (simp add: scan_chunk.simps [of chunk i s])
    moreover have "unat (?p + 1) = 8 * g + (i + 1)" using "1.prems" True by (subst unat_add_u32) auto
    ultimately show ?thesis using "1.IH" True "1.prems" by simp
  next
    case False
    then have i: "i < 8" using "1.prems" by (cases "i < 8") (simp_all add: scan_chunk.simps [of chunk i s])
    then have "in_bitmap ?p" using "1.prems" by (simp add: in_bitmap_def word_less_nat_alt)
    then obtain b where "pmm_mark_page_occupied ?p s = Some (s\<lparr>pm_bitmap := b\<rparr>)" by (rule mark_page_occupied [of ?p s]) blast
    then show ?thesis using i False "1.prems" by (auto simp: scan_chunk.simps [of chunk i s])
  qed
qed

text \<open>A byte of free pages between the pointer and the limit is never passed.\<close>

lemma alloc_loop_byte:
  assumes "up \<le> 0x100000" "8 * c + 8 \<le> unat up" "\<And>q. 8 * c \<le> unat q \<Longrightarrow> unat q < 8 * c + 8 \<Longrightarrow> page_free s q"
    "1 \<le> pg_lookup_ptr s" "unat (pg_lookup_ptr s) < 8 * c + 8"
  shows "\<exists>p b. alloc_loop 0 old up s = Some (push_bit 12 p, s\<lparr>pg_lookup_ptr := p, pm_bitmap := b\<rparr>)
    \<and> push_bit 12 p \<noteq> 0 \<and> unat p < 8 * c + 8 \<and> (\<forall>q. page_free (s\<lparr>pm_bitmap := b\<rparr>) q \<longleftrightarrow> page_free s q \<and> q \<noteq> p)"
  using assms(3-5)
proof (induction "8 * c + 8 - unat (pg_lookup_ptr s)" arbitrary: s rule: less_induct)
  case less
  let ?p = "pg_lookup_ptr s"
  let ?g = "unat ?p div 8" and ?c = "pm_bitmap s (of_nat (unat (pg_lookup_ptr s) div 8))"
  have lim: "unat ?p < 0x100000" "?p < up" "unat up \<le> 0x100000"
    using assms(1,2) less.prems(3) by (auto simp: word_less_nat_alt word_le_nat_alt)
  have g: "?g \<le> c" using less.prems(3) by (simp add: less_Suc_eq_le [symmetric] div_less_iff_less_mult)
  have grp: "drop_bit 3 ?p = of_nat ?g" using lim by (simp add: drop_bit3_div8 word_unat_eq_iff unat_word)
  have get: "bmp_get s (drop_bit 3 ?p) = Some ?c"
    using lim by (simp add: bmp_get_def PM_BMP_MAX_SIZE_def grp word_less_nat_alt)
  show ?case
  proof (cases "?c = 0xFF")
    case True
    have "?g \<noteq> c"
    proof
      assume "?g = c"
      then have q: "page_free s (of_nat (8 * c))" "of_nat (8 * c) div 8 = (of_nat ?g :: u32)"
        using lim g by (simp_all add: less.prems(1) word_unat_eq_iff unat_word unat_of_nat_u32 del: of_nat_mult)
      then show False using True bit_0xFF [OF page_bit_8 [of "of_nat (8 * c)"]] by (simp add: page_free_def del: of_nat_mult)
    qed
    then have "?g + 1 \<le> c" using g by simp
    moreover have "unat ?p < 8 * ?g + 8" using mult_div_mod_eq [of 8 "unat ?p"] mod_less_divisor [of 8 "unat ?p"] by linarith
    ultimately have "unat ?p + 8 < 8 * c + 8" by linarith
    moreover have u: "unat (?p + 8) = unat ?p + 8" using lim by (subst unat_add_u32) auto
    ultimately have n: "unat (?p + 8) < 8 * c + 8" "\<not> up \<le> ?p + 8" "1 \<le> ?p + 8" "unat ?p < unat (?p + 8)"
      using assms(2) by (auto simp: word_le_nat_alt)
    have "alloc_loop 0 old up s = alloc_loop 0 old up (s\<lparr>pg_lookup_ptr := ?p + 8\<rparr>)"
      using True get lim n(2) by (subst alloc_loop.simps) auto
    then show ?thesis using less.hyps [of "s\<lparr>pg_lookup_ptr := ?p + 8\<rparr>"] less.prems n by simp
  next
    case False
    have up: "unat ?p = 8 * ?g + unat ?p mod 8" by simp
    have step: "alloc_loop 0 old up s = scan_chunk ?c (unat ?p mod 8) s \<bind> (\<lambda>(good, s'). alloc_loop good old up s')"
      using lim get False by (subst alloc_loop.simps) (simp add: unat_mod8)
    from scan_chunk_spec [OF _ up, of ?c] lim consider
      (found) p b where "scan_chunk ?c (unat ?p mod 8) s = Some (push_bit 12 p, s\<lparr>pg_lookup_ptr := p, pm_bitmap := b\<rparr>)"
        "?p \<le> p" "in_bitmap p" "page_free s p" "\<forall>q. page_free (s\<lparr>pm_bitmap := b\<rparr>) q \<longleftrightarrow> page_free s q \<and> q \<noteq> p"
    | (none) "scan_chunk ?c (unat ?p mod 8) s = Some (0, s\<lparr>pg_lookup_ptr := of_nat (8 * ?g + 8)\<rparr>)"
        "\<forall>q. 8 * ?g + unat ?p mod 8 \<le> unat q \<and> unat q < 8 * ?g + 8 \<longrightarrow> \<not> page_free s q"
      by fastforce
    then show ?thesis
    proof cases
      case found
      have "1 \<le> p" using less.prems(2) found(2) by (rule order_trans)
      then have nz: "push_bit 12 p \<noteq> 0" using shifted_page_nonzero [OF found(3)] by blast
      then have run: "alloc_loop 0 old up s = Some (push_bit 12 p, s\<lparr>pg_lookup_ptr := p, pm_bitmap := b\<rparr>)"
        using found(1) by (simp add: step alloc_loop_done)
      moreover have "unat p < 8 * ?g + 8" using scan_chunk_bound [OF found(1) nz up] lim by simp
      then have "unat p < 8 * c + 8" using g by linarith
      ultimately show ?thesis using nz found(5) by blast
    next
      case none
      let ?s = "s\<lparr>pg_lookup_ptr := of_nat (8 * ?g + 8)\<rparr>"
      have u: "unat (of_nat (8 * ?g + 8) :: u32) = 8 * ?g + 8" using lim by (intro unat_of_nat_u32) auto
      have "?g \<noteq> c" using none(2) less.prems(1) [of ?p] less.prems(3) up by auto
      then have "8 * ?g + 8 < 8 * c + 8" using g by linarith
      then show ?thesis
        using less.hyps [of ?s] less.prems u up none(1) by (simp add: step word_le_nat_alt del: of_nat_add of_nat_mult)
    qed
  qed
qed


lemma spare_alloc:
  assumes "pmm_ok s" "spare s (Suc n)"
  obtains a t where "pmm_alloc_page s = Some (a, t)" "a \<noteq> 0" "spare t n"
proof -
  obtain c where c: "unat (pg_lookup_ptr s) < 8 * c + 8" "8 * (c + Suc n) \<le> unat (max_pg s)"
    "\<And>q. 8 * c \<le> unat q \<Longrightarrow> unat q < 8 * (c + Suc n) \<Longrightarrow> page_free s q" using assms(2) unfolding spare_def by blast
  have "\<exists>p b. alloc_loop 0 (pg_lookup_ptr s) (max_pg s) s = Some (push_bit 12 p, s\<lparr>pg_lookup_ptr := p, pm_bitmap := b\<rparr>)
    \<and> push_bit 12 p \<noteq> 0 \<and> unat p < 8 * c + 8 \<and> (\<forall>q. page_free (s\<lparr>pm_bitmap := b\<rparr>) q \<longleftrightarrow> page_free s q \<and> q \<noteq> p)"
    using assms(1) c by (intro alloc_loop_byte) (simp_all add: pmm_ok_def)
  then obtain p b where p: "pmm_alloc_page s = Some (push_bit 12 p, s\<lparr>pg_lookup_ptr := p, pm_bitmap := b\<rparr>)" "push_bit 12 p \<noteq> 0"
    "unat p < 8 * c + 8" "\<forall>q. page_free (s\<lparr>pm_bitmap := b\<rparr>) q \<longleftrightarrow> page_free s q \<and> q \<noteq> p" by (auto simp: pmm_alloc_page_def)
  have "spare (s\<lparr>pg_lookup_ptr := p, pm_bitmap := b\<rparr>) n"
    unfolding spare_def by (rule exI [of _ "Suc c"]) (use c p(3,4) in \<open>auto simp: page_free_bitmap\<close>)
  then show ?thesis using that p(1,2) by blast
qed

lemma spare_less: "spare s (n + k) \<Longrightarrow> spare s n"
  unfolding spare_def by (auto simp: algebra_simps)

section \<open>Mapping\<close>

lemma store_pool:
  "pt_set p i v s = Some s' \<Longrightarrow> same_pool s' s" "vmemset n a x s = Some s' \<Longrightarrow> same_pool s' s"
proof -
  have w: "same_pool s' s" if "vstore8 a x s = Some s'" for a x and s s' :: "'b vm_scheme"
    using that by (auto simp: vstore8_def split: Option.bind_splits)
  show "pt_set p i v s = Some s' \<Longrightarrow> same_pool s' s"
    by (auto simp: pt_set_def vstore32_def split: Option.bind_splits)
  show "vmemset n a x s = Some s' \<Longrightarrow> same_pool s' s"
    by (induction n arbitrary: a s) (auto split: Option.bind_splits dest!: w intro: same_pool_trans)
qed

lemma map_entry_pool: "vmm_map_entry t j pa attr False s = Some (r, s') \<Longrightarrow> same_pool s' s"
  by (auto simp: vmm_map_entry_def split: Option.bind_splits if_splits dest: store_pool)

text \<open>An unforced mapping takes at most one page.\<close>

lemma map_internal_spare:
  assumes "vmm_map_internal i j pa attr False s = Some (r, s')" "pmm_ok s" "spare s (Suc n)"
  shows "spare s' n"
proof -
  obtain a t where t: "pmm_alloc_page s = Some (a, t)" "spare t n" using spare_alloc [OF assms(2,3)] by metis
  have "same_pool s' s \<or> same_pool s' t"
    using assms(1) t(1) by (auto simp: vmm_map_internal_def Let_def split: Option.bind_splits if_splits
      dest!: store_pool map_entry_pool intro: same_pool_trans)
  then show ?thesis using t(2) spare_less [of s n 1] assms(3) spare_cong by auto
qed

lemma map_internal_ready:
  assumes "vm_ok s" "i < 1023" "j < 1024" "IS_CACHED attr" "pagemap s (i, j) = None" "spare s (Suc n)"
  obtains s' where "vmm_map_internal i j pa attr False s = Some (1, s')" "vm_ok s'" "grown s s'"
    "pagemap s' = (pagemap s)((i, j) \<mapsto> NEW_L2_ENTRY attr pa)" "spare s' n"
proof -
  have pm: "pmm_ok s" by (rule vm_okD(1) [OF assms(1)])
  show ?thesis
  proof (cases rule: map_internal_fresh [OF assms(1-4), where pa = pa, case_names kept full set])
    case kept
    then show ?thesis using assms(5) by simp
  next
    case (full t)
    then show ?thesis using spare_alloc [OF pm assms(6)] by force
  next
    case (set s')
    then show ?thesis using that [of s'] map_internal_spare [OF set(1) pm assms(6)] by (simp add: grown_def)
  qed
qed

lemma upd_entry_pool: "same_pool (upd_entry i j v s) s"
  by (simp add: upd_entry_def)

lemma map_page_ready:
  assumes "vm_ok s" "page_aligned va" "va \<noteq> 0" "pa \<noteq> 0" "L1_INDEX va < 1023" "pagemap s (va_idx va) = None" "IS_CACHED attr"
    "spare s (Suc n)"
  obtains s' where "vmm_map_page va pa attr s = Some (va, s')" "spare s' n"
proof (cases "l1e s (L1_INDEX va) = 0")
  case True
  have "pagemap s (L1_INDEX va, L2_INDEX va) = None" using assms(6) by (simp add: va_idx_def)
  then obtain s' where "vmm_map_internal (L1_INDEX va) (L2_INDEX va) pa attr False s = Some (1, s')" "spare s' n"
    using map_internal_ready [OF assms(1,5) L2_INDEX_lt assms(7) _ assms(8)] by metis
  then show ?thesis using that map_page_absent [OF assms(1,3,4,5) True, of attr] by simp
next
  case False
  have "unat va div 4096 < 1023 * 1024" using assms(5) by (simp add: word_less_nat_alt unat_word)
  then have m: "vpn va < 1023 * 1024" by (simp add: vpn_def)
  have "full_range s (vpn va) (vpn va)" by (simp add: full_range_def)
  with map_page_hit [OF assms(1,3,4) order.refl m this] False assms(6)
  have "vmm_map_page va pa attr s = Some (va, upd_entry (L1_INDEX va) (L2_INDEX va) (NEW_L2_ENTRY attr pa) s)"
    by (simp add: slot_vpn va_idx_def V_ADDR_split)
  moreover have "spare s n" using spare_less [of s n 1] assms(8) by simp
  ultimately show ?thesis using that spare_cong [OF upd_entry_pool] by blast
qed

lemma alloc_page_ready:
  assumes "vm_ok s" "page_aligned va" "va \<noteq> 0" "L1_INDEX va < 1023" "pagemap s (va_idx va) = None" "IS_CACHED attr"
    "spare s (Suc (Suc n))"
  obtains s' p where "vmm_alloc_page va attr s = Some (va, s')" "vm_ok s'" "grown s s'" "fresh_frame s s' p"
    "pagemap s' = (pagemap s)(va_idx va \<mapsto> NEW_L2_ENTRY attr (push_bit 12 p))" "spare s' n"
proof -
  obtain a t where a: "pmm_alloc_page s = Some (a, t)" "a \<noteq> 0" "spare t (Suc n)"
    by (rule spare_alloc [OF vm_okD(1) [OF assms(1)] assms(7)])
  note al = alloc_page_vm [OF assms(1) a(1)]
  have none: "pagemap t (va_idx va) = None" using assms(5) al(4) by simp
  obtain s' where "vmm_map_page va a attr t = Some (va, s')" "spare s' n"
    by (rule map_page_ready [OF al(9) assms(2,3) a(2) assms(4) none assms(6) a(3)])
  then have run: "vmm_alloc_page va attr s = Some (va, s')" "spare s' n" using a(1) assms(3) by (simp_all add: vmm_alloc_page_def)
  show ?thesis
    by (cases rule: alloc_page_here [OF assms(1-6), case_names oom mapped]) (use that run assms(3) in auto)
qed

section \<open>The heap\<close>

text \<open>One page at the break.\<close>

lemma alloc_pages_one:
  assumes "vm_ok s" "page_aligned va" "L1_INDEX va < 1023" "IS_CACHED attr" "pagemap s (va_idx va) = None" "spare s (Suc (Suc n))"
  obtains s' where "vmm_alloc_pages va 4096 attr s = Some (True, s')" "\<And>ij. ij \<noteq> va_idx va \<Longrightarrow> pagemap s' ij = pagemap s ij"
proof -
  obtain a t where a: "pmm_alloc_page s = Some (a, t)" "a \<noteq> 0" "spare t (Suc n)"
    by (rule spare_alloc [OF vm_okD(1) [OF assms(1)] assms(6)])
  note al = alloc_page_vm [OF assms(1) a(1)]
  have none: "pagemap t (L1_INDEX va, L2_INDEX va) = None" using assms(5) al(4) by (simp add: va_idx_def)
  obtain s' where "vmm_map_internal (L1_INDEX va) (L2_INDEX va) a attr False t = Some (1, s')"
    by (rule map_internal_ready [OF al(9) assms(3) L2_INDEX_lt assms(4) none a(3)])
  moreover have n: "unat (drop_bit PG_SIZE_BITS 4096 :: u32) = 1" by (simp add: PG_SIZE_BITS_def)
  ultimately have run: "vmm_alloc_pages va 4096 attr s = Some (True, s')" using a(1,2) by (simp add: vmm_alloc_pages_def)
  have "vpn va + 1 \<le> 1023 * 1024" using assms(3) by (simp add: word_less_nat_alt unat_word vpn_def)
  note spec = alloc_pages_spec [OF assms(1,2,4) n [symmetric] this]
  have "va_idx va = slot (vpn va)" by (simp add: slot_vpn va_idx_def)
  then have "pagemap s' ij = pagemap s ij" if "ij \<noteq> va_idx va" for ij
    using spec run that by (auto simp del: split_paired_All)
  with run show ?thesis by (rule that)
qed

lemma grow_heap_break:
  assumes "lxbrk heap (sz + WSIZE) s = Some (start, h, t)" "start \<noteq> 0" "lx_grow_heap heap sz s = Some (r, h', s')"
  shows "h' = h\<lparr>hp_brk := hp_brk h - WSIZE\<rparr>"
  using assms by (auto simp: lx_grow_heap_def Let_def split: Option.bind_splits)

text \<open>With two spare pages and their tables, and room below the stack, the heap comes up.\<close>

lemma kalloc_init_ready:
  assumes "vm_ok s" "page_aligned start" "start \<noteq> 0" "unat start + 8192 \<le> unat K_STACK_START"
    "pagemap s (va_idx start) = None" "pagemap s (va_idx (start + 4096)) = None" "spare s 4"
  obtains heap s' n m where "kalloc_init start s = Some (True, heap, s')" "hp_start heap = start"
    "heap_inv heap (vpn start) n m [(4, True), (4096, False)] s'"
    "\<And>ij. ij \<noteq> va_idx start \<Longrightarrow> ij \<noteq> va_idx (start + 4096) \<Longrightarrow> pagemap s' ij = pagemap s ij"
proof -
  let ?h0 = "\<lparr>hp_start = start, hp_brk = 0, hp_max_addr = K_STACK_START\<rparr>" and ?next = "start + 4096"
  let ?h1 = "\<lparr>hp_start = start, hp_brk = start + WSIZE, hp_max_addr = K_STACK_START\<rparr>"
  have K: "unat start + 8192 \<le> 0xFFBF0000" using assms(4) by (simp add: K_STACK_START_def K_STACK_SIZE_def)
  have u: "unat (start + x) = unat start + unat x" if "unat x \<le> 8192" for x using K that by (subst unat_add_u32) simp_all
  have idx: "L1_INDEX start < 1023" "L1_INDEX ?next < 1023" using K u [of 4096] by (simp_all add: word_less_nat_alt unat_word)
  have spare: "spare s (Suc (Suc 2))" using assms(7) by (simp add: numeral_eq_Suc)
  obtain s1 p where 1: "vmm_alloc_page start PG_PREM_RW s = Some (start, s1)" "vm_ok s1"
    "pagemap s1 = (pagemap s)(va_idx start \<mapsto> NEW_L2_ENTRY PG_PREM_RW (push_bit 12 p))" "spare s1 2"
    by (rule alloc_page_ready [OF assms(1-3) idx(1) assms(5) PG_PREM_RW_present spare])
  have dmm: "dmm_init ?h0 s = Some (True, \<lparr>hp_start = start, hp_brk = start, hp_max_addr = K_STACK_START\<rparr>, s1)"
    using 1(1) assms(3) by (simp add: dmm_init_def)
  obtain m where m: "heap_st (vpn start) 1 m s1"
    by (cases rule: dmm_init_spec [where heap = ?h0 and s = s, simplified, OF assms(1-3) idx(1) assms(5), case_names fail ok])
      (use that dmm in auto)
  obtain m' b where 2: "kalloc_init start s = map_option (\<lambda>(r, heap, s). (r \<noteq> 0, heap, s)) (lx_grow_heap ?h1 HEAP_INIT_SIZE (s1\<lparr>phys := b\<rparr>))"
    "heap_inv ?h1 (vpn start) 1 m' [(4, True)] (s1\<lparr>phys := b\<rparr>)" "pagemap (s1\<lparr>phys := b\<rparr>) = pagemap s1"
    by (rule heap_prologue [OF dmm m assms(2,3)])
  let ?s = "s1\<lparr>phys := b\<rparr>"
  have ok: "vm_ok ?s" using heap_invD(1) [OF 2(2)] by (simp add: heap_st_def)
  have ne: "va_idx ?next \<noteq> va_idx start"
  proof
    assume "va_idx ?next = va_idx start"
    then have "slot (vpn ?next) = slot (vpn start)" by (simp add: slot_vpn va_idx_def)
    then show False using K u [of 4096] by (subst (asm) slot_inj) (simp_all add: vpn_def)
  qed
  have "spare ?s (Suc (Suc 0))" using 1(4) spare_cong [OF same_pool_simps(2) [of b s1]] by (simp add: numeral_eq_Suc)
  moreover have "page_aligned ?next" using assms(2) u [of 4096] by (simp add: page_aligned_def word_unat_eq_iff unat_PG_OFFSET)
  moreover have "pagemap ?s (va_idx ?next) = None" using 1(3) 2(3) ne assms(6) by auto
  ultimately obtain s4 where 4: "vmm_alloc_pages ?next 4096 PG_PREM_RW ?s = Some (True, s4)"
    "\<And>ij. ij \<noteq> va_idx ?next \<Longrightarrow> pagemap s4 ij = pagemap ?s ij"
    using alloc_pages_one [OF ok _ idx(2) PG_PREM_RW_present] by metis
  have brk: "lxbrk ?h1 (HEAP_INIT_SIZE + WSIZE) ?s = Some (start + WSIZE, ?h1\<lparr>hp_brk := start + WSIZE + (HEAP_INIT_SIZE + WSIZE)\<rparr>, s4)"
  proof -
    have v: "vpn (start + 4) = vpn start" "vpn (start + 4104) = vpn start + 1"
      using assms(2) u [of 4] u [of 4104] unat_PG_ALIGN_vpn [of start] by (simp_all add: vpn_def PG_ALIGN_id)
    have "PG_ALIGN (start + 4) = start" "PG_ALIGN (start + 4104) = start + 4096"
      using v assms(2) u [of 4096] unat_PG_ALIGN_vpn [of start] unat_PG_ALIGN_vpn [of "start + 4"] unat_PG_ALIGN_vpn [of "start + 4104"]
      by (simp_all add: word_unat_eq_iff PG_ALIGN_id)
    moreover have "ROUNDUP 4100 BOUNDARY = 4100" by (simp add: ROUNDUP_def BOUNDARY_def)
    moreover have "\<not> K_STACK_START \<le> start + 4104" "\<not> start + 4104 < start + 4"
      using assms(4) u [of 4] u [of 4104] by (simp_all add: word_le_nat_alt word_less_nat_alt)
    moreover have "start + 4104 = 4104 + start" by simp
    ultimately show ?thesis using 4 by (simp add: lxbrk_def Let_def WSIZE_def HEAP_INIT_SIZE_def page_consts)
  qed
  have sz: "4 dvd (4096 :: nat)" "4 \<le> (4096 :: nat)" "(4096 :: nat) + 4 < 4294967296" by simp_all
  have init: "(of_nat 4096 :: u32) = HEAP_INIT_SIZE" by (simp add: HEAP_INIT_SIZE_def)
  show ?thesis
  proof (cases rule: grow_heap_spec [OF 2(2) sz, unfolded init, case_names fail ok])
    case (fail s')
    have "start + WSIZE \<noteq> 0" using u [of 4] by (auto simp: WSIZE_def word_unat_eq_iff)
    then show ?thesis using grow_heap_break [OF brk _ fail(1)] by (simp add: WSIZE_def HEAP_INIT_SIZE_def)
  next
    case (ok s' n m2 q)
    have "of_nat q = start + 4" using ok(4) by (simp add: before_def prev_free_def)
    then have nz: "(of_nat q :: u32) \<noteq> 0" using u [of 4] by (auto simp: word_unat_eq_iff)
    have "merged [(4, True)] 4096 [] = [(4, True), (4096, False)]"
      by (simp add: merged_def before_def prev_free_def next_free_def after_def)
    then have "heap_inv (?h1\<lparr>hp_brk := hp_brk ?h1 + HEAP_INIT_SIZE\<rparr>) (vpn start) n m2 [(4, True), (4096, False)] s'"
      using ok(2) by simp
    moreover have "pagemap s' = pagemap s4"
    proof -
      have "(of_nat (4096 + 4) :: u32) = HEAP_INIT_SIZE + WSIZE" by (simp add: HEAP_INIT_SIZE_def WSIZE_def)
      with ok(6) brk show ?thesis by auto
    qed
    ultimately show ?thesis
      using that [of "?h1\<lparr>hp_brk := hp_brk ?h1 + HEAP_INIT_SIZE\<rparr>" s' n m2] 2(1,3) ok(1) nz 1(3) 4(2) by simp
  qed
qed

end
