(* ===== verification/KInit.thy ===== *)
theory KInit
  imports Timer Acpi Hhk Spare
begin

text \<open>
  Kernel initialisation, \<^verbatim>\<open>kernel/k_init.c\<close>, and the kernel's main function, \<^verbatim>\<open>kernel/k_main.c\<close>: the calls
  of the modelled parts in the code's order. \<open>mb\<close> is \<^verbatim>\<open>_k_init_mb_info\<close>, the address of the boot loader's
  information; the linker's symbols are the record of theory Hhk.
\<close>

unbundle bit_operations_syntax

section \<open>Constants and structures\<close>

definition MEM_1MB :: u32 where "MEM_1MB = 0x100000"
definition VGA_BUFFER_SIZE :: u32 where "VGA_BUFFER_SIZE = 4096"

definition mbi_mem_lower :: "u32 \<Rightarrow> u32" where "mbi_mem_lower p = p + 4"
definition mbi_mem_upper :: "u32 \<Rightarrow> u32" where "mbi_mem_upper p = p + 8"

definition MULTIBOOT_MEMORY_AVAILABLE :: u32 where "MULTIBOOT_MEMORY_AVAILABLE = 1"
definition mmap_addr_low :: "u32 \<Rightarrow> u32" where "mmap_addr_low p = p + 4"
definition mmap_len_low :: "u32 \<Rightarrow> u32" where "mmap_len_low p = p + 12"
definition mmap_type :: "u32 \<Rightarrow> u32" where "mmap_type p = p + 20"
definition sizeof_mmap :: u32 where "sizeof_mmap = 24"

section \<open>Memory\<close>

text \<open>The body of the loop over the memory map, and the loop.\<close>

definition setup_region :: "u32 \<Rightarrow> kernel \<Rightarrow> kernel option" where
  "setup_region region k = do {
     addr \<leftarrow> vload32 k (mmap_addr_low region);
     len \<leftarrow> vload32 k (mmap_len_low region);
     type \<leftarrow> vload32 k (mmap_type region);
     k \<leftarrow> kprintf ''INIT'' (bytes ''[MM] Base: 0x%x, len: %u KiB, type: %u'' @ nl)
       [Int_arg addr, Int_arg (drop_bit 10 len), Int_arg type] k;
     if type = MULTIBOOT_MEMORY_AVAILABLE then do {
       let pg = addr + 0xFFF;
       k \<leftarrow> pmm_mark_chunk_free (drop_bit PG_SIZE_BITS pg) (drop_bit PG_SIZE_BITS len) k;
       kprintf ''INIT'' (KINFO @ bytes ''[MM] Freed %u pages start from 0x%x'' @ nl)
         [Int_arg (drop_bit PG_SIZE_BITS len), Int_arg (pg AND NOT 0xFFF)] k
     } else Some k
   }"

fun setup_regions :: "nat \<Rightarrow> u32 \<Rightarrow> kernel \<Rightarrow> kernel option" where
  "setup_regions 0 region k = Some k"
| "setup_regions (Suc n) region k = do { k \<leftarrow> setup_region region k; setup_regions n (region + sizeof_mmap) k }"

fun map_vga :: "nat \<Rightarrow> u32 \<Rightarrow> kernel \<Rightarrow> kernel option" where
  "map_vga 0 i k = Some k"
| "map_vga (Suc n) i k = do {
     (_, k) \<leftarrow> vmm_map_page (VGA_BUFFER_VADDR + push_bit PG_SIZE_BITS i) (VGA_BUFFER_PADDR + push_bit PG_SIZE_BITS i) PG_PREM_RW k;
     map_vga n (i + 1) k
   }"

text \<open>\<^verbatim>\<open>tty_set_buffer\<close> after the mapping: the console's memory is from now on what the page tables show at the
  buffer's address. A buffer that is not mapped faults with the next message.\<close>

definition move_console :: "u32 \<Rightarrow> kernel \<Rightarrow> kernel option" where
  "move_console buf k = do {
     pa \<leftarrow> mmu_translate k buf;
     let m = tty_mem (k_tty k);
     Some (k\<lparr>k_tty := tty_set_buffer buf ((k_tty k)\<lparr>tty_mem := (\<lambda>a. m (pa + (a - buf)))\<rparr>)\<rparr>)
   }"

definition setup_memory :: "linker \<Rightarrow> u32 \<Rightarrow> u32 \<Rightarrow> kernel \<Rightarrow> kernel option" where
  "setup_memory L mmaps map_size k = do {
     k \<leftarrow> setup_regions (unat map_size) mmaps k;
     let pg_count = drop_bit PG_SIZE_BITS (V2P (kernel_end L));
     k \<leftarrow> pmm_mark_chunk_occupied 0 pg_count k;
     k \<leftarrow> kprintf ''INIT'' (KINFO @ bytes ''[MM] Allocated %d pages for kernel.'' @ nl) [Int_arg pg_count] k;
     let vga_buf_pgs = drop_bit PG_SIZE_BITS VGA_BUFFER_SIZE;
     k \<leftarrow> pmm_mark_chunk_occupied (drop_bit PG_SIZE_BITS VGA_BUFFER_PADDR) vga_buf_pgs k;
     k \<leftarrow> map_vga (unat vga_buf_pgs) 0 k;
     k \<leftarrow> move_console VGA_BUFFER_VADDR k;
     kprintf ''INIT'' (KINFO @ bytes ''[MM] Mapped VGA to %p.'' @ nl) [Int_arg VGA_BUFFER_VADDR] k
   }"

fun alloc_stack :: "nat \<Rightarrow> u32 \<Rightarrow> kernel \<Rightarrow> kernel option" where
  "alloc_stack 0 i k = Some k"
| "alloc_stack (Suc n) i k = do {
     (_, k) \<leftarrow> vmm_alloc_page (K_STACK_START + push_bit PG_SIZE_BITS i) PG_PREM_RW k;
     alloc_stack n (i + 1) k
   }"

definition setup_kernel_runtime :: "u32 \<Rightarrow> kernel \<Rightarrow> kernel option" where
  "setup_kernel_runtime heap_start k = do {
     let pgs = drop_bit PG_SIZE_BITS K_STACK_SIZE;
     k \<leftarrow> alloc_stack (unat pgs) 0 k;
     k \<leftarrow> kprintf ''INIT'' (KINFO @ bytes ''[MM] Allocated %d pages for stack start at %p'' @ nl)
       [Int_arg pgs, Int_arg K_STACK_START] k;
     (_, heap, k) \<leftarrow> kalloc_init heap_start k;
     Some (k\<lparr>k_heap := heap\<rparr>)
   }"

section \<open>Reserved memory\<close>

text \<open>The pages of a region, one by one; \<open>f\<close> is what is done to each.\<close>

fun for_pages :: "(u32 \<Rightarrow> kernel \<Rightarrow> kernel option) \<Rightarrow> u32 \<Rightarrow> nat \<Rightarrow> u32 \<Rightarrow> kernel \<Rightarrow> kernel option" where
  "for_pages f pa 0 j k = Some k"
| "for_pages f pa (Suc n) j k = do { k \<leftarrow> f (pa + push_bit PG_SIZE_BITS j) k; for_pages f pa n (j + 1) k }"

fun for_reserved :: "(u32 \<Rightarrow> kernel \<Rightarrow> kernel option) \<Rightarrow> nat \<Rightarrow> u32 \<Rightarrow> kernel \<Rightarrow> kernel option" where
  "for_reserved f 0 mmap k = Some k"
| "for_reserved f (Suc n) mmap k = do {
     addr \<leftarrow> vload32 k (mmap_addr_low mmap);
     len \<leftarrow> vload32 k (mmap_len_low mmap);
     type \<leftarrow> vload32 k (mmap_type mmap);
     k \<leftarrow> (if type = MULTIBOOT_MEMORY_AVAILABLE then Some k
          else for_pages f (PG_ALIGN addr) (unat (CEIL len PG_SIZE_BITS)) 0 k);
     for_reserved f n (mmap + sizeof_mmap) k
   }"

definition lock_reserved_memory :: "u32 \<Rightarrow> kernel \<Rightarrow> kernel option" where
  "lock_reserved_memory mb k = do {
     mmaps \<leftarrow> vload32 k (mbi_mmap_addr mb);
     length \<leftarrow> vload32 k (mbi_mmap_length mb);
     for_reserved (\<lambda>pa. vmm_set_mapping pa pa PG_PREM_R) (unat (length div sizeof_mmap)) mmaps k
   }"

definition unlock_reserved_memory :: "u32 \<Rightarrow> kernel \<Rightarrow> kernel option" where
  "unlock_reserved_memory mb k = do {
     mmaps \<leftarrow> vload32 k (mbi_mmap_addr mb);
     length \<leftarrow> vload32 k (mbi_mmap_length mb);
     for_reserved vmm_unmap_page (unat (length div sizeof_mmap)) mmaps k
   }"

section \<open>The three phases\<close>

definition kernel_pre_init :: "(nat \<Rightarrow> u32) \<Rightarrow> u32 \<Rightarrow> u64 list \<Rightarrow> kernel \<Rightarrow> (u64 list \<times> kernel) option" where
  "kernel_pre_init asm_isr mb idt k = do {
     idt \<leftarrow> init_idt asm_isr idt;
     let k = intr_routine_init k;
     upper \<leftarrow> vload32 k (mbi_mem_upper mb);
     k \<leftarrow> pmm_init (MEM_1MB + push_bit 10 upper) k;
     let k = vmm_init k;
     let k = k\<lparr>k_cmos := rtc_init (k_cmos k)\<rparr>;
     let k = k\<lparr>k_tty := tty_init VGA_BUFFER_PADDR (k_tty k)\<rparr>;
     Some (idt, k\<lparr>k_tty := tty_set_theme VGA_COLOR_WHITE VGA_COLOR_BLACK (k_tty k)\<rparr>)
   }"

definition kernel_init :: "linker \<Rightarrow> u32 \<Rightarrow> u32 \<Rightarrow> kernel \<Rightarrow> kernel option" where
  "kernel_init L heap_start mb k = do {
     lower \<leftarrow> vload32 k (mbi_mem_lower mb);
     upper \<leftarrow> vload32 k (mbi_mem_upper mb);
     k \<leftarrow> kprintf ''INIT'' (bytes ''[MM] Mem: %d KiB, Extended Mem: %d KiB'' @ nl) [Int_arg lower, Int_arg upper] k;
     length \<leftarrow> vload32 k (mbi_mmap_length mb);
     mmaps \<leftarrow> vload32 k (mbi_mmap_addr mb);
     k \<leftarrow> setup_memory L mmaps (length div sizeof_mmap) k;
     setup_kernel_runtime heap_start k
   }"

definition kernel_post_init :: "linker \<Rightarrow> u32 \<Rightarrow> (u32 \<Rightarrow> u32 \<Rightarrow> kernel \<Rightarrow> kernel option) \<Rightarrow> (u32 \<times> isr_param) list
    \<Rightarrow> kernel \<Rightarrow> outcome option" where
  "kernel_post_init L mb call interrupts k = do {
     let hhk_init_pg_count = drop_bit PG_SIZE_BITS (init_hhk_end L);
     k \<leftarrow> kprintf ''INIT'' (KINFO @ bytes ''[MM] Releaseing %d pages from 0x0.'' @ nl) [Int_arg hhk_init_pg_count] k;
     k \<leftarrow> for_pages vmm_unmap_page 0 3 0 k;
     k \<leftarrow> lock_reserved_memory mb k;
     k \<leftarrow> acpi_init k;
     toc \<leftarrow> acpi_get_context k;
     ioapic_addr \<leftarrow> vload32 k (ioapic_ioapic_addr (toc_ioapic toc));
     k \<leftarrow> pmm_mark_page_occupied (FLOOR APIC_BASE_PADDR PG_SIZE_BITS) k;
     k \<leftarrow> pmm_mark_page_occupied (FLOOR ioapic_addr PG_SIZE_BITS) k;
     k \<leftarrow> vmm_set_mapping APIC_BASE_VADDR APIC_BASE_PADDR PG_PREM_RW k;
     k \<leftarrow> vmm_set_mapping IOAPIC_BASE_VADDR ioapic_addr PG_PREM_RW k;
     k \<leftarrow> apic_init k;
     k \<leftarrow> ioapic_init k;
     r \<leftarrow> timer_init call interrupts SYS_TIMER_FREQUENCY_HZ k;
     case r of
       Return k \<Rightarrow> map_option Return (for_pages vmm_unmap_page 0 (unat hhk_init_pg_count - 256) 256 k)
     | Spin k \<Rightarrow> Some (Spin k)
   }"

section \<open>k_main.c\<close>

text \<open>The callback of the demonstration timer, with the static variable \<^verbatim>\<open>datetime\<close>.\<close>

definition test_timer :: "u32 \<Rightarrow> datetime \<times> kernel \<Rightarrow> (datetime \<times> kernel) option" where
  "test_timer payload s = do {
     let (d, k) = s;
     (d, cmos) \<leftarrow> time_getdatetime d (k_cmos k);
     let k = k\<lparr>k_cmos := cmos\<rparr>;
     k \<leftarrow> kprintf '' OS '' (KWARN @ bytes ''%u/%02u/%02u %02u:%02u:%02u'' @ [13])
       [Int_arg (dt_year d), Int_arg (ucast (dt_month d)), Int_arg (ucast (dt_day d)), Int_arg (ucast (dt_hour d)),
        Int_arg (ucast (dt_minute d)), Int_arg (ucast (dt_second d))] k;
     Some (d, k)
   }"

fun main_allocs :: "nat \<Rightarrow> u32 \<Rightarrow> u32 \<Rightarrow> kernel \<Rightarrow> kernel option" where
  "main_allocs 0 i arr k = Some k"
| "main_allocs (Suc n) i arr k = do {
     (p, k) \<leftarrow> kmalloc ((i + 1) * 2) k;
     k \<leftarrow> vstore32 (arr + 4 * i) p k;
     main_allocs n (i + 1) arr k
   }"

fun main_frees :: "nat \<Rightarrow> u32 \<Rightarrow> u32 \<Rightarrow> kernel \<Rightarrow> kernel option" where
  "main_frees 0 i arr k = Some k"
| "main_frees (Suc n) i arr k = do {
     p \<leftarrow> vload32 k (arr + 4 * i);
     k \<leftarrow> kfree p k;
     main_frees n (i + 1) arr k
   }"

text \<open>\<open>buf\<close>: the 64 bytes of stack the function finds; \<open>test_timer_addr\<close>: the address of the callback.\<close>

definition kernel_main :: "linker \<Rightarrow> u32 \<Rightarrow> u8 list \<Rightarrow> kernel \<Rightarrow> outcome option" where
  "kernel_main L test_timer_addr buf k = do {
     k \<leftarrow> kprintf '' OS '' (KINFO @ bytes ''Hello higher half kernel world!'' @ nl
       @ bytes ''We are now running in virtual address space!'' @ nl @ nl) [] k;
     let buf = cpu_get_brand buf k;
     k \<leftarrow> kprintf '' OS '' (bytes ''CPU: %s'' @ nl @ nl) [Str_arg (takeWhile (\<lambda>c. c \<noteq> 0) buf)] k;
     k_start \<leftarrow> vmm_v2p (kernel_start L) k;
     k \<leftarrow> kprintf '' OS '' (KINFO @ bytes ''The kernel's base address mapping: %p->%p'' @ nl)
       [Int_arg (kernel_start L), Int_arg k_start] k;
     (arr, k) \<leftarrow> kmalloc 40 k;
     k \<leftarrow> main_allocs 10 0 arr k;
     k \<leftarrow> main_frees 10 0 arr k;
     (big, k) \<leftarrow> kmalloc 8192 k;
     k \<leftarrow> vstore8 big 123 k;
     k \<leftarrow> vstore8 (big + 1) 23 k;
     k \<leftarrow> vstore8 (big + 2) 3 k;
     b0 \<leftarrow> vload8 k big;
     b1 \<leftarrow> vload8 k (big + 1);
     b2 \<leftarrow> vload8 k (big + 2);
     k \<leftarrow> kprintf '' OS '' (KINFO @ bytes ''%u, %u, %u'' @ nl) [Int_arg (ucast b0), Int_arg (ucast b1), Int_arg (ucast b2)] k;
     k \<leftarrow> kfree arr k;
     k \<leftarrow> kfree big k;
     (_, k) \<leftarrow> timer_run_second 1 test_timer_addr 0 TIMER_MODE_PERIODIC k;
     Some (Spin k)
   }"

section \<open>The messages\<close>

lemma message_without_level: "c \<noteq> 0x1B \<Longrightarrow> kprintf component (c # str) args k = kprintf component (0x1B # 48 # c # str) args k"
  by (simp add: kprintf_def kprintf_internal_def log_level_def)

definition numbers :: "varg list \<Rightarrow> bool" where
  "numbers args \<longleftrightarrow> (\<forall>a \<in> set args. \<exists>v. a = Int_arg v)"

lemma numbers_simps [simp]: "numbers []" "numbers (Int_arg v # args) = numbers args"
  by (simp_all add: numbers_def)

lemma init_message:
  assumes "render fmt args = Some out" "0 \<notin> set fmt" "length fmt \<le> 60" "numbers args" "console_ok k"
  shows "\<exists>t. kprintf ''INIT'' (KINFO @ fmt) args k = Some (k\<lparr>k_tty := t\<rparr>) \<and> console_ok (k\<lparr>k_tty := t\<rparr>)"
proof -
  have "printable (bytes ''INIT'')" "length (bytes ''INIT'') \<le> 20" by (simp_all add: printable_def bytes_def)
  from kprintf_numbers [where l = 48, OF assms(1-3) assms(4) [unfolded numbers_def] this assms(5)]
  show ?thesis by (metis KINFO_def append.simps)
qed

lemma init_message_plain:
  assumes "render (c # str) args = Some out" "0 \<notin> set (c # str)" "length (c # str) \<le> 60" "numbers args" "console_ok k" "c \<noteq> 0x1B"
  shows "\<exists>t. kprintf ''INIT'' (c # str) args k = Some (k\<lparr>k_tty := t\<rparr>) \<and> console_ok (k\<lparr>k_tty := t\<rparr>)"
  using init_message [OF assms(1-5)] message_without_level [OF assms(6)] by (simp add: KINFO_def)

lemma messages:
  assumes "console_ok k"
  shows "\<exists>t. kprintf ''INIT'' (bytes ''[MM] Base: 0x%x, len: %u KiB, type: %u'' @ nl) [Int_arg a, Int_arg l, Int_arg y] k
      = Some (k\<lparr>k_tty := t\<rparr>) \<and> console_ok (k\<lparr>k_tty := t\<rparr>)"
    "\<exists>t. kprintf ''INIT'' (KINFO @ bytes ''[MM] Freed %u pages start from 0x%x'' @ nl) [Int_arg a, Int_arg l] k
      = Some (k\<lparr>k_tty := t\<rparr>) \<and> console_ok (k\<lparr>k_tty := t\<rparr>)"
    "\<exists>t. kprintf ''INIT'' (KINFO @ bytes ''[MM] Allocated %d pages for kernel.'' @ nl) [Int_arg a] k
      = Some (k\<lparr>k_tty := t\<rparr>) \<and> console_ok (k\<lparr>k_tty := t\<rparr>)"
    "\<exists>t. kprintf ''INIT'' (KINFO @ bytes ''[MM] Mapped VGA to %p.'' @ nl) [Int_arg a] k
      = Some (k\<lparr>k_tty := t\<rparr>) \<and> console_ok (k\<lparr>k_tty := t\<rparr>)"
proof -
  have "bytes ''[MM] Base: 0x%x, len: %u KiB, type: %u'' @ nl = 91 # bytes ''MM] Base: 0x%x, len: %u KiB, type: %u'' @ nl"
    by (simp add: bytes_def)
  then show "\<exists>t. kprintf ''INIT'' (bytes ''[MM] Base: 0x%x, len: %u KiB, type: %u'' @ nl) [Int_arg a, Int_arg l, Int_arg y] k
      = Some (k\<lparr>k_tty := t\<rparr>) \<and> console_ok (k\<lparr>k_tty := t\<rparr>)"
    by (simp only:) (rule init_message_plain [OF _ _ _ _ assms]; simp add: bytes_def nl_def)
qed (rule init_message [OF _ _ _ _ assms]; simp add: bytes_def nl_def)+

section \<open>The memory map\<close>

text \<open>A region as the boot loader describes it, and the list of regions in memory at \<open>p\<close>.\<close>

record region =
  r_base :: u64
  r_length :: u64
  r_type :: u32

definition region_at :: "kernel \<Rightarrow> u32 \<Rightarrow> region \<Rightarrow> bool" where
  "region_at k p r \<longleftrightarrow> vload32 k (mmap_addr_low p) = Some (ucast (r_base r)) \<and> vload32 k (p + 8) = Some (ucast (drop_bit 32 (r_base r)))
     \<and> vload32 k (mmap_len_low p) = Some (ucast (r_length r)) \<and> vload32 k (p + 16) = Some (ucast (drop_bit 32 (r_length r)))
     \<and> vload32 k (mmap_type p) = Some (r_type r)"

fun regions_at :: "kernel \<Rightarrow> u32 \<Rightarrow> region list \<Rightarrow> bool" where
  "regions_at k p [] = True"
| "regions_at k p (r # rs) = (region_at k p r \<and> regions_at k (p + sizeof_mmap) rs)"

text \<open>The run of pages the code takes a region for.\<close>

definition first_page :: "region \<Rightarrow> u32" where
  "first_page r = drop_bit 12 (ucast (r_base r) + 0xFFF)"

definition page_count :: "region \<Rightarrow> u32" where
  "page_count r = drop_bit 12 (ucast (r_length r))"

definition freed_by :: "region list \<Rightarrow> u32 \<Rightarrow> bool" where
  "freed_by rs q \<longleftrightarrow> (\<exists>r \<in> set rs. r_type r = MULTIBOOT_MEMORY_AVAILABLE \<and> chunk_covers (first_page r) (page_count r) q)"

definition in_bitmap_regions :: "region list \<Rightarrow> bool" where
  "in_bitmap_regions rs \<longleftrightarrow> (\<forall>r \<in> set rs. r_type r = MULTIBOOT_MEMORY_AVAILABLE \<longrightarrow> chunk_in_bitmap (first_page r) (page_count r))"

lemma regions_at_cong: "vload32 k' = vload32 k \<Longrightarrow> regions_at k' p rs = regions_at k p rs"
  by (induction rs arbitrary: p) (simp_all add: region_at_def)

lemma load_marked: fixes k :: kernel shows "vload32 (k\<lparr>pm_bitmap := b, k_tty := t\<rparr>) = vload32 k"
proof -
  have "mmu_translate (k\<lparr>pm_bitmap := b, k_tty := t\<rparr>) = mmu_translate k" by (rule mmu_translate_cong) simp_all
  then show ?thesis by (intro ext) (simp add: vload32_def)
qed

lemma setup_region_run:
  assumes "region_at k p r" "console_ok k" "r_type r = MULTIBOOT_MEMORY_AVAILABLE \<longrightarrow> chunk_in_bitmap (first_page r) (page_count r)"
  obtains b t where "setup_region p k = Some (k\<lparr>pm_bitmap := b, k_tty := t\<rparr>)" "console_ok (k\<lparr>pm_bitmap := b, k_tty := t\<rparr>)"
    "\<And>q. page_free (k\<lparr>pm_bitmap := b, k_tty := t\<rparr>) q \<longleftrightarrow> page_free k q \<or> freed_by [r] q"
proof -
  note at = assms(1) [unfolded region_at_def]
  obtain t1 where t1: "kprintf ''INIT'' (bytes ''[MM] Base: 0x%x, len: %u KiB, type: %u'' @ nl)
      [Int_arg (ucast (r_base r)), Int_arg (drop_bit 10 (ucast (r_length r))), Int_arg (r_type r)] k = Some (k\<lparr>k_tty := t1\<rparr>)"
    "console_ok (k\<lparr>k_tty := t1\<rparr>)" using messages(1) [OF assms(2)] by blast
  show ?thesis
  proof (cases "r_type r = MULTIBOOT_MEMORY_AVAILABLE")
    case True
    obtain b where b: "pmm_mark_chunk_free (first_page r) (page_count r) (k\<lparr>k_tty := t1\<rparr>) = Some (k\<lparr>k_tty := t1, pm_bitmap := b\<rparr>)"
      "\<And>q. page_free (k\<lparr>k_tty := t1, pm_bitmap := b\<rparr>) q \<longleftrightarrow> page_free (k\<lparr>k_tty := t1\<rparr>) q \<or> chunk_covers (first_page r) (page_count r) q"
      using mark_chunk_free_hit [OF assms(3) [rule_format, OF True], of "k\<lparr>k_tty := t1\<rparr>"] by metis
    have "console_ok (k\<lparr>k_tty := t1, pm_bitmap := b\<rparr>)" using t1(2) by (simp add: console_ok_def)
    from messages(2) [OF this] obtain t2 where t2: "kprintf ''INIT'' (KINFO @ bytes ''[MM] Freed %u pages start from 0x%x'' @ nl)
        [Int_arg (page_count r), Int_arg ((ucast (r_base r) + 0xFFF) AND NOT 0xFFF)] (k\<lparr>k_tty := t1, pm_bitmap := b\<rparr>)
        = Some (k\<lparr>pm_bitmap := b, k_tty := t2\<rparr>)" "console_ok (k\<lparr>pm_bitmap := b, k_tty := t2\<rparr>)"
      by fastforce
    have "setup_region p k = Some (k\<lparr>pm_bitmap := b, k_tty := t2\<rparr>)"
      using at t1(1) b(1) t2(1) True by (simp add: setup_region_def first_page_def page_count_def PG_SIZE_BITS_def Let_def)
    moreover have "page_free (k\<lparr>pm_bitmap := b, k_tty := t2\<rparr>) q \<longleftrightarrow> page_free k q \<or> freed_by [r] q" for q
      using b(2) [of q] True by (simp add: freed_by_def page_free_def)
    ultimately show ?thesis using that t2(2) by blast
  next
    case False
    have "setup_region p k = Some (k\<lparr>k_tty := t1\<rparr>)" using at t1(1) False by (simp add: setup_region_def)
    then show ?thesis using t1(2) False by (intro that [where b = "pm_bitmap k" and t = t1]) (simp_all add: freed_by_def page_free_def)
  qed
qed

lemma setup_regions_run:
  assumes "regions_at k p rs" "console_ok k" "in_bitmap_regions rs"
  obtains b t where "setup_regions (length rs) p k = Some (k\<lparr>pm_bitmap := b, k_tty := t\<rparr>)" "console_ok (k\<lparr>pm_bitmap := b, k_tty := t\<rparr>)"
    "\<And>q. page_free (k\<lparr>pm_bitmap := b, k_tty := t\<rparr>) q \<longleftrightarrow> page_free k q \<or> freed_by rs q"
  using assms
proof (induction rs arbitrary: k p thesis)
  case Nil
  show ?case by (rule Nil(1) [where b = "pm_bitmap k" and t = "k_tty k"]) (use Nil in \<open>simp_all add: freed_by_def\<close>)
next
  case (Cons r rs)
  have r: "region_at k p r" "r_type r = MULTIBOOT_MEMORY_AVAILABLE \<longrightarrow> chunk_in_bitmap (first_page r) (page_count r)"
    "in_bitmap_regions rs" using Cons.prems(2,4) by (auto simp: in_bitmap_regions_def)
  obtain b t where 1: "setup_region p k = Some (k\<lparr>pm_bitmap := b, k_tty := t\<rparr>)" "console_ok (k\<lparr>pm_bitmap := b, k_tty := t\<rparr>)"
    "\<And>q. page_free (k\<lparr>pm_bitmap := b, k_tty := t\<rparr>) q \<longleftrightarrow> page_free k q \<or> freed_by [r] q"
    by (rule setup_region_run [OF r(1) Cons.prems(3) r(2)]) blast
  let ?k = "k\<lparr>pm_bitmap := b, k_tty := t\<rparr>"
  have "regions_at ?k (p + sizeof_mmap) rs" using Cons.prems(2) regions_at_cong [OF load_marked [where k = k and b = b and t = t]] by simp
  then obtain b' t' where 2: "setup_regions (length rs) (p + sizeof_mmap) ?k = Some (?k\<lparr>pm_bitmap := b', k_tty := t'\<rparr>)"
    "console_ok (?k\<lparr>pm_bitmap := b', k_tty := t'\<rparr>)"
    "\<And>q. page_free (?k\<lparr>pm_bitmap := b', k_tty := t'\<rparr>) q \<longleftrightarrow> page_free ?k q \<or> freed_by rs q"
    using Cons.IH [OF _ _ 1(2) r(3)] by blast
  show ?case by (rule Cons.prems(1) [where b = b' and t = t']) (use 1 2 in \<open>auto simp: freed_by_def\<close>)
qed

section \<open>What mapping a page leaves alone\<close>

definition mem_step :: "'a vm_scheme \<Rightarrow> 'a vm_scheme \<Rightarrow> bool" where
  "mem_step s s' \<longleftrightarrow> (\<exists>x b m. s' = s\<lparr>pg_lookup_ptr := x, pm_bitmap := b, phys := m\<rparr>)"

lemma mem_step_refl [simp]: "mem_step s s"
proof -
  have "s = s\<lparr>pg_lookup_ptr := pg_lookup_ptr s, pm_bitmap := pm_bitmap s, phys := phys s\<rparr>" by simp
  then show ?thesis unfolding mem_step_def by blast
qed

lemma mem_step_trans: "mem_step s t \<Longrightarrow> mem_step t u \<Longrightarrow> mem_step s u"
  unfolding mem_step_def by (elim exE) (simp, blast)

lemma mem_step_phys: "mem_step s (s\<lparr>phys := m\<rparr>)"
proof -
  have "s\<lparr>phys := m\<rparr> = s\<lparr>pg_lookup_ptr := pg_lookup_ptr s, pm_bitmap := pm_bitmap s, phys := m\<rparr>" by simp
  then show ?thesis unfolding mem_step_def by blast
qed

lemma mem_step_bitmap: "mem_step s (s\<lparr>pg_lookup_ptr := x, pm_bitmap := b\<rparr>)" "mem_step s (s\<lparr>pm_bitmap := b\<rparr>)"
proof -
  have "s\<lparr>pg_lookup_ptr := x, pm_bitmap := b\<rparr> = s\<lparr>pg_lookup_ptr := x, pm_bitmap := b, phys := phys s\<rparr>"
    "s\<lparr>pm_bitmap := b\<rparr> = s\<lparr>pg_lookup_ptr := pg_lookup_ptr s, pm_bitmap := b, phys := phys s\<rparr>" by simp_all
  then show "mem_step s (s\<lparr>pg_lookup_ptr := x, pm_bitmap := b\<rparr>)" "mem_step s (s\<lparr>pm_bitmap := b\<rparr>)"
    unfolding mem_step_def by blast+
qed

lemma mem_step_stores:
  "pt_set p i v s = Some s' \<Longrightarrow> mem_step s s'" "vstore8 a x s = Some s' \<Longrightarrow> mem_step s s'"
  by (auto simp: pt_set_def vstore32_def vstore8_def mem_step_phys split: Option.bind_splits)

lemma mem_step_memset: "vmemset n a x s = Some s' \<Longrightarrow> mem_step s s'"
  by (induction n arbitrary: a s) (auto split: Option.bind_splits dest: mem_step_stores(2) intro: mem_step_trans)

lemma mem_step_free: "pmm_free_page a s = Some (r, s') \<Longrightarrow> mem_step s s'"
  by (cases rule: pmm_free_page_cases [of a s]) (auto simp: mem_step_bitmap)

lemma mem_step_map_entry:
  assumes "vmm_map_entry t j pa attr forced s = Some (r, s')"
  shows "mem_step s s'"
proof -
  have "mem_step s u" if "(if c then map_option snd (pmm_free_page a s) else Some s) = Some u" for c a u
    using that mem_step_free [of a s] by (auto split: if_splits)
  then show ?thesis using assms mem_step_stores(1)
    by (fastforce simp: vmm_map_entry_def split: Option.bind_splits if_splits intro: mem_step_trans)
qed

lemma mem_step_map:
  assumes "vmm_map_internal i j pa attr forced s = Some (r, s')" "pmm_ok s"
  shows "mem_step s s'"
proof -
  have alloc: "mem_step s t" if "pmm_alloc_page s = Some (a, t)" for a t
    using pmm_alloc_page_frame [OF assms(2)] that mem_step_bitmap(1) by auto
  show ?thesis using assms(1)
    by (auto simp: vmm_map_internal_def Let_def split: Option.bind_splits if_splits
      dest!: alloc mem_step_stores(1) mem_step_memset mem_step_map_entry intro: mem_step_trans [OF mem_step_trans [OF mem_step_trans]])
qed

section \<open>Remapping the console\<close>

lemma vm_ok_console: "vm_ok (k\<lparr>k_tty := t\<rparr>) = vm_ok k" "table_frame (k\<lparr>k_tty := t\<rparr>) = table_frame k"
  "l1e (k\<lparr>k_tty := t\<rparr>) = l1e k"
proof -
  show l: "l1e (k\<lparr>k_tty := t\<rparr>) = l1e k" by (simp add: l1e_def fun_eq_iff)
  then have t: "tbl (k\<lparr>k_tty := t\<rparr>) = tbl k" by (simp add: tbl_def fun_eq_iff)
  show "table_frame (k\<lparr>k_tty := t\<rparr>) = table_frame k" by (simp add: table_frame_def l t fun_eq_iff)
  show "vm_ok (k\<lparr>k_tty := t\<rparr>) = vm_ok k" by (simp add: vm_ok_def l t pmm_ok_def page_free_def)
qed

lemma vga_consts: "L1_INDEX VGA_BUFFER_VADDR = 704" "L2_INDEX VGA_BUFFER_VADDR = 0" "PG_OFFSET VGA_BUFFER_VADDR = 0"
  "VGA_BUFFER_VADDR \<noteq> 0" "VGA_BUFFER_PADDR \<noteq> 0" "PG_ALIGN VGA_BUFFER_PADDR = VGA_BUFFER_PADDR"
  "drop_bit 12 VGA_BUFFER_PADDR = 0xB8" "drop_bit 12 VGA_BUFFER_SIZE = 1"
  by (simp_all add: VGA_BUFFER_VADDR_def VGA_BUFFER_PADDR_def VGA_BUFFER_SIZE_def L1_INDEX_def L2_INDEX_def PG_OFFSET_def PG_ALIGN_def)

lemma map_vga_run:
  assumes "vm_ok k" "l1e k 704 = 0" "pg_lookup_ptr k = LOOKUP_START" "page_free k p" "p < max_pg k" "p mod 8 \<noteq> 0"
  obtains k' where "map_vga 1 0 k = Some k'" "vm_ok k'" "mem_step k k'" "mmu_translate k' VGA_BUFFER_VADDR = Some VGA_BUFFER_PADDR"
    "\<And>q. page_free k' q \<Longrightarrow> page_free k q" "\<And>q. page_free k q \<Longrightarrow> page_free k' q \<or> table_frame k' (push_bit 12 q)"
    "pagemap k' = (pagemap k)((704, 0) \<mapsto> NEW_L2_ENTRY PG_PREM_RW VGA_BUFFER_PADDR)" "\<And>n. spare k (Suc n) \<Longrightarrow> spare k' n"
proof -
  have idx: "L1_INDEX VGA_BUFFER_VADDR < 1023" "L2_INDEX VGA_BUFFER_VADDR < 1024" by (simp_all add: vga_consts)
  have attr: "IS_CACHED PG_PREM_RW" by (rule present_perms)
  have absent: "l1e k (L1_INDEX VGA_BUFFER_VADDR) = 0" using assms(2) by (simp add: vga_consts)
  obtain a s' where alloc: "pmm_alloc_page k = Some (a, s')" "a \<noteq> 0"
    using pmm_alloc_page_finds [OF vm_okD(1) [OF assms(1)] assms(3-6)] by blast
  note eq = map_page_absent [OF assms(1) vga_consts(4,5) idx(1) absent, of PG_PREM_RW]
  from map_internal_fresh [OF assms(1) idx attr, where pa = VGA_BUFFER_PADDR, case_names kept full set]
  show ?thesis
  proof cases
    case kept
    then show ?thesis using absent by (simp add: pagemap_absent)
  next
    case (full t)
    then show ?thesis using alloc by simp
  next
    case (set k')
    have "map_vga 1 0 k = Some k'" using eq set(1) by simp
    moreover have "mem_step k k'" by (rule mem_step_map [OF set(1) vm_okD(1) [OF assms(1)]])
    moreover have "mmu_translate k' VGA_BUFFER_VADDR = Some VGA_BUFFER_PADDR"
      using mmu_translate_pagemap [OF set(3) idx(1)] set(5) attr by (simp add: vga_consts)
    moreover have "pagemap k' = (pagemap k)((704, 0) \<mapsto> NEW_L2_ENTRY PG_PREM_RW VGA_BUFFER_PADDR)"
      using set(5) by (simp add: vga_consts)
    moreover have "spare k' n" if "spare k (Suc n)" for n by (rule map_internal_spare [OF set(1) vm_okD(1) [OF assms(1)] that])
    ultimately show ?thesis using that set(3,7,8) by blast
  qed
qed

section \<open>The memory after the setup\<close>

definition kernel_pages :: "linker \<Rightarrow> u32" where
  "kernel_pages L = drop_bit 12 (V2P (kernel_end L))"

text \<open>Page \<open>q\<close> lies in a region of available memory.\<close>

definition usable :: "region list \<Rightarrow> u32 \<Rightarrow> bool" where
  "usable rs q \<longleftrightarrow> (\<exists>r \<in> set rs. r_type r = MULTIBOOT_MEMORY_AVAILABLE
     \<and> unat (r_base r) \<le> 4096 * unat q \<and> 4096 * unat q + 4096 \<le> unat (r_base r) + unat (r_length r))"

text \<open>The available regions start at a page and end below 4 GiB.\<close>

definition regular_regions :: "region list \<Rightarrow> bool" where
  "regular_regions rs \<longleftrightarrow> (\<forall>r \<in> set rs. r_type r = MULTIBOOT_MEMORY_AVAILABLE \<longrightarrow>
     4096 dvd unat (r_base r) \<and> unat (r_base r) + unat (r_length r) < 4294967296 \<and> unat (r_base r) + 32768 < 4294967296)"

lemma unat_ucast_u64: "unat (x :: u64) < 4294967296 \<Longrightarrow> unat (ucast x :: u32) = unat x"
  by (simp add: unsigned_ucast_eq take_bit_nat_eq_self)

lemma regular_pages:
  assumes "4096 dvd unat (r_base r)" "unat (r_base r) + unat (r_length r) < 4294967296" "unat (r_base r) + 32768 < 4294967296"
  shows "4096 * unat (first_page r) = unat (r_base r)" "unat (page_count r) = unat (r_length r) div 4096"
    "chunk_in_bitmap (first_page r) (page_count r)"
proof -
  obtain n where n: "unat (r_base r) = 4096 * n" using assms(1) by auto
  have "unat (ucast (r_base r) + 0xFFF :: u32) = 4096 * n + 4095"
    using assms(2,3) n by (subst unat_add_u32) (simp_all add: unat_ucast_u64)
  then have f: "unat (first_page r) = n" by (simp add: first_page_def unat_word)
  then show "4096 * unat (first_page r) = unat (r_base r)" using n by simp
  show c: "unat (page_count r) = unat (r_length r) div 4096" using assms(2) by (simp add: page_count_def unat_word unat_ucast_u64)
  have "4096 * (unat (r_length r) div 4096) \<le> unat (r_length r)" by simp
  then show "chunk_in_bitmap (first_page r) (page_count r)" using assms n unfolding chunk_in_bitmap_def f c by linarith
qed

lemma covers_run: "chunk_covers st c q \<Longrightarrow> unat st \<le> unat q \<and> unat q < unat st + unat c"
proof -
  assume a: "chunk_covers st c q"
  have "unat q < unat st + unat c" if "\<not> (8 < c \<or> unat (st mod 8) + unat c \<le> 8)"
  proof -
    have "unat q div 8 = unat st div 8" using a that by (simp add: chunk_covers_def word_unat_eq_iff unat_div)
    then have "unat q < 8 * (unat st div 8) + 8" using mult_div_mod_eq [of 8 "unat q"] mod_less_divisor [of 8 "unat q"] by linarith
    moreover have "unat st = 8 * (unat st div 8) + unat (st mod 8)" by (simp add: unat_mod8)
    ultimately show ?thesis using that by linarith
  qed
  then show ?thesis using a by (auto simp: chunk_covers_def word_le_nat_alt split: if_splits)
qed

lemma freed_usable:
  assumes "regular_regions rs" "freed_by rs q"
  shows "usable rs q"
proof -
  obtain r where r: "r \<in> set rs" "r_type r = MULTIBOOT_MEMORY_AVAILABLE" "chunk_covers (first_page r) (page_count r) q"
    using assms(2) by (auto simp: freed_by_def)
  then have reg: "4096 dvd unat (r_base r)" "unat (r_base r) + unat (r_length r) < 4294967296" "unat (r_base r) + 32768 < 4294967296"
    using assms(1) by (auto simp: regular_regions_def)
  have "4096 * (unat (r_length r) div 4096) \<le> unat (r_length r)" by simp
  then have "unat (r_base r) \<le> 4096 * unat q" "4096 * unat q + 4096 \<le> unat (r_base r) + unat (r_length r)"
    using covers_run [OF r(3)] regular_pages [OF reg] by linarith+
  then show ?thesis using r(1,2) unfolding usable_def by blast
qed

lemma regular_in_bitmap: "regular_regions rs \<Longrightarrow> in_bitmap_regions rs"
  using regular_pages(3) by (auto simp: regular_regions_def in_bitmap_regions_def)

text \<open>The state \<^verbatim>\<open>setup_memory\<close> starts from: no page is free, the page tables lie in the kernel image, the
  boot loader's map is in memory, and some region has a page beyond the kernel.\<close>

definition before_setup :: "linker \<Rightarrow> u32 \<Rightarrow> region list \<Rightarrow> kernel \<Rightarrow> bool" where
  "before_setup L mmaps rs k \<longleftrightarrow> vm_ok k \<and> console_ok k \<and> regions_at k mmaps rs \<and> length rs < 4294967296
     \<and> (\<forall>q. in_bitmap q \<longrightarrow> \<not> page_free k q) \<and> pg_lookup_ptr k = LOOKUP_START \<and> l1e k 704 = 0
     \<and> (\<forall>f. table_frame k f \<longrightarrow> drop_bit 12 f < kernel_pages L)
     \<and> (\<exists>p. freed_by rs p \<and> kernel_pages L \<le> p \<and> p \<noteq> 0xB8 \<and> p mod 8 \<noteq> 0 \<and> p < max_pg k)"

lemma vm_ok_marked:
  fixes k :: kernel
  assumes "vm_ok k" "\<And>f. table_frame k f \<Longrightarrow> \<not> page_free (k\<lparr>pm_bitmap := b\<rparr>) (drop_bit 12 f)"
  shows "vm_ok (k\<lparr>pm_bitmap := b, k_tty := t\<rparr>)"
proof -
  have "vm_ok (k\<lparr>pg_lookup_ptr := pg_lookup_ptr k, pm_bitmap := b\<rparr>)"
    by (rule vm_ok_pool [OF assms(1)]) (use vm_okD(1) [OF assms(1)] assms(2) in \<open>simp_all add: pmm_ok_def\<close>)
  then show ?thesis using vm_ok_console(1) [where k = "k\<lparr>pm_bitmap := b\<rparr>" and t = t] by simp
qed

lemma kprintf_buffer:
  assumes "kprintf component fmt args k = Some k'" "console_ok k"
  shows "tty_vga_buffer (k_tty k') = tty_vga_buffer (k_tty k)"
proof -
  have "tty_vga_buffer (tty_put_str buf t) = tty_vga_buffer t" if "tty_ok t" for buf t
    using put_str_refines [OF that, of buf] by (simp add: same_outside_def)
  then show ?thesis using assms
    by (auto simp: kprintf_def kprintf_internal_def tty_set_theme_def Let_def console_ok_def split: Option.bind_splits if_splits)
qed

lemma swap_updates: "k\<lparr>k_tty := t, pm_bitmap := b\<rparr> = k\<lparr>pm_bitmap := b, k_tty := t\<rparr>"
  by simp

lemma chunk_kernel: "chunk_in_bitmap 0 (kernel_pages L)" "chunk_covers 0 (kernel_pages L) q \<longleftrightarrow> q < kernel_pages L"
  "chunk_in_bitmap 0xB8 1" "chunk_covers 0xB8 1 q \<longleftrightarrow> q = 0xB8"
proof -
  have "unat (kernel_pages L) < 0x100000"
    using unat_lt32 [of "V2P (kernel_end L)"] by (simp add: kernel_pages_def unat_word less_mult_imp_div_less)
  then show "chunk_in_bitmap 0 (kernel_pages L)" by (simp add: chunk_in_bitmap_def)
  show "chunk_covers 0 (kernel_pages L) q \<longleftrightarrow> q < kernel_pages L"
    by (auto simp: chunk_covers_def word_less_nat_alt)
  show "chunk_in_bitmap 0xB8 1" by (simp add: chunk_in_bitmap_def)
  show "chunk_covers 0xB8 1 q \<longleftrightarrow> q = 0xB8"
    by (auto simp: chunk_covers_def word_le_nat_alt word_unat_eq_iff)
qed

text \<open>The marking phase: exactly the freed pages outside the kernel and the console are free.\<close>

lemma setup_marks:
  assumes "before_setup L mmaps rs k" "in_bitmap_regions rs"
  obtains b t where "setup_memory L mmaps (of_nat (length rs)) k = do {
      k \<leftarrow> map_vga 1 0 (k\<lparr>pm_bitmap := b, k_tty := t\<rparr>);
      k \<leftarrow> move_console VGA_BUFFER_VADDR k;
      kprintf ''INIT'' (KINFO @ bytes ''[MM] Mapped VGA to %p.'' @ nl) [Int_arg VGA_BUFFER_VADDR] k }"
    "console_ok (k\<lparr>pm_bitmap := b, k_tty := t\<rparr>)" "vm_ok (k\<lparr>pm_bitmap := b, k_tty := t\<rparr>)"
    "\<And>q. page_free (k\<lparr>pm_bitmap := b, k_tty := t\<rparr>) q \<longleftrightarrow> (page_free k q \<or> freed_by rs q) \<and> kernel_pages L \<le> q \<and> q \<noteq> 0xB8"
proof -
  note B = assms(1) [unfolded before_setup_def]
  obtain b1 t1 where 1: "setup_regions (length rs) mmaps k = Some (k\<lparr>pm_bitmap := b1, k_tty := t1\<rparr>)"
    "console_ok (k\<lparr>pm_bitmap := b1, k_tty := t1\<rparr>)" "\<And>q. page_free (k\<lparr>pm_bitmap := b1, k_tty := t1\<rparr>) q \<longleftrightarrow> page_free k q \<or> freed_by rs q"
    using setup_regions_run [of k mmaps rs] B assms(2) by metis
  let ?k1 = "k\<lparr>pm_bitmap := b1, k_tty := t1\<rparr>"
  obtain b2 where 2: "pmm_mark_chunk_occupied 0 (kernel_pages L) ?k1 = Some (?k1\<lparr>pm_bitmap := b2\<rparr>)"
    "\<And>q. page_free (?k1\<lparr>pm_bitmap := b2\<rparr>) q \<longleftrightarrow> page_free ?k1 q \<and> \<not> q < kernel_pages L"
    using mark_chunk_occupied_hit [OF chunk_kernel(1) [of L], of ?k1] unfolding chunk_kernel(2) by metis
  have "console_ok (?k1\<lparr>pm_bitmap := b2\<rparr>)" using 1(2) by (simp add: console_ok_def)
  from messages(3) [OF this] obtain t3 where 3: "kprintf ''INIT'' (KINFO @ bytes ''[MM] Allocated %d pages for kernel.'' @ nl)
      [Int_arg (kernel_pages L)] (?k1\<lparr>pm_bitmap := b2\<rparr>) = Some (k\<lparr>pm_bitmap := b2, k_tty := t3\<rparr>)"
    "console_ok (k\<lparr>pm_bitmap := b2, k_tty := t3\<rparr>)" by fastforce
  let ?k3 = "k\<lparr>pm_bitmap := b2, k_tty := t3\<rparr>"
  obtain b4 where 4: "pmm_mark_chunk_occupied 0xB8 1 ?k3 = Some (?k3\<lparr>pm_bitmap := b4\<rparr>)"
    "\<And>q. page_free (?k3\<lparr>pm_bitmap := b4\<rparr>) q \<longleftrightarrow> page_free ?k3 q \<and> q \<noteq> 0xB8"
    using mark_chunk_occupied_hit [OF chunk_kernel(3), of ?k3] unfolding chunk_kernel(4) by metis
  let ?k4 = "k\<lparr>pm_bitmap := b4, k_tty := t3\<rparr>"
  have free: "page_free ?k4 q \<longleftrightarrow> (page_free k q \<or> freed_by rs q) \<and> kernel_pages L \<le> q \<and> q \<noteq> 0xB8" for q
    using 1(3) [of q] 2(2) [of q] 4(2) [of q] by (auto simp: page_free_def)
  show ?thesis
  proof (rule that [where b = b4 and t = t3])
    have n: "unat (of_nat (length rs) :: u32) = length rs" using B by simp
    show "setup_memory L mmaps (of_nat (length rs)) k = do {
      k \<leftarrow> map_vga 1 0 ?k4; k \<leftarrow> move_console VGA_BUFFER_VADDR k;
      kprintf ''INIT'' (KINFO @ bytes ''[MM] Mapped VGA to %p.'' @ nl) [Int_arg VGA_BUFFER_VADDR] k }"
      using 1(1) 2(1) 3(1) 4(1) unfolding setup_memory_def n Let_def PG_SIZE_BITS_def vga_consts kernel_pages_def [symmetric]
      by (simp add: swap_updates del: map_vga.simps)
    show "console_ok ?k4" using 3(2) by (simp add: console_ok_def)
    show "vm_ok ?k4"
    proof (rule vm_ok_marked)
      show "vm_ok k" using B by blast
      show "\<not> page_free (k\<lparr>pm_bitmap := b4\<rparr>) (drop_bit 12 f)" if "table_frame k f" for f
        using free [of "drop_bit 12 f"] B that by (auto simp: page_free_def not_le)
    qed
  qed (rule free)
qed

text \<open>A run of \<open>n\<close> bytes of the bitmap whose pages are all given to the allocator.\<close>

definition roomy :: "linker \<Rightarrow> region list \<Rightarrow> u32 \<Rightarrow> nat \<Rightarrow> bool" where
  "roomy L rs lim n \<longleftrightarrow> (\<exists>c. 8 * (c + n) \<le> unat lim
     \<and> (\<forall>q. 8 * c \<le> unat q \<and> unat q < 8 * (c + n) \<longrightarrow> freed_by rs q \<and> kernel_pages L \<le> q \<and> q \<noteq> 0xB8))"

lemma setup_memory_run:
  assumes "before_setup L mmaps rs k" "regular_regions rs"
  obtains k' where "setup_memory L mmaps (of_nat (length rs)) k = Some k'" "vm_ok k'" "console_ok k'"
    "tty_vga_buffer (k_tty k') = VGA_BUFFER_VADDR" "mmu_translate k' VGA_BUFFER_VADDR = Some VGA_BUFFER_PADDR"
    "\<And>q. in_bitmap q \<Longrightarrow> page_free k' q \<Longrightarrow> usable rs q \<and> kernel_pages L \<le> q \<and> q \<noteq> 0xB8"
    "\<And>q. freed_by rs q \<Longrightarrow> kernel_pages L \<le> q \<Longrightarrow> q \<noteq> 0xB8 \<Longrightarrow> page_free k' q \<or> table_frame k' (push_bit 12 q)"
    "pagemap k' = (pagemap k)((704, 0) \<mapsto> NEW_L2_ENTRY PG_PREM_RW VGA_BUFFER_PADDR)"
    "\<And>n. roomy L rs (max_pg k) (Suc n) \<Longrightarrow> spare k' n"
proof -
  note B = assms(1) [unfolded before_setup_def]
  obtain b t where m: "setup_memory L mmaps (of_nat (length rs)) k = do {
      k \<leftarrow> map_vga 1 0 (k\<lparr>pm_bitmap := b, k_tty := t\<rparr>);
      k \<leftarrow> move_console VGA_BUFFER_VADDR k;
      kprintf ''INIT'' (KINFO @ bytes ''[MM] Mapped VGA to %p.'' @ nl) [Int_arg VGA_BUFFER_VADDR] k }"
    "console_ok (k\<lparr>pm_bitmap := b, k_tty := t\<rparr>)" "vm_ok (k\<lparr>pm_bitmap := b, k_tty := t\<rparr>)"
    "\<And>q. page_free (k\<lparr>pm_bitmap := b, k_tty := t\<rparr>) q \<longleftrightarrow> (page_free k q \<or> freed_by rs q) \<and> kernel_pages L \<le> q \<and> q \<noteq> 0xB8"
    by (rule setup_marks [OF assms(1) regular_in_bitmap [OF assms(2)]]) blast
  let ?k = "k\<lparr>pm_bitmap := b, k_tty := t\<rparr>"
  obtain p where p: "page_free ?k p" "p mod 8 \<noteq> 0" "p < max_pg k" using B m(4) by blast
  have k: "l1e ?k 704 = 0" "pg_lookup_ptr ?k = LOOKUP_START" "p < max_pg ?k"
    using B p(3) by (simp_all add: l1e_def)
  obtain k1 where 1: "map_vga 1 0 ?k = Some k1" "vm_ok k1" "mem_step ?k k1"
    "mmu_translate k1 VGA_BUFFER_VADDR = Some VGA_BUFFER_PADDR" "\<And>q. page_free k1 q \<Longrightarrow> page_free ?k q"
    "\<And>q. page_free ?k q \<Longrightarrow> page_free k1 q \<or> table_frame k1 (push_bit 12 q)"
    "pagemap k1 = (pagemap ?k)((704, 0) \<mapsto> NEW_L2_ENTRY PG_PREM_RW VGA_BUFFER_PADDR)" "\<And>n. spare ?k (Suc n) \<Longrightarrow> spare k1 n"
    by (rule map_vga_run [OF m(3) k(1,2) p(1) k(3) p(2)]) blast
  let ?t = "tty_set_buffer VGA_BUFFER_VADDR (t\<lparr>tty_mem := (\<lambda>a. tty_mem t (VGA_BUFFER_PADDR + (a - VGA_BUFFER_VADDR)))\<rparr>)"
  have tty: "k_tty k1 = t" using 1(3) by (auto simp: mem_step_def)
  then have 2: "move_console VGA_BUFFER_VADDR k1 = Some (k1\<lparr>k_tty := ?t\<rparr>)" using 1(4) by (simp add: move_console_def Let_def)
  have ok: "console_ok (k1\<lparr>k_tty := ?t\<rparr>)"
    using m(2) by (simp add: console_ok_def tty_ok_def buffer_ok_def tty_set_buffer_def VGA_BUFFER_VADDR_def)
  obtain t3 where 3: "kprintf ''INIT'' (KINFO @ bytes ''[MM] Mapped VGA to %p.'' @ nl) [Int_arg VGA_BUFFER_VADDR] (k1\<lparr>k_tty := ?t\<rparr>)
      = Some (k1\<lparr>k_tty := t3\<rparr>)" "console_ok (k1\<lparr>k_tty := t3\<rparr>)" using messages(4) [OF ok] by auto
  show ?thesis
  proof (rule that [of "k1\<lparr>k_tty := t3\<rparr>"])
    show "setup_memory L mmaps (of_nat (length rs)) k = Some (k1\<lparr>k_tty := t3\<rparr>)" unfolding m(1) 1(1) using 2 3(1) by simp
    show "tty_vga_buffer (k_tty (k1\<lparr>k_tty := t3\<rparr>)) = VGA_BUFFER_VADDR"
      using kprintf_buffer [OF 3(1) ok] by (simp add: tty_set_buffer_def)
    have free: "page_free (k1\<lparr>k_tty := t3\<rparr>) = page_free k1" by (simp add: page_free_def fun_eq_iff)
    show "usable rs q \<and> kernel_pages L \<le> q \<and> q \<noteq> 0xB8" if "in_bitmap q" "page_free (k1\<lparr>k_tty := t3\<rparr>) q" for q
      using 1(5) [of q] m(4) [of q] that freed_usable [OF assms(2), of q] B by (auto simp: free)
    show "page_free (k1\<lparr>k_tty := t3\<rparr>) q \<or> table_frame (k1\<lparr>k_tty := t3\<rparr>) (push_bit 12 q)"
      if "freed_by rs q" "kernel_pages L \<le> q" "q \<noteq> 0xB8" for q
      using 1(6) [of q] m(4) [of q] that by (simp add: free vm_ok_console)
    have "pagemap (k1\<lparr>k_tty := t3\<rparr>) = pagemap k1" "pagemap ?k = pagemap k"
      by (rule ext, simp add: pagemap_def l1e_def l2e_def tbl_def split: prod.splits)+
    then show "pagemap (k1\<lparr>k_tty := t3\<rparr>) = (pagemap k)((704, 0) \<mapsto> NEW_L2_ENTRY PG_PREM_RW VGA_BUFFER_PADDR)" using 1(7) by simp
    show "spare (k1\<lparr>k_tty := t3\<rparr>) n" if room: "roomy L rs (max_pg k) (Suc n)" for n
    proof -
      have "spare ?k (Suc n)" using room k(2) m(4) unfolding roomy_def spare_def by (auto simp: LOOKUP_START_def)
      then show ?thesis using 1(8) spare_cong [of "k1\<lparr>k_tty := t3\<rparr>" k1] by (simp add: same_pool_def)
    qed
  qed (use 1(2,4) 3(2) in \<open>simp_all add: vm_ok_console\<close>)
qed

text \<open>Page \<open>q\<close> lies in region \<open>r\<close>; it lies below the end of the kernel image, with which the kernel, the setup code and the
  memory below 1 MiB are reserved; the pages of \<open>r\<close> are a run that \<^verbatim>\<open>pmm_mark_chunk_free\<close> marks in full: more than 8
  of them, or all in one byte of the bitmap.\<close>

definition page_within :: "region \<Rightarrow> u32 \<Rightarrow> bool" where
  "page_within r q \<longleftrightarrow> unat (r_base r) \<le> 4096 * unat q \<and> 4096 * unat q + 4096 \<le> unat (r_base r) + unat (r_length r)"

definition in_kernel :: "linker \<Rightarrow> u32 \<Rightarrow> bool" where
  "in_kernel L q \<longleftrightarrow> 4096 * unat q < unat (V2P (kernel_end L))"

definition whole_run :: "region \<Rightarrow> bool" where
  "whole_run r \<longleftrightarrow> 8 < unat (r_length r) div 4096 \<or> unat (r_base r) div 4096 mod 8 + unat (r_length r) div 4096 \<le> 8"

lemma in_kernel_pages:
  assumes "page_aligned (kernel_end L)"
  shows "in_kernel L q \<longleftrightarrow> \<not> kernel_pages L \<le> q"
proof -
  obtain n where n: "unat (V2P (kernel_end L)) = 4096 * n"
    using V2P_page_aligned [OF assms] aligned_dvd_u32 [of "V2P (kernel_end L)" 12] by (auto simp: page_aligned_mask)
  then have "unat (kernel_pages L) = n" by (simp add: kernel_pages_def unat_word)
  then show ?thesis using n by (auto simp: in_kernel_def word_le_nat_alt)
qed

lemma within_freed:
  assumes "regular_regions rs" "r \<in> set rs" "r_type r = MULTIBOOT_MEMORY_AVAILABLE" "whole_run r" "page_within r q"
  shows "freed_by rs q"
proof -
  have reg: "4096 dvd unat (r_base r)" "unat (r_base r) + unat (r_length r) < 4294967296" "unat (r_base r) + 32768 < 4294967296"
    using assms(1-3) by (auto simp: regular_regions_def)
  note run = regular_pages [OF reg]
  have "unat (first_page r mod 8) = unat (r_base r) div 4096 mod 8" by (simp add: unat_mod8 run(1) [symmetric])
  then have "8 < page_count r \<or> unat (first_page r mod 8) + unat (page_count r) \<le> 8"
    using assms(4) run(2) by (simp add: whole_run_def word_less_nat_alt)
  moreover have "unat (first_page r) \<le> unat q" "unat q < unat (first_page r) + unat (page_count r)"
    using assms(5) run(1) unfolding page_within_def run(2) by linarith+
  ultimately have "chunk_covers (first_page r) (page_count r) q" by (simp add: chunk_covers_def word_le_nat_alt)
  then show ?thesis using assms(2,3) by (auto simp: freed_by_def)
qed

text \<open>C9: \<^verbatim>\<open>setup_memory\<close> on the state the boot code leaves, when the available regions of the memory map start at a page
  and end below 4 GiB and the kernel image ends at a page, as it is linked: it returns with the virtual memory
  invariant intact and the console moved to its new mapping; every page that is free then lies in an available
  region and is neither a page of the kernel nor that of the console; and every page of an available region
  that is neither is free, or serves as the page table of the console, when the region has more than 8 pages or
  lies in one byte of the bitmap.\<close>

theorem setup_memory_frees_usable:
  assumes "before_setup L mmaps rs k" "regular_regions rs" "page_aligned (kernel_end L)"
  shows "\<exists>k'. setup_memory L mmaps (of_nat (length rs)) k = Some k' \<and> vm_ok k' \<and> console_ok k'
    \<and> tty_vga_buffer (k_tty k') = VGA_BUFFER_VADDR \<and> mmu_translate k' VGA_BUFFER_VADDR = Some VGA_BUFFER_PADDR
    \<and> (\<forall>q. in_bitmap q \<and> page_free k' q \<longrightarrow> usable rs q \<and> \<not> in_kernel L q \<and> q \<noteq> 0xB8)
    \<and> (\<forall>r q. r \<in> set rs \<and> r_type r = MULTIBOOT_MEMORY_AVAILABLE \<and> whole_run r \<and> page_within r q \<and> \<not> in_kernel L q \<and> q \<noteq> 0xB8
         \<longrightarrow> page_free k' q \<or> table_frame k' (push_bit 12 q))"
  by (rule setup_memory_run [OF assms(1,2)]) (use within_freed [OF assms(2)] in_kernel_pages [OF assms(3)] in blast)

text \<open>The upper halves of the memory map are never read. A region of available memory above 4 GiB frees
  the pages at the same offset below 4 GiB, none of which it contains.\<close>

theorem setup_region_ignores_upper_half:
  assumes "region_at k p r" "console_ok k" "r_type r = MULTIBOOT_MEMORY_AVAILABLE" "4294967296 \<le> unat (r_base r)"
    "chunk_in_bitmap (first_page r) (page_count r)"
  shows "\<exists>k'. setup_region p k = Some k' \<and> console_ok k' \<and> (\<forall>q. in_bitmap q \<longrightarrow> \<not> usable [r] q)
    \<and> (\<forall>q. page_free k' q \<longleftrightarrow> page_free k q \<or> chunk_covers (first_page r) (page_count r) q)"
proof -
  obtain b t where r: "setup_region p k = Some (k\<lparr>pm_bitmap := b, k_tty := t\<rparr>)" "console_ok (k\<lparr>pm_bitmap := b, k_tty := t\<rparr>)"
    "\<And>q. page_free (k\<lparr>pm_bitmap := b, k_tty := t\<rparr>) q \<longleftrightarrow> page_free k q \<or> freed_by [r] q"
    using setup_region_run [OF assms(1,2)] assms(5) by blast
  have "\<not> usable [r] q" if "in_bitmap q" for q
    using that assms(4) by (auto simp: usable_def in_bitmap_def word_less_nat_alt)
  then show ?thesis using r assms(3) by (auto simp: freed_by_def)
qed

section \<open>A concrete kernel\<close>

text \<open>The machine \<open>vm1\<close> with 4 MiB of memory, no page free, a memory map at \<open>0x3FF000\<close> with two regions, the first
  2 MiB and 64 KiB above 4 GiB, and the boot loader's information at \<open>0x3FF100\<close>: 640 KiB and 3072 KiB of memory, and
  a map of the first region alone.\<close>

definition map_mem :: mem where
  "map_mem = (phys vm1)(0x500E := 0x20, 0x5014 := 1, 0x5020 := 1, 0x5026 := 1, 0x502C := 1,
     0x5104 := 0x80, 0x5105 := 2, 0x5109 := 0x0C, 0x512C := 24, 0x5131 := 0xF0, 0x5132 := 0x3F)"

definition map_vm :: vm where
  "map_vm = vm1\<lparr>pm_bitmap := (\<lambda>_. 0xFF), max_pg := 1024, phys := map_mem\<rparr>"

definition map_kernel :: kernel where
  "map_kernel = kernel_on map_vm heap_vh"

definition low_region :: region where
  "low_region = \<lparr>r_base = 0, r_length = 0x200000, r_type = 1\<rparr>"

definition high_region :: region where
  "high_region = \<lparr>r_base = 0x100000000, r_length = 0x10000, r_type = 1\<rparr>"

definition tiny_kernel :: linker where
  "tiny_kernel = \<lparr>kernel_start = 0xC0000000, kernel_end = 0xC0010000, init_hhk_end = 0x101000\<rparr>"

lemma map_vm_pages: "off_page 0x5000 vm1 (vm1\<lparr>phys := map_mem\<rparr>)"
proof -
  have "map_mem a = phys vm1 a" if "PG_ALIGN a \<noteq> 0x5000" for a
  proof -
    have "PG_ALIGN 0x500E = 0x5000" "PG_ALIGN 0x5014 = 0x5000" "PG_ALIGN 0x5020 = 0x5000" "PG_ALIGN 0x5026 = 0x5000"
      "PG_ALIGN 0x502C = 0x5000" "PG_ALIGN 0x5104 = 0x5000" "PG_ALIGN 0x5105 = 0x5000" "PG_ALIGN 0x5109 = 0x5000"
      "PG_ALIGN 0x512C = 0x5000" "PG_ALIGN 0x5131 = 0x5000" "PG_ALIGN 0x5132 = 0x5000" by (simp_all add: PG_ALIGN_def)
    then show ?thesis using that by (auto simp: map_mem_def)
  qed
  then show ?thesis unfolding off_page_def by (intro exI [of _ map_mem]) simp
qed

lemma map_vm_entries:
  "vm_ok (vm1\<lparr>phys := map_mem\<rparr>)" "k < 1024 \<Longrightarrow> l1e map_vm k = l1e vm1 k" "k < 1024 \<Longrightarrow> tbl map_vm k = tbl vm1 k"
  "b < 1024 \<Longrightarrow> l2e map_vm 0 b = l2e vm1 0 b"
proof -
  have ne: "0x5000 \<noteq> cr3 vm1" by (simp add: vm1_tbl)
  have eq: "l1e map_vm = l1e (vm1\<lparr>phys := map_mem\<rparr>)" "tbl map_vm = tbl (vm1\<lparr>phys := map_mem\<rparr>)"
    "l2e map_vm = l2e (vm1\<lparr>phys := map_mem\<rparr>)"
    by (simp_all add: map_vm_def l1e_def l2e_def tbl_def fun_eq_iff)
  note off = off_page_entries [OF map_vm_pages vm_okD(2) [OF vm1_ok] ne]
  show "vm_ok (vm1\<lparr>phys := map_mem\<rparr>)" by (rule vm_ok_off_page [OF map_vm_pages vm1_ok ne])
  show "k < 1024 \<Longrightarrow> l1e map_vm k = l1e vm1 k" "k < 1024 \<Longrightarrow> tbl map_vm k = tbl vm1 k"
    using off(1,2) by (simp_all add: eq)
  show "b < 1024 \<Longrightarrow> l2e map_vm 0 b = l2e vm1 0 b" using off(3) [of 0 b] by (simp add: eq vm1_tbl)
qed

lemma map_translate:
  assumes "unat d < 4096"
  shows "mmu_translate map_kernel (0x3FF000 + d) = Some (0x5000 + d)"
proof -
  have "unat (0x3FF000 + d) = 0x3FF000 + unat d" using assms by (subst unat_add_u32) simp_all
  moreover have "(0x3FF000 + unat d) mod 4096 = unat d" using mod_mult_self2 [of "unat d" 4096 1023] assms by (simp add: add.commute)
  ultimately have i: "L1_INDEX (0x3FF000 + d) = 0" "L2_INDEX (0x3FF000 + d) = 1023" "PG_OFFSET (0x3FF000 + d) = d"
    using assms by (simp_all add: word_unat_eq_iff unat_word)
  have "page_aligned (cr3 map_vm)" by (simp add: map_vm_def vm1_tbl vm1_consts)
  from mmu_translate_l2e [OF this] show ?thesis
    by (simp add: map_kernel_def kernel_on_translate i map_vm_entries vm1_l1e vm1_l2e vm1_consts)
qed

lemma map_load:
  assumes "aligned4 d" "unat d < 4096"
  shows "vload32 map_kernel (0x3FF000 + d) = Some (load32 map_mem (0x5000 + d))"
proof -
  have "aligned4 (0x3FF000 + d)"
    using assms unat_add_u32 [of "0x3FF000" d] by (simp add: aligned4_unat)
  then show ?thesis using map_translate [OF assms(2)]
    by (simp add: vload32_aligned) (simp add: map_kernel_def map_vm_def)
qed

lemma map_regions: "regions_at map_kernel 0x3FF000 [low_region]" "region_at map_kernel 0x3FF018 high_region"
proof -
  have l: "vload32 map_kernel (0x3FF000 + d) = Some (load32 map_mem (0x5000 + d))"
    if "d \<in> {4, 8, 12, 16, 20, 28, 32, 36, 40, 44}" for d
    using that by (intro map_load) (auto simp: aligned4_def)
  have m: "load32 map_mem 0x5004 = 0" "load32 map_mem 0x5008 = 0" "load32 map_mem 0x500C = 0x200000" "load32 map_mem 0x5010 = 0"
    "load32 map_mem 0x5014 = 1" "load32 map_mem 0x501C = 0" "load32 map_mem 0x5020 = 1" "load32 map_mem 0x5024 = 0x10000"
    "load32 map_mem 0x5028 = 0" "load32 map_mem 0x502C = 1"
    by (simp_all add: map_mem_def vm1_def load32_def store32_def)
  show "regions_at map_kernel 0x3FF000 [low_region]"
    using l [of 4] l [of 8] l [of 12] l [of 16] l [of 20]
    by (simp add: region_at_def mmap_addr_low_def mmap_len_low_def mmap_type_def low_region_def m)
  show "region_at map_kernel 0x3FF018 high_region"
    using l [of 28] l [of 32] l [of 36] l [of 40] l [of 44]
    by (simp add: region_at_def mmap_addr_low_def mmap_len_low_def mmap_type_def high_region_def m)
qed

lemma setup_region_ignores_upper_half_witness:
  "\<exists>k'. setup_region 0x3FF018 map_kernel = Some k' \<and> page_free k' 3 \<and> \<not> usable [high_region] 3"
proof -
  have f: "first_page high_region = 0" "page_count high_region = 16" "r_type high_region = MULTIBOOT_MEMORY_AVAILABLE"
    "4294967296 \<le> unat (r_base high_region)" "in_bitmap 3"
    by (simp_all add: first_page_def page_count_def high_region_def MULTIBOOT_MEMORY_AVAILABLE_def in_bitmap_def)
  have c: "chunk_in_bitmap (first_page high_region) (page_count high_region)" "chunk_covers (first_page high_region) (page_count high_region) 3"
    by (simp_all add: f chunk_in_bitmap_def chunk_covers_def)
  have "console_ok map_kernel" by (simp add: map_kernel_def kernel_on_console)
  from setup_region_ignores_upper_half [OF map_regions(2) this f(3,4) c(1)] c(2) f(5) show ?thesis by blast
qed

lemma map_kernel_before: "before_setup tiny_kernel 0x3FF000 [low_region] map_kernel"
proof -
  have con: "console_ok map_kernel" by (simp add: map_kernel_def kernel_on_console)
  have occ: "\<not> page_free map_kernel q" for q
    using bit_0xFF [OF page_bit_8 [of q]] by (simp add: page_free_def map_kernel_def kernel_on_def map_vm_def vm.defs)
  have l: "l1e map_kernel k = l1e vm1 k" "tbl map_kernel k = tbl vm1 k" if "k < 1024" for k
    using that map_vm_entries by (simp_all add: map_kernel_def l1e_def tbl_def)
  have pk: "kernel_pages tiny_kernel = 16" by (simp add: kernel_pages_def tiny_kernel_def V2P_def HIGHER_HLF_BASE_def)
  have tab: "table_frame map_kernel f = table_frame vm1 f" for f
  proof -
    have "k < 1024 \<and> l1e map_kernel k \<noteq> 0 \<and> tbl map_kernel k = f \<longleftrightarrow> k < 1024 \<and> l1e vm1 k \<noteq> 0 \<and> tbl vm1 k = f" for k
      using l [of k] by (cases "k < 1024") simp_all
    then show ?thesis by (simp only: table_frame_def)
  qed
  have ptr: "pg_lookup_ptr map_kernel = 1" "max_pg map_kernel = 1024"
    by (simp_all add: map_kernel_def kernel_on_def map_vm_def vm1_def vm.defs)
  have "vm_ok map_kernel" unfolding vm_ok_def
  proof (intro conjI allI impI)
    note ok = vm_okD [OF vm1_ok]
    have c: "cr3 map_kernel = cr3 vm1" by (simp add: map_kernel_def map_vm_def)
    show "pmm_ok map_kernel" using ptr by (simp add: pmm_ok_def)
    show "page_aligned (cr3 map_kernel)" using ok(2) c by simp
    show "l1e map_kernel 1023 \<noteq> 0" "tbl map_kernel 1023 = cr3 map_kernel" using ok(3,4) l [of 1023] c by simp_all
    show "IS_CACHED (l1e map_kernel i)" if "i < 1024" "l1e map_kernel i \<noteq> 0" for i using ok(5) l(1) that by simp
    show "\<not> page_free map_kernel (drop_bit 12 (tbl map_kernel i))" for i by (rule occ)
    show "i = j" if "i < 1024" "j < 1024" "l1e map_kernel i \<noteq> 0" "l1e map_kernel j \<noteq> 0" "tbl map_kernel i = tbl map_kernel j" for i j
      using ok(7) l that by simp
  qed
  moreover have "freed_by [low_region] 17"
    by (simp add: freed_by_def low_region_def MULTIBOOT_MEMORY_AVAILABLE_def first_page_def page_count_def chunk_covers_def)
  moreover have "\<exists>p. freed_by [low_region] p \<and> kernel_pages tiny_kernel \<le> p \<and> p \<noteq> 0xB8 \<and> p mod 8 \<noteq> 0 \<and> p < max_pg map_kernel"
  proof (intro exI [of _ 17] conjI)
    show "(17 :: u32) mod 8 \<noteq> 0" by (simp only: word_unat_eq_iff unat_mod8) simp
  qed (use \<open>freed_by [low_region] 17\<close> in \<open>simp_all add: pk ptr\<close>)
  moreover have "drop_bit 12 f < kernel_pages tiny_kernel" if "table_frame map_kernel f" for f
    using that by (auto simp: tab vm1_table_frame pk)
  ultimately show ?thesis
    using con occ map_regions(1) ptr l(1) [of 704] unfolding before_setup_def
    by (simp add: LOOKUP_START_def vm1_l1e)
qed

lemma setup_memory_frees_usable_witness:
  "\<exists>k'. setup_memory tiny_kernel 0x3FF000 1 map_kernel = Some k' \<and> vm_ok k'
     \<and> mmu_translate k' VGA_BUFFER_VADDR = Some VGA_BUFFER_PADDR \<and> \<not> page_free k' 15 \<and> \<not> page_free k' 512
     \<and> (page_free k' 20 \<or> table_frame k' 0x14000)"
proof -
  have reg: "regular_regions [low_region]" by (simp add: regular_regions_def low_region_def)
  have al: "page_aligned (kernel_end tiny_kernel)" by (simp add: tiny_kernel_def page_aligned_def PG_OFFSET_def)
  have p: "in_kernel tiny_kernel q \<longleftrightarrow> unat q < 16" for q by (auto simp: in_kernel_def tiny_kernel_def V2P_def HIGHER_HLF_BASE_def)
  have f: "low_region \<in> set [low_region]" "r_type low_region = MULTIBOOT_MEMORY_AVAILABLE" "whole_run low_region" "page_within low_region 20"
    by (simp_all add: low_region_def MULTIBOOT_MEMORY_AVAILABLE_def whole_run_def page_within_def)
  have u: "\<not> usable [low_region] 512" by (simp add: usable_def low_region_def)
  from setup_memory_frees_usable [OF map_kernel_before reg al] obtain k' where k':
    "setup_memory tiny_kernel 0x3FF000 1 map_kernel = Some k'" "vm_ok k'"
    "mmu_translate k' VGA_BUFFER_VADDR = Some VGA_BUFFER_PADDR"
    "\<And>q. in_bitmap q \<Longrightarrow> page_free k' q \<Longrightarrow> usable [low_region] q \<and> \<not> in_kernel tiny_kernel q \<and> q \<noteq> 0xB8"
    "\<And>r q. r \<in> set [low_region] \<Longrightarrow> r_type r = MULTIBOOT_MEMORY_AVAILABLE \<Longrightarrow> whole_run r \<Longrightarrow> page_within r q
      \<Longrightarrow> \<not> in_kernel tiny_kernel q \<Longrightarrow> q \<noteq> 0xB8 \<Longrightarrow> page_free k' q \<or> table_frame k' (push_bit 12 q)"
    by auto
  moreover have "in_bitmap 15" "in_bitmap 512" by (simp_all add: in_bitmap_def)
  ultimately show ?thesis using k'(4) [of 15] k'(4) [of 512] k'(5) [OF f] u p by auto
qed

end
