(* ===== verification/Frame.thy ===== *)
theory Frame
  imports Heap
begin

text \<open>
  Memory management on a larger state. The operations of \<^verbatim>\<open>pmm.c\<close>, \<^verbatim>\<open>vmm.c\<close>, \<^verbatim>\<open>dmm.c\<close> and \<^verbatim>\<open>kalloc.c\<close> change the
  machine only: whatever a state holds besides, such as the console and the devices of the kernel, they
  leave as it is.
\<close>

abbreviation same_rest :: "'a vm_scheme \<Rightarrow> 'a vm_scheme \<Rightarrow> bool" where
  "same_rest s s' \<equiv> vm.more s' = vm.more s"

named_theorems rest_steps "operations that leave the rest of the state alone"

lemma rest_alloc [rest_steps]:
  assumes "pmm_alloc_page s = Some (a, s')"
  shows "same_rest s s'"
proof -
  have mark: "same_rest u u'" if "pmm_mark_page_occupied p u = Some u'" for p and u u' :: "'a vm_scheme"
    using that by (auto simp: pmm_mark_page_occupied_def bmp_set_def split: Option.bind_splits if_splits)
  have scan: "scan_chunk c i u = Some (a, u') \<Longrightarrow> same_rest u u'" for c i a and u u' :: "'a vm_scheme"
  proof (induction c i u rule: scan_chunk.induct)
    case (1 c i u)
    then show ?case
      by (auto simp: scan_chunk.simps [of c i u] split: if_splits Option.bind_splits dest: mark)
  qed
  have "same_rest u (snd y)" if "alloc_loop g old up u = Some y" for g old up y and u :: "'a vm_scheme"
  proof (rule alloc_loop.raw_induct [where P = "\<lambda>g old up u y. same_rest u (snd y)", OF _ that], goal_cases)
    case (1 loop g old up u y)
    then show ?case by (auto split: if_splits Option.bind_splits dest!: scan 1(1) simp: Let_def)
  qed
  then show ?thesis using assms by (force simp: pmm_alloc_page_def)
qed

lemma rest_free [rest_steps]: "pmm_free_page a s = Some (r, s') \<Longrightarrow> same_rest s s'"
  by (cases rule: pmm_free_page_cases [of a s]) auto

lemma rest_store [rest_steps]:
  "vstore8 a x s = Some s' \<Longrightarrow> same_rest s s'" "vstore32 a v s = Some s' \<Longrightarrow> same_rest s s'" "pt_set t i v s = Some s' \<Longrightarrow> same_rest s s'"
  by (auto simp: vstore8_def vstore32_def pt_set_def split: Option.bind_splits)

lemma rest_memset [rest_steps]: "vmemset n a x s = Some s' \<Longrightarrow> same_rest s s'"
  by (induction n arbitrary: a s) (auto split: Option.bind_splits dest: rest_store(1))

lemma rest_map_entry [rest_steps]: "vmm_map_entry t j pa attr forced s = Some (r, s') \<Longrightarrow> same_rest s s'"
  by (auto simp: vmm_map_entry_def split: Option.bind_splits if_splits dest!: rest_steps)

lemma rest_map_internal [rest_steps]: "vmm_map_internal i j pa attr forced s = Some (r, s') \<Longrightarrow> same_rest s s'"
  by (auto simp: vmm_map_internal_def Let_def split: Option.bind_splits if_splits dest!: rest_steps)

lemma rest_map_loop:
  assumes "vmm_map_loop va pa attr i j e t s = Some y"
  shows "case y of Inl (v, s') \<Rightarrow> same_rest s s' | Inr ij \<Rightarrow> True"
proof (rule vmm_map_loop.raw_induct [where P = "\<lambda>va pa attr i j e t s y. case y of Inl (v, s') \<Rightarrow> same_rest s s' | Inr ij \<Rightarrow> True",
    OF _ assms], goal_cases)
  case (1 loop va pa attr i j e t s y)
  then show ?case by (auto split: if_splits Option.bind_split_asm dest: rest_store(3))
qed

lemma rest_map_page [rest_steps]: "vmm_map_page va pa attr s = Some (r, s') \<Longrightarrow> same_rest s s'"
  by (auto simp: vmm_map_page_def vmm_map_rest_def split: Option.bind_splits if_splits sum.splits dest!: rest_map_loop rest_map_internal)

lemma rest_alloc_page [rest_steps]: "vmm_alloc_page va attr s = Some (r, s') \<Longrightarrow> same_rest s s'"
  by (auto simp: vmm_alloc_page_def split: Option.bind_splits if_splits dest!: rest_steps)

lemma rest_unmap_page [rest_steps]: "vmm_unmap_page va s = Some s' \<Longrightarrow> same_rest s s'"
  by (auto simp: vmm_unmap_page_def Let_def cpu_invplg_def split: Option.bind_splits if_splits dest!: rest_steps)

lemma rest_unmap_run [rest_steps]: "vmm_unmap_run n va s = Some s' \<Longrightarrow> same_rest s s'"
  by (induction n arbitrary: va s) (auto split: Option.bind_splits dest: rest_unmap_page)

lemma rest_alloc_run [rest_steps]: "vmm_alloc_run n i va cur attr s = Some (r, s') \<Longrightarrow> same_rest s s'"
proof (induction n arbitrary: i cur s)
  case (Suc n)
  from Suc.prems show ?case
    by (auto split: Option.bind_splits if_splits dest!: Suc.IH rest_steps)
qed simp

lemma rest_alloc_pages [rest_steps]: "vmm_alloc_pages va sz attr s = Some (r, s') \<Longrightarrow> same_rest s s'"
  by (auto simp: vmm_alloc_pages_def dest: rest_alloc_run)

lemma rest_lxbrk [rest_steps]: "lxbrk heap sz s = Some (r, heap', s') \<Longrightarrow> same_rest s s'"
  by (auto simp: lxbrk_def Let_def split: Option.bind_splits if_splits dest: rest_alloc_pages)

lemma rest_coalesce [rest_steps]: "coalesce p s = Some (r, s') \<Longrightarrow> same_rest s s'"
  by (auto simp: coalesce_def Let_def split: Option.bind_splits if_splits dest!: rest_store(2))

lemma rest_grow_heap [rest_steps]: "lx_grow_heap heap sz s = Some (r, heap', s') \<Longrightarrow> same_rest s s'"
  by (auto simp: lx_grow_heap_def Let_def split: Option.bind_splits if_splits dest!: rest_lxbrk rest_coalesce rest_store(2))

lemma rest_kalloc_init [rest_steps]: "kalloc_init start s = Some (r, heap, s') \<Longrightarrow> same_rest s s'"
  by (auto simp: kalloc_init_def dmm_init_def Let_def split: Option.bind_splits if_splits
    dest!: rest_grow_heap rest_alloc_page rest_store(2))

text \<open>What a machine shows of its memory depends on five of its fields.\<close>

lemma heap_st_fields:
  assumes "phys s = phys t" "cr3 s = cr3 t" "pm_bitmap s = pm_bitmap t" "max_pg s = max_pg t" "pg_lookup_ptr s = pg_lookup_ptr t"
    "heap_st v n m t"
  shows "heap_st v n m s"
proof -
  have e: "l1e s = l1e t" "tbl s = tbl t" "l2e s = l2e t" "page_free s = page_free t"
    by (intro ext; simp add: assms(1-3) l1e_def tbl_def l2e_def page_free_def)+
  have tf: "table_frame s = table_frame t" "pagemap s = pagemap t" using e by (simp_all add: fun_eq_iff table_frame_def pagemap_def)
  have hf: "heap_frame s = heap_frame t" by (simp add: fun_eq_iff heap_frame_def tf)
  have "heap_pages s v n = heap_pages t v n" by (simp add: heap_pages_def tf hf e)
  moreover have "vm_ok s = vm_ok t" using assms(2,4,5) e by (simp add: vm_ok_def pmm_ok_def)
  ultimately show ?thesis using assms(1,6) by (simp add: heap_st_def hf)
qed

end
