(* ===== verification/Boot.thy ===== *)
theory Boot
  imports KInit Frame Gdt
begin

text \<open>
  From the boot code to the running heap: the composition of \<^verbatim>\<open>_hhk_init\<close>, \<^verbatim>\<open>_kernel_pre_init\<close> and
  \<^verbatim>\<open>_kernel_init\<close> on a machine whose memory map has enough room.
\<close>

unbundle bit_operations_syntax

section \<open>The stack and the heap\<close>

definition stack_slot :: "nat \<Rightarrow> u32 \<times> u32" where
  "stack_slot j = slot (0xFFBF0 + j)"

lemma stack_page:
  assumes "j < 16"
  shows "va_idx (K_STACK_START + push_bit 12 (of_nat j)) = stack_slot j" "page_aligned (K_STACK_START + push_bit 12 (of_nat j))"
    "K_STACK_START + push_bit 12 (of_nat j) \<noteq> 0" "L1_INDEX (K_STACK_START + push_bit 12 (of_nat j)) < 1023"
proof -
  let ?a = "K_STACK_START + push_bit 12 (of_nat j)"
  have "unat (push_bit 12 (of_nat j) :: u32) = 4096 * j"
    using assms by (subst unat_push_bit_u32) (simp_all add: unat_of_nat_u32)
  then have a: "unat ?a = 0xFFBF0000 + 4096 * j"
    using assms by (subst unat_add_u32) (simp_all add: K_STACK_START_def K_STACK_SIZE_def)
  then have v: "vpn ?a = 0xFFBF0 + j" by (simp add: vpn_def)
  then show "va_idx ?a = stack_slot j" using slot_vpn [of ?a] by (simp add: stack_slot_def va_idx_def)
  show "page_aligned ?a" using a by (simp add: page_aligned_def unat_PG_OFFSET word_unat_eq_iff)
  show "?a \<noteq> 0" using a by (metis add_is_0 unat_0 zero_neq_numeral)
  show "L1_INDEX ?a < 1023" using a assms by (simp add: word_less_nat_alt unat_word)
qed

lemma stack_slot_inj: "j < 16 \<Longrightarrow> l < 16 \<Longrightarrow> stack_slot j = stack_slot l \<longleftrightarrow> j = l"
  unfolding stack_slot_def by (subst slot_inj) simp_all

lemma alloc_stack_ready:
  assumes "vm_ok k" "spare k (2 * n + m)" "i + n \<le> 16" "\<And>j. i \<le> j \<Longrightarrow> j < i + n \<Longrightarrow> pagemap k (stack_slot j) = None"
  obtains k' where "alloc_stack n (of_nat i) k = Some k'" "vm_ok k'" "same_rest k k'" "spare k' m"
    "\<And>j. i \<le> j \<Longrightarrow> j < i + n \<Longrightarrow> \<exists>p. pagemap k' (stack_slot j) = Some (NEW_L2_ENTRY PG_PREM_RW (push_bit 12 p))"
    "\<And>ij. (\<And>j. i \<le> j \<Longrightarrow> j < i + n \<Longrightarrow> ij \<noteq> stack_slot j) \<Longrightarrow> pagemap k' ij = pagemap k ij"
  using assms
proof (induction n arbitrary: i k thesis)
  case 0
  have "spare k m" using 0(3) by simp
  then show ?case using 0(2) by (intro 0(1) [of k]) simp_all
next
  case (Suc n)
  have i: "i < 16" using Suc.prems(4) by simp
  note pg = stack_page [OF i]
  have none: "pagemap k (va_idx (K_STACK_START + push_bit 12 (of_nat i))) = None" using Suc.prems(5) [of i] pg(1) by simp
  have spare: "spare k (Suc (Suc (2 * n + m)))" using Suc.prems(3) by simp
  obtain k1 p where 1: "vmm_alloc_page (K_STACK_START + push_bit 12 (of_nat i)) PG_PREM_RW k
      = Some (K_STACK_START + push_bit 12 (of_nat i), k1)" "vm_ok k1"
    "pagemap k1 = (pagemap k)(stack_slot i \<mapsto> NEW_L2_ENTRY PG_PREM_RW (push_bit 12 p))" "spare k1 (2 * n + m)"
    by (rule alloc_page_ready [OF Suc.prems(2) pg(2,3,4) none PG_PREM_RW_present spare, unfolded pg(1)])
  have free: "pagemap k1 (stack_slot j) = None" if "Suc i \<le> j" "j < Suc i + n" for j
    using Suc.prems(4) Suc.prems(5) [of j] 1(3) that stack_slot_inj [of j i] by simp
  obtain k2 where 2: "alloc_stack n (of_nat (Suc i)) k1 = Some k2" "vm_ok k2" "same_rest k1 k2" "spare k2 m"
    "\<And>j. Suc i \<le> j \<Longrightarrow> j < Suc i + n \<Longrightarrow> \<exists>p. pagemap k2 (stack_slot j) = Some (NEW_L2_ENTRY PG_PREM_RW (push_bit 12 p))"
    "\<And>ij. (\<And>j. Suc i \<le> j \<Longrightarrow> j < Suc i + n \<Longrightarrow> ij \<noteq> stack_slot j) \<Longrightarrow> pagemap k2 ij = pagemap k1 ij"
    by (rule Suc.IH [OF _ 1(2,4) _ free]) (use Suc.prems(4) in auto)
  show ?case
  proof (rule Suc.prems(1))
    show "alloc_stack (Suc n) (of_nat i) k = Some k2" using 1(1) 2(1) by (simp add: PG_SIZE_BITS_def add.commute)
    show "same_rest k k2" using rest_alloc_page [OF 1(1)] 2(3) by simp
    show "\<exists>p. pagemap k2 (stack_slot j) = Some (NEW_L2_ENTRY PG_PREM_RW (push_bit 12 p))" if "i \<le> j" "j < i + Suc n" for j
    proof (cases "j = i")
      case True
      have "pagemap k2 (stack_slot i) = pagemap k1 (stack_slot i)"
        using Suc.prems(4) stack_slot_inj [OF i] by (intro 2(6)) auto
      then show ?thesis using 1(3) True by auto
    qed (use 2(5) [of j] that in auto)
    show "pagemap k2 ij = pagemap k ij" if "\<And>j. i \<le> j \<Longrightarrow> j < i + Suc n \<Longrightarrow> ij \<noteq> stack_slot j" for ij
      using 2(6) [of ij] 1(3) that that [of i] by auto
  qed (fact 2(2) 2(4))+
qed

text \<open>The page map behind the state's other fields.\<close>

lemma console_rest: "same_rest k k' \<Longrightarrow> k_tty k' = k_tty k"
  by (cases k; cases k') (simp add: vm.defs)

lemma pagemap_fields: "phys s = phys t \<Longrightarrow> cr3 s = cr3 t \<Longrightarrow> pagemap s = pagemap t"
  by (rule ext) (simp add: pagemap_def l1e_def l2e_def tbl_def split: prod.splits)

definition heap_room :: "u32 \<Rightarrow> kernel \<Rightarrow> bool" where
  "heap_room start k \<longleftrightarrow> page_aligned start \<and> start \<noteq> 0 \<and> unat start + 8192 \<le> unat K_STACK_START
     \<and> pagemap k (va_idx start) = None \<and> pagemap k (va_idx (start + 4096)) = None"

lemma heap_room_stack:
  assumes "heap_room start k" "j < 16" "x \<le> 4096"
  shows "va_idx (start + x) \<noteq> stack_slot j"
proof
  assume eq: "va_idx (start + x) = stack_slot j"
  have K: "unat start + 8192 \<le> 0xFFBF0000" using assms(1) by (simp add: heap_room_def K_STACK_START_def K_STACK_SIZE_def)
  have u: "unat (start + x) = unat start + unat x" using K assms(3) by (subst unat_add_u32) (simp_all add: word_le_nat_alt)
  have "slot (vpn (start + x)) = slot (0xFFBF0 + j)"
    using eq by (simp add: slot_vpn va_idx_def stack_slot_def)
  then have "vpn (start + x) = 0xFFBF0 + j"
    using u K assms(2,3) by (subst (asm) slot_inj) (simp_all add: vpn_def word_le_nat_alt)
  then show False using u K assms(3) by (simp add: vpn_def word_le_nat_alt)
qed

lemma stack_slot_vga: "j < 16 \<Longrightarrow> stack_slot j \<noteq> (704, 0)"
proof
  assume "j < 16" "stack_slot j = (704, 0)"
  then have "(of_nat ((0xFFBF0 + j) div 1024) :: u32) = 704" by (simp add: stack_slot_def slot_def)
  then have "(0xFFBF0 + j) div 1024 = 704" using \<open>j < 16\<close> by (simp add: word_unat_eq_iff unat_of_nat_u32)
  then show False using \<open>j < 16\<close> by simp
qed

lemma kernel_fields:
  "vm_ok (k\<lparr>k_heap := h\<rparr>) = vm_ok k" "console_ok (k\<lparr>k_heap := h\<rparr>) = console_ok k"
  "pagemap (k\<lparr>k_heap := h\<rparr>) = pagemap k" "pagemap (k\<lparr>k_tty := t\<rparr>) = pagemap k" "spare (k\<lparr>k_tty := t\<rparr>) n = spare k n"
  for k :: kernel
proof -
  have e: "l1e (k\<lparr>k_heap := h\<rparr>) = l1e k" "tbl (k\<lparr>k_heap := h\<rparr>) = tbl k" by (simp_all add: l1e_def tbl_def fun_eq_iff)
  show "vm_ok (k\<lparr>k_heap := h\<rparr>) = vm_ok k" by (simp add: vm_ok_def e pmm_ok_def page_free_def)
  show "console_ok (k\<lparr>k_heap := h\<rparr>) = console_ok k" by (simp add: console_ok_def)
  show "pagemap (k\<lparr>k_heap := h\<rparr>) = pagemap k" "pagemap (k\<lparr>k_tty := t\<rparr>) = pagemap k"
    by (rule pagemap_fields; simp)+
  show "spare (k\<lparr>k_tty := t\<rparr>) n = spare k n" by (simp add: spare_def page_free_def)
qed

lemma setup_kernel_runtime_ready:
  assumes "vm_ok k" "console_ok k" "spare k 36" "heap_room start k" "\<And>j. j < 16 \<Longrightarrow> pagemap k (stack_slot j) = None"
  obtains k' n m where "setup_kernel_runtime start k = Some k'" "console_ok k'"
    "tty_vga_buffer (k_tty k') = tty_vga_buffer (k_tty k)" "hp_start (k_heap k') = start"
    "heap_inv (k_heap k') (vpn start) n m [(4, True), (4096, False)] k'"
    "\<And>j. j < 16 \<Longrightarrow> \<exists>p. pagemap k' (stack_slot j) = Some (NEW_L2_ENTRY PG_PREM_RW (push_bit 12 p))"
    "\<And>ij. ij \<notin> {va_idx start, va_idx (start + 4096)} \<union> stack_slot ` {..< 16} \<Longrightarrow> pagemap k' ij = pagemap k ij"
proof -
  have spare: "spare k (2 * 16 + 4)" using assms(3) by simp
  obtain k1 where 1: "alloc_stack 16 (of_nat 0) k = Some k1" "vm_ok k1" "same_rest k k1" "spare k1 4"
    "\<And>j. 0 \<le> j \<Longrightarrow> j < 0 + 16 \<Longrightarrow> \<exists>p. pagemap k1 (stack_slot j) = Some (NEW_L2_ENTRY PG_PREM_RW (push_bit 12 p))"
    "\<And>ij. (\<And>j. 0 \<le> j \<Longrightarrow> j < 0 + 16 \<Longrightarrow> ij \<noteq> stack_slot j) \<Longrightarrow> pagemap k1 ij = pagemap k ij"
    by (rule alloc_stack_ready [OF assms(1) spare]) (use assms(5) in auto)
  have con: "console_ok k1" using assms(2) console_rest [OF 1(3)] by (simp add: console_ok_def)
  have "\<exists>t. kprintf ''INIT'' (KINFO @ bytes ''[MM] Allocated %d pages for stack start at %p'' @ nl) [Int_arg 16, Int_arg K_STACK_START] k1
      = Some (k1\<lparr>k_tty := t\<rparr>) \<and> console_ok (k1\<lparr>k_tty := t\<rparr>)"
    by (rule init_message [OF _ _ _ _ con]) (simp_all add: bytes_def nl_def)
  then obtain t where t: "kprintf ''INIT'' (KINFO @ bytes ''[MM] Allocated %d pages for stack start at %p'' @ nl)
      [Int_arg 16, Int_arg K_STACK_START] k1 = Some (k1\<lparr>k_tty := t\<rparr>)" "console_ok (k1\<lparr>k_tty := t\<rparr>)" by blast
  let ?k = "k1\<lparr>k_tty := t\<rparr>"
  have H: "page_aligned start" "start \<noteq> 0" "unat start + 8192 \<le> unat K_STACK_START" using assms(4) by (simp_all add: heap_room_def)
  have free: "pagemap ?k (va_idx (start + x)) = None" if "x = 0 \<or> x = 4096" for x
    using 1(6) [of "va_idx (start + x)"] heap_room_stack [OF assms(4), of _ x] that assms(4)
    by (auto simp: kernel_fields heap_room_def)
  obtain heap k2 n m where 2: "kalloc_init start ?k = Some (True, heap, k2)" "hp_start heap = start"
    "heap_inv heap (vpn start) n m [(4, True), (4096, False)] k2"
    "\<And>ij. ij \<noteq> va_idx start \<Longrightarrow> ij \<noteq> va_idx (start + 4096) \<Longrightarrow> pagemap k2 ij = pagemap ?k ij"
    by (rule kalloc_init_ready [of ?k, OF _ H]) (use 1(2,4) free [of 0] free [of 4096] in \<open>simp_all add: vm_ok_console kernel_fields\<close>)
  have tty: "k_tty k2 = t" using console_rest [OF rest_kalloc_init [OF 2(1)]] by simp
  show ?thesis
  proof (rule that)
    have "unat (drop_bit 12 K_STACK_SIZE) = 16" "drop_bit 12 K_STACK_SIZE = (16 :: u32)" by (simp_all add: K_STACK_SIZE_def)
    then show "setup_kernel_runtime start k = Some (k2\<lparr>k_heap := heap\<rparr>)"
      using 1(1) t(1) 2(1) by (simp add: setup_kernel_runtime_def PG_SIZE_BITS_def)
    have same: "console_ok (k2\<lparr>k_heap := heap\<rparr>) = console_ok ?k" by (simp add: console_ok_def tty)
    then show "console_ok (k2\<lparr>k_heap := heap\<rparr>)" using t(2) by simp
    show "tty_vga_buffer (k_tty (k2\<lparr>k_heap := heap\<rparr>)) = tty_vga_buffer (k_tty k)"
      using kprintf_buffer [OF t(1) con] tty console_rest [OF 1(3)] by simp
    show "hp_start (k_heap (k2\<lparr>k_heap := heap\<rparr>)) = start" using 2(2) by simp
    have "heap_st v n m (k2\<lparr>k_heap := heap\<rparr>)" if "heap_st v n m k2" for v n m
      using heap_st_fields [of "k2\<lparr>k_heap := heap\<rparr>" k2] that by simp
    then show "heap_inv (k_heap (k2\<lparr>k_heap := heap\<rparr>)) (vpn start) n m [(4, True), (4096, False)] (k2\<lparr>k_heap := heap\<rparr>)"
      using 2(3) by (simp add: heap_inv_def)
    have kept: "pagemap (k2\<lparr>k_heap := heap\<rparr>) ij = pagemap k1 ij" if "ij \<noteq> va_idx start" "ij \<noteq> va_idx (start + 4096)" for ij
      using 2(4) [OF that] by (simp add: kernel_fields)
    show "\<exists>p. pagemap (k2\<lparr>k_heap := heap\<rparr>) (stack_slot j) = Some (NEW_L2_ENTRY PG_PREM_RW (push_bit 12 p))" if j: "j < 16" for j
      using kept [of "stack_slot j"] heap_room_stack [OF assms(4) j, of 0] heap_room_stack [OF assms(4) j, of 4096] 1(5) [of j] j
      by fastforce
    show "pagemap (k2\<lparr>k_heap := heap\<rparr>) ij = pagemap k ij"
      if "ij \<notin> {va_idx start, va_idx (start + 4096)} \<union> stack_slot ` {..< 16}" for ij
    proof -
      have "ij \<noteq> stack_slot j" if "j < 16" for j using \<open>ij \<notin> _\<close> that by auto
      then show ?thesis using kept [of ij] 1(6) [of ij] that by simp
    qed
  qed
qed

lemma stack_address:
  assumes "K_STACK_START \<le> a" "a < K_STACK_START + K_STACK_SIZE"
  obtains j where "j < 16" "va_idx a = stack_slot j" "L1_INDEX a < 1023"
proof (rule that)
  let ?j = "vpn a - 0xFFBF0"
  have a: "0xFFBF0000 \<le> unat a" "unat a < 0xFFC00000"
    using assms by (simp_all add: K_STACK_START_def K_STACK_SIZE_def word_le_nat_alt word_less_nat_alt)
  then have v: "0xFFBF0 \<le> vpn a" "vpn a < 0xFFC00" by (simp_all add: vpn_def)
  then show "?j < 16" by simp
  show "va_idx a = stack_slot ?j" using v slot_vpn [of a] by (simp add: stack_slot_def va_idx_def)
  show "L1_INDEX a < 1023" using a by (simp add: word_less_nat_alt unat_word)
qed

section \<open>The second phase\<close>

text \<open>What the boot loader left at \<open>mb\<close>, and the room the kernel needs: 36 pages and page tables beside the
  console's, and unused addresses for the stack and the heap.\<close>

definition loader_info :: "kernel \<Rightarrow> u32 \<Rightarrow> u32 \<Rightarrow> region list \<Rightarrow> bool" where
  "loader_info k mb mmaps rs \<longleftrightarrow> vload32 k (mbi_mem_lower mb) \<noteq> None \<and> vload32 k (mbi_mem_upper mb) \<noteq> None
     \<and> vload32 k (mbi_mmap_length mb) = Some (24 * of_nat (length rs)) \<and> vload32 k (mbi_mmap_addr mb) = Some mmaps
     \<and> 24 * length rs < 4294967296"

definition kernel_room :: "linker \<Rightarrow> u32 \<Rightarrow> region list \<Rightarrow> kernel \<Rightarrow> bool" where
  "kernel_room L start rs k \<longleftrightarrow> roomy L rs (max_pg k) 37 \<and> heap_room start k
     \<and> va_idx start \<noteq> (704, 0) \<and> va_idx (start + 4096) \<noteq> (704, 0) \<and> (\<forall>j < 16. pagemap k (stack_slot j) = None)"

lemma before_setup_console:
  assumes "before_setup L mmaps rs k" "console_ok (k\<lparr>k_tty := t\<rparr>)"
  shows "before_setup L mmaps rs (k\<lparr>k_tty := t\<rparr>)"
proof -
  have "vload32 (k\<lparr>k_tty := t\<rparr>) = vload32 k" using load_marked [where k = k and b = "pm_bitmap k" and t = t] by simp
  then have "regions_at (k\<lparr>k_tty := t\<rparr>) mmaps rs = regions_at k mmaps rs" by (rule regions_at_cong)
  moreover have "page_free (k\<lparr>k_tty := t\<rparr>) = page_free k" by (simp add: fun_eq_iff page_free_def)
  ultimately show ?thesis using assms by (simp add: before_setup_def vm_ok_console)
qed

lemma kernel_init_run:
  assumes "loader_info k mb mmaps rs" "before_setup L mmaps rs k" "regular_regions rs" "kernel_room L start rs k"
  obtains k' n m where "kernel_init L start mb k = Some k'" "console_ok k'" "tty_vga_buffer (k_tty k') = VGA_BUFFER_VADDR"
    "mmu_translate k' VGA_BUFFER_VADDR = Some VGA_BUFFER_PADDR"
    "\<And>a. K_STACK_START \<le> a \<Longrightarrow> a < K_STACK_START + K_STACK_SIZE \<Longrightarrow> mmu_translate k' a \<noteq> None"
    "hp_start (k_heap k') = start" "heap_inv (k_heap k') (vpn start) n m [(4, True), (4096, False)] k'"
proof -
  note R = assms(4) [unfolded kernel_room_def] and I = assms(1) [unfolded loader_info_def]
  obtain lower upper where info: "vload32 k (mbi_mem_lower mb) = Some lower" "vload32 k (mbi_mem_upper mb) = Some upper"
    using I by blast
  have con: "console_ok k" using assms(2) by (simp add: before_setup_def)
  have msg: "bytes ''[MM] Mem: %d KiB, Extended Mem: %d KiB'' @ nl = 91 # bytes ''MM] Mem: %d KiB, Extended Mem: %d KiB'' @ nl"
    by (simp add: bytes_def)
  have "\<exists>t. kprintf ''INIT'' (bytes ''[MM] Mem: %d KiB, Extended Mem: %d KiB'' @ nl) [Int_arg lower, Int_arg upper] k
      = Some (k\<lparr>k_tty := t\<rparr>) \<and> console_ok (k\<lparr>k_tty := t\<rparr>)"
    unfolding msg by (rule init_message_plain [OF _ _ _ _ con]) (simp_all add: bytes_def nl_def)
  then obtain t where t: "kprintf ''INIT'' (bytes ''[MM] Mem: %d KiB, Extended Mem: %d KiB'' @ nl) [Int_arg lower, Int_arg upper] k
      = Some (k\<lparr>k_tty := t\<rparr>)" "console_ok (k\<lparr>k_tty := t\<rparr>)" by blast
  let ?k = "k\<lparr>k_tty := t\<rparr>"
  have ld: "vload32 ?k = vload32 k" using load_marked [where k = k and b = "pm_bitmap k" and t = t] by simp
  have n: "24 * of_nat (length rs) div sizeof_mmap = of_nat (length rs)"
    using I by (simp add: sizeof_mmap_def word_unat_eq_iff unat_div unat_of_nat_u32 unat_mult_u32)
  obtain k1 where 1: "setup_memory L mmaps (of_nat (length rs)) ?k = Some k1" "vm_ok k1" "console_ok k1"
    "tty_vga_buffer (k_tty k1) = VGA_BUFFER_VADDR"
    "pagemap k1 = (pagemap ?k)((704, 0) \<mapsto> NEW_L2_ENTRY PG_PREM_RW VGA_BUFFER_PADDR)"
    "\<And>n. roomy L rs (max_pg ?k) (Suc n) \<Longrightarrow> spare k1 n"
    by (rule setup_memory_run [OF before_setup_console [OF assms(2) t(2)] assms(3)]) blast
  have spare: "spare k1 36" using R 1(6) [of 36] by simp
  have heap: "heap_room start k1" using R 1(5) by (simp add: heap_room_def kernel_fields)
  have free: "pagemap k1 (stack_slot j) = None" if "j < 16" for j
    using R 1(5) stack_slot_vga [OF that] that by (simp add: kernel_fields)
  obtain k' n m where 2: "setup_kernel_runtime start k1 = Some k'" "console_ok k'"
    "tty_vga_buffer (k_tty k') = tty_vga_buffer (k_tty k1)" "hp_start (k_heap k') = start"
    "heap_inv (k_heap k') (vpn start) n m [(4, True), (4096, False)] k'"
    "\<And>j. j < 16 \<Longrightarrow> \<exists>p. pagemap k' (stack_slot j) = Some (NEW_L2_ENTRY PG_PREM_RW (push_bit 12 p))"
    "\<And>ij. ij \<notin> {va_idx start, va_idx (start + 4096)} \<union> stack_slot ` {..< 16} \<Longrightarrow> pagemap k' ij = pagemap k1 ij"
    by (rule setup_kernel_runtime_ready [OF 1(2,3) spare heap], erule free) (rule that)
  have ok: "vm_ok k'" using heap_invD(1) [OF 2(5)] by (simp add: heap_st_def)
  show ?thesis
  proof (rule that)
    show "kernel_init L start mb k = Some k'"
      using info t(1) ld I 1(1) 2(1) n by (simp add: kernel_init_def)
    show "tty_vga_buffer (k_tty k') = VGA_BUFFER_VADDR" using 2(3) 1(4) by simp
    have "pagemap k' (704, 0) = Some (NEW_L2_ENTRY PG_PREM_RW VGA_BUFFER_PADDR)"
      using 2(7) [of "(704, 0)"] stack_slot_vga R 1(5) by fastforce
    then show "mmu_translate k' VGA_BUFFER_VADDR = Some VGA_BUFFER_PADDR"
      using mmu_translate_pagemap [OF ok, of VGA_BUFFER_VADDR] present_perms by (simp add: vga_consts)
    show "mmu_translate k' a \<noteq> None" if in_stack: "K_STACK_START \<le> a" "a < K_STACK_START + K_STACK_SIZE" for a
    proof -
      obtain j where j: "j < 16" "va_idx a = stack_slot j" "L1_INDEX a < 1023" by (rule stack_address [OF in_stack])
      then show ?thesis using 2(6) [of j] mmu_translate_pagemap [OF ok j(3)] by (auto simp: va_idx_def)
    qed
  qed (fact 2(2,4,5))+
qed

section \<open>The first phase\<close>

lemma tty_init_ok: "tty_ok (tty_set_theme fg bg (tty_init VGA_BUFFER_PADDR t))"
proof -
  let ?t = "t\<lparr>tty_vga_buffer := VGA_BUFFER_PADDR\<rparr>"
  have "buffer_ok ?t" by (simp add: buffer_ok_def VGA_BUFFER_PADDR_def)
  from blank_cells [OF this, of 0 0 2000] have "tty_vga_buffer (blank_cells 2000 0 0 ?t) = VGA_BUFFER_PADDR"
    by (simp add: same_outside_def)
  moreover have "unat (TTY_WIDTH * TTY_HEIGHT) = 2000" by (simp add: TTY_WIDTH_def TTY_HEIGHT_def)
  ultimately show ?thesis
    by (simp add: tty_ok_def buffer_ok_def tty_set_theme_def tty_init_def tty_clear_def VGA_BUFFER_PADDR_def)
qed

lemma kernel_pre_init_run:
  assumes "length idt = IDT_ENTRY" "vload32 k (mbi_mem_upper mb) = Some upper"
  obtains idt' k' where "kernel_pre_init asm_isr mb idt k = Some (idt', k')" "phys k' = phys k" "cr3 k' = cr3 k"
    "max_pg k' = drop_bit 12 (MEM_1MB + push_bit 10 upper)" "pg_lookup_ptr k' = LOOKUP_START" "pmm_ok k'"
    "\<And>q. in_bitmap q \<Longrightarrow> \<not> page_free k' q" "console_ok k'"
proof -
  let ?k = "intr_routine_init k" and ?lim = "MEM_1MB + push_bit 10 upper"
  have same: "phys ?k = phys k" "cr3 ?k = cr3 k" "k_tty ?k = k_tty k"
    by (simp_all add: intr_routine_init_def intr_subscribe_def intr_set_fallback_handler_def Let_def)
  have "mmu_translate ?k = mmu_translate k" using same by (intro mmu_translate_cong)
  then have up: "vload32 ?k (mbi_mem_upper mb) = Some upper" using assms(2) same(1) by (simp add: vload32_def)
  obtain b where init: "pmm_init ?lim ?k = Some (?k\<lparr>max_pg := drop_bit 12 ?lim, pg_lookup_ptr := LOOKUP_START, pm_bitmap := b\<rparr>)"
    "pmm_ok (?k\<lparr>max_pg := drop_bit 12 ?lim, pg_lookup_ptr := LOOKUP_START, pm_bitmap := b\<rparr>)"
    "\<And>p. in_bitmap p \<Longrightarrow> \<not> page_free (?k\<lparr>max_pg := drop_bit 12 ?lim, pg_lookup_ptr := LOOKUP_START, pm_bitmap := b\<rparr>) p"
    using pmm_init_run [of ?lim ?k] by metis
  let ?k1 = "?k\<lparr>max_pg := drop_bit 12 ?lim, pg_lookup_ptr := LOOKUP_START, pm_bitmap := b\<rparr>"
  let ?k2 = "?k1\<lparr>k_cmos := rtc_init (k_cmos ?k1),
    k_tty := tty_set_theme VGA_COLOR_WHITE VGA_COLOR_BLACK (tty_init VGA_BUFFER_PADDR (k_tty ?k1))\<rparr>"
  obtain idt' where idt: "init_idt asm_isr idt = Some idt'" using init_idt_run [OF assms(1)] by blast
  show ?thesis
  proof (rule that)
    show "kernel_pre_init asm_isr mb idt k = Some (idt', ?k2)"
      using idt up init(1) by (simp add: kernel_pre_init_def vmm_init_def Let_def)
    show "phys ?k2 = phys k" "cr3 ?k2 = cr3 k" using same by simp_all
    show "pmm_ok ?k2" using init(2) by (simp add: pmm_ok_def)
    show "\<not> page_free ?k2 q" if "in_bitmap q" for q using init(3) [OF that] by (simp add: page_free_def)
    have "clean_theme (tty_theme_color (tty_set_theme VGA_COLOR_WHITE VGA_COLOR_BLACK t))" for t
      by (simp add: clean_theme_def tty_set_theme_def VGA_COLOR_WHITE_def VGA_COLOR_BLACK_def)
    then show "console_ok ?k2" using tty_init_ok by (simp add: console_ok_def)
  qed simp_all
qed

section \<open>From the boot code to the heap\<close>

text \<open>The linked image: the page-aligned kernel begins above the console's new address and leaves the last four
  megabytes below the recursive mapping alone, the directory and the tables lie in it, and the heap begins after
  it, with two pages below the stack.\<close>

definition linked :: "linker \<Rightarrow> u32 \<Rightarrow> u32 \<Rightarrow> bool" where
  "linked L ptd start \<longleftrightarrow> kpg_area ptd \<and> layout_ok L \<and> page_aligned (kernel_start L)
     \<and> 704 < L1_INDEX (kernel_start L) \<and> L1_INDEX (kernel_start L) < 1020 \<and> unat ptd + 24576 \<le> unat (V2P (kernel_end L))
     \<and> page_aligned start \<and> unat (kernel_start L) + 4096 * unat (KERNEL_PAGE_COUNT L) \<le> unat start
     \<and> unat start + 8192 \<le> unat K_STACK_START"

text \<open>What the boot loader describes: its information, its memory map, and enough memory.\<close>

definition described :: "linker \<Rightarrow> u32 \<Rightarrow> u32 \<Rightarrow> region list \<Rightarrow> u32 \<Rightarrow> kernel \<Rightarrow> bool" where
  "described L mb mmaps rs upper k \<longleftrightarrow> loader_info k mb mmaps rs \<and> regions_at k mmaps rs \<and> regular_regions rs
     \<and> vload32 k (mbi_mem_upper mb) = Some upper \<and> roomy L rs (drop_bit 12 (MEM_1MB + push_bit 10 upper)) 37"

lemma boot_room:
  assumes "linked L ptd start" "boot_machine L ptd k"
  shows "l1e k 704 = 0" "heap_room start k" "va_idx start \<noteq> (704, 0)" "va_idx (start + 4096) \<noteq> (704, 0)"
    "\<And>j. j < 16 \<Longrightarrow> pagemap k (stack_slot j) = None"
proof -
  note K = assms(1) [unfolded linked_def]
  let ?d = "unat (L1_INDEX (kernel_start L))"
  have d: "704 < ?d" "?d < 1020" using K by (simp_all add: word_less_nat_alt)
  have ks: "4194304 * ?d \<le> unat (kernel_start L)" by (simp add: unat_word)
  have none: "pagemap k (va_idx va) = None" if "L1_INDEX va < 1023"
    "unat (kernel_start L) + 4096 * unat (KERNEL_PAGE_COUNT L) \<le> unat va \<or> 4194304 * (?d + 3) \<le> unat va"
    "unat (kernel_start L) \<le> unat va" for va
  proof (rule boot_pagemap [OF assms(2) that(1)])
    have "0x100000 + 4096 * unat (HHK_PAGE_COUNT L) \<le> unat va" using that(3) ks d K by (simp add: layout_ok_def)
    then show "built_map L va = None" using that(2) by (auto simp: built_map_def)
  qed (use K in simp)
  have "boot_table L (unat (704 :: u32)) = None" using d by (simp add: boot_table_def Let_def)
  then show "l1e k 704 = 0" by (rule boot_directory(1) [OF assms(2), rotated]) simp
  have top: "unat start + 8192 \<le> 0xFFBF0000" using K by (simp add: K_STACK_START_def K_STACK_SIZE_def)
  have u: "unat (start + x) = unat start + unat x" if "unat x \<le> 4096" for x using top that by (subst unat_add_u32) simp_all
  have low: "unat (kernel_start L) \<le> unat start" using K by linarith
  have idx: "L1_INDEX (start + x) < 1023" "704 < L1_INDEX (start + x)" "pagemap k (va_idx (start + x)) = None" if "unat x \<le> 4096" for x
  proof -
    show lt: "L1_INDEX (start + x) < 1023" using u [OF that] top that by (simp add: word_less_nat_alt unat_word)
    show "704 < L1_INDEX (start + x)" using u [OF that] low ks d by (simp add: word_less_nat_alt unat_word)
    show "pagemap k (va_idx (start + x)) = None" using u [OF that] low K by (intro none lt) auto
  qed
  show "va_idx start \<noteq> (704, 0)" "va_idx (start + 4096) \<noteq> (704, 0)"
    using idx(2) [of 0] idx(2) [of 4096] by (auto simp: va_idx_def)
  have "start \<noteq> 0" using low ks d by auto
  then show "heap_room start k" using K idx(3) [of 0] idx(3) [of 4096] by (simp add: heap_room_def)
  show "pagemap k (stack_slot j) = None" if j: "j < 16" for j
  proof -
    have "unat (K_STACK_START + push_bit 12 (of_nat j)) \<ge> 0xFFBF0000"
    proof -
      have "unat (push_bit 12 (of_nat j) :: u32) = 4096 * j" using j by (subst unat_push_bit_u32) (simp_all add: unat_of_nat_u32)
      then show ?thesis using j by (subst unat_add_u32) (simp_all add: K_STACK_START_def K_STACK_SIZE_def)
    qed
    then have "pagemap k (va_idx (K_STACK_START + push_bit 12 (of_nat j))) = None"
      using stack_page(4) [OF j] top low d(2) by (intro none) simp_all
    then show ?thesis by (simp add: stack_page(1) [OF j])
  qed
qed

lemma boot_before_setup:
  assumes "linked L ptd start" "boot_machine L ptd k" "pmm_ok k" "\<And>q. in_bitmap q \<Longrightarrow> \<not> page_free k q"
    "pg_lookup_ptr k = LOOKUP_START" "console_ok k" "regions_at k mmaps rs" "length rs < 4294967296" "roomy L rs (max_pg k) (Suc n)"
  shows "before_setup L mmaps rs k"
proof -
  note K = assms(1) [unfolded linked_def]
  have bits: "in_bitmap (drop_bit 12 a)" for a
    using less_mult_imp_div_less [of "unat a" 1048576 4096] by (simp add: in_bitmap_def word_less_nat_alt unat_word)
  have "vm_ok k" by (intro boot_vm_ok [OF assms(2,3)] assms(4) bits)
  moreover have "drop_bit 12 f < kernel_pages L" if f: "table_frame k f" for f
  proof -
    obtain T where T: "T < 6" "f = ptd + 4096 * of_nat T" by (rule boot_table_frame [OF assms(2) f])
    have "unat f = unat ptd + 4096 * T" using area_page(2) [of ptd T] T K by simp
    then have "unat f + 4096 \<le> unat (V2P (kernel_end L))" using T(1) K by linarith
    then have "unat f div 4096 < unat (V2P (kernel_end L)) div 4096" using div_le_mono [of "unat f + 4096" _ 4096] by simp
    then show ?thesis by (simp add: kernel_pages_def word_less_nat_alt unat_word)
  qed
  moreover have "\<exists>p. freed_by rs p \<and> kernel_pages L \<le> p \<and> p \<noteq> 0xB8 \<and> p mod 8 \<noteq> 0 \<and> p < max_pg k"
  proof -
    obtain c where c: "8 * (c + Suc n) \<le> unat (max_pg k)"
      "\<And>q. 8 * c \<le> unat q \<Longrightarrow> unat q < 8 * (c + Suc n) \<Longrightarrow> freed_by rs q \<and> kernel_pages L \<le> q \<and> q \<noteq> 0xB8"
      using assms(9) unfolding roomy_def by blast
    let ?p = "of_nat (8 * c + 1) :: u32"
    have "8 * c + 8 \<le> unat (max_pg k)" using c(1) by simp
    then have u: "unat ?p = 8 * c + 1" using unat_lt32 [of "max_pg k"] by (intro unat_of_nat_u32) linarith
    then have "?p mod 8 \<noteq> 0" by (simp only: word_unat_eq_iff unat_mod8) simp
    moreover have "?p < max_pg k" unfolding word_less_nat_alt u using c(1) by simp
    ultimately show ?thesis using c(2) [of ?p] u by auto
  qed
  ultimately show ?thesis
    using assms(4-8) boot_room(1) [OF assms(1,2)] by (simp add: before_setup_def)
qed

text \<open>C8: The boot sequence from the setup code to the running heap. On a machine that runs with the tables the
  setup code left, whose boot loader described enough usable memory, \<^verbatim>\<open>_kernel_pre_init\<close> and \<^verbatim>\<open>_kernel_init\<close>
  return: the console writes to its new mapping of the text buffer, every address of the kernel stack is
  mapped, and the heap begins at its place, well-formed, with one free chunk of a page.\<close>

theorem boot_reaches_heap:
  assumes "hhk_init L ptd 24576 m = Some (phys k)" "cr3 k = ptd" "linked L ptd start" "described L mb mmaps rs upper k"
    "length idt = IDT_ENTRY"
  shows "\<exists>idt' k1 k2 n hm. kernel_pre_init asm_isr mb idt k = Some (idt', k1) \<and> kernel_init L start mb k1 = Some k2
    \<and> console_ok k2 \<and> tty_vga_buffer (k_tty k2) = VGA_BUFFER_VADDR \<and> mmu_translate k2 VGA_BUFFER_VADDR = Some VGA_BUFFER_PADDR
    \<and> (\<forall>a. K_STACK_START \<le> a \<and> a < K_STACK_START + K_STACK_SIZE \<longrightarrow> mmu_translate k2 a \<noteq> None)
    \<and> hp_start (k_heap k2) = start \<and> heap_inv (k_heap k2) (vpn start) n hm [(4, True), (4096, False)] k2"
proof -
  note D = assms(4) [unfolded described_def]
  have area: "kpg_area ptd" "layout_ok L" using assms(3) by (simp_all add: linked_def)
  have boot: "boot_machine L ptd k" using boot_entries [OF area, of m] assms(1,2) area by (simp add: boot_machine_def)
  obtain idt' k1 where 1: "kernel_pre_init asm_isr mb idt k = Some (idt', k1)" "phys k1 = phys k" "cr3 k1 = cr3 k"
    "max_pg k1 = drop_bit 12 (MEM_1MB + push_bit 10 upper)" "pg_lookup_ptr k1 = LOOKUP_START" "pmm_ok k1"
    "\<And>q. in_bitmap q \<Longrightarrow> \<not> page_free k1 q" "console_ok k1"
    using kernel_pre_init_run [OF assms(5)] D by metis
  have boot1: "boot_machine L ptd k1" by (rule boot_machine_translate_cong [OF boot 1(2,3)])
  have "mmu_translate k1 = mmu_translate k" by (rule mmu_translate_cong [OF 1(2,3)])
  then have ld: "vload32 k1 = vload32 k" using 1(2) by (simp add: vload32_def fun_eq_iff)
  then have info: "loader_info k1 mb mmaps rs" "regions_at k1 mmaps rs" using D regions_at_cong [OF ld] by (simp_all add: loader_info_def)
  have room: "roomy L rs (max_pg k1) (Suc 36)" using D 1(4) by simp
  have "length rs < 4294967296" using info(1) by (simp add: loader_info_def)
  note before = boot_before_setup [OF assms(3) boot1 1(6,7,5,8) info(2) this room]
  have "kernel_room L start rs k1" using room boot_room [OF assms(3) boot1] by (simp add: kernel_room_def)
  with D obtain k2 n hm where "kernel_init L start mb k1 = Some k2" "console_ok k2" "tty_vga_buffer (k_tty k2) = VGA_BUFFER_VADDR"
    "mmu_translate k2 VGA_BUFFER_VADDR = Some VGA_BUFFER_PADDR"
    "\<And>a. K_STACK_START \<le> a \<Longrightarrow> a < K_STACK_START + K_STACK_SIZE \<Longrightarrow> mmu_translate k2 a \<noteq> None"
    "hp_start (k_heap k2) = start" "heap_inv (k_heap k2) (vpn start) n hm [(4, True), (4096, False)] k2"
    using kernel_init_run [OF info(1) before, of start] by blast
  then show ?thesis using 1(1) by blast
qed

section \<open>A concrete boot\<close>

text \<open>The kernel as it is linked now, on a machine of 32 MiB: the boot loader's information lies at
  \<open>0xC0170000\<close>, and its memory map, with the memory from 1 MiB on as its only region, behind it.\<close>

definition boot_memory :: mem where
  "boot_memory = (\<lambda>_. 0)(0x170004 := 0x80, 0x170005 := 2, 0x170009 := 0x7C, 0x17002C := 24, 0x170031 := 1, 0x170032 := 0x17,
     0x170033 := 0xC0, 0x170106 := 0x10, 0x17010E := 0xF0, 0x17010F := 1, 0x170114 := 1)"

definition boot_region :: region where
  "boot_region = \<lparr>r_base = 0x100000, r_length = 0x1F00000, r_type = 1\<rparr>"

definition boot_kernel :: "mem \<Rightarrow> kernel" where
  "boot_kernel m = kernel_on (vm1\<lparr>phys := m, cr3 := 0x17E000\<rparr>) heap_vh"

lemma boot_linked: "linked small_kernel 0x17E000 0xC0184000" "layout_ok small_kernel"
proof -
  show "layout_ok small_kernel" by (simp add: layout_ok_def kernels)
  then show "linked small_kernel 0x17E000 0xC0184000"
    by (simp add: linked_def kernels) (simp add: small_kernel_def V2P_def HIGHER_HLF_BASE_def page_aligned_def PG_OFFSET_def
      K_STACK_START_def K_STACK_SIZE_def)
qed

lemma boot_load:
  assumes "hhk_init small_kernel 0x17E000 24576 boot_memory = Some m" "aligned4 d" "unat d < 512"
  shows "vload32 (boot_kernel m) (0xC0170000 + d) = Some (load32 boot_memory (0x170000 + d))"
proof -
  have "boot_machine small_kernel 0x17E000 (boot_kernel m)"
    using boot_entries [OF kernels(1) boot_linked(2), of boot_memory] assms(1) kernels(1) boot_linked(2)
    by (simp add: boot_machine_def boot_kernel_def)
  have u: "unat (0xC0170000 + d) = 0xC0170000 + unat d" using assms(3) by (subst unat_add_u32) simp_all
  then have "L1_INDEX (0xC0170000 + d) < 1023" using assms(3) by (simp add: word_less_nat_alt unat_word)
  from boot_translate [OF \<open>boot_machine _ _ _\<close> kernels(2) this]
  have "mmu_translate (boot_kernel m) (0xC0170000 + d) = Some (0x170000 + d)"
    using assms(3) by (simp add: built_map_def kernels u) (simp add: small_kernel_def V2P_def HIGHER_HLF_BASE_def)
  moreover have "m (0x170000 + d + of_nat j) = boot_memory (0x170000 + d + of_nat j)" if "j < 4" for j
  proof (rule hhk_init_outside [OF kernels(1) boot_linked(2) assms(1)])
    have "unat (0x170000 + d) = 0x170000 + unat d" using assms(3) by (subst unat_add_u32) simp_all
    then have "unat (0x170000 + d + of_nat j) = 0x170000 + unat d + j" using assms(3) that by (subst unat_add_u32) simp_all
    then show "\<not> in_block 0x17E000 24576 (0x170000 + d + of_nat j)" using assms(3) that by (simp add: in_block_def)
  qed
  then have "load32 m (0x170000 + d) = load32 boot_memory (0x170000 + d)" by (rule load32_bytes)
  moreover have "aligned4 (0xC0170000 + d)" using assms(2) u by (simp add: aligned4_unat)
  ultimately show ?thesis by (simp add: vload32_aligned) (simp add: boot_kernel_def)
qed

lemma boot_described:
  assumes "hhk_init small_kernel 0x17E000 24576 boot_memory = Some m"
  shows "described small_kernel 0xC0170000 0xC0170100 [boot_region] 0x7C00 (boot_kernel m)"
proof -
  note ld = boot_load [OF assms]
  have "vload32 (boot_kernel m) 0xC0170004 = Some 0x280" "vload32 (boot_kernel m) 0xC0170008 = Some 0x7C00"
    "vload32 (boot_kernel m) 0xC017002C = Some 24" "vload32 (boot_kernel m) 0xC0170030 = Some 0xC0170100"
    "vload32 (boot_kernel m) 0xC0170104 = Some 0x100000" "vload32 (boot_kernel m) 0xC0170108 = Some 0"
    "vload32 (boot_kernel m) 0xC017010C = Some 0x1F00000" "vload32 (boot_kernel m) 0xC0170110 = Some 0"
    "vload32 (boot_kernel m) 0xC0170114 = Some 1"
    using ld [of 4] ld [of 8] ld [of "0x2C"] ld [of "0x30"] ld [of "0x104"] ld [of "0x108"] ld [of "0x10C"] ld [of "0x110"] ld [of "0x114"]
    by (simp_all add: aligned4_unat boot_memory_def load32_def)
  note loads = this
  have "loader_info (boot_kernel m) 0xC0170000 0xC0170100 [boot_region]"
    by (simp add: loader_info_def mbi_mem_lower_def mbi_mem_upper_def mbi_mmap_length_def mbi_mmap_addr_def loads)
  moreover have "regions_at (boot_kernel m) 0xC0170100 [boot_region]"
    by (simp add: region_at_def mmap_addr_low_def mmap_len_low_def mmap_type_def boot_region_def loads)
  moreover have "regular_regions [boot_region]" by (simp add: regular_regions_def boot_region_def)
  moreover have "roomy small_kernel [boot_region] (drop_bit 12 (MEM_1MB + push_bit 10 0x7C00)) 37"
  proof -
    have "freed_by [boot_region] q \<and> kernel_pages small_kernel \<le> q \<and> q \<noteq> 0xB8" if "392 \<le> unat q" "unat q < 688" for q
    proof -
      have "first_page boot_region = 256" "page_count boot_region = 7936" "r_type boot_region = MULTIBOOT_MEMORY_AVAILABLE"
        by (simp_all add: first_page_def page_count_def boot_region_def MULTIBOOT_MEMORY_AVAILABLE_def)
      moreover have "kernel_pages small_kernel = 388" by (simp add: kernel_pages_def small_kernel_def V2P_def HIGHER_HLF_BASE_def)
      ultimately show ?thesis using that by (auto simp: freed_by_def chunk_covers_def word_le_nat_alt)
    qed
    then show ?thesis unfolding roomy_def by (intro exI [of _ 49]) (simp add: MEM_1MB_def)
  qed
  ultimately show ?thesis by (simp add: described_def mbi_mem_upper_def loads)
qed

lemma boot_reaches_heap_witness:
  "\<exists>m idt k1 k2. hhk_init small_kernel 0x17E000 24576 boot_memory = Some m
     \<and> kernel_pre_init (\<lambda>v. 0xC0100000 + of_nat v) 0xC0170000 (replicate 256 0) (boot_kernel m) = Some (idt, k1)
     \<and> kernel_init small_kernel 0xC0184000 0xC0170000 k1 = Some k2
     \<and> mmu_translate k2 VGA_BUFFER_VADDR = Some VGA_BUFFER_PADDR \<and> mmu_translate k2 0xFFBF8000 \<noteq> None
     \<and> hp_start (k_heap k2) = 0xC0184000"
proof -
  obtain m where m: "hhk_init small_kernel 0x17E000 24576 boot_memory = Some m"
    using boot_entries [OF kernels(1) boot_linked(2)] by blast
  have k: "hhk_init small_kernel 0x17E000 24576 boot_memory = Some (phys (boot_kernel m))" "cr3 (boot_kernel m) = 0x17E000"
    using m by (simp_all add: boot_kernel_def)
  have idt: "length (replicate 256 0 :: u64 list) = IDT_ENTRY" by (simp add: IDT_ENTRY_def)
  have stack: "K_STACK_START \<le> 0xFFBF8000" "0xFFBF8000 < K_STACK_START + K_STACK_SIZE"
    by (simp_all add: K_STACK_START_def K_STACK_SIZE_def)
  show ?thesis
    using boot_reaches_heap [OF k boot_linked(1) boot_described [OF m] idt, of "\<lambda>v. 0xC0100000 + of_nat v"] m stack by blast
qed

end
