(* ===== verification/Isolation.thy ===== *)
theory Isolation
  imports Dmm
begin

text \<open>
  Histories of the virtual memory manager. A state carries the set of slots whose frames clients own, having
  got them from \<^verbatim>\<open>vmm_alloc_page\<close> or \<^verbatim>\<open>vmm_alloc_pages\<close>; the step relation is what clients may do, and
  the invariant is that an owned frame is reached through its own slot only. Mapping a device
  (\<^verbatim>\<open>vmm_set_mapping\<close>) is a step when the device's frame is neither in the pool nor owned.
\<close>

section \<open>Steps and histories\<close>

abbreviation run_slots :: "u32 \<Rightarrow> u32 \<Rightarrow> (u32 \<times> u32) set" where
  "run_slots va sz \<equiv> {slot (vpn va + k) |k. k < unat (drop_bit PG_SIZE_BITS sz)}"

definition range_ok :: "u32 \<Rightarrow> u32 \<Rightarrow> bool" where
  "range_ok va sz \<longleftrightarrow> page_aligned va \<and> vpn va + unat (drop_bit PG_SIZE_BITS sz) \<le> 1023 * 1024"

definition device_frame :: "'a vm_scheme \<Rightarrow> (u32 \<times> u32) set \<Rightarrow> u32 \<Rightarrow> bool" where
  "device_frame s A pa \<longleftrightarrow> \<not> page_free s (drop_bit 12 pa)
     \<and> (\<forall>ij \<in> A. \<forall>e. pagemap s ij = Some e \<longrightarrow> drop_bit 12 e \<noteq> drop_bit 12 pa)"

inductive vm_step :: "'a vm_scheme \<Rightarrow> (u32 \<times> u32) set \<Rightarrow> 'a vm_scheme \<Rightarrow> (u32 \<times> u32) set \<Rightarrow> bool" where
  alloc: "vmm_alloc_page va attr s = Some (va, s') \<Longrightarrow> page_aligned va \<Longrightarrow> va \<noteq> 0 \<Longrightarrow> L1_INDEX va < 1023 \<Longrightarrow>
    pagemap s (va_idx va) = None \<Longrightarrow> IS_CACHED attr \<Longrightarrow> vm_step s A s' (insert (va_idx va) A)"
| no_page: "vmm_alloc_page va attr s = Some (0, s') \<Longrightarrow> page_aligned va \<Longrightarrow> va \<noteq> 0 \<Longrightarrow> L1_INDEX va < 1023 \<Longrightarrow>
    pagemap s (va_idx va) = None \<Longrightarrow> IS_CACHED attr \<Longrightarrow> vm_step s A s' A"
| allocs: "vmm_alloc_pages va sz attr s = Some (True, s') \<Longrightarrow> range_ok va sz \<Longrightarrow> IS_CACHED attr \<Longrightarrow>
    vm_step s A s' (A \<union> run_slots va sz)"
| no_pages: "vmm_alloc_pages va sz attr s = Some (False, s') \<Longrightarrow> range_ok va sz \<Longrightarrow> IS_CACHED attr \<Longrightarrow> vm_step s A s' A"
| unmap: "vmm_unmap_page va s = Some s' \<Longrightarrow> L1_INDEX va < 1023 \<Longrightarrow> va_idx va \<in> A \<Longrightarrow> vm_step s A s' (A - {va_idx va})"
| device: "vmm_set_mapping va pa attr s = Some s' \<Longrightarrow> IS_CACHED attr \<Longrightarrow> device_frame s A pa \<Longrightarrow> vm_step s A s' A"

text \<open>A machine whose present pages are all off the pool, with nothing owned, is where histories begin.\<close>

definition frames_taken :: "'a vm_scheme \<Rightarrow> bool" where
  "frames_taken s \<longleftrightarrow> (\<forall>ij e. pagemap s ij = Some e \<longrightarrow> IS_CACHED e \<longrightarrow> \<not> page_free s (drop_bit 12 e))"

inductive vm_run :: "'a vm_scheme \<Rightarrow> (u32 \<times> u32) set \<Rightarrow> bool" where
  start: "vm_ok s \<Longrightarrow> frames_taken s \<Longrightarrow> vm_run s {}"
| step: "vm_run s A \<Longrightarrow> vm_step s A s' B \<Longrightarrow> vm_run s' B"

section \<open>The invariant\<close>

definition owned_slot :: "'a vm_scheme \<Rightarrow> u32 \<times> u32 \<Rightarrow> bool" where
  "owned_slot s ij \<longleftrightarrow> (\<exists>e. pagemap s ij = Some e \<and> IS_CACHED e \<and> \<not> table_frame s (PG_ALIGN e)
     \<and> (\<forall>kl d. pagemap s kl = Some d \<longrightarrow> IS_CACHED d \<longrightarrow> drop_bit 12 d = drop_bit 12 e \<longrightarrow> kl = ij))"

definition isolated :: "'a vm_scheme \<Rightarrow> (u32 \<times> u32) set \<Rightarrow> bool" where
  "isolated s A \<longleftrightarrow> vm_ok s \<and> frames_taken s \<and> (\<forall>ij \<in> A. owned_slot s ij)"

lemma isolated_mapped: "isolated s A \<Longrightarrow> ij \<in> A \<Longrightarrow> pagemap s ij \<noteq> None"
  unfolding isolated_def owned_slot_def by blast

text \<open>Pages are taken from the pool and the map grows by entries of which some, at \<open>N\<close>, are owned: each of these maps
  a frame of its own that was free; the others map frames that were not free and belong to nobody.\<close>

lemma isolated_grow:
  assumes iso: "isolated s A" and grown: "grown s s'" "vm_ok s'"
    and same: "\<And>ij. ij \<notin> N \<union> D \<Longrightarrow> pagemap s' ij = pagemap s ij" and new: "\<And>ij. ij \<in> N \<union> D \<Longrightarrow> pagemap s ij = None"
    and own: "\<And>ij. ij \<in> N \<Longrightarrow> \<exists>e. pagemap s' ij = Some e \<and> IS_CACHED e \<and> page_free s (drop_bit 12 e)
      \<and> \<not> page_free s' (drop_bit 12 e) \<and> \<not> table_frame s' (PG_ALIGN e)"
    and inj: "\<And>ij kl e d. ij \<in> N \<Longrightarrow> kl \<in> N \<Longrightarrow> pagemap s' ij = Some e \<Longrightarrow> pagemap s' kl = Some d \<Longrightarrow>
      drop_bit 12 d = drop_bit 12 e \<Longrightarrow> kl = ij"
    and dev: "\<And>ij e. ij \<in> D \<Longrightarrow> pagemap s' ij = Some e \<Longrightarrow> device_frame s A e"
    and apart: "N \<inter> D = {}"
  shows "isolated s' (A \<union> N)"
proof -
  have free: "page_free s q" if "page_free s' q" for q using grown(1) that by (simp add: grown_def)
  have tab: "table_frame s f \<or> page_free s (drop_bit 12 f)" if "table_frame s' f" for f using grown(1) that by (simp add: grown_def)
  have taken: "\<not> page_free s (drop_bit 12 e)" if "pagemap s ij = Some e" "IS_CACHED e" for ij e
    using iso that unfolding isolated_def frames_taken_def by blast
  have old: "\<not> page_free s (drop_bit 12 e)" if "pagemap s' ij = Some e" "IS_CACHED e" "ij \<notin> N" for ij e
  proof (cases "ij \<in> D")
    case True
    then show ?thesis using dev that(1) by (auto simp: device_frame_def)
  next
    case False
    then show ?thesis using same [of ij] taken that by simp
  qed
  have "frames_taken s'"
    unfolding frames_taken_def
  proof (intro allI impI)
    show "\<not> page_free s' (drop_bit 12 e)" if e: "pagemap s' ij = Some e" "IS_CACHED e" for ij e
    proof (cases "ij \<in> N")
      case True
      then show ?thesis using own e by fastforce
    next
      case False
      then show ?thesis using old e free by blast
    qed
  qed
  moreover have "owned_slot s' ij" if ij: "ij \<in> A" for ij
  proof -
    obtain e where e: "pagemap s ij = Some e" "IS_CACHED e" "\<not> table_frame s (PG_ALIGN e)"
      and only: "\<And>kl d. pagemap s kl = Some d \<Longrightarrow> IS_CACHED d \<Longrightarrow> drop_bit 12 d = drop_bit 12 e \<Longrightarrow> kl = ij"
      using iso ij unfolding isolated_def owned_slot_def by blast
    have out: "ij \<notin> N \<union> D" using new [of ij] e(1) by auto
    have busy: "\<not> page_free s (drop_bit 12 e)" by (rule taken [OF e(1,2)])
    have "kl = ij" if d: "pagemap s' kl = Some d" "IS_CACHED d" "drop_bit 12 d = drop_bit 12 e" for kl d
    proof -
      have "kl \<notin> N" using own [of kl] d(1,3) busy by auto
      moreover have "kl \<notin> D" using dev [of kl d] d(1,3) ij e(1) by (auto simp: device_frame_def)
      ultimately have "pagemap s kl = Some d" using same [of kl] d(1) by simp
      then show ?thesis using d(2,3) by (rule only)
    qed
    moreover have "\<not> table_frame s' (PG_ALIGN e)" using tab [of "PG_ALIGN e"] e(3) busy by (auto simp: drop_bit_PG_ALIGN)
    moreover have "pagemap s' ij = Some e" using same [OF out] e(1) by simp
    ultimately show ?thesis using e(2) unfolding owned_slot_def by blast
  qed
  moreover have "owned_slot s' ij" if ij: "ij \<in> N" for ij
  proof -
    obtain e where e: "pagemap s' ij = Some e" "IS_CACHED e" "page_free s (drop_bit 12 e)" "\<not> table_frame s' (PG_ALIGN e)"
      using own [OF ij] by blast
    have "kl = ij" if d: "pagemap s' kl = Some d" "IS_CACHED d" "drop_bit 12 d = drop_bit 12 e" for kl d
      using old [OF d(1,2)] e(3) d inj [OF ij _ e(1) d(1)] by auto
    then show ?thesis using e unfolding owned_slot_def by blast
  qed
  ultimately show ?thesis using grown(2) unfolding isolated_def by blast
qed

lemma isolated_same: "isolated s A \<Longrightarrow> grown s s' \<Longrightarrow> vm_ok s' \<Longrightarrow> pagemap s' = pagemap s \<Longrightarrow> isolated s' A"
  using isolated_grow [of s A s' "{}" "{}"] by simp

lemma fresh_entry:
  assumes "fresh_frame s s' p" "IS_CACHED attr"
  defines "e \<equiv> NEW_L2_ENTRY attr (push_bit 12 p)"
  shows "IS_CACHED e" "drop_bit 12 e = p" "page_free s (drop_bit 12 e)" "\<not> page_free s' (drop_bit 12 e)" "\<not> table_frame s' (PG_ALIGN e)"
  using assms new_entry_frame [of p attr] IS_CACHED_new_entry(2) [of attr "push_bit 12 p"] by (simp_all add: fresh_frame_def)

lemma isolated_unmap:
  assumes iso: "isolated s A" and own: "va_idx va \<in> A" and va: "L1_INDEX va < 1023" and run: "vmm_unmap_page va s = Some s'"
  shows "isolated s' (A - {va_idx va})" "vm_frame s s'" "\<And>ij. ij \<noteq> va_idx va \<Longrightarrow> pagemap s' ij = pagemap s ij"
proof -
  have ok: "vm_ok s" using iso by (simp add: isolated_def)
  obtain e where e: "pagemap s (va_idx va) = Some e" "IS_CACHED e" "\<not> table_frame s (PG_ALIGN e)"
    and only: "\<And>kl d. pagemap s kl = Some d \<Longrightarrow> IS_CACHED d \<Longrightarrow> drop_bit 12 d = drop_bit 12 e \<Longrightarrow> kl = va_idx va"
    using iso own unfolding isolated_def owned_slot_def by blast
  have unused: "entry_frame_unused s (va_idx va)" using e by (simp add: entry_frame_unused_def)
  have s': "vm_ok s'" "vm_frame s s'" "pagemap s' = (pagemap s)(va_idx va := None)" "table_frame s' = table_frame s"
    "\<And>q. page_free s' q \<Longrightarrow> page_free s q \<or> q = drop_bit 12 e"
    by (cases rule: unmap_spec [OF ok va unused]; use run e(1) in \<open>auto simp: released_def\<close>)+
  show "vm_frame s s'" by fact
  show "pagemap s' ij = pagemap s ij" if "ij \<noteq> va_idx va" for ij using that s'(3) by simp
  have sub: "ij \<noteq> va_idx va \<and> pagemap s ij = Some d" if "pagemap s' ij = Some d" for ij d
    using that s'(3) by (auto split: if_splits)
  have "\<not> page_free s' (drop_bit 12 d)" if d: "pagemap s' ij = Some d" "IS_CACHED d" for ij d
  proof -
    have "drop_bit 12 d \<noteq> drop_bit 12 e" using only [OF _ d(2)] sub [OF d(1)] by blast
    moreover have "\<not> page_free s (drop_bit 12 d)" using iso sub [OF d(1)] d(2) unfolding isolated_def frames_taken_def by blast
    ultimately show ?thesis using s'(5) by blast
  qed
  moreover have "owned_slot s' ij" if ij: "ij \<in> A - {va_idx va}" for ij
  proof -
    have "owned_slot s ij" "pagemap s' ij = pagemap s ij" using iso ij s'(3) by (simp_all add: isolated_def)
    then show ?thesis using sub unfolding owned_slot_def s'(4) by metis
  qed
  ultimately show "isolated s' (A - {va_idx va})" using s'(1) unfolding isolated_def frames_taken_def by blast
qed

lemma below_1023: "L1_INDEX va \<noteq> 1023 \<Longrightarrow> L1_INDEX va < 1023"
  using L1_INDEX_lt [of va] by (simp add: word_less_nat_alt word_unat_eq_iff)

lemma device_step:
  assumes iso: "isolated s A" and attr: "IS_CACHED attr" and dev: "device_frame s A pa"
    and run: "vmm_set_mapping va pa attr s = Some s'"
  shows "isolated s' A" "grown s s'" "\<And>ij. ij \<in> A \<Longrightarrow> pagemap s' ij = pagemap s ij"
proof -
  have ok: "vm_ok s" using iso by (simp add: isolated_def)
  have "isolated s' A \<and> grown s s' \<and> (\<forall>ij \<in> A. pagemap s' ij = pagemap s ij)"
  proof (cases "L1_INDEX va = 1023")
    case True
    then show ?thesis using run iso by (simp add: vmm_set_mapping_def)
  next
    case False
    then have va: "L1_INDEX va < 1023" using below_1023 by blast
    have eq: "vmm_set_mapping va pa attr s = map_option snd (vmm_map_internal (L1_INDEX va) (L2_INDEX va) pa attr False s)"
      using False by (simp add: vmm_set_mapping_def)
    show ?thesis
    proof (cases rule: map_internal_fresh [OF ok va L2_INDEX_lt [of va] attr, where pa = pa, case_names kept full set])
      case kept
      then show ?thesis using run iso by (simp add: eq)
    next
      case (full t)
      then have "s' = t" using run by (simp add: eq)
      then show ?thesis
        using grown_alloc [OF ok full(3)] alloc_page_vm(4,9) [OF ok full(3)] isolated_same [OF iso] by simp
    next
      case (set t)
      then have "s' = t" using run by (simp add: eq)
      then have s': "vm_ok s'" "pagemap s' = (pagemap s)((L1_INDEX va, L2_INDEX va) \<mapsto> NEW_L2_ENTRY attr pa)" "grown s s'"
        using set by (simp_all add: grown_def)
      have "drop_bit 12 (NEW_L2_ENTRY attr pa) = drop_bit 12 pa"
        using IS_CACHED_new_entry drop_bit_PG_ALIGN by (metis PG_ALIGN_new_entry(2))
      then have e: "device_frame s A (NEW_L2_ENTRY attr pa)" using dev by (simp add: device_frame_def)
      have "isolated s' (A \<union> {})"
        by (rule isolated_grow [OF iso s'(3,1), of "{}" "{(L1_INDEX va, L2_INDEX va)}"]) (use s'(2) set(2) e in auto)
      moreover have "(L1_INDEX va, L2_INDEX va) \<notin> A" using isolated_mapped [OF iso] set(2) by blast
      ultimately show ?thesis using s' by auto
    qed
  qed
  then show "isolated s' A" "grown s s'" "\<And>ij. ij \<in> A \<Longrightarrow> pagemap s' ij = pagemap s ij" by auto
qed

section \<open>Every step keeps the invariant\<close>

lemma isolated_allocs:
  assumes iso: "isolated s A" and range: "range_ok va sz" and attr: "IS_CACHED attr" and run: "vmm_alloc_pages va sz attr s = Some (b, s')"
  shows "isolated s' (if b then A \<union> run_slots va sz else A)" "vm_frame s s'"
    "\<And>ij. pagemap s ij \<noteq> None \<Longrightarrow> pagemap s' ij = pagemap s ij"
proof -
  let ?n = "unat (drop_bit PG_SIZE_BITS sz)"
  have ok: "vm_ok s" using iso by (simp add: isolated_def)
  have va: "page_aligned va" "vpn va + ?n \<le> 1023 * 1024" using range by (simp_all add: range_ok_def)
  from alloc_pages_spec [OF ok va(1) attr refl va(2)] run have s': "vm_ok s'" "grown s s'"
    and res: "if b then \<exists>ps. length ps = ?n \<and> distinct ps \<and> (\<forall>p \<in> set ps. fresh_frame s s' p)
        \<and> (\<forall>k < ?n. pagemap s (slot (vpn va + k)) = None
             \<and> pagemap s' (slot (vpn va + k)) = Some (NEW_L2_ENTRY attr (push_bit 12 (ps ! k))))
        \<and> (\<forall>ij. (\<forall>k < ?n. ij \<noteq> slot (vpn va + k)) \<longrightarrow> pagemap s' ij = pagemap s ij)
      else pagemap s' = pagemap s" by auto
  then show "vm_frame s s'" by (simp add: grown_def)
  have "isolated s' (if b then A \<union> run_slots va sz else A) \<and> (\<forall>ij. pagemap s ij \<noteq> None \<longrightarrow> pagemap s' ij = pagemap s ij)"
  proof (cases b)
    case True
    with res obtain ps where ps: "length ps = ?n" "distinct ps" "\<forall>p \<in> set ps. fresh_frame s s' p"
      and r: "\<forall>k < ?n. pagemap s (slot (vpn va + k)) = None
        \<and> pagemap s' (slot (vpn va + k)) = Some (NEW_L2_ENTRY attr (push_bit 12 (ps ! k)))"
        "\<forall>ij. (\<forall>k < ?n. ij \<noteq> slot (vpn va + k)) \<longrightarrow> pagemap s' ij = pagemap s ij" by (simp only: if_True) blast
    then have new: "\<And>k. k < ?n \<Longrightarrow> pagemap s (slot (vpn va + k)) = None"
        "\<And>k. k < ?n \<Longrightarrow> pagemap s' (slot (vpn va + k)) = Some (NEW_L2_ENTRY attr (push_bit 12 (ps ! k)))"
      and same: "\<And>ij. ij \<notin> run_slots va sz \<Longrightarrow> pagemap s' ij = pagemap s ij" by blast+
    have fresh: "fresh_frame s s' (ps ! k)" if "k < ?n" for k using ps(1,3) that by simp
    note fe = fresh_entry [OF fresh attr]
    have "isolated s' (A \<union> run_slots va sz)"
    proof (rule isolated_grow [OF iso s'(2,1), of _ "{}"])
      show "kl = ij" if two: "ij \<in> run_slots va sz" "kl \<in> run_slots va sz" "pagemap s' ij = Some e" "pagemap s' kl = Some d"
        "drop_bit 12 d = drop_bit 12 e" for ij kl e d
      proof -
        obtain k l where k: "k < ?n" "ij = slot (vpn va + k)" "l < ?n" "kl = slot (vpn va + l)" using two(1,2) by blast
        then have "ps ! l = ps ! k" using new(2) two(3-5) fe(2) by auto
        then have "l = k" using ps(1,2) k(1,3) by (simp add: nth_eq_iff_index_eq)
        then show ?thesis using k by simp
      qed
      show "\<exists>e. pagemap s' ij = Some e \<and> IS_CACHED e \<and> page_free s (drop_bit 12 e) \<and> \<not> page_free s' (drop_bit 12 e)
        \<and> \<not> table_frame s' (PG_ALIGN e)" if "ij \<in> run_slots va sz" for ij
        using that new(2) fe(1,3,4,5) by blast
    qed (use same new(1) in auto)
    moreover have "pagemap s' ij = pagemap s ij" if "pagemap s ij \<noteq> None" for ij
    proof (rule same)
      show "ij \<notin> run_slots va sz" using new(1) that by auto
    qed
    ultimately show ?thesis using True by simp
  next
    case False
    then show ?thesis using res isolated_same [OF iso s'(2,1)] by simp
  qed
  then show "isolated s' (if b then A \<union> run_slots va sz else A)"
    "\<And>ij. pagemap s ij \<noteq> None \<Longrightarrow> pagemap s' ij = pagemap s ij" by blast+
qed

text \<open>A step keeps the invariant, and the owned pages it does not hand out or take back keep their entries.\<close>

lemma isolated_step:
  assumes "vm_step s A s' B" "isolated s A"
  shows "isolated s' B" "vm_frame s s'" "\<And>ij. ij \<in> A \<inter> B \<Longrightarrow> pagemap s' ij = pagemap s ij"
proof -
  have ok: "vm_ok s" using assms(2) by (simp add: isolated_def)
  have old: "pagemap s ij \<noteq> None" if "ij \<in> A" for ij by (rule isolated_mapped [OF assms(2) that])
  have "isolated s' B \<and> vm_frame s s' \<and> (\<forall>ij \<in> A \<inter> B. pagemap s' ij = pagemap s ij)"
    using assms(1)
  proof cases
    case (alloc va attr)
    show ?thesis
    proof (cases rule: alloc_page_here [OF ok alloc(3-7), case_names oom mapped])
      case (mapped t p)
      then have t: "t = s'" "grown s s'" "vm_ok s'" "pagemap s' = (pagemap s)(va_idx va \<mapsto> NEW_L2_ENTRY attr (push_bit 12 p))"
        using alloc(2) by simp_all
      have "isolated s' (A \<union> {va_idx va})"
        by (rule isolated_grow [OF assms(2) t(2,3), of _ "{}"])
          (use t alloc(6) fresh_entry [OF mapped(4) alloc(7)] in auto)
      moreover have "va_idx va \<notin> A" using old alloc(6) by blast
      ultimately show ?thesis using alloc(1) t(2,4) by (auto simp: grown_def)
    qed (use alloc in simp)
  next
    case (no_page va attr)
    show ?thesis
      by (cases rule: alloc_page_here [OF ok no_page(3-7)]) (use no_page isolated_same [OF assms(2)] in \<open>auto simp: grown_def\<close>)
  next
    case (allocs va sz attr)
    then show ?thesis using isolated_allocs [OF assms(2) allocs(3,4,2)] old by simp
  next
    case (no_pages va sz attr)
    then show ?thesis using isolated_allocs [OF assms(2) no_pages(3,4,2)] old by simp
  next
    case (unmap va)
    then show ?thesis using isolated_unmap [OF assms(2)] by auto
  next
    case (device va pa attr)
    then show ?thesis using device_step [OF assms(2)] by (auto simp: grown_def)
  qed
  then show "isolated s' B" "vm_frame s s'" "\<And>ij. ij \<in> A \<inter> B \<Longrightarrow> pagemap s' ij = pagemap s ij" by auto
qed

lemma run_isolated: "vm_run s A \<Longrightarrow> isolated s A"
proof (induction rule: vm_run.induct)
  case (start s)
  then show ?case by (simp add: isolated_def)
next
  case (step s A s' B)
  then show ?case using isolated_step(1) by blast
qed

lemma owned_translate:
  assumes "isolated s A" "va_idx va \<in> A"
  obtains e where "pagemap s (va_idx va) = Some e" "IS_CACHED e" "mmu_translate s va = Some (PG_ALIGN e + PG_OFFSET va)"
    "\<not> page_free s (drop_bit 12 e)" "\<not> table_frame s (PG_ALIGN e)"
    "\<And>kl d. pagemap s kl = Some d \<Longrightarrow> IS_CACHED d \<Longrightarrow> drop_bit 12 d = drop_bit 12 e \<Longrightarrow> kl = va_idx va"
proof -
  obtain e where e: "pagemap s (va_idx va) = Some e" "IS_CACHED e" "\<not> table_frame s (PG_ALIGN e)"
    "\<And>kl d. pagemap s kl = Some d \<Longrightarrow> IS_CACHED d \<Longrightarrow> drop_bit 12 d = drop_bit 12 e \<Longrightarrow> kl = va_idx va"
    using assms unfolding isolated_def owned_slot_def by blast
  have "L1_INDEX va < 1023" using e(1) by (auto simp: pagemap_def va_idx_def split: if_splits)
  then have "mmu_translate s va = Some (PG_ALIGN e + PG_OFFSET va)"
    using mmu_translate_pagemap [of s va] assms(1) e(1,2) by (simp add: isolated_def va_idx_def)
  moreover have "\<not> page_free s (drop_bit 12 e)" using assms(1) e(1,2) unfolding isolated_def frames_taken_def by blast
  ultimately show ?thesis using that e by blast
qed

section \<open>Properties\<close>

text \<open>C10: In every history of allocating and releasing pages and mapping devices, an address of a page that
  \<^verbatim>\<open>vmm_alloc_page\<close> or \<^verbatim>\<open>vmm_alloc_pages\<close> has handed out is mapped to memory that is off the pool and no
  page table, and no other address below the recursive mapping reaches the same byte.\<close>

theorem allocated_pages_isolated:
  assumes "vm_run s A" "va_idx va \<in> A"
  shows "\<exists>p. mmu_translate s va = Some p \<and> \<not> page_free s (drop_bit 12 p) \<and> \<not> table_frame s (PG_ALIGN p)
    \<and> (\<forall>vb. L1_INDEX vb < 1023 \<longrightarrow> mmu_translate s vb = Some p \<longrightarrow> vb = va)"
proof -
  have iso: "isolated s A" by (rule run_isolated [OF assms(1)])
  obtain e where e: "mmu_translate s va = Some (PG_ALIGN e + PG_OFFSET va)" "\<not> page_free s (drop_bit 12 e)"
    "\<not> table_frame s (PG_ALIGN e)"
    and only: "\<And>kl d. pagemap s kl = Some d \<Longrightarrow> IS_CACHED d \<Longrightarrow> drop_bit 12 d = drop_bit 12 e \<Longrightarrow> kl = va_idx va"
    using owned_translate [OF iso assms(2)] by metis
  let ?p = "PG_ALIGN e + PG_OFFSET va"
  have p: "PG_ALIGN ?p = PG_ALIGN e" "PG_OFFSET ?p = PG_OFFSET va" by (simp_all add: page_add)
  then have "drop_bit 12 ?p = drop_bit 12 e" using drop_bit_PG_ALIGN by metis
  moreover have "vb = va" if vb: "L1_INDEX vb < 1023" "mmu_translate s vb = Some ?p" for vb
  proof -
    obtain d where d: "pagemap s (va_idx vb) = Some d" "IS_CACHED d" "PG_ALIGN d + PG_OFFSET vb = ?p"
      using vb mmu_translate_pagemap [of s vb] iso by (auto simp: isolated_def va_idx_def split: option.splits if_splits)
    then have f: "PG_ALIGN d = PG_ALIGN e" "PG_OFFSET vb = PG_OFFSET va"
      using page_add_inj [OF PG_ALIGN_aligned PG_ALIGN_aligned PG_OFFSET_lt PG_OFFSET_lt d(3)] by simp_all
    then have "va_idx vb = va_idx va" using only [OF d(1,2)] drop_bit_PG_ALIGN by metis
    then have "PG_ALIGN vb = PG_ALIGN va" unfolding va_idx_def by (simp only: index_eq_align)
    then show ?thesis using f(2) page_split by metis
  qed
  ultimately show ?thesis using e p(1) by auto
qed

text \<open>C11: No step of such a history changes what an owned page holds or where it lies, unless the step
  releases it.\<close>

theorem step_keeps_owned_memory:
  assumes "vm_run s A" "vm_step s A s' B" "va_idx va \<in> A \<inter> B"
  shows "mmu_translate s' va = mmu_translate s va \<and> vload8 s' va = vload8 s va \<and> vload8 s va \<noteq> None"
proof -
  have iso: "isolated s A" by (rule run_isolated [OF assms(1)])
  note st = isolated_step [OF assms(2) iso]
  obtain e where e: "pagemap s (va_idx va) = Some e" "mmu_translate s va = Some (PG_ALIGN e + PG_OFFSET va)"
    using owned_translate [OF iso] assms(3) by (metis IntD1)
  obtain d where d: "pagemap s' (va_idx va) = Some d" "mmu_translate s' va = Some (PG_ALIGN d + PG_OFFSET va)"
    "\<not> table_frame s' (PG_ALIGN d)"
    using owned_translate [OF st(1)] assms(3) by (metis IntD2)
  have "d = e" using e(1) d(1) st(3) [OF assms(3)] by simp
  moreover have "phys s' (PG_ALIGN d + PG_OFFSET va) = phys s (PG_ALIGN d + PG_OFFSET va)"
    using st(2) d(3) page_add(1) [OF PG_ALIGN_aligned PG_OFFSET_lt] by (metis vm_frame_def)
  ultimately show ?thesis using e(2) d(2) by (simp add: vload8_def)
qed

section \<open>A concrete history\<close>

text \<open>On the machine \<open>vm1\<close> the page at \<open>0x4000\<close> is requested, and then the one at \<open>0x5000\<close>.\<close>

lemma vm1_first:
  obtains s :: vm where "vm_run s {va_idx 0x4000}" "pagemap s (va_idx 0x5000) = None"
proof -
  let ?t = "vm1\<lparr>pg_lookup_ptr := 9, pm_bitmap := (pm_bitmap vm1)(1 := 0x40)\<rparr>"
  note al = alloc_page_vm [OF vm1_ok vm1_alloc]
  have idx: "va_idx 0x4000 = (0, 4)" "va_idx 0x5000 = (0, 5)" "slot 4 = (0, 4)" by (simp_all add: va_idx_def L1_INDEX_def L2_INDEX_def slot_def)
  have v: "vpn 0x4000 = 4" "full_range ?t 4 4" by (simp_all add: vpn_def full_range_def)
  have "vmm_map_page 0x4000 0x9000 3 ?t = Some (0x4000, upd_entry 0 4 (NEW_L2_ENTRY 3 0x9000) ?t)"
    using map_page_hit [of ?t "0x4000" "0x9000" 4 3] al(1,4,9) v vm1_pagemap vm1_l1e [of 0]
    by (simp add: idx V_ADDR_def PG_OFFSET_def)
  then have run: "vmm_alloc_page 0x4000 3 vm1 = Some (0x4000, upd_entry 0 4 (NEW_L2_ENTRY 3 0x9000) ?t)"
    using vm1_alloc by (simp add: vmm_alloc_page_def)
  have "frames_taken vm1"
    by (auto simp: frames_taken_def vm1_pagemap vm1_page_free word_le_nat_alt split: if_splits)
  then have "vm_run vm1 {}" by (rule vm_run.start [OF vm1_ok])
  moreover have "vm_step vm1 {} (upd_entry 0 4 (NEW_L2_ENTRY 3 0x9000) ?t) (insert (va_idx 0x4000) {})"
    by (rule vm_step.alloc [OF run]) (simp_all add: idx vm1_pagemap page_aligned_def PG_OFFSET_def L1_INDEX_def IS_CACHED_def)
  ultimately have "vm_run (upd_entry 0 4 (NEW_L2_ENTRY 3 0x9000) ?t) {va_idx 0x4000}" by (rule vm_run.step)
  moreover have "pagemap (upd_entry 0 4 (NEW_L2_ENTRY 3 0x9000) ?t) (0, 5) = None"
    using pagemap_upd [OF al(9), of 0 4 "NEW_L2_ENTRY 3 0x9000"] al(1,4) vm1_l1e [of 0] vm1_pagemap by simp
  ultimately show ?thesis using that by (simp add: idx)
qed

lemma vm1_second:
  assumes "vm_run s {va_idx 0x4000}" "pagemap s (va_idx 0x5000) = None"
  obtains s' B where "vm_step s {va_idx 0x4000} s' B" "va_idx 0x4000 \<in> B"
proof -
  have ok: "vm_ok s" using run_isolated [OF assms(1)] by (simp add: isolated_def)
  have va: "page_aligned 0x5000" "0x5000 \<noteq> (0 :: u32)" "L1_INDEX 0x5000 < 1023" "IS_CACHED 3"
    by (simp_all add: page_aligned_def PG_OFFSET_def L1_INDEX_def IS_CACHED_def)
  show ?thesis
  proof (cases rule: alloc_page_here [OF ok va(1-3) assms(2) va(4), case_names oom mapped])
    case (oom s')
    then show ?thesis using that vm_step.no_page [OF oom(1) va(1-3) assms(2) va(4)] by blast
  next
    case (mapped s' p)
    then show ?thesis using that vm_step.alloc [OF mapped(1) va(1-3) assms(2) va(4)] by blast
  qed
qed

lemma allocated_pages_isolated_witness:
  "\<exists>(s :: vm) A p. vm_run s A \<and> va_idx 0x4000 \<in> A \<and> mmu_translate s 0x4123 = Some p \<and> mmu_translate s 0x5123 \<noteq> Some p"
proof -
  obtain s :: vm where s: "vm_run s {va_idx 0x4000}" by (rule vm1_first)
  have i: "va_idx 0x4123 \<in> {va_idx 0x4000}" "L1_INDEX 0x5123 < 1023" by (simp_all add: va_idx_def L1_INDEX_def L2_INDEX_def)
  show ?thesis using allocated_pages_isolated [OF s i(1)] s i(2) by fastforce
qed

lemma step_keeps_owned_memory_witness:
  "\<exists>(s :: vm) A s' B. vm_run s A \<and> vm_step s A s' B \<and> vload8 s' 0x4000 = vload8 s 0x4000 \<and> vload8 s 0x4000 \<noteq> None"
proof -
  obtain s :: vm where s: "vm_run s {va_idx 0x4000}" "pagemap s (va_idx 0x5000) = None" by (rule vm1_first)
  obtain s' B where b: "vm_step s {va_idx 0x4000} s' B" "va_idx 0x4000 \<in> B" by (rule vm1_second [OF s])
  have "va_idx 0x4000 \<in> {va_idx 0x4000} \<inter> B" using b(2) by simp
  from step_keeps_owned_memory [OF s(1) b(1) this] show ?thesis using s(1) b(1) by blast
qed

end
