(* ===== verification/Reserved.thy ===== *)
theory Reserved
  imports KInit
begin

text \<open>
  Reserved memory, \<^verbatim>\<open>lock_reserved_memory\<close> and \<^verbatim>\<open>unlock_reserved_memory\<close> of \<^verbatim>\<open>kernel/k_init.c\<close>. Both read the boot
  loader's memory map while they change the page tables, so the first part shows that the map stays what it was:
  its bytes are \<open>held\<close> in frames that are neither page tables nor free. With that the loops over regions and
  pages are one fold over the list \<open>reserved_pages\<close>.
\<close>

section \<open>The pages of reserved regions\<close>

definition region_pages :: "region \<Rightarrow> u32 list" where
  "region_pages r = (if r_type r = MULTIBOOT_MEMORY_AVAILABLE then []
     else map (\<lambda>j. PG_ALIGN (ucast (r_base r)) + push_bit 12 (of_nat j)) [0..<unat (CEIL (ucast (r_length r)) 12)])"

definition reserved_pages :: "region list \<Rightarrow> u32 list" where
  "reserved_pages rs = concat (map region_pages rs)"

fun each_page :: "(u32 \<Rightarrow> kernel \<Rightarrow> kernel option) \<Rightarrow> u32 list \<Rightarrow> kernel \<Rightarrow> kernel option" where
  "each_page f [] k = Some k"
| "each_page f (p # ps) k = do { k \<leftarrow> f p k; each_page f ps k }"

lemma each_page_append: "each_page f (ps @ qs) k = each_page f ps k \<bind> each_page f qs"
  by (induction ps arbitrary: k) (auto split: Option.bind_splits)

lemma for_pages_each:
  "for_pages f pa n (of_nat i) k = each_page f (map (\<lambda>j. pa + push_bit 12 (of_nat j)) [i..<i + n]) k"
proof (induction n arbitrary: i k)
  case (Suc n)
  have "of_nat i + 1 = (of_nat (Suc i) :: u32)" by simp
  then show ?case using Suc [of "Suc i"] by (simp add: upt_conv_Cons PG_SIZE_BITS_def cong: Option.bind_cong del: of_nat_Suc upt_Suc)
qed simp

lemma page_aligned_mod: "page_aligned f \<longleftrightarrow> unat f mod 4096 = 0"
  by (simp add: page_aligned_def word_unat_eq_iff unat_PG_OFFSET)

lemma push_page_aligned: "page_aligned f \<Longrightarrow> page_aligned (f + push_bit 12 n)"
proof -
  assume "page_aligned f"
  moreover have "unat (push_bit 12 n :: u32) mod 4096 = 0"
    by (simp add: push_bit_eq_mult unat_word_ariths mod_mod_cancel)
  ultimately have "(unat f + unat (push_bit 12 n :: u32)) mod 4096 = 0" unfolding page_aligned_mod by (metis mod_add_eq add_0 mod_0)
  then show ?thesis unfolding page_aligned_mod by (simp add: unat_word_ariths mod_mod_cancel)
qed

lemma reserved_aligned: "p \<in> set (reserved_pages rs) \<Longrightarrow> page_aligned p"
  by (auto simp: reserved_pages_def region_pages_def push_page_aligned split: if_splits)

text \<open>The loop over the map is the fold, as long as the map can be read at every point of it.\<close>

lemma for_reserved_each:
  assumes "regions_at k p rs"
    and "\<And>ps qs k'. reserved_pages rs = ps @ qs \<Longrightarrow> each_page f ps k = Some k' \<Longrightarrow> regions_at k' p rs"
  shows "for_reserved f (length rs) p k = each_page f (reserved_pages rs) k"
  using assms
proof (induction rs arbitrary: k p)
  case (Cons r rs)
  have at: "region_at k p r" using Cons.prems(1) by simp
  have first: "for_reserved f (Suc n) p k = each_page f (region_pages r) k \<bind> for_reserved f n (p + sizeof_mmap)" for n
    using at for_pages_each [where i = 0]
    by (auto simp: region_at_def region_pages_def PG_SIZE_BITS_def)
  have split: "reserved_pages (r # rs) = region_pages r @ reserved_pages rs" by (simp add: reserved_pages_def)
  have "for_reserved f (length rs) (p + sizeof_mmap) k1 = each_page f (reserved_pages rs) k1"
    if k1: "each_page f (region_pages r) k = Some k1" for k1
  proof (rule Cons.IH)
    show "regions_at k1 (p + sizeof_mmap) rs" using Cons.prems(2) [OF split k1] by simp
    show "regions_at k' (p + sizeof_mmap) rs" if "reserved_pages rs = ps @ qs" "each_page f ps k1 = Some k'" for ps qs k'
      using Cons.prems(2) [of "region_pages r @ ps" qs k'] that k1 by (simp add: split each_page_append)
  qed
  then show ?case by (cases "each_page f (region_pages r) k") (simp_all add: first split each_page_append del: for_reserved.simps)
qed (simp add: reserved_pages_def)

section \<open>Bytes that stay\<close>

definition held :: "'a vm_scheme \<Rightarrow> u32 \<Rightarrow> bool" where
  "held s a \<longleftrightarrow> L1_INDEX a < 1023 \<and> (\<exists>p. mmu_translate s a = Some p \<and> \<not> table_frame s (PG_ALIGN p) \<and> \<not> page_free s (drop_bit 12 p))"

definition same_bytes :: "u32 set \<Rightarrow> 'a vm_scheme \<Rightarrow> 'a vm_scheme \<Rightarrow> bool" where
  "same_bytes A s s' \<longleftrightarrow> (\<forall>a \<in> A. vload8 s' a = vload8 s a \<and> vload8 s a \<noteq> None)"

lemma translate_entry:
  assumes "vm_ok s" "vm_ok s'" "L1_INDEX a < 1023" "pagemap s' (va_idx a) = pagemap s (va_idx a)"
  shows "mmu_translate s' a = mmu_translate s a"
  using assms by (simp add: mmu_translate_pagemap va_idx_def)

lemma held_byte:
  assumes "held s a" "vm_ok s" "vm_ok s'" "vm_frame s s'" "pagemap s' (va_idx a) = pagemap s (va_idx a)"
    and "\<And>f. table_frame s' f \<Longrightarrow> table_frame s f \<or> page_free s (drop_bit 12 f)"
  shows "vload8 s' a = vload8 s a" "vload8 s a \<noteq> None"
proof -
  obtain p where p: "mmu_translate s a = Some p" "\<not> table_frame s (PG_ALIGN p)" "\<not> page_free s (drop_bit 12 p)"
    using assms(1) by (auto simp: held_def)
  have "\<not> table_frame s' (PG_ALIGN p)" using assms(6) [of "PG_ALIGN p"] p by (auto simp: drop_bit_PG_ALIGN)
  then have "phys s' p = phys s p" using assms(4) by (simp add: vm_frame_def)
  moreover have "mmu_translate s' a = Some p" using translate_entry [OF assms(2,3) _ assms(5)] assms(1) p(1) by (simp add: held_def)
  ultimately show "vload8 s' a = vload8 s a" "vload8 s a \<noteq> None" using p(1) by (simp_all add: vload8_def)
qed

lemma held_grown:
  assumes "held s a" "vm_ok s" "vm_ok s'" "grown s s'" "pagemap s' (va_idx a) = pagemap s (va_idx a)"
  shows "held s' a"
  using assms translate_entry [OF assms(2,3) _ assms(5)] unfolding held_def grown_def
  by (metis drop_bit_PG_ALIGN)

text \<open>A word is what its bytes are.\<close>

lemma load_same_bytes:
  assumes "same_bytes A s s'" "a \<in> A" "a + 1 \<in> A" "a + 2 \<in> A" "a + 3 \<in> A"
  shows "vload32 s' a = vload32 s a"
proof -
  have b: "\<exists>p q. mmu_translate s b = Some p \<and> mmu_translate s' b = Some q \<and> phys s' q = phys s p" if "b \<in> A" for b
    using assms(1) that unfolding same_bytes_def vload8_def by (cases "mmu_translate s b"; cases "mmu_translate s' b") auto
  show ?thesis using b [OF assms(2)] b [OF assms(3)] b [OF assms(4)] b [OF assms(5)] by (auto simp: vload32_def)
qed

definition map_bytes :: "u32 \<Rightarrow> nat \<Rightarrow> u32 set" where
  "map_bytes p n = {p + of_nat d |d. d < 24 * n}"

lemma regions_same_bytes:
  assumes "regions_at k p rs" "same_bytes A k k'" "map_bytes p (length rs) \<subseteq> A"
  shows "regions_at k' p rs"
  using assms(1,3)
proof (induction rs arbitrary: p)
  case (Cons r rs)
  have word: "vload32 k' (p + of_nat d) = vload32 k (p + of_nat d)" if "d + 4 \<le> 24" for d
  proof -
    have at: "p + of_nat e \<in> A" if "e < 24" for e
      using Cons.prems(2) that unfolding map_bytes_def by force
    have "p + of_nat d + of_nat i \<in> A" if "i < 4" for i
      using at [of "d + i"] that \<open>d + 4 \<le> 24\<close> by (simp add: add.assoc)
    from this [of 0] this [of 1] this [of 2] this [of 3] show ?thesis
      by (intro load_same_bytes [OF assms(2)]) simp_all
  qed
  have "map_bytes (p + sizeof_mmap) (length rs) \<subseteq> map_bytes p (length (r # rs))"
    by (auto simp: map_bytes_def sizeof_mmap_def) (rule_tac x = "24 + d" in exI, simp)
  then have "regions_at k' (p + sizeof_mmap) rs" using Cons by auto
  moreover have "region_at k' p r"
    using Cons.prems(1) word [of 4] word [of 8] word [of 12] word [of 16] word [of 20]
    by (simp add: region_at_def mmap_addr_low_def mmap_len_low_def mmap_type_def)
  ultimately show ?case by simp
qed simp

text \<open>The memory map the boot loader left, in bytes that stay.\<close>

definition map_held :: "u32 \<Rightarrow> region list \<Rightarrow> kernel \<Rightarrow> bool" where
  "map_held mb rs k \<longleftrightarrow> (\<exists>p. vload32 k (mbi_mmap_addr mb) = Some p \<and> vload32 k (mbi_mmap_length mb) = Some (24 * of_nat (length rs))
     \<and> length rs < 100000000 \<and> regions_at k p rs
     \<and> (\<forall>a \<in> map_bytes (mbi_mmap_length mb) 1 \<union> map_bytes p (length rs). held k a))"

lemma map_held_bytes:
  assumes "map_held mb rs k"
  obtains p A where "vload32 k (mbi_mmap_addr mb) = Some p" "vload32 k (mbi_mmap_length mb) = Some (24 * of_nat (length rs))"
    "regions_at k p rs" "unat (24 * of_nat (length rs) div sizeof_mmap :: u32) = length rs" "\<forall>a \<in> A. held k a"
    "\<And>k'. same_bytes A k k' \<Longrightarrow> vload32 k' (mbi_mmap_addr mb) = Some p
       \<and> vload32 k' (mbi_mmap_length mb) = Some (24 * of_nat (length rs)) \<and> regions_at k' p rs"
    "\<And>k'. same_bytes A k k' \<Longrightarrow> (\<And>a. a \<in> A \<Longrightarrow> held k' a) \<Longrightarrow> map_held mb rs k'"
proof -
  obtain p where p: "vload32 k (mbi_mmap_addr mb) = Some p" "vload32 k (mbi_mmap_length mb) = Some (24 * of_nat (length rs))"
    "length rs < 100000000" "regions_at k p rs" "\<forall>a \<in> map_bytes (mbi_mmap_length mb) 1 \<union> map_bytes p (length rs). held k a"
    using assms by (auto simp: map_held_def)
  let ?A = "map_bytes (mbi_mmap_length mb) 1 \<union> map_bytes p (length rs)"
  have f: "mbi_mmap_length mb + of_nat i \<in> ?A" if "i < 24" for i using that by (auto simp: map_bytes_def)
  have a: "mbi_mmap_addr mb = mbi_mmap_length mb + 4" by (simp add: mbi_mmap_addr_def mbi_mmap_length_def)
  have same: "vload32 k' (mbi_mmap_addr mb) = Some p \<and> vload32 k' (mbi_mmap_length mb) = Some (24 * of_nat (length rs)) \<and> regions_at k' p rs"
    if "same_bytes ?A k k'" for k'
    using load_same_bytes [OF that, of "mbi_mmap_length mb"] load_same_bytes [OF that, of "mbi_mmap_length mb + 4"]
      f [of 0] f [of 1] f [of 2] f [of 3] f [of 4] f [of 5] f [of 6] f [of 7] p(1,2) regions_same_bytes [OF p(4) that]
    by (simp add: a add.assoc)
  have "unat (24 * of_nat (length rs) :: u32) = 24 * length rs"
    using p(3) unat_of_nat_u32 [of "24 * length rs"] by simp
  then have n: "unat (24 * of_nat (length rs) div sizeof_mmap :: u32) = length rs" by (simp add: sizeof_mmap_def unat_div)
  show ?thesis
  proof (rule that [OF p(1,2,4) n, of ?A])
    show "\<forall>a \<in> ?A. held k a" by (rule p(5))
    show "map_held mb rs k'" if "same_bytes ?A k k'" "\<And>a. a \<in> ?A \<Longrightarrow> held k' a" for k'
      using same [OF that(1)] that(2) p(3) unfolding map_held_def by blast
  qed (rule same)
qed

section \<open>Locking\<close>

abbreviation lock_page :: "u32 \<Rightarrow> kernel \<Rightarrow> kernel option" where
  "lock_page \<equiv> \<lambda>p. vmm_set_mapping p p PG_PREM_R"

text \<open>The directory slots of the pages \<open>ps\<close> below which nothing is mapped: each takes at most one page table.\<close>

definition empty_tables :: "'a vm_scheme \<Rightarrow> u32 list \<Rightarrow> u32 set" where
  "empty_tables s ps = {i. i < 1023 \<and> i \<in> L1_INDEX ` set ps \<and> (\<forall>j. pagemap s (i, j) = None)}"

lemma finite_empty_tables [simp]: "finite (empty_tables s ps)"
  by (rule finite_subset [of _ "L1_INDEX ` set ps"]) (auto simp: empty_tables_def)

lemma map_present_pool:
  assumes "vm_ok s" "i < 1023" "l1e s i \<noteq> 0" "vmm_map_internal i j pa attr False s = Some (r, s')"
  shows "same_pool s' s"
proof -
  have "i < 1024" using assms(2) by (rule l1_index_small)
  then show ?thesis using assms(3,4) pt_dir(1) [OF assms(1)] map_entry_pool
    by (auto simp: vmm_map_internal_def Let_def split: Option.bind_splits if_splits)
qed

lemma R_present [simp]: "IS_CACHED PG_PREM_R"
  by (simp add: IS_CACHED_def page_consts)

lemma lock_step:
  assumes "vm_ok s"
  obtains s' where "vmm_set_mapping p p PG_PREM_R s = Some s'" "vm_ok s'" "grown s s'" "max_pg s' = max_pg s"
    "\<And>ij. pagemap s ij \<noteq> None \<Longrightarrow> pagemap s' ij = pagemap s ij"
    "\<And>ij. pagemap s ij = None \<Longrightarrow> pagemap s' ij = None \<or> L1_INDEX p < 1023 \<and> ij = va_idx p \<and> pagemap s' ij = Some (NEW_L2_ENTRY PG_PREM_R p)"
    "\<And>ps. spare s (card (empty_tables s (p # ps))) \<Longrightarrow> spare s' (card (empty_tables s' ps))"
    "\<And>ps. spare s (card (empty_tables s (p # ps))) \<Longrightarrow> L1_INDEX p < 1023 \<Longrightarrow> pagemap s' (va_idx p) \<noteq> None"
proof (cases "L1_INDEX p = 1023")
  case True
  have "card (empty_tables s ps) \<le> card (empty_tables s (p # ps))" for ps
    by (rule card_mono) (auto simp: empty_tables_def)
  then have "spare s (card (empty_tables s ps))" if "spare s (card (empty_tables s (p # ps)))" for ps
    using that spare_less le_Suc_ex by metis
  then show ?thesis using True assms by (intro that [of s]) (simp_all add: vmm_set_mapping_def)
next
  case False
  then have i: "L1_INDEX p < 1023" using L1_INDEX_lt [of p] by (simp add: word_less_nat_alt word_unat_eq_iff)
  let ?T = "\<lambda>s ps. empty_tables s ps"
  have sub: "spare u (card (?T u ps))" if "spare u (card (?T s (p # ps)))" "pagemap u = pagemap s" for u ps
  proof -
    have "card (?T u ps) \<le> card (?T s (p # ps))" using that(2) by (intro card_mono) (auto simp: empty_tables_def)
    then show ?thesis using that(1) spare_less le_Suc_ex by metis
  qed
  have eq: "vmm_set_mapping p p PG_PREM_R s = map_option snd (vmm_map_internal (L1_INDEX p) (L2_INDEX p) p PG_PREM_R False s)"
    using False by (simp add: vmm_set_mapping_def)
  show ?thesis
  proof (cases rule: map_internal_fresh [OF assms i L2_INDEX_lt [of p] R_present, where pa = p, case_names kept full set])
    case kept
    then show ?thesis using assms sub [of s] by (intro that [of s]) (auto simp: eq va_idx_def)
  next
    case (full t)
    note al = alloc_page_vm [OF assms full(3)]
    have "L1_INDEX p \<in> ?T s (p # ps)" for ps using i full(2) by (simp add: empty_tables_def pagemap_absent)
    then have "card (?T s (p # ps)) \<noteq> 0" for ps by (metis card_0_eq empty_iff finite_empty_tables)
    then have no: "\<not> spare s (card (?T s (p # ps)))" for ps
      using spare_alloc [OF vm_okD(1) [OF assms]] full(3) by (metis not0_implies_Suc option.inject prod.inject)
    have "max_pg t = max_pg s" using pmm_alloc_page_frame [OF vm_okD(1) [OF assms]] full(3) by auto
    then show ?thesis using full(1) al(4,9) grown_alloc [OF assms full(3)] no by (intro that [of t]) (auto simp: eq)
  next
    case (set t)
    have grown: "grown s t" using set(4,7,9) by (simp add: grown_def)
    have idx: "(L1_INDEX p, L2_INDEX p) = va_idx p" by (simp add: va_idx_def)
    have "max_pg t = max_pg s" using mem_step_map [OF set(1) vm_okD(1) [OF assms]] by (auto simp: mem_step_def)
    moreover have "spare t (card (?T t ps))" if sp: "spare s (card (?T s (p # ps)))" for ps
    proof (cases "l1e s (L1_INDEX p) = 0")
      case True
      have "L1_INDEX p \<in> ?T s (p # ps)" using i True by (simp add: empty_tables_def pagemap_absent)
      moreover have "?T t ps \<subseteq> ?T s (p # ps) - {L1_INDEX p}"
        using set(5) by (auto simp: empty_tables_def split: if_splits)
      ultimately have "Suc (card (?T t ps)) \<le> card (?T s (p # ps))"
        by (metis Suc_leI card_Diff1_less card_mono finite_Diff finite_empty_tables order_le_less_trans)
      then have "spare s (Suc (card (?T t ps)))" using sp spare_less le_Suc_ex by metis
      then show ?thesis by (rule map_internal_spare [OF set(1) vm_okD(1) [OF assms]])
    next
      case False
      have "card (?T t ps) \<le> card (?T s (p # ps))"
        using set(5) by (intro card_mono) (auto simp: empty_tables_def split: if_splits)
      then have "spare s (card (?T t ps))" using sp spare_less le_Suc_ex by metis
      then show ?thesis using spare_cong [OF map_present_pool [OF assms i False set(1)]] by blast
    qed
    ultimately show ?thesis using set(1-3,5) grown i by (intro that [of t]) (auto simp: eq idx split: if_splits)
  qed
qed

lemma lock_pages:
  assumes "vm_ok k"
  obtains k' where "each_page lock_page ps k = Some k'" "vm_ok k'" "grown k k'" "max_pg k' = max_pg k"
    "\<And>ij. pagemap k ij \<noteq> None \<Longrightarrow> pagemap k' ij = pagemap k ij"
    "\<And>ij e. pagemap k ij = None \<Longrightarrow> pagemap k' ij = Some e \<Longrightarrow>
       \<exists>p \<in> set ps. L1_INDEX p < 1023 \<and> ij = va_idx p \<and> e = NEW_L2_ENTRY PG_PREM_R p"
    "\<And>p. spare k (card (empty_tables k ps)) \<Longrightarrow> p \<in> set ps \<Longrightarrow> L1_INDEX p < 1023 \<Longrightarrow> pagemap k' (va_idx p) \<noteq> None"
  using assms
proof (induction ps arbitrary: k thesis)
  case Nil
  show ?case by (rule Nil(1) [of k]) (use Nil(2) in simp_all)
next
  case (Cons p ps)
  obtain k1 where 1: "vmm_set_mapping p p PG_PREM_R k = Some k1" "vm_ok k1" "grown k k1" "max_pg k1 = max_pg k"
    "\<And>ij. pagemap k ij \<noteq> None \<Longrightarrow> pagemap k1 ij = pagemap k ij"
    "\<And>ij. pagemap k ij = None \<Longrightarrow> pagemap k1 ij = None \<or> L1_INDEX p < 1023 \<and> ij = va_idx p \<and> pagemap k1 ij = Some (NEW_L2_ENTRY PG_PREM_R p)"
    "\<And>ps. spare k (card (empty_tables k (p # ps))) \<Longrightarrow> spare k1 (card (empty_tables k1 ps))"
    "\<And>ps. spare k (card (empty_tables k (p # ps))) \<Longrightarrow> L1_INDEX p < 1023 \<Longrightarrow> pagemap k1 (va_idx p) \<noteq> None"
    by (rule lock_step [OF Cons.prems(2), of p]) blast
  obtain k2 where 2: "each_page lock_page ps k1 = Some k2" "vm_ok k2" "grown k1 k2" "max_pg k2 = max_pg k1"
    "\<And>ij. pagemap k1 ij \<noteq> None \<Longrightarrow> pagemap k2 ij = pagemap k1 ij"
    "\<And>ij e. pagemap k1 ij = None \<Longrightarrow> pagemap k2 ij = Some e \<Longrightarrow>
       \<exists>p \<in> set ps. L1_INDEX p < 1023 \<and> ij = va_idx p \<and> e = NEW_L2_ENTRY PG_PREM_R p"
    "\<And>p. spare k1 (card (empty_tables k1 ps)) \<Longrightarrow> p \<in> set ps \<Longrightarrow> L1_INDEX p < 1023 \<Longrightarrow> pagemap k2 (va_idx p) \<noteq> None"
    by (rule Cons.IH [OF _ 1(2)]) blast
  show ?case
  proof (rule Cons.prems(1) [of k2])
    show "each_page lock_page (p # ps) k = Some k2" using 1(1) 2(1) by simp
    show "vm_ok k2" "grown k k2" "max_pg k2 = max_pg k" using 2(2,4) 1(4) grown_trans [OF 1(3) 2(3)] by simp_all
    show "pagemap k2 ij = pagemap k ij" if "pagemap k ij \<noteq> None" for ij using 1(5) [OF that] 2(5) [of ij] that by simp
    show "\<exists>p \<in> set (p # ps). L1_INDEX p < 1023 \<and> ij = va_idx p \<and> e = NEW_L2_ENTRY PG_PREM_R p"
      if "pagemap k ij = None" "pagemap k2 ij = Some e" for ij e
    proof (cases "pagemap k1 ij")
      case None
      then show ?thesis using 2(6) that(2) by auto
    next
      case (Some d)
      then show ?thesis using 1(6) [OF that(1)] 2(5) [of ij] that(2) by auto
    qed
    show "pagemap k2 (va_idx q) \<noteq> None"
      if "spare k (card (empty_tables k (p # ps)))" "q \<in> set (p # ps)" "L1_INDEX q < 1023" for q
      using that 1(7,8) [OF that(1)] 2(5) [of "va_idx p"] 2(7) by (cases "q = p") auto
  qed
qed

text \<open>An address lies in a reserved page, and the entry of such a page maps it to itself.\<close>

definition reserved :: "region list \<Rightarrow> u32 \<Rightarrow> bool" where
  "reserved rs va \<longleftrightarrow> PG_ALIGN va \<in> set (reserved_pages rs)"

text \<open>The pages of a region below 4 GiB: from that of its first byte as many as its length alone takes. When the start is
  inside a page, the page of the last byte can be missing.\<close>

definition below_4g :: "region \<Rightarrow> bool" where
  "below_4g r \<longleftrightarrow> unat (r_base r) < 4294967296 \<and> unat (r_base r) + unat (r_length r) \<le> 4294967296
     \<and> unat (r_length r) + 4095 < 4294967296"

lemma region_page_iff:
  assumes "r_type r \<noteq> MULTIBOOT_MEMORY_AVAILABLE" "below_4g r" "page_aligned p"
  shows "p \<in> set (region_pages r) \<longleftrightarrow> unat (r_base r) div 4096 \<le> unat p div 4096
    \<and> unat p div 4096 < unat (r_base r) div 4096 + (unat (r_length r) + 4095) div 4096"
proof -
  let ?b = "unat (r_base r)" and ?n = "(unat (r_length r) + 4095) div 4096"
  have u: "unat (ucast (r_base r) :: u32) = ?b" "unat (ucast (r_length r) :: u32) = unat (r_length r)"
    using assms(2) by (simp_all add: unat_ucast_u64 below_4g_def)
  have f: "unat (PG_ALIGN (ucast (r_base r))) = 4096 * (?b div 4096)"
    using unat_PG_ALIGN_vpn [of "ucast (r_base r)"] by (simp add: vpn_def u)
  have c: "unat (CEIL (ucast (r_length r)) 12) = ?n"
  proof -
    have "unat (ucast (r_length r) + push_bit 12 1 - 1 :: u32) = unat (r_length r) + 4095"
    proof -
      have "ucast (r_length r) + push_bit 12 1 - 1 = (ucast (r_length r) + 4095 :: u32)" by simp
      then show ?thesis using assms(2) u(2) by (simp only:) (subst unat_add_u32; simp add: u below_4g_def)
    qed
    then show ?thesis unfolding CEIL_def unat_drop_bit_eq by (simp only: drop_bit_eq_div) simp
  qed
  have pg: "unat (PG_ALIGN (ucast (r_base r)) + push_bit 12 (of_nat j)) = 4096 * (?b div 4096 + j)" if "j < ?n" for j
  proof -
    have "4096 * (?b div 4096) \<le> ?b" "4096 * ?n \<le> unat (r_length r) + 4095" by simp_all
    then have le: "4096 * (?b div 4096) + 4096 * j < 4294967296" using that assms(2) unfolding below_4g_def by linarith
    then have "unat (push_bit 12 (of_nat j) :: u32) = 4096 * j"
      using unat_of_nat_u32 [of "4096 * j"] by (simp add: push_bit_eq_mult mult.commute)
    then show ?thesis using le f by (subst unat_add_u32) simp_all
  qed
  have "p \<in> set (region_pages r) \<longleftrightarrow> (\<exists>j < ?n. p = PG_ALIGN (ucast (r_base r)) + push_bit 12 (of_nat j))"
    using assms(1) by (auto simp: region_pages_def c)
  also have "\<dots> \<longleftrightarrow> (\<exists>j < ?n. unat p = 4096 * (?b div 4096 + j))"
    using pg by (metis word_unat_eq_iff)
  also have "\<dots> \<longleftrightarrow> (\<exists>j < ?n. unat p div 4096 = ?b div 4096 + j)"
    using assms(3) mult_div_mod_eq [of 4096 "unat p"] by (auto simp: page_aligned_mod)
  also have "\<dots> \<longleftrightarrow> ?b div 4096 \<le> unat p div 4096 \<and> unat p div 4096 < ?b div 4096 + ?n"
    by (auto intro: exI [of _ "unat p div 4096 - ?b div 4096"])
  finally show ?thesis .
qed

text \<open>The bytes the map reports as reserved, and the maps of which every such byte lies in one of those pages: a region
  that starts inside a page needs no page more than its length.\<close>

definition reserved_byte :: "region list \<Rightarrow> u32 \<Rightarrow> bool" where
  "reserved_byte rs va \<longleftrightarrow> (\<exists>r \<in> set rs. r_type r \<noteq> MULTIBOOT_MEMORY_AVAILABLE
     \<and> unat (r_base r) \<le> unat va \<and> unat va < unat (r_base r) + unat (r_length r))"

definition lockable :: "region list \<Rightarrow> bool" where
  "lockable rs \<longleftrightarrow> (\<forall>r \<in> set rs. r_type r \<noteq> MULTIBOOT_MEMORY_AVAILABLE \<longrightarrow>
     below_4g r \<and> unat (r_base r) mod 4096 + unat (r_length r) \<le> 4096 * ((unat (r_length r) + 4095) div 4096))"

lemma region_covered:
  assumes "lockable rs" "reserved_byte rs va"
  shows "reserved rs va"
proof -
  obtain r where r: "r \<in> set rs" "r_type r \<noteq> MULTIBOOT_MEMORY_AVAILABLE" "unat (r_base r) \<le> unat va"
    "unat va < unat (r_base r) + unat (r_length r)" using assms(2) by (auto simp: reserved_byte_def)
  then have l: "below_4g r" "unat (r_base r) mod 4096 + unat (r_length r) \<le> 4096 * ((unat (r_length r) + 4095) div 4096)"
    using assms(1) by (auto simp: lockable_def)
  have d: "unat (PG_ALIGN va) div 4096 = unat va div 4096" using unat_PG_ALIGN_vpn [of va] by (simp add: vpn_def)
  have "v < 4096 * (x + z)" if "v < b + l" "y + l \<le> 4096 * z" "x * 4096 + y = b" for v b l x y z :: nat
    using that by (simp add: algebra_simps)
  from this [OF r(4) l(2) div_mult_mod_eq]
  have "unat va < 4096 * (unat (r_base r) div 4096 + (unat (r_length r) + 4095) div 4096)" .
  then have "unat va div 4096 < unat (r_base r) div 4096 + (unat (r_length r) + 4095) div 4096"
    by (simp add: div_less_iff_less_mult mult.commute)
  then have "PG_ALIGN va \<in> set (region_pages r)"
    using div_le_mono [OF r(3), of 4096] by (subst region_page_iff [OF r(2) l(1)]) (simp_all add: d)
  then show ?thesis using r(1) by (auto simp: reserved_def reserved_pages_def)
qed

lemma reserved_has_byte:
  assumes "lockable rs" "reserved rs va"
  shows "\<exists>b. reserved_byte rs b \<and> PG_ALIGN b = PG_ALIGN va"
proof -
  obtain r where r: "r \<in> set rs" "PG_ALIGN va \<in> set (region_pages r)"
    using assms(2) by (auto simp: reserved_def reserved_pages_def)
  then have t: "r_type r \<noteq> MULTIBOOT_MEMORY_AVAILABLE" by (auto simp: region_pages_def)
  let ?b = "unat (r_base r)" and ?l = "unat (r_length r)" and ?q = "unat va div 4096"
  have l: "below_4g r" using assms(1) r(1) t by (auto simp: lockable_def)
  have d: "unat (PG_ALIGN va) div 4096 = ?q" using unat_PG_ALIGN_vpn [of va] by (simp add: vpn_def)
  have p: "?b div 4096 \<le> ?q" "?q < ?b div 4096 + (?l + 4095) div 4096"
    using r(2) by (subst (asm) region_page_iff [OF t l]; simp add: d)+
  define x where "x = max ?b (4096 * ?q)"
  have n: "Suc (?q - ?b div 4096) * 4096 \<le> ?l + 4095"
    using p by (simp only: less_eq_div_iff_mult_less_eq [symmetric] zero_less_numeral)
  have x: "?b \<le> x" "x < ?b + ?l" "x div 4096 = ?q"
  proof -
    have q: "?q = ?b div 4096 + (?q - ?b div 4096)" using p(1) by simp
    have b: "4096 * (?b div 4096) \<le> ?b" "?b < 4096 * (?b div 4096) + 4096" by simp_all
    show "?b \<le> x" by (simp add: x_def)
    have "4096 * u < v + l" "0 < l" if "Suc j * 4096 \<le> l + 4095" "u = w + j" "4096 * w \<le> v" for j l u v w :: nat
      using that by (simp_all add: algebra_simps)
    from this [OF n q b(1)] show "x < ?b + ?l" by (simp add: x_def)
    show "x div 4096 = ?q"
    proof (cases "?b \<le> 4096 * ?q")
      case False
      then have "?q = ?b div 4096" using q b p(1) by (simp add: not_le less_mult_imp_div_less nat_less_le)
      then show ?thesis using False by (simp add: x_def)
    qed (simp add: x_def)
  qed
  then have u: "unat (of_nat x :: u32) = x" using l by (intro unat_of_nat_u32) (simp add: below_4g_def)
  have "unat (PG_ALIGN (of_nat x)) = unat (PG_ALIGN va)"
    using unat_PG_ALIGN_vpn [of va] unat_PG_ALIGN_vpn [of "of_nat x"] u x(3) by (simp add: vpn_def)
  then have "PG_ALIGN (of_nat x) = PG_ALIGN va" by (simp add: word_unat_eq_iff)
  moreover have "reserved_byte rs (of_nat x)" using r(1) t x(1,2) unfolding reserved_byte_def u by blast
  ultimately show ?thesis by blast
qed

lemma straddling_region_cut:
  assumes "r_type r \<noteq> MULTIBOOT_MEMORY_AVAILABLE" "below_4g r"
    "unat va = unat (r_base r) + unat (r_length r) - 1" "0 < unat (r_length r)"
    "4096 < unat (r_base r) mod 4096 + ((unat (r_length r) - 1) mod 4096 + 1)"
  shows "\<not> reserved [r] va"
proof -
  let ?b = "unat (r_base r)" and ?l = "unat (r_length r)"
  have d: "unat (PG_ALIGN va) div 4096 = unat va div 4096" using unat_PG_ALIGN_vpn [of va] by (simp add: vpn_def)
  obtain m where m: "?l = Suc m" using assms(4) by (cases ?l) auto
  have "4096 * (?b div 4096 + m div 4096 + 1) \<le> unat va"
  proof -
    have "4095 < ?b mod 4096 + m mod 4096" "unat va = ?b + m" using assms(3,5) m by simp_all
    moreover have "4096 * (x + z + 1) \<le> b + c" if "4096 * x + y = b" "4096 * z + w = c" "4095 < y + w" for x y z w b c :: nat
      using that by (simp add: algebra_simps)
    ultimately show ?thesis using mult_div_mod_eq [of 4096 ?b] mult_div_mod_eq [of 4096 m] by metis
  qed
  then have "(4096 * (?b div 4096 + m div 4096 + 1)) div 4096 \<le> unat va div 4096" by (rule div_le_mono)
  moreover have "(?l + 4095) div 4096 = m div 4096 + 1" using m by simp
  ultimately have "?b div 4096 + (?l + 4095) div 4096 \<le> unat va div 4096" by simp
  then have "PG_ALIGN va \<notin> set (region_pages r)" by (subst region_page_iff [OF assms(1,2)]) (simp_all add: d)
  then show ?thesis by (simp add: reserved_def reserved_pages_def)
qed

lemma reserved_slot:
  assumes "p \<in> set (reserved_pages rs)"
  shows "va_idx va = va_idx p \<longleftrightarrow> PG_ALIGN va = p"
  using reserved_aligned [OF assms] index_eq_align [of va p] by (simp add: va_idx_def PG_ALIGN_id)

lemma align_idx: "va_idx (PG_ALIGN va) = va_idx va"
  using index_eq_align [of "PG_ALIGN va" va] by (simp add: va_idx_def PG_ALIGN_id)

lemma identity_entry:
  assumes "vm_ok k" "L1_INDEX va < 1023" "pagemap k (va_idx va) = Some (NEW_L2_ENTRY PG_PREM_R (PG_ALIGN va))"
  shows "mmu_translate k va = Some va"
  using assms by (simp add: mmu_translate_pagemap va_idx_def PG_ALIGN_id page_split)

lemma lock_keeps_held:
  assumes "\<forall>a \<in> A. held k a" "vm_ok k" "each_page lock_page ps k = Some k'"
  shows "same_bytes A k k' \<and> (\<forall>a \<in> A. held k' a \<and> pagemap k' (va_idx a) = pagemap k (va_idx a) \<and> pagemap k (va_idx a) \<noteq> None)"
proof -
  have h: "held k a" if "a \<in> A" for a using assms(1) that by blast
  obtain k1 where k1: "each_page lock_page ps k = Some k1" "vm_ok k1" "grown k k1"
    "\<And>ij. pagemap k ij \<noteq> None \<Longrightarrow> pagemap k1 ij = pagemap k ij"
    by (rule lock_pages [OF assms(2), of ps]) blast
  have k': "k' = k1" using assms(3) k1(1) by simp
  have a: "pagemap k (va_idx a) \<noteq> None" if "a \<in> A" for a
    using h [OF that] assms(2)
    by (auto simp: held_def mmu_translate_pagemap va_idx_def split: option.splits)
  note same = k1(4) [OF a]
  show ?thesis using held_byte [OF h assms(2) k1(2) _ same] held_grown [OF h assms(2) k1(2,3) same] k1(3) same a
    unfolding same_bytes_def k' grown_def by blast
qed

lemma lock_reserved_run:
  assumes "vm_ok k" "map_held mb rs k"
  obtains k' where "lock_reserved_memory mb k = Some k'" "vm_ok k'" "grown k k'" "max_pg k' = max_pg k" "map_held mb rs k'"
    "each_page lock_page (reserved_pages rs) k = Some k'"
    "\<And>ij. pagemap k ij \<noteq> None \<Longrightarrow> pagemap k' ij = pagemap k ij"
    "\<And>ij e. pagemap k ij = None \<Longrightarrow> pagemap k' ij = Some e \<Longrightarrow>
       \<exists>p \<in> set (reserved_pages rs). L1_INDEX p < 1023 \<and> ij = va_idx p \<and> e = NEW_L2_ENTRY PG_PREM_R p"
    "\<And>p. spare k (card (empty_tables k (reserved_pages rs))) \<Longrightarrow> p \<in> set (reserved_pages rs) \<Longrightarrow> L1_INDEX p < 1023 \<Longrightarrow>
       pagemap k' (va_idx p) \<noteq> None"
proof -
  obtain p A where p: "vload32 k (mbi_mmap_addr mb) = Some p" "vload32 k (mbi_mmap_length mb) = Some (24 * of_nat (length rs))"
    "regions_at k p rs" "unat (24 * of_nat (length rs) div sizeof_mmap :: u32) = length rs" "\<forall>a \<in> A. held k a"
    "\<And>k'. same_bytes A k k' \<Longrightarrow> vload32 k' (mbi_mmap_addr mb) = Some p
       \<and> vload32 k' (mbi_mmap_length mb) = Some (24 * of_nat (length rs)) \<and> regions_at k' p rs"
    "\<And>k'. same_bytes A k k' \<Longrightarrow> (\<And>a. a \<in> A \<Longrightarrow> held k' a) \<Longrightarrow> map_held mb rs k'"
    by (rule map_held_bytes [OF assms(2)]) blast
  note stays = lock_keeps_held [where A = A, OF p(5) assms(1)]
  obtain k' where k': "each_page lock_page (reserved_pages rs) k = Some k'" "vm_ok k'" "grown k k'" "max_pg k' = max_pg k"
    "\<And>ij. pagemap k ij \<noteq> None \<Longrightarrow> pagemap k' ij = pagemap k ij"
    "\<And>ij e. pagemap k ij = None \<Longrightarrow> pagemap k' ij = Some e \<Longrightarrow>
       \<exists>p \<in> set (reserved_pages rs). L1_INDEX p < 1023 \<and> ij = va_idx p \<and> e = NEW_L2_ENTRY PG_PREM_R p"
    "\<And>p. spare k (card (empty_tables k (reserved_pages rs))) \<Longrightarrow> p \<in> set (reserved_pages rs) \<Longrightarrow> L1_INDEX p < 1023 \<Longrightarrow>
       pagemap k' (va_idx p) \<noteq> None"
    by (rule lock_pages [OF assms(1), of "reserved_pages rs"]) blast
  have "for_reserved lock_page (length rs) p k = each_page lock_page (reserved_pages rs) k"
    by (rule for_reserved_each [OF p(3)]) (use stays p(6) in blast)
  then have "lock_reserved_memory mb k = Some k'" using p(1,2,4) k'(1) by (simp add: lock_reserved_memory_def)
  moreover have "map_held mb rs k'" using stays [OF k'(1)] p(7) by blast
  ultimately show ?thesis using that k' by blast
qed

section \<open>Unlocking\<close>




text \<open>A memory map whose reserved pages are neither mapped nor in the pool nor used as page tables.\<close>

definition honest_map :: "region list \<Rightarrow> kernel \<Rightarrow> bool" where
  "honest_map rs k \<longleftrightarrow> (\<forall>p \<in> set (reserved_pages rs). pagemap k (va_idx p) = None \<and> \<not> table_frame k p \<and> \<not> page_free k (drop_bit 12 p))"


section \<open>Properties\<close>

text \<open>C12: \<^verbatim>\<open>lock_reserved_memory\<close>, on a memory map in bytes that stay (\<open>map_held\<close>) whose reserved regions lie below 4 GiB
  and need no more pages than their lengths do (\<open>lockable\<close>, as when they start at a page), returns with the invariant of
  the page tables and the memory map intact. It changes no translation there was; an address that translates only
  now shares its page with a reserved byte and translates to itself; and if the pool can serve the page tables
  that are missing, every reserved byte whose slot was free translates to itself. A region outside this hypothesis loses its last
  page: \<open>straddling_region_cut\<close>.\<close>

theorem lock_reserved_memory_maps_identically:
  assumes "vm_ok k" "map_held mb rs k" "lockable rs"
  shows "\<exists>k'. lock_reserved_memory mb k = Some k' \<and> vm_ok k' \<and> map_held mb rs k'
    \<and> (\<forall>va. L1_INDEX va < 1023 \<longrightarrow> mmu_translate k' va = mmu_translate k va
         \<or> ((\<exists>b. reserved_byte rs b \<and> PG_ALIGN b = PG_ALIGN va) \<and> mmu_translate k va = None \<and> mmu_translate k' va = Some va))
    \<and> (spare k (card (empty_tables k (reserved_pages rs))) \<longrightarrow>
         (\<forall>va. L1_INDEX va < 1023 \<and> reserved_byte rs va \<and> pagemap k (va_idx va) = None \<longrightarrow> mmu_translate k' va = Some va))"
proof -
  obtain k' where k': "lock_reserved_memory mb k = Some k'" "vm_ok k'" "map_held mb rs k'"
    "\<And>ij. pagemap k ij \<noteq> None \<Longrightarrow> pagemap k' ij = pagemap k ij"
    "\<And>ij e. pagemap k ij = None \<Longrightarrow> pagemap k' ij = Some e \<Longrightarrow>
       \<exists>p \<in> set (reserved_pages rs). L1_INDEX p < 1023 \<and> ij = va_idx p \<and> e = NEW_L2_ENTRY PG_PREM_R p"
    "\<And>p. spare k (card (empty_tables k (reserved_pages rs))) \<Longrightarrow> p \<in> set (reserved_pages rs) \<Longrightarrow> L1_INDEX p < 1023 \<Longrightarrow>
       pagemap k' (va_idx p) \<noteq> None"
    by (rule lock_reserved_run [OF assms(1,2)]) blast
  have new: "reserved rs va \<and> mmu_translate k' va = Some va"
    if slot: "L1_INDEX va < 1023" "pagemap k (va_idx va) = None" "pagemap k' (va_idx va) = Some e" for va e
  proof -
    obtain p where p: "p \<in> set (reserved_pages rs)" "va_idx va = va_idx p" "e = NEW_L2_ENTRY PG_PREM_R p"
      using k'(5) [OF slot(2,3)] by blast
    then have "PG_ALIGN va = p" using reserved_slot by blast
    then show ?thesis using identity_entry [OF k'(2) slot(1)] slot(3) p(1,3) by (simp add: reserved_def)
  qed
  have "mmu_translate k' va = mmu_translate k va
      \<or> ((\<exists>b. reserved_byte rs b \<and> PG_ALIGN b = PG_ALIGN va) \<and> mmu_translate k va = None \<and> mmu_translate k' va = Some va)"
    if va: "L1_INDEX va < 1023" for va
  proof (cases "pagemap k' (va_idx va) = pagemap k (va_idx va)")
    case True
    then show ?thesis using translate_entry [OF assms(1) k'(2) va] by simp
  next
    case False
    then have none: "pagemap k (va_idx va) = None" using k'(4) by blast
    moreover have "mmu_translate k va = None" using none assms(1) va by (simp add: mmu_translate_pagemap va_idx_def)
    moreover obtain e where e: "pagemap k' (va_idx va) = Some e" using none False by (cases "pagemap k' (va_idx va)") auto
    ultimately show ?thesis using new [OF va none e] reserved_has_byte [OF assms(3)] by blast
  qed
  moreover have "mmu_translate k' va = Some va"
    if "spare k (card (empty_tables k (reserved_pages rs)))" "L1_INDEX va < 1023" "reserved_byte rs va" "pagemap k (va_idx va) = None" for va
  proof -
    have "reserved rs va" by (rule region_covered [OF assms(3) that(3)])
    moreover have "L1_INDEX (PG_ALIGN va) = L1_INDEX va" using align_idx [of va] by (simp add: va_idx_def)
    ultimately have "pagemap k' (va_idx va) \<noteq> None" using k'(6) [OF that(1), of "PG_ALIGN va"] that(2) by (simp add: reserved_def align_idx)
    then show ?thesis using new [OF that(2,4)] by blast
  qed
  ultimately show ?thesis using k'(1-3) by blast
qed


section \<open>A concrete map\<close>

text \<open>The kernel of theory KInit with another map: one region, 8 KiB of reserved memory at \<open>0x3F0000\<close>.\<close>

definition lock_mem :: mem where
  "lock_mem = map_mem(0x5006 := 0x3F, 0x500D := 0x20, 0x500E := 0, 0x5014 := 2)"

definition lock_kernel :: kernel where
  "lock_kernel = map_kernel\<lparr>phys := lock_mem\<rparr>"

definition acpi_region :: region where
  "acpi_region = \<lparr>r_base = 0x3F0000, r_length = 0x2000, r_type = 2\<rparr>"

lemma acpi_pages: "reserved_pages [acpi_region] = [0x3F0000, 0x3F1000]"
  by (simp add: reserved_pages_def region_pages_def acpi_region_def MULTIBOOT_MEMORY_AVAILABLE_def CEIL_def PG_ALIGN_def upt_rec)


lemma lock_kernel_off: "off_page 0x5000 map_kernel lock_kernel"
proof -
  have "PG_ALIGN 0x5006 = 0x5000" "PG_ALIGN 0x500D = 0x5000" "PG_ALIGN 0x500E = 0x5000" "PG_ALIGN 0x5014 = 0x5000"
    by (simp_all add: PG_ALIGN_def)
  then have "\<forall>a. PG_ALIGN a \<noteq> 0x5000 \<longrightarrow> lock_mem a = phys map_kernel a"
    by (auto simp: lock_mem_def map_kernel_def map_vm_def)
  then show ?thesis unfolding off_page_def lock_kernel_def by blast
qed

lemma lock_kernel_entries:
  "vm_ok lock_kernel" "i < 1024 \<Longrightarrow> l1e lock_kernel i = l1e vm1 i" "i < 1024 \<Longrightarrow> tbl lock_kernel i = tbl vm1 i"
  "j < 1024 \<Longrightarrow> l2e lock_kernel 0 j = l2e vm1 0 j" "table_frame lock_kernel f \<longleftrightarrow> f = 0x1000 \<or> f = 0x2000"
  "\<not> page_free lock_kernel q" "max_pg lock_kernel = 1024" "pg_lookup_ptr lock_kernel = 1"
proof -
  have ok: "vm_ok map_kernel" using map_kernel_before by (simp add: before_setup_def)
  have ne: "0x5000 \<noteq> cr3 map_kernel" by (simp add: map_kernel_def map_vm_def vm1_tbl)
  note off = off_page_entries [OF lock_kernel_off vm_okD(2) [OF ok] ne]
  have m: "l1e map_kernel = l1e map_vm" "tbl map_kernel = tbl map_vm" "l2e map_kernel = l2e map_vm"
    by (simp_all add: map_kernel_def l1e_def l2e_def tbl_def fun_eq_iff)
  show "vm_ok lock_kernel" by (rule vm_ok_off_page [OF lock_kernel_off ok ne])
  show l: "l1e lock_kernel i = l1e vm1 i" "tbl lock_kernel i = tbl vm1 i" if "i < 1024" for i
    using off(1,2) [OF that] map_vm_entries(2,3) [OF that] by (simp_all add: m)
  show "l2e lock_kernel 0 j = l2e vm1 0 j" if "j < 1024"
    using off(3) [of 0 j] map_vm_entries(3) [of 0] map_vm_entries(4) [OF that] that by (simp add: m vm1_tbl)
  have "k < 1024 \<and> l1e lock_kernel k \<noteq> 0 \<and> tbl lock_kernel k = f \<longleftrightarrow> k < 1024 \<and> l1e vm1 k \<noteq> 0 \<and> tbl vm1 k = f" for k
    using l [of k] by (cases "k < 1024") simp_all
  then have "table_frame lock_kernel f = table_frame vm1 f" by (simp only: table_frame_def)
  then show "table_frame lock_kernel f \<longleftrightarrow> f = 0x1000 \<or> f = 0x2000" by (simp add: vm1_table_frame)
  show "\<not> page_free lock_kernel q"
    using bit_0xFF [OF page_bit_8 [of q]] by (simp add: page_free_def lock_kernel_def map_kernel_def kernel_on_def map_vm_def vm.defs)
  show "max_pg lock_kernel = 1024" "pg_lookup_ptr lock_kernel = 1"
    by (simp_all add: lock_kernel_def map_kernel_def kernel_on_def map_vm_def vm1_def vm.defs)
qed

lemma lock_kernel_pagemap: "pagemap lock_kernel = [(0, 1023) \<mapsto> 0x5003]"
proof -
  have low: "i = 0" if "i < 1023" "l1e lock_kernel i \<noteq> 0" for i
    using that lock_kernel_entries(2) [of i] vm1_l1e [of i] l1_index_small [of i] by (auto split: if_splits)
  moreover have "l1e lock_kernel 0 \<noteq> 0" by (simp add: lock_kernel_entries(2) vm1_l1e)
  moreover have "l2e lock_kernel 0 j = (if j = 1023 then 0x5003 else 0)" if "j < 1024" for j
    using that by (simp add: lock_kernel_entries(4) vm1_l2e)
  ultimately show ?thesis by (force simp: pagemap_def fun_eq_iff split: if_splits)
qed

lemma lock_kernel_translate:
  assumes "unat d < 4096"
  shows "mmu_translate lock_kernel (0x3FF000 + d) = Some (0x5000 + d)" "L1_INDEX (0x3FF000 + d) = 0"
proof -
  have "unat (0x3FF000 + d) = 0x3FF000 + unat d" using assms by (subst unat_add_u32) simp_all
  moreover have "(0x3FF000 + unat d) mod 4096 = unat d" using mod_mult_self2 [of "unat d" 4096 1023] assms by (simp add: add.commute)
  ultimately have i: "L1_INDEX (0x3FF000 + d) = 0" "L2_INDEX (0x3FF000 + d) = 1023" "PG_OFFSET (0x3FF000 + d) = d"
    using assms by (simp_all add: word_unat_eq_iff unat_word)
  show "L1_INDEX (0x3FF000 + d) = 0" by (rule i)
  from mmu_translate_pagemap [OF lock_kernel_entries(1), of "0x3FF000 + d"]
  show "mmu_translate lock_kernel (0x3FF000 + d) = Some (0x5000 + d)"
    by (simp add: i lock_kernel_pagemap vm1_consts)
qed

lemma lock_kernel_byte:
  assumes "unat d < 4096"
  shows "held lock_kernel (0x3FF000 + d)"
proof -
  have "page_aligned 0x5000" "d < 4096" using assms by (simp_all add: page_aligned_def PG_OFFSET_def word_less_nat_alt)
  then have "PG_ALIGN (0x5000 + d) = 0x5000" by (rule page_add)
  then show ?thesis using lock_kernel_translate [OF assms] by (simp add: held_def lock_kernel_entries)
qed

lemma lock_kernel_held: "map_held 0x3FF100 [acpi_region] lock_kernel"
proof -
  have l: "vload32 lock_kernel (0x3FF000 + d) = Some (load32 lock_mem (0x5000 + d))" if "aligned4 d" "unat d < 4096" for d
  proof -
    have "aligned4 (0x3FF000 + d)" using that unat_add_u32 [of "0x3FF000" d] by (simp add: aligned4_unat)
    then show ?thesis using lock_kernel_translate [OF that(2)] by (simp add: vload32_aligned lock_kernel_def)
  qed
  have at: "vload32 lock_kernel (0x3FF000 + d) = Some (load32 lock_mem (0x5000 + d))" if "d \<in> {4, 8, 12, 16, 20, 0x12C, 0x130}" for d
    using that by (intro l) (auto simp: aligned4_def)
  have m: "load32 lock_mem 0x5004 = 0x3F0000" "load32 lock_mem 0x5008 = 0" "load32 lock_mem 0x500C = 0x2000"
    "load32 lock_mem 0x5010 = 0" "load32 lock_mem 0x5014 = 2" "load32 lock_mem 0x512C = 24" "load32 lock_mem 0x5130 = 0x3FF000"
    by (simp_all add: lock_mem_def map_mem_def vm1_def load32_def store32_def)
  have "regions_at lock_kernel 0x3FF000 [acpi_region]"
    using at [of 4] at [of 8] at [of 12] at [of 16] at [of 20]
    by (simp add: region_at_def mmap_addr_low_def mmap_len_low_def mmap_type_def acpi_region_def m)
  moreover have "held lock_kernel a" if a: "a \<in> map_bytes 0x3FF12C 1 \<union> map_bytes 0x3FF000 1" for a
  proof -
    obtain d where "d < 24" "a = 0x3FF000 + of_nat (0x12C + d) \<or> a = 0x3FF000 + of_nat d" using a by (auto simp: map_bytes_def)
    moreover from this have "unat (of_nat (0x12C + d) :: u32) < 4096" "unat (of_nat d :: u32) < 4096"
      by (subst unat_of_nat_u32; simp del: of_nat_add)+
    ultimately show ?thesis using lock_kernel_byte by metis
  qed
  ultimately show ?thesis using at [of "0x12C"] at [of "0x130"] unfolding map_held_def
    by (simp add: m mbi_mmap_addr_def mbi_mmap_length_def)
qed

lemma acpi_honest: "honest_map [acpi_region] lock_kernel" "spare lock_kernel (card (empty_tables lock_kernel (reserved_pages [acpi_region])))"
proof -
  have i: "va_idx 0x3F0000 = (0, 1008)" "va_idx 0x3F1000 = (0, 1009)" by (simp_all add: va_idx_def L1_INDEX_def L2_INDEX_def)
  then show "honest_map [acpi_region] lock_kernel"
    by (simp add: honest_map_def acpi_pages lock_kernel_entries lock_kernel_pagemap)
  have none: "pagemap lock_kernel (0, 1023) \<noteq> None" by (simp add: lock_kernel_pagemap)
  have "empty_tables lock_kernel (reserved_pages [acpi_region]) = {}"
    using i none by (auto simp: empty_tables_def acpi_pages va_idx_def)
  then show "spare lock_kernel (card (empty_tables lock_kernel (reserved_pages [acpi_region])))"
    by (simp add: spare_def lock_kernel_entries) (auto intro: exI [of _ 0])
qed

lemma lock_reserved_memory_maps_identically_witness:
  "\<exists>k'. lock_reserved_memory 0x3FF100 lock_kernel = Some k' \<and> mmu_translate lock_kernel 0x3F1234 = None \<and> mmu_translate k' 0x3F1234 = Some 0x3F1234"
proof -
  have a: "L1_INDEX 0x3F1234 < 1023" "reserved_byte [acpi_region] 0x3F1234" "pagemap lock_kernel (va_idx 0x3F1234) = None"
    by (simp_all add: L1_INDEX_def reserved_byte_def acpi_region_def MULTIBOOT_MEMORY_AVAILABLE_def va_idx_def L2_INDEX_def lock_kernel_pagemap)
  have l: "lockable [acpi_region]" by (simp add: lockable_def acpi_region_def below_4g_def)
  have "mmu_translate lock_kernel 0x3F1234 = None"
    using a(1,3) by (simp add: mmu_translate_pagemap [OF lock_kernel_entries(1)] va_idx_def)
  then show ?thesis
    using lock_reserved_memory_maps_identically [OF lock_kernel_entries(1) lock_kernel_held l] acpi_honest(2) a by blast
qed


end
