(* ===== verification/Multiboot.thy ===== *)
theory Multiboot
  imports Hhk
begin

text \<open>
  The boot loader's structures, \<^verbatim>\<open>includes/arch/x86/boot/multiboot.h\<close>, read from memory as records, and what
  \<^verbatim>\<open>_save_multiboot_info\<close> does to them. A union is kept as the words or bytes it consists of, with one
  function for each view. The interface \<open>loader_struct\<close> says that a structure is decided by its own bytes.
\<close>

unbundle bit_operations_syntax

section \<open>The structures\<close>

record multiboot_symbol_table =
  sym_tabsize :: u32
  sym_strsize :: u32
  sym_addr :: u32
  sym_reserved :: u32

record multiboot_elf_section_header_table =
  elf_num :: u32
  elf_size :: u32
  elf_addr :: u32
  elf_shndx :: u32

record multiboot_info =
  mb_flags :: u32
  mb_mem_lower :: u32
  mb_mem_upper :: u32
  mb_boot_device :: u32
  mb_cmdline :: u32
  mb_mods_count :: u32
  mb_mods_addr :: u32
  mb_u :: "u32 \<times> u32 \<times> u32 \<times> u32"
  mb_mmap_length :: u32
  mb_mmap_addr :: u32
  mb_drives_length :: u32
  mb_drives_addr :: u32
  mb_config_table :: u32
  mb_boot_loader_name :: u32
  mb_apm_table :: u32
  mb_vbe_control_info :: u32
  mb_vbe_mode_info :: u32
  mb_vbe_mode :: u16
  mb_vbe_interface_seg :: u16
  mb_vbe_interface_off :: u16
  mb_vbe_interface_len :: u16
  mb_framebuffer_addr :: u64
  mb_framebuffer_pitch :: u32
  mb_framebuffer_width :: u32
  mb_framebuffer_height :: u32
  mb_framebuffer_bpp :: u8
  mb_framebuffer_type :: u8
  mb_framebuffer_colours :: "u32 \<times> u8 \<times> u8"

definition aout_sym :: "multiboot_info \<Rightarrow> multiboot_symbol_table" where
  "aout_sym mb = (case mb_u mb of (a, b, c, d) \<Rightarrow> \<lparr>sym_tabsize = a, sym_strsize = b, sym_addr = c, sym_reserved = d\<rparr>)"

definition elf_sec :: "multiboot_info \<Rightarrow> multiboot_elf_section_header_table" where
  "elf_sec mb = (case mb_u mb of (a, b, c, d) \<Rightarrow> \<lparr>elf_num = a, elf_size = b, elf_addr = c, elf_shndx = d\<rparr>)"

record multiboot_mmap_entry =
  me_size :: u32
  me_addr_low :: u32
  me_addr_high :: u32
  me_len_low :: u32
  me_len_high :: u32
  me_type :: u32

record multiboot_mod_list =
  mod_start :: u32
  mod_end :: u32
  mod_cmdline :: u32
  mod_pad :: u32

record multiboot_apm_info =
  apm_version :: u16
  apm_cseg :: u16
  apm_offset :: u32
  apm_cseg_16 :: u16
  apm_dseg :: u16
  apm_flags :: u16
  apm_cseg_len :: u16
  apm_cseg_16_len :: u16
  apm_dseg_len :: u16

record multiboot_color =
  red :: u8
  green :: u8
  blue :: u8

text \<open>The views of the last union: a palette of colours, or the places of the three colours in a pixel.\<close>

definition framebuffer_palette :: "multiboot_info \<Rightarrow> u32 \<times> u16" where
  "framebuffer_palette mb = (case mb_framebuffer_colours mb of (a, b, c) \<Rightarrow> (a, ucast b OR push_bit 8 (ucast c)))"

definition framebuffer_fields :: "multiboot_info \<Rightarrow> u8 list" where
  "framebuffer_fields mb = (case mb_framebuffer_colours mb of (a, b, c) \<Rightarrow>
     [ucast a, ucast (drop_bit 8 a), ucast (drop_bit 16 a), ucast (drop_bit 24 a), b, c])"

definition present :: "u32 \<Rightarrow> u32 \<Rightarrow> bool" where "present flags info \<longleftrightarrow> flags AND info \<noteq> 0"

section \<open>Reading them\<close>

definition load64 :: "mem \<Rightarrow> u32 \<Rightarrow> u64" where
  "load64 m p = ucast (load32 m p) OR push_bit 32 (ucast (load32 m (p + 4)))"

definition info_at :: "mem \<Rightarrow> u32 \<Rightarrow> multiboot_info" where
  "info_at m p = \<lparr>mb_flags = load32 m p, mb_mem_lower = load32 m (p + 4), mb_mem_upper = load32 m (p + 8),
     mb_boot_device = load32 m (p + 12), mb_cmdline = load32 m (p + 16), mb_mods_count = load32 m (p + 20),
     mb_mods_addr = load32 m (p + 24), mb_u = (load32 m (p + 28), load32 m (p + 32), load32 m (p + 36), load32 m (p + 40)),
     mb_mmap_length = load32 m (p + 44), mb_mmap_addr = load32 m (p + 48), mb_drives_length = load32 m (p + 52),
     mb_drives_addr = load32 m (p + 56), mb_config_table = load32 m (p + 60), mb_boot_loader_name = load32 m (p + 64),
     mb_apm_table = load32 m (p + 68), mb_vbe_control_info = load32 m (p + 72), mb_vbe_mode_info = load32 m (p + 76),
     mb_vbe_mode = load16 m (p + 80), mb_vbe_interface_seg = load16 m (p + 82), mb_vbe_interface_off = load16 m (p + 84),
     mb_vbe_interface_len = load16 m (p + 86), mb_framebuffer_addr = load64 m (p + 88), mb_framebuffer_pitch = load32 m (p + 96),
     mb_framebuffer_width = load32 m (p + 100), mb_framebuffer_height = load32 m (p + 104), mb_framebuffer_bpp = m (p + 108),
     mb_framebuffer_type = m (p + 109), mb_framebuffer_colours = (load32 m (p + 112), m (p + 116), m (p + 117))\<rparr>"

definition mmap_entry_at :: "mem \<Rightarrow> u32 \<Rightarrow> multiboot_mmap_entry" where
  "mmap_entry_at m p = \<lparr>me_size = load32 m p, me_addr_low = load32 m (p + 4), me_addr_high = load32 m (p + 8),
     me_len_low = load32 m (p + 12), me_len_high = load32 m (p + 16), me_type = load32 m (p + 20)\<rparr>"

definition mod_list_at :: "mem \<Rightarrow> u32 \<Rightarrow> multiboot_mod_list" where
  "mod_list_at m p = \<lparr>mod_start = load32 m p, mod_end = load32 m (p + 4), mod_cmdline = load32 m (p + 8), mod_pad = load32 m (p + 12)\<rparr>"

definition apm_info_at :: "mem \<Rightarrow> u32 \<Rightarrow> multiboot_apm_info" where
  "apm_info_at m p = \<lparr>apm_version = load16 m p, apm_cseg = load16 m (p + 2), apm_offset = load32 m (p + 4),
     apm_cseg_16 = load16 m (p + 8), apm_dseg = load16 m (p + 10), apm_flags = load16 m (p + 12), apm_cseg_len = load16 m (p + 14),
     apm_cseg_16_len = load16 m (p + 16), apm_dseg_len = load16 m (p + 18)\<rparr>"

definition color_at :: "mem \<Rightarrow> u32 \<Rightarrow> multiboot_color" where
  "color_at m p = \<lparr>red = m p, green = m (p + 1), blue = m (p + 2)\<rparr>"

text \<open>An array of structures of a given size.\<close>

definition array_at :: "nat \<Rightarrow> (mem \<Rightarrow> u32 \<Rightarrow> 'r) \<Rightarrow> nat \<Rightarrow> mem \<Rightarrow> u32 \<Rightarrow> 'r list" where
  "array_at sz dec n m p = map (\<lambda>i. dec m (p + of_nat (i * sz))) [0..<n]"

section \<open>Copies\<close>

text \<open>\<open>n\<close> bytes at \<open>q\<close> are those that were at \<open>p\<close>.\<close>

definition same_block :: "nat \<Rightarrow> mem \<Rightarrow> u32 \<Rightarrow> mem \<Rightarrow> u32 \<Rightarrow> bool" where
  "same_block n m p m' q \<longleftrightarrow> (\<forall>i < n. m' (q + of_nat i) = m (p + of_nat i))"

lemma same_block_part: "same_block n m p m' q \<Longrightarrow> k + l \<le> n \<Longrightarrow> same_block l m (p + of_nat k) m' (q + of_nat k)"
  by (auto simp: same_block_def add.assoc simp flip: of_nat_add)

lemma same_block_byte: "same_block n m p m' q \<Longrightarrow> k < n \<Longrightarrow> m' (q + of_nat k) = m (p + of_nat k)"
  by (simp add: same_block_def)

lemma same_block_words:
  assumes "same_block n m p m' q"
  shows "k + 4 \<le> n \<Longrightarrow> load32 m' (q + of_nat k) = load32 m (p + of_nat k)"
    "k + 2 \<le> n \<Longrightarrow> load16 m' (q + of_nat k) = load16 m (p + of_nat k)"
    "k + 8 \<le> n \<Longrightarrow> load64 m' (q + of_nat k) = load64 m (p + of_nat k)"
proof -
  have w: "load32 m' (q + of_nat k) = load32 m (p + of_nat k)" if "k + 4 \<le> n" for k
    using same_block_part [OF assms that] by (intro load32_bytes) (simp add: same_block_def)
  show "k + 4 \<le> n \<Longrightarrow> load32 m' (q + of_nat k) = load32 m (p + of_nat k)" by (rule w)
  show "k + 2 \<le> n \<Longrightarrow> load16 m' (q + of_nat k) = load16 m (p + of_nat k)"
    using same_block_byte [OF assms, of k] same_block_byte [OF assms, of "k + 1"] by (simp add: load16_def add.assoc add.commute add.left_commute)
  show "k + 8 \<le> n \<Longrightarrow> load64 m' (q + of_nat k) = load64 m (p + of_nat k)"
    using w [of k] w [of "k + 4"] by (simp add: load64_def add.assoc add.commute)
qed

locale loader_struct =
  fixes sz :: nat and dec :: "mem \<Rightarrow> u32 \<Rightarrow> 'r"
  assumes decided: "same_block sz m p m' q \<Longrightarrow> dec m' q = dec m p"
begin

lemma kept:
  assumes "outside p sz d l" "\<And>x. \<not> in_block d l x \<Longrightarrow> m' x = m x"
  shows "dec m' p = dec m p"
  by (rule decided) (use outside_byte [OF assms(1)] assms(2) in \<open>simp add: same_block_def\<close>)

lemma array_copied:
  assumes "same_block k m p m' q" "n * sz \<le> k"
  shows "array_at sz dec n m' q = array_at sz dec n m p"
proof -
  have "dec m' (q + of_nat (i * sz)) = dec m (p + of_nat (i * sz))" if "i < n" for i
  proof (rule decided, rule same_block_part [OF assms(1)])
    have "(i + 1) * sz \<le> n * sz" using that by (intro mult_le_mono1) simp
    then show "i * sz + sz \<le> k" using assms(2) by simp
  qed
  then show ?thesis by (simp add: array_at_def)
qed

lemma array_kept:
  assumes "outside p (n * sz) d l" "\<And>x. \<not> in_block d l x \<Longrightarrow> m' x = m x"
  shows "array_at sz dec n m' p = array_at sz dec n m p"
  by (rule array_copied [of "n * sz"]) (use outside_byte [OF assms(1)] assms(2) in \<open>simp_all add: same_block_def\<close>)

end

interpretation info: loader_struct 120 info_at
proof
  fix m p m' q
  assume "same_block 120 m p m' q"
  note w = same_block_words(1) [OF this] and h = same_block_words(2) [OF this] and d = same_block_words(3) [OF this]
    and b = same_block_byte [OF this]
  show "info_at m' q = info_at m p"
    using w [of 0] w [of 4] w [of 8] w [of 12] w [of 16] w [of 20] w [of 24] w [of 28] w [of 32] w [of 36] w [of 40]
      w [of 44] w [of 48] w [of 52] w [of 56] w [of 60] w [of 64] w [of 68] w [of 72] w [of 76] h [of 80] h [of 82] h [of 84] h [of 86]
      d [of 88] w [of 96] w [of 100] w [of 104] b [of 108] b [of 109] w [of 112] b [of 116] b [of 117]
    by (simp add: info_at_def)
qed

interpretation mmap: loader_struct 24 mmap_entry_at
proof
  fix m p m' q
  assume "same_block 24 m p m' q"
  note w = same_block_words(1) [OF this]
  show "mmap_entry_at m' q = mmap_entry_at m p"
    using w [of 0] w [of 4] w [of 8] w [of 12] w [of 16] w [of 20] by (simp add: mmap_entry_at_def)
qed

interpretation modl: loader_struct 16 mod_list_at
proof
  fix m p m' q
  assume "same_block 16 m p m' q"
  note w = same_block_words(1) [OF this]
  show "mod_list_at m' q = mod_list_at m p" using w [of 0] w [of 4] w [of 8] w [of 12] by (simp add: mod_list_at_def)
qed

interpretation apm: loader_struct 20 apm_info_at
proof
  fix m p m' q
  assume "same_block 20 m p m' q"
  note w = same_block_words(1,2) [OF this]
  show "apm_info_at m' q = apm_info_at m p"
    using w(2) [of 0] w(2) [of 2] w(1) [of 4] w(2) [of 8] w(2) [of 10] w(2) [of 12] w(2) [of 14] w(2) [of 16] w(2) [of 18]
    by (simp add: apm_info_at_def)
qed

interpretation color: loader_struct 3 color_at
proof
  fix m p m' q
  assume "same_block 3 m p m' q"
  from same_block_byte [OF this, of 0] same_block_byte [OF this, of 1] same_block_byte [OF this, of 2]
  show "color_at m' q = color_at m p" by (simp add: color_at_def)
qed

section \<open>Properties\<close>

text \<open>C7: After \<^verbatim>\<open>_save_multiboot_info\<close> the destination holds the structure with its pointers to the memory map
  and, when the loader passed one, to the drive table redirected to the copies behind it; the copied map has the
  same entries and the copied table the same bytes. The other tables the structure points to are not copied:
  modules, the APM table and the palette read as before only where they lie outside the destination.\<close>

theorem save_multiboot_info_decodes:
  assumes "info_apart info d m"
  shows "let m' = save_multiboot_info info d m; mb = info_at m info; mb' = info_at m' d;
      drives = present (mb_flags mb) MULTIBOOT_INFO_DRIVE_INFO; n = unat (mb_mmap_length mb) div 24 in
    mb' = mb\<lparr>mb_mmap_addr := d + 120, mb_drives_addr := if drives then d + 120 + mb_mmap_length mb else mb_drives_addr mb\<rparr>
    \<and> array_at 24 mmap_entry_at n m' (mb_mmap_addr mb') = array_at 24 mmap_entry_at n m (mb_mmap_addr mb)
    \<and> (drives \<longrightarrow> (\<forall>i < unat (mb_drives_length mb). m' (mb_drives_addr mb' + of_nat i) = m (mb_drives_addr mb + of_nat i)))
    \<and> (\<forall>p k. outside p (k * 16) d (saved_bytes info m) \<longrightarrow> array_at 16 mod_list_at k m' p = array_at 16 mod_list_at k m p)
    \<and> (\<forall>p. outside p 20 d (saved_bytes info m) \<longrightarrow> apm_info_at m' p = apm_info_at m p)
    \<and> (\<forall>p k. outside p (k * 3) d (saved_bytes info m) \<longrightarrow> array_at 3 color_at k m' p = array_at 3 color_at k m p)"
proof -
  let ?m = "save_multiboot_info info d m" and ?mb = "info_at m info"
  let ?drives = "present (mb_flags ?mb) MULTIBOOT_INFO_DRIVE_INFO"
  have saved: "info_saved info d m ?m" by (rule save_multiboot_info_correct [OF assms])
  note s = saved [unfolded info_saved_def]
  have f: "mb_flags ?mb = load32 m (mbi_flags info)" "mb_mmap_length ?mb = load32 m (mbi_mmap_length info)"
    "mb_mmap_addr ?mb = load32 m (mbi_mmap_addr info)" "mb_drives_length ?mb = load32 m (mbi_drives_length info)"
    "mb_drives_addr ?mb = load32 m (mbi_drives_addr info)" "mmap_bytes info m = unat (mb_mmap_length ?mb)"
    "drive_bytes info m = (if ?drives then unat (mb_drives_length ?mb) else 0)"
    by (simp_all add: info_at_def mbi_defs mmap_bytes_def drive_bytes_def present_def)
  have copy: "same_block n m (info + of_nat k) ?m (d + of_nat k)" if "k + n \<le> 120" "k + n \<le> 48 \<or> 52 \<le> k \<and> k + n \<le> 56 \<or> 60 \<le> k" for n k
    unfolding same_block_def
  proof (intro allI impI)
    fix i assume "i < n"
    then have "k + i < 120" "k + i < 48 \<or> 52 \<le> k + i \<and> k + i < 56 \<or> 60 \<le> k + i" using that by auto
    then have "?m (d + of_nat (k + i)) = m (info + of_nat (k + i))" using s by blast
    then show "?m (d + of_nat k + of_nat i) = m (info + of_nat k + of_nat i)" by (simp add: add.assoc)
  qed
  have blocks: "same_block 48 m info ?m d" "same_block 4 m (info + of_nat 52) ?m (d + of_nat 52)"
    "same_block 60 m (info + of_nat 60) ?m (d + of_nat 60)"
    using copy [of 0 48] copy [of 52 4] copy [of 60 60] by simp_all
  have lo: "load32 ?m (d + of_nat k) = load32 m (info + of_nat k)" if "k + 4 \<le> 48" for k
    by (rule same_block_words(1) [OF blocks(1) that])
  have mid: "load32 ?m (d + 52) = load32 m (info + 52)" using same_block_words(1) [OF blocks(2), of 0] by simp
  have hi: "load32 ?m (d + of_nat (60 + k)) = load32 m (info + of_nat (60 + k))" if "k + 4 \<le> 60" for k
    using same_block_words(1) [OF blocks(3) that] by (simp add: add.assoc)
  note hi16 = same_block_words(2) [OF blocks(3)] and hi64 = same_block_words(3) [OF blocks(3)] and hi8 = same_block_byte [OF blocks(3)]
  have ptrs: "load32 ?m (d + 48) = d + 120" "load32 ?m (d + 56) = (if ?drives then d + 120 + mb_mmap_length ?mb else mb_drives_addr ?mb)"
    using s f by (simp_all add: mbi_defs present_def)
  have "info_at ?m d = ?mb\<lparr>mb_mmap_addr := d + 120, mb_drives_addr := if ?drives then d + 120 + mb_mmap_length ?mb else mb_drives_addr ?mb\<rparr>"
    using ptrs lo [of 0] lo [of 4] lo [of 8] lo [of 12] lo [of 16] lo [of 20] lo [of 24] lo [of 28] lo [of 32] lo [of 36] lo [of 40] lo [of 44] mid
      hi [of 0] hi [of 4] hi [of 8] hi [of 12] hi [of 16] hi16 [of 20] hi16 [of 22] hi16 [of 24] hi16 [of 26] hi64 [of 28]
      hi [of 36] hi [of 40] hi [of 44] hi8 [of 48] hi8 [of 49] hi [of 52] hi8 [of 56] hi8 [of 57]
    by (simp add: info_at_def add.assoc)
  moreover have "array_at 24 mmap_entry_at (unat (mb_mmap_length ?mb) div 24) ?m (d + 120)
      = array_at 24 mmap_entry_at (unat (mb_mmap_length ?mb) div 24) m (mb_mmap_addr ?mb)"
    by (rule mmap.array_copied [of "mmap_bytes info m"]) (use s f in \<open>simp_all add: same_block_def\<close>)
  moreover have "?m (d + 120 + mb_mmap_length ?mb + of_nat i) = m (mb_drives_addr ?mb + of_nat i)"
    if "?drives" "i < unat (mb_drives_length ?mb)" for i
  proof -
    have "i < drive_bytes info m" using f that by simp
    then have "?m (load32 ?m (mbi_drives_addr d) + of_nat i) = m (load32 m (mbi_drives_addr info) + of_nat i)" using s by blast
    then show ?thesis using ptrs(2) that(1) f(5) by (simp add: mbi_defs)
  qed
  moreover have "?m x = m x" if "\<not> in_block d (saved_bytes info m) x" for x using s that by blast
  note modl.array_kept [OF _ this] apm.kept [OF _ this] color.array_kept [OF _ this]
  ultimately show ?thesis unfolding Let_def by simp
qed

lemma save_multiboot_info_decodes_witness:
  "let m' = save_multiboot_info 0x1000 0x100000 loader_memory in
    mb_mmap_addr (info_at m' 0x100000) = 0x100078 \<and> mb_drives_addr (info_at m' 0x100000) = 0x100090
    \<and> array_at 24 mmap_entry_at 1 m' 0x100078 = array_at 24 mmap_entry_at 1 loader_memory 0x2000"
proof -
  have s: "saved_bytes 0x1000 loader_memory = 154" "mmap_bytes 0x1000 loader_memory = 24" "drive_bytes 0x1000 loader_memory = 10"
    using loader_fields by (simp_all add: saved_bytes_def mmap_bytes_def drive_bytes_def)
  then have apart: "info_apart 0x1000 0x100000 loader_memory" by (simp add: info_apart_def outside_def loader_fields)
  have f: "mb_flags (info_at loader_memory 0x1000) AND MULTIBOOT_INFO_DRIVE_INFO \<noteq> 0" "mb_mmap_length (info_at loader_memory 0x1000) = 24"
    "mb_mmap_addr (info_at loader_memory 0x1000) = 0x2000"
    using loader_fields by (simp_all add: info_at_def mbi_defs)
  show ?thesis using save_multiboot_info_decodes [OF apart] f unfolding Let_def present_def by - (elim conjE, simp)
qed

end
