(* ===== verification/Panic.thy ===== *)
theory Panic
  imports Interrupts Frame
begin

text \<open>
  \<^verbatim>\<open>kernel/spike.c\<close>: the two ways the kernel stops itself. Both raise the software interrupt
  \<^verbatim>\<open>AWA_SYS_PANIC\<close> with the address of a message in \<^verbatim>\<open>edi\<close>. \<open>frame\<close> holds the registers and the
  return address at that point, \<open>p\<close> is the address of the parameter block the stub builds; the
  stub pushes error code 0.
\<close>

definition int_panic :: "(code \<Rightarrow> u32 \<Rightarrow> isr_param \<Rightarrow> kernel \<Rightarrow> outcome option) \<Rightarrow> u32 \<Rightarrow> isr_param \<Rightarrow> u32
    \<Rightarrow> kernel \<Rightarrow> outcome option" where
  "int_panic call p frame msg k =
    intr_handler call p (frame\<lparr>registers := (registers frame)\<lparr>edi := msg\<rparr>, vector := AWA_SYS_PANIC, err_code := 0\<rparr>) k"

text \<open>Should the interrupt return, the caller spins.\<close>

definition panick :: "(code \<Rightarrow> u32 \<Rightarrow> isr_param \<Rightarrow> kernel \<Rightarrow> outcome option) \<Rightarrow> u32 \<Rightarrow> isr_param \<Rightarrow> u32
    \<Rightarrow> kernel \<Rightarrow> outcome option" where
  "panick call p frame msg k = do {
     r \<leftarrow> int_panic call p frame msg k;
     case r of Return k \<Rightarrow> Some (Spin k) | Spin k \<Rightarrow> Some (Spin k)
   }"

text \<open>\<^verbatim>\<open>sprintf\<close> into the static buffer of 1024 bytes at \<open>buffer\<close>. A text that does not fit overruns it and has
  no outcome.\<close>

definition assert_fail :: "(code \<Rightarrow> u32 \<Rightarrow> isr_param \<Rightarrow> kernel \<Rightarrow> outcome option) \<Rightarrow> u32 \<Rightarrow> isr_param \<Rightarrow> u32
    \<Rightarrow> u8 list \<Rightarrow> u8 list \<Rightarrow> u32 \<Rightarrow> kernel \<Rightarrow> outcome option" where
  "assert_fail call p frame buffer expr file line k = do {
     out \<leftarrow> sprintf (bytes ''%s (%s:%u)'') [Str_arg expr, Str_arg file, Int_arg line];
     if length out \<le> 1024 then do {
       k \<leftarrow> store_bytes buffer out k;
       panick call p frame buffer k
     } else None
   }"

section \<open>Strings in memory\<close>

lemma string_at_reads:
  assumes "heap_st v n m k" "buffer_in v n a (length (bs @ [0]))" "text_at m a (bs @ [0])" "0 \<notin> set bs"
  shows "string_at a k = Some bs"
  using assms(2-4)
proof (induction bs arbitrary: a)
  case Nil
  then have "vload8 k a = Some 0" using heap_load8 [OF assms(1)] by (simp add: buffer_in_Suc text_at_Cons)
  then show ?case by (simp add: string_at.simps)
next
  case (Cons c bs)
  then have "vload8 k a = Some c" "string_at (a + 1) k = Some bs"
    using heap_load8 [OF assms(1)] by (simp_all add: buffer_in_Suc text_at_Cons)
  then show ?case using Cons.prems(3) by (subst string_at.simps) simp
qed

section \<open>The panic\<close>

definition panic_frame :: "isr_param \<Rightarrow> u32 \<Rightarrow> isr_param" where
  "panic_frame frame msg = frame\<lparr>registers := (registers frame)\<lparr>edi := msg\<rparr>, vector := AWA_SYS_PANIC, err_code := 0\<rparr>"

definition panic_at :: "isr_param \<Rightarrow> u8 list \<Rightarrow> u8 list" where
  "panic_at frame msg = bytes ''  INT '' @ int_text 10 32 @ bytes '': ('' @ int_text 16 0
     @ bytes '') [0x'' @ int_text 16 (cs frame) @ bytes '': 0x'' @ int_text 16 (eip frame) @ bytes ''] '' @ msg"

lemma panick_shows:
  assumes "tty_ok (k_tty k)" "string_at buffer k = Some msg" "0 \<notin> set msg" "length msg \<le> 900"
    "subscribers k 32 = Some Intr_routine_sys_panic"
  obtains t where "panick (call_code timer) p frame buffer k = Some (Spin (k\<lparr>k_tty := t\<rparr>))" "tty_ok t"
    "screen_of t = scr_text (panic_at frame msg) (panic_screen (screen_of (k_tty k)))"
proof -
  let ?param = "panic_frame frame buffer"
  obtain t where t: "print_panic_msg msg ?param k = Some (k\<lparr>k_tty := t\<rparr>)" "tty_ok t"
    "screen_of t = scr_text (panic_text ?param msg) (panic_screen (screen_of (k_tty k)))"
    by (rule print_panic_msg_runs [OF assms(1,3,4), where param = ?param])
  have v: "vector ?param = 32" "edi (registers ?param) = buffer" by (simp_all add: panic_frame_def vectors)
  have "intr_handler (call_code timer) p ?param k = Some (Spin (k\<lparr>k_tty := t\<rparr>))"
    using t(1) assms(2,5) unfolding intr_handler_def v by (simp add: intr_routine_sys_panic_def v)
  then have "panick (call_code timer) p frame buffer k = Some (Spin (k\<lparr>k_tty := t\<rparr>))"
    by (simp add: panick_def int_panic_def panic_frame_def)
  moreover have "panic_text ?param msg = panic_at frame msg"
    by (simp add: panic_text_def panic_at_def panic_frame_def vectors)
  ultimately show ?thesis using that t by simp
qed

text \<open>C32: a failed assertion formats its text into the static buffer, raises the panic interrupt, which reads
  it back from memory, and stops the kernel for good with expression, file and line on the panic screen.\<close>

theorem assert_fail_panics:
  assumes "heap_st v n m k" "buffer_in v n buffer 1024" "tty_ok (k_tty k)" "subscribers k 32 = Some Intr_routine_sys_panic"
    "0 \<notin> set expr" "0 \<notin> set file" "length expr + length file \<le> 880"
  shows "\<exists>k'. assert_fail (call_code timer) p frame buffer expr file line k = Some (Spin k') \<and> tty_ok (k_tty k')
    \<and> screen_of (k_tty k') = scr_text (panic_at frame (expr @ bytes '' ('' @ file @ bytes '':'' @ int_text 10 line @ bytes '')''))
        (panic_screen (screen_of (k_tty k)))"
proof -
  let ?args = "[Str_arg expr, Str_arg file, Int_arg line]" and ?fmt = "bytes ''%s (%s:%u)''"
  let ?msg = "expr @ bytes '' ('' @ file @ bytes '':'' @ int_text 10 line @ bytes '')''"
  have r: "render ?fmt ?args = Some ?msg" using assms(5-7) by (simp add: bytes_def)
  have "sprintf_loop 0 ?fmt ?args [] = Some ([] @ ?msg)" by (rule sprintf_loop_render [OF r]) (simp add: room_def)
  then have s: "sprintf ?fmt ?args = Some (?msg @ [0])" by (simp add: sprintf_def sprintf_internal_def)
  have z: "0 \<notin> set ?msg" using render_chars [OF r] by (simp add: bytes_def)
  have l: "length ?msg \<le> 900" using assms(7) int_text_chars(2) [of 10 line] by (simp add: bytes_def)
  have b: "buffer_in v n buffer (length (?msg @ [0]))" using assms(2) l unfolding buffer_in_def by auto
  from store_bytes_runs [OF assms(1) b] l obtain d m' where
    d: "store_bytes buffer (?msg @ [0]) k = Some (k\<lparr>phys := d\<rparr>)" "heap_st v n m' (k\<lparr>phys := d\<rparr>)" "text_at m' buffer (?msg @ [0])"
    by auto
  obtain t where "panick (call_code timer) p frame buffer (k\<lparr>phys := d\<rparr>) = Some (Spin (k\<lparr>phys := d, k_tty := t\<rparr>))" "tty_ok t"
    "screen_of t = scr_text (panic_at frame ?msg) (panic_screen (screen_of (k_tty k)))"
    using panick_shows [OF _ string_at_reads [OF d(2) b d(3) z] z l, of timer p frame] assms(3,4) by auto
  then show ?thesis using s d(1) l by (simp add: assert_fail_def)
qed


text \<open>The example: the buffer is the heap page at 0x3000 of theory Heap.\<close>

lemma assert_fail_panics_witness:
  "\<exists>k'. assert_fail (call_code idle_timer) 0xC0001000 (fault_param 0) 0x3100 (bytes ''size > 0'') (bytes ''pmm.c'') 7
      (intr_routine_init (kernel_on vh heap_vh)) = Some (Spin k') \<and> tty_ok (k_tty k')
    \<and> screen_of (k_tty k') = scr_text (panic_at (fault_param 0) (bytes ''size > 0'' @ bytes '' ('' @ bytes ''pmm.c'' @ bytes '':''
        @ int_text 10 7 @ bytes '')'')) (panic_screen (screen_of (k_tty (intr_routine_init (kernel_on vh heap_vh)))))"
proof (rule assert_fail_panics)
  show "heap_st 3 2 mem_vh (intr_routine_init (kernel_on vh heap_vh))"
    by (rule heap_st_fields [OF _ _ _ _ _ vh_heap])
      (simp_all add: kernel_on_def vm.defs kernel.defs intr_routine_init_def intr_subscribe_def intr_set_fallback_handler_def)
  show "buffer_in 3 2 0x3100 1024"
  proof (unfold buffer_in_def, intro allI impI)
    fix i :: nat
    assume "i < 1024"
    then have "unat (0x3100 + of_nat i :: u32) = 0x3100 + i"
      using unat_of_nat [of "0x3100 + i", where 'a = 32] by (simp add: take_bit_nat_eq_self)
    moreover have "3 \<le> (0x3100 + i) div 4096" "(0x3100 + i) div 4096 < 5"
      using \<open>i < 1024\<close> by (simp_all only: less_eq_div_iff_mult_less_eq div_less_iff_less_mult zero_less_numeral)
    ultimately show "in_pages 3 2 (0x3100 + of_nat i)" by (simp add: in_pages_def vpn_def)
  qed
qed (simp_all add: init_lookup tty_boot_ok bytes_def)

end
