(* ===== verification/Spec2Isabelle.thy ===== *)
theory Spec2Isabelle
  imports KHeap KInit Boot Isolation Reserved Multiboot Panic Hhk Acpi Interrupts Timer Render Gdt Itoa
begin

text \<open>
  A verification of a small 32-bit x86 kernel (a LunaixOS derivative): its boot code, its memory
  management, its C library, its drivers and its initialisation. Paths are relative to \<^verbatim>\<open>src/\<close>; the
  build modelled is the default one, in which \<^verbatim>\<open>assert\<close> and \<^verbatim>\<open>assert_msg\<close> expand to nothing.

  \<^bold>\<open>The program.\<close> The boot code (\<^verbatim>\<open>arch/x86/hhk.c\<close>) builds the first page tables on bare physical memory and
  copies the boot loader's information. The kernel then runs behind its own page tables:
  \<^verbatim>\<open>kernel/k_init.c\<close> sets up the interrupt table, gives the memory the loader reports to the page
  allocator (\<^verbatim>\<open>kernel/mm/pmm.c\<close>), maps pages with the virtual memory manager (\<^verbatim>\<open>kernel/mm/vmm.c\<close>, which
  takes page tables from the page allocator), starts the heap (\<^verbatim>\<open>kernel/mm/dmm.c\<close> moves its end,
  \<^verbatim>\<open>kernel/mm/kalloc.c\<close> manages its chunks), reads the ACPI tables and programs the interrupt
  controllers, and calibrates and starts the timer (\<^verbatim>\<open>kernel/timer.c\<close>), whose timers are objects of
  the heap linked by \<^verbatim>\<open>awa/ds/llist.h\<close>. Messages go through \<^verbatim>\<open>kernel/kprintf.c\<close>, the formatter and number
  conversion of \<^verbatim>\<open>libs/klibc\<close> to the console (\<^verbatim>\<open>kernel/tty/tty.c\<close>). Interrupts are dispatched by
  \<^verbatim>\<open>kernel/asm/x86/interrupts.c\<close>; \<^verbatim>\<open>kernel/k_main.c\<close> is the main function.

  \<^bold>\<open>Representation.\<close> Machine integers are words of their width (\<open>u8\<close>, \<open>u16\<close>, \<open>u32\<close>, \<open>u64\<close>), so sums and
  products wrap as they do in the program. The state is passed explicitly: the record \<open>pmm\<close> (theory Pmm)
  holds the static variables of the page allocator, \<open>vm\<close> (theory Mmu) extends it with physical memory and
  the page directory register, and \<open>kernel\<close> (theory Kernel) extends that with the variables of the other
  components and the devices. A load or store of kernel code walks the page tables; an access to an
  unmapped page is a page fault, which ends the computation. \<open>None\<close> stands for such a fault, for an
  access outside an array, for a division by zero, for a jump into data and for a loop that does not end
  (\<open>partial_function (option)\<close>); what the program itself answers is a value. A routine that stops the kernel
  returns the outcome \<open>Spin\<close>. Function pointers that the kernel stores are values of the datatype \<open>code\<close>;
  callbacks of timers are a parameter.

  \<^bold>\<open>Theories.\<close>
  \<^item> Prelude, Memory: integer types, rounding macros, byte memory; the collection \<open>unat_word\<close> and the
    interface \<open>word_store\<close> with its interpretations for flat memory and for the heap's pages.
  \<^item> Page: \<^verbatim>\<open>includes/awa/mm/page.h\<close>. Pmm: \<^verbatim>\<open>pmm.c\<close>, with the interface \<open>page_pool\<close> and the histories
    \<open>pool_run\<close>. Mmu: the processor's page walk and the invariant \<open>vm_ok\<close>. Vmm: \<^verbatim>\<open>vmm.c\<close> and its abstraction,
    the page map \<open>pagemap\<close>.
  \<^item> Dmm: \<^verbatim>\<open>dmm.c\<close>. Kalloc: \<^verbatim>\<open>kalloc.c\<close>, the chunk list in memory, the invariant \<open>heap_inv\<close>. Heap: what the heap
    promises, with the interface \<open>block_allocator\<close>.
  \<^item> KString, Itoa, Sprintf, Render: \<^verbatim>\<open>libs/klibc\<close>; Render says what a format of plain conversions means. Tty, Kprintf: the
    console, its abstract screen, and messages.
  \<^item> Ports: \<^verbatim>\<open>hal/io.h\<close>, over a parameter for the devices, and blocks of bytes in memory, with the interface
    \<open>transfer_unit\<close> of an access of one width. Rtc reaches the clock chip through it.
  \<^item> Rtc, Gdt, Apic, Acpi: \<^verbatim>\<open>hal/rtc.c\<close>, the descriptor tables, \<^verbatim>\<open>hal/cpu.c\<close> with \<^verbatim>\<open>hal/apic.c\<close>, and \<^verbatim>\<open>hal/acpi\<close> with
    \<^verbatim>\<open>hal/ioapic.c\<close>.
  \<^item> Kernel, KHeap: the kernel's state, and its heap seen as a store of structures. Llist: \<^verbatim>\<open>llist.h\<close> with the
    interface \<open>struct_heap\<close>, interpreted on the kernel's heap in KHeap.
  \<^item> Interrupts, Panic, Timer: the dispatcher and the handlers, \<^verbatim>\<open>kernel/spike.c\<close>, and \<^verbatim>\<open>timer.c\<close>.
  \<^item> Hhk, KInit: the boot code, and initialisation and main function, which call the models above.
  \<^item> Multiboot: the boot loader's structures as records, with the interface \<open>loader_struct\<close>, and what the boot
    code's copy of them decodes to.
  \<^item> Isolation, Reserved: histories of clients of \<^verbatim>\<open>vmm.c\<close> with the frames they own, and the memory the boot
    loader reports as reserved, which is mapped while the report itself is being read.
  \<^item> Spare, Frame, Boot: when the page search cannot fail, what the memory operations leave alone, and the
    composition of the boot code with the first two phases of the initialisation.

  \<^bold>\<open>What is shown.\<close> Pages: no page is handed out twice in any history; the search returns a free page or
  NULL; marking runs is exact within stated bounds. Mapping: each operation returns and is an update of the
  abstract page map, which agrees with the processor's walk; failing operations undo what they did; in every
  history a page that was handed out is reached through its own address only. Heap: each
  operation keeps the invariant on every path, blocks never overlap, other blocks' contents stay, and release
  undoes allocation. Boot: the tables of the boot code satisfy \<open>vm_ok\<close> and map a kernel image that ends
  within the three tables completely, as intended (the size check of the code lets larger ones pass, which are
  cut); the memory set up from a map of page-aligned available regions below 4 GiB frees usable pages only, and
  with enough of it the initialisation reaches a mapped stack and a well-formed heap; reserved memory is mapped
  to itself, except for regions above 4 GiB and those that touch one page more than their length takes; the
  loader's information decodes as before after it was moved. Timers: a tick and the start of a timer act on the
  linked list as on the abstract list of timers, the tick under conditions on the back links that deleting a
  timer does not keep; the calibration returns exactly when a clock tick came first. Output: printing refines
  an abstract 80 by 25 screen, formatting writes what the format means for numbers in range, numbers read back,
  a block transfer is the sequence of single transfers through its port. Interrupts: exceptions and failed
  assertions stop the kernel with their text on the screen. Properties of kind error state, for all inputs in
  their hypotheses, what the code does where it does not do what it means to: each is a defect of the code,
  named in the findings of the manifest.

  \<^bold>\<open>Bounds and termination.\<close> Loops with a count recurse on it. The page search, the chunk search and the
  scans of strings have no such count: they are \<open>partial_function\<close>s, and the theorems state that they return.
  Polling loops consume the device's behaviour, which is a parameter: a stream of clock values, a list of
  interrupts. The bitmap has the program's size (\<open>in_bitmap\<close>); the page directory's last entry is the recursive
  mapping, so statements about addresses stop below \<open>0xFFC00000\<close>.

  \<^bold>\<open>Not modelled.\<close> The assembly files; the translation lookaside buffer, apart from a log of the invalidated addresses; \<^verbatim>\<open>hal/ahci.h\<close>,
  which declares constants no code uses. The console's bytes are kept apart from main memory, so a stray store cannot change the screen in
  the model. The contents of stack frames are not modelled; a buffer that is overrun has no outcome. Timers
  started or removed by a callback are outside the theorems on \<^verbatim>\<open>timer_update\<close>, and no theorem covers the
  whole of \<^verbatim>\<open>_kernel_post_init\<close> and \<^verbatim>\<open>_kernel_main\<close>, which are definitions that compose the parts.
\<close>

end
